(* ===== verification/Kernel_Prelude.thy ===== *)
theory Kernel_Prelude
  imports Main "HOL-Library.Word"
begin

text \<open>
  Shared vocabulary of the development: the machine types of the i386 C code, the
  byte-addressed memory with its little-endian word accesses, wrap-around of the signed
  32-bit \<open>int\<close>, and the error values an operation of the model can return where the
  C code would run into undefined behaviour or never return.
\<close>

unbundle bit_operations_syntax

named_theorems mem_simps \<open>reading a memory after a write\<close>
named_theorems kdefs \<open>definitions of small kernel helpers that proofs unfold\<close>

section \<open>Machine types\<close>

type_synonym byte = "8 word"
type_synonym u16 = "16 word"
type_synonym u32 = "32 word"
type_synonym addr = "32 word"
type_synonym mem = "addr \<Rightarrow> byte"

text \<open>
  A C \<open>int\<close> is a HOL integer; every arithmetic result that the code stores in an
  \<open>int\<close> is wrapped to 32 bits two's complement, which is what the compiled code does.
\<close>

definition i32 :: "int \<Rightarrow> int" where
  "i32 x = signed_take_bit 31 x"

lemma i32_id: "- (2 ^ 31) \<le> x \<Longrightarrow> x < 2 ^ 31 \<Longrightarrow> i32 x = x"
  by (simp add: i32_def signed_take_bit_int_eq_self)

lemma i32_range: "- (2 ^ 31) \<le> i32 x \<and> i32 x < 2 ^ 31"
  using signed_take_bit_int_greater_eq_minus_exp [of 31 x] signed_take_bit_int_less_exp [of 31 x]
  by (simp add: i32_def)

lemma i32_idem [simp]: "i32 (i32 x) = i32 x"
  by (simp add: i32_def)

text \<open>C division and remainder truncate towards zero.\<close>

definition c_div :: "int \<Rightarrow> int \<Rightarrow> int" where
  "c_div a b = sgn a * sgn b * (\<bar>a\<bar> div \<bar>b\<bar>)"

definition c_mod :: "int \<Rightarrow> int \<Rightarrow> int" where
  "c_mod a b = a - b * c_div a b"

lemma c_div_nonneg: "0 \<le> a \<Longrightarrow> 0 < b \<Longrightarrow> c_div a b = a div b"
  by (cases "a = 0") (simp_all add: c_div_def)

lemma c_mod_nonneg: "0 \<le> a \<Longrightarrow> 0 < b \<Longrightarrow> c_mod a b = a mod b"
  by (simp add: c_mod_def c_div_nonneg minus_mult_div_eq_mod)

section \<open>Errors\<close>

datatype fault =
    NullDeref      \<comment> \<open>a null pointer is followed\<close>
  | Uninit         \<comment> \<open>an uninitialised local is used\<close>
  | OutOfBounds    \<comment> \<open>an array is indexed outside its bounds\<close>
  | Hang           \<comment> \<open>the code never returns\<close>

type_synonym 'a res = "fault + 'a"

definition bnd :: "'a res \<Rightarrow> ('a \<Rightarrow> 'b res) \<Rightarrow> 'b res" where
  "bnd r f = (case r of Inl e \<Rightarrow> Inl e | Inr x \<Rightarrow> f x)"

lemma bnd_simps [simp]:
  "bnd (Inl e) f = Inl e"
  "bnd (Inr x) f = f x"
  by (simp_all add: bnd_def)

lemma bnd_Inr_iff: "bnd r f = Inr y \<longleftrightarrow> (\<exists>x. r = Inr x \<and> f x = Inr y)"
  by (cases r) auto

lemma bnd_Inl_iff: "bnd r f = Inl e \<longleftrightarrow> r = Inl e \<or> (\<exists>x. r = Inr x \<and> f x = Inl e)"
  by (cases r) auto

lemma bnd_assoc: "bnd (bnd r f) g = bnd r (\<lambda>x. bnd (f x) g)"
  by (cases r) auto

text \<open>A loop that never ends is the fault \<open>Hang\<close>.\<close>

definition ret :: "'b option \<Rightarrow> 'b res" where
  "ret r = (case r of None \<Rightarrow> Inl Hang | Some x \<Rightarrow> Inr x)"

text \<open>A C \<open>for\<close> loop over the given indices whose body may fault.\<close>

fun for_res :: "('i \<Rightarrow> 's \<Rightarrow> 's res) \<Rightarrow> 'i list \<Rightarrow> 's \<Rightarrow> 's res" where
  "for_res f [] s = Inr s"
| "for_res f (i # is) s = bnd (f i s) (for_res f is)"

text \<open>An invariant over the processed prefix of the indices carries through the loop.\<close>

lemma for_res_invariant:
  assumes "I [] s"
    and "\<And>ps i qs t. is = ps @ i # qs \<Longrightarrow> I ps t \<Longrightarrow> \<exists>t'. f i t = Inr t' \<and> I (ps @ [i]) t'"
  shows "\<exists>t. for_res f is s = Inr t \<and> I is t"
proof -
  have "ds @ rs = is \<Longrightarrow> I ds t \<Longrightarrow> \<exists>u. for_res f rs t = Inr u \<and> I is u" for ds rs t
  proof (induction rs arbitrary: ds t)
    case (Cons i rs)
    then obtain t' where "f i t = Inr t'" "I (ds @ [i]) t'" using assms(2) [of ds i rs t] by auto
    then show ?case using Cons.IH [of "ds @ [i]" t'] Cons.prems(1) by simp
  qed simp
  from this [of "[]" "is" s] show ?thesis using assms(1) by simp
qed

lemma for_upt_invariant:
  assumes "I 0 s" and "\<And>i t. i < n \<Longrightarrow> I i t \<Longrightarrow> \<exists>t'. f i t = Inr t' \<and> I (Suc i) t'"
  shows "\<exists>t. for_res f [0..<n] s = Inr t \<and> I n t"
proof -
  have "\<exists>t. for_res f [0..<n] s = Inr t \<and> I (length [0..<n]) t"
  proof (rule for_res_invariant [where I = "\<lambda>ps. I (length ps)"])
    fix ps i qs t
    assume eq: "[0..<n] = ps @ i # qs" and inv: "I (length ps) t"
    have "length ps < n" using arg_cong [OF eq, of length] by simp
    moreover have "i = length ps"
      using arg_cong [OF eq, of "\<lambda>xs. xs ! length ps"] calculation by simp
    ultimately show "\<exists>t'. f i t = Inr t' \<and> I (length (ps @ [i])) t'" using assms(2) inv by simp
  qed (use assms(1) in simp)
  then show ?thesis by simp
qed

section \<open>Memory\<close>

definition load32 :: "mem \<Rightarrow> addr \<Rightarrow> u32" where
  "load32 m a = ucast (m a) OR push_bit 8 (ucast (m (a + 1)))
     OR push_bit 16 (ucast (m (a + 2))) OR push_bit 24 (ucast (m (a + 3)))"

definition store32 :: "mem \<Rightarrow> addr \<Rightarrow> u32 \<Rightarrow> mem" where
  "store32 m a v = m(a := ucast v, a + 1 := ucast (drop_bit 8 v),
     a + 2 := ucast (drop_bit 16 v), a + 3 := ucast (drop_bit 24 v))"

lemma store32_bytes:
  "store32 m a v a = ucast v"
  "store32 m a v (a + 1) = ucast (drop_bit 8 v)"
  "store32 m a v (a + 2) = ucast (drop_bit 16 v)"
  "store32 m a v (a + 3) = ucast (drop_bit 24 v)"
  by (simp_all add: store32_def)

lemma word32_of_bytes:
  fixes v :: u32
  shows "ucast (ucast v :: byte) OR push_bit 8 (ucast (ucast (drop_bit 8 v) :: byte))
     OR push_bit 16 (ucast (ucast (drop_bit 16 v) :: byte))
     OR push_bit 24 (ucast (ucast (drop_bit 24 v) :: byte)) = v"
proof (rule bit_word_eqI)
  fix n
  assume "n < LENGTH(32)"
  then have "n < 8 \<or> 8 \<le> n \<and> n < 16 \<or> 16 \<le> n \<and> n < 24 \<or> 24 \<le> n \<and> n < 32"
    by auto
  then show "bit (ucast (ucast v :: byte) OR push_bit 8 (ucast (ucast (drop_bit 8 v) :: byte))
     OR push_bit 16 (ucast (ucast (drop_bit 16 v) :: byte))
     OR push_bit 24 (ucast (ucast (drop_bit 24 v) :: byte)) :: u32) n = bit v n"
    by (elim disjE) (auto simp: bit_simps)
qed

lemma bytes_of_load32:
  "ucast (load32 m a) = m a"
  "ucast (drop_bit 8 (load32 m a)) = m (a + 1)"
  "ucast (drop_bit 16 (load32 m a)) = m (a + 2)"
  "ucast (drop_bit 24 (load32 m a)) = m (a + 3)"
  by (rule bit_word_eqI; auto simp: load32_def bit_simps dest: bit_imp_le_length)+

lemma load32_store32 [simp, mem_simps]: "load32 (store32 m a v) a = v"
  unfolding load32_def store32_bytes by (rule word32_of_bytes)

text \<open>
  A region is a start address and a length; \<open>x\<close> lies in it when its distance from the
  start is below the length. Measuring the distance modulo \<open>2 ^ 32\<close> needs no side condition
  on regions that wrap around the end of the address space.
\<close>

definition in_region :: "addr \<Rightarrow> nat \<Rightarrow> addr \<Rightarrow> bool" where
  "in_region a n x \<longleftrightarrow> unat (x - a) < n"

definition disj_regions :: "addr \<Rightarrow> nat \<Rightarrow> addr \<Rightarrow> nat \<Rightarrow> bool" where
  "disj_regions a n b k \<longleftrightarrow> n \<le> unat (b - a) \<and> k \<le> unat (a - b) \<or> n = 0 \<or> k = 0"

lemma unat_of_nat_u32 [simp]: "k < 2 ^ 32 \<Longrightarrow> unat (of_nat k :: u32) = k"
  by (simp add: unat_of_nat take_bit_nat_eq_self)

lemma unat_lt_u32: "unat (x :: u32) < 2 ^ 32"
  using unsigned_less [of x] by simp

lemma sint_u32: "unat (w :: u32) < 2 ^ 31 \<Longrightarrow> sint w = int (unat w)"
proof -
  assume w: "unat w < 2 ^ 31"
  have "int (unat w) < int (2 ^ 31)" using w by (simp only: of_nat_less_iff)
  also have "int (2 ^ 31) = 2 ^ 31" by (rule of_nat_power [of 2 31, simplified of_nat_numeral])
  finally have "uint w < 2 ^ 31" by simp
  moreover have "- (2 ^ 31) \<le> uint w" by (rule order_trans [OF _ uint_ge_0]) simp
  ultimately have "signed_take_bit 31 (uint w) = uint w" by (intro signed_take_bit_int_eq_self)
  then have "sint w = uint w" by (simp add: sint_uint)
  then show ?thesis by simp
qed

lemma sint_byte: "unat (w :: byte) < 128 \<Longrightarrow> sint w = int (unat w)"
proof -
  assume w: "unat w < 128"
  have "int (unat w) < int 128" using w by (simp only: of_nat_less_iff)
  then have "uint w < 2 ^ 7" by simp
  moreover have "- (2 ^ 7) \<le> uint w" by (rule order_trans [OF _ uint_ge_0]) simp
  ultimately have "signed_take_bit 7 (uint w) = uint w" by (intro signed_take_bit_int_eq_self)
  then have "sint w = uint w" by (simp add: sint_uint)
  then show ?thesis by simp
qed

lemma take_bit_below: "(x :: u32) < 2 ^ k \<Longrightarrow> take_bit k x = x"
  by (simp add: take_bit_eq_mod mod_word_less)

lemma high_bit_below: "(x :: u32) < 2 ^ k \<Longrightarrow> k \<le> n \<Longrightarrow> \<not> bit x n"
  by (metis bit_take_bit_iff not_less take_bit_below)

lemma unat_succ_u32: "(s :: u32) < e \<Longrightarrow> unat (s + 1) = Suc (unat s)"
proof -
  assume "s < e"
  moreover have "unat e < 2 ^ 32" by (rule unat_lt_u32)
  ultimately show ?thesis by (simp add: word_less_nat_alt unat_word_ariths)
qed

lemma in_region_offset: "k < n \<Longrightarrow> n \<le> 2 ^ 32 \<Longrightarrow> in_region a n (a + of_nat k)"
  by (simp add: in_region_def)

lemma in_region_iff: "in_region a n x \<longleftrightarrow> (\<exists>k < n. k < 2 ^ 32 \<and> x = a + of_nat k)"
proof
  assume "in_region a n x"
  then have "unat (x - a) < n" by (simp add: in_region_def)
  moreover have "x = a + of_nat (unat (x - a))" by simp
  moreover have "unat (x - a) < 2 ^ 32" by (rule unat_lt_u32)
  ultimately show "\<exists>k < n. k < 2 ^ 32 \<and> x = a + of_nat k" by blast
next
  assume "\<exists>k < n. k < 2 ^ 32 \<and> x = a + of_nat k"
  then show "in_region a n x" by (auto simp: in_region_def)
qed

lemma disj_regions_sym: "disj_regions a n b k \<longleftrightarrow> disj_regions b k a n"
  by (auto simp: disj_regions_def)

lemma disj_regionsD:
  assumes "disj_regions a n b k" and "in_region a n x"
  shows "\<not> in_region b k x"
proof
  assume "in_region b k x"
  then have k: "unat (x - b) < k" by (simp add: in_region_def)
  from assms(2) have n: "unat (x - a) < n" by (simp add: in_region_def)
  from n k assms(1) have d: "n \<le> unat (b - a)" "k \<le> unat (a - b)"
    by (auto simp: disj_regions_def)
  show False
  proof (cases "x - a \<le> x - b")
    case True
    then have "unat ((x - b) - (x - a)) = unat (x - b) - unat (x - a)"
      by (rule unat_sub)
    moreover have "(x - b) - (x - a) = a - b" by simp
    ultimately show False using d(2) k by simp
  next
    case False
    then have "x - b \<le> x - a" by simp
    then have "unat ((x - a) - (x - b)) = unat (x - a) - unat (x - b)"
      by (rule unat_sub)
    moreover have "(x - a) - (x - b) = b - a" by simp
    ultimately show False using d(1) n by simp
  qed
qed

lemma disj_regionsI: "(\<And>x. in_region a n x \<Longrightarrow> in_region b k x \<Longrightarrow> False) \<Longrightarrow> disj_regions a n b k"
proof (rule ccontr)
  assume no: "\<And>x. in_region a n x \<Longrightarrow> in_region b k x \<Longrightarrow> False" and "\<not> disj_regions a n b k"
  then have "0 < n" "0 < k" "unat (b - a) < n \<or> unat (a - b) < k" by (auto simp: disj_regions_def)
  then show False using no [of b] no [of a] by (auto simp: in_region_def)
qed

lemma in_region_sub: "in_region (a + of_nat i) l x \<Longrightarrow> i + l \<le> n \<Longrightarrow> n \<le> 2 ^ 32 \<Longrightarrow> in_region a n x"
proof -
  assume x: "in_region (a + of_nat i) l x" and l: "i + l \<le> n" "n \<le> 2 ^ 32"
  then obtain k where k: "k < l" "x = a + of_nat i + of_nat k" unfolding in_region_iff by blast
  then have "x = a + of_nat (i + k)" by simp
  then show ?thesis using k(1) l by (simp only: in_region_offset)
qed

lemma disj_regions_sub:
  assumes "disj_regions a n b k" and "i + l \<le> n" and "n \<le> 2 ^ 32"
  shows "disj_regions (a + of_nat i) l b k"
  using disj_regionsD [OF assms(1)] in_region_sub [OF _ assms(2,3)] by (intro disj_regionsI) blast

lemma store32_other: "\<not> in_region a 4 x \<Longrightarrow> store32 m a v x = m x"
  by (auto simp: store32_def in_region_def)

lemma load32_cong:
  "(\<And>x. in_region a 4 x \<Longrightarrow> m x = m' x) \<Longrightarrow> load32 m a = load32 m' a"
  by (simp add: load32_def in_region_def)

lemma load32_store32_other [mem_simps]:
  assumes "disj_regions a 4 b 4"
  shows "load32 (store32 m a v) b = load32 m b"
proof (rule load32_cong)
  fix x
  assume "in_region b 4 x"
  then have "\<not> in_region a 4 x" using assms disj_regionsD disj_regions_sym by blast
  then show "store32 m a v x = m x" by (rule store32_other)
qed

text \<open>Byte ranges.\<close>

definition read_bytes :: "mem \<Rightarrow> addr \<Rightarrow> nat \<Rightarrow> byte list" where
  "read_bytes m a n = map (\<lambda>k. m (a + of_nat k)) [0..<n]"

definition write_bytes :: "mem \<Rightarrow> addr \<Rightarrow> byte list \<Rightarrow> mem" where
  "write_bytes m a bs = (\<lambda>x. if unat (x - a) < length bs then bs ! unat (x - a) else m x)"

lemma length_read_bytes [simp]: "length (read_bytes m a n) = n"
  by (simp add: read_bytes_def)

lemma nth_read_bytes [simp]: "k < n \<Longrightarrow> read_bytes m a n ! k = m (a + of_nat k)"
  by (simp add: read_bytes_def)

lemma read_write_bytes [mem_simps]:
  "length bs \<le> 2 ^ 32 \<Longrightarrow> read_bytes (write_bytes m a bs) a (length bs) = bs"
  by (rule nth_equalityI) (simp_all add: write_bytes_def)

lemma write_bytes_other: "\<not> in_region a (length bs) x \<Longrightarrow> write_bytes m a bs x = m x"
  by (simp add: write_bytes_def in_region_def)

lemma read_bytes_cong:
  "n \<le> 2 ^ 32 \<Longrightarrow> (\<And>x. in_region a n x \<Longrightarrow> m x = m' x) \<Longrightarrow> read_bytes m a n = read_bytes m' a n"
  by (auto simp: read_bytes_def in_region_offset)

lemma read_write_bytes_other [mem_simps]:
  assumes "n \<le> 2 ^ 32" and "disj_regions a (length bs) b n"
  shows "read_bytes (write_bytes m a bs) b n = read_bytes m b n"
proof (rule read_bytes_cong [OF assms(1)])
  fix x
  assume "in_region b n x"
  then have "\<not> in_region a (length bs) x" using assms(2) disj_regionsD disj_regions_sym by blast
  then show "write_bytes m a bs x = m x" by (rule write_bytes_other)
qed

end
