(* ===== verification/Lib_String.thy ===== *)
theory Lib_String
  imports Kernel_Prelude
begin

text \<open>
  The string and memory routines of \<open>lib/string.c\<close>, which kernel, boot tools and game
  share. Pointers are addresses of a byte memory. A scan for a terminating NUL byte may never
  find one; those loops are \<open>partial_function (option)\<close>, with \<open>None\<close> for a call that
  does not return. The string instructions (\<open>rep stosb\<close>, \<open>rep movsl\<close> and their kin)
  that \<open>memset\<close> and \<open>memmove\<close> use are recursive functions on the count register.
\<close>

section \<open>Loops that scan for the terminator\<close>

text \<open>\<open>strlen\<close>\<close>

partial_function (option) strlen_loop :: "mem \<Rightarrow> addr \<Rightarrow> int \<Rightarrow> int option" where
  "strlen_loop m s n = (if m s \<noteq> 0 then strlen_loop m (s + 1) (i32 (n + 1)) else Some n)"

definition strlen :: "mem \<Rightarrow> addr \<Rightarrow> int option" where
  "strlen m s = strlen_loop m s 0"

primrec strnlen_loop :: "mem \<Rightarrow> addr \<Rightarrow> nat \<Rightarrow> int \<Rightarrow> int" where
  "strnlen_loop m s 0 n = n"
| "strnlen_loop m s (Suc sz) n =
     (if m s \<noteq> 0 then strnlen_loop m (s + 1) sz (i32 (n + 1)) else n)"

definition strnlen :: "mem \<Rightarrow> addr \<Rightarrow> u32 \<Rightarrow> int" where
  "strnlen m s sz = strnlen_loop m s (unat sz) 0"

text \<open>\<open>strcpy\<close> copies up to and including the NUL; the copied byte is tested after the store.\<close>

partial_function (option) strcpy :: "mem \<Rightarrow> addr \<Rightarrow> addr \<Rightarrow> mem option" where
  "strcpy m dst src =
     (let m' = m(dst := m src)
      in if m src \<noteq> 0 then strcpy m' (dst + 1) (src + 1) else Some m')"

definition strcat :: "mem \<Rightarrow> addr \<Rightarrow> addr \<Rightarrow> mem option" where
  "strcat m dst src =
     (case strlen m dst of None \<Rightarrow> None | Some len \<Rightarrow> strcpy m (dst + of_int len) src)"

primrec strncpy_loop :: "mem \<Rightarrow> addr \<Rightarrow> addr \<Rightarrow> nat \<Rightarrow> mem" where
  "strncpy_loop m dst src 0 = m"
| "strncpy_loop m dst src (Suc n) =
     (let m' = m(dst := m src)
      in strncpy_loop m' (dst + 1) (if m' src \<noteq> 0 then src + 1 else src) n)"

definition strncpy :: "mem \<Rightarrow> addr \<Rightarrow> addr \<Rightarrow> u32 \<Rightarrow> mem" where
  "strncpy m dst src sz = strncpy_loop m dst src (unat sz)"

primrec strlcpy_loop :: "mem \<Rightarrow> addr \<Rightarrow> addr \<Rightarrow> nat \<Rightarrow> mem \<times> addr" where
  "strlcpy_loop m dst src 0 = (m, dst)"
| "strlcpy_loop m dst src (Suc n) =
     (if m src \<noteq> 0 then strlcpy_loop (m(dst := m src)) (dst + 1) (src + 1) n else (m, dst))"

definition strlcpy :: "mem \<Rightarrow> addr \<Rightarrow> addr \<Rightarrow> u32 \<Rightarrow> mem \<times> u32" where
  "strlcpy m dst src sz =
     (if sz > 0
      then let (m', d) = strlcpy_loop m dst src (unat sz - 1) in (m'(d := 0), d - dst)
      else (m, 0))"

partial_function (option) strcmp :: "mem \<Rightarrow> addr \<Rightarrow> addr \<Rightarrow> int option" where
  "strcmp m p q =
     (if m p \<noteq> 0 \<and> m p = m q then strcmp m (p + 1) (q + 1)
      else Some (uint (m p) - uint (m q)))"

primrec strncmp_loop :: "mem \<Rightarrow> addr \<Rightarrow> addr \<Rightarrow> nat \<Rightarrow> int" where
  "strncmp_loop m p q 0 = 0"
| "strncmp_loop m p q (Suc n) =
     (if m p \<noteq> 0 \<and> m p = m q then strncmp_loop m (p + 1) (q + 1) n
      else uint (m p) - uint (m q))"

definition strncmp :: "mem \<Rightarrow> addr \<Rightarrow> addr \<Rightarrow> u32 \<Rightarrow> int" where
  "strncmp m p q n = strncmp_loop m p q (unat n)"

text \<open>\<open>strchr\<close> returns a null pointer when the character does not occur.\<close>

partial_function (option) strchr :: "mem \<Rightarrow> addr \<Rightarrow> byte \<Rightarrow> addr option" where
  "strchr m s c =
     (if m s \<noteq> 0 then (if m s = c then Some s else strchr m (s + 1) c) else Some 0)"

partial_function (option) strfind :: "mem \<Rightarrow> addr \<Rightarrow> byte \<Rightarrow> addr option" where
  "strfind m s c =
     (if m s \<noteq> 0 then (if m s = c then Some s else strfind m (s + 1) c) else Some s)"

section \<open>Memory blocks\<close>

primrec rep_stosb :: "mem \<Rightarrow> addr \<Rightarrow> u32 \<Rightarrow> nat \<Rightarrow> mem" where
  "rep_stosb m d c 0 = m"
| "rep_stosb m d c (Suc n) = rep_stosb (m(d := ucast c)) (d + 1) c n"

primrec rep_stosl :: "mem \<Rightarrow> addr \<Rightarrow> u32 \<Rightarrow> nat \<Rightarrow> mem" where
  "rep_stosl m d c 0 = m"
| "rep_stosl m d c (Suc n) = rep_stosl (store32 m d c) (d + 4) c n"

definition memset :: "mem \<Rightarrow> addr \<Rightarrow> u32 \<Rightarrow> u32 \<Rightarrow> mem" where
  "memset m v c n =
     (if n = 0 then m
      else if v mod 4 = 0 \<and> n mod 4 = 0
      then let c1 = c AND 0xFF;
               c2 = push_bit 24 c1 OR push_bit 16 c1 OR push_bit 8 c1 OR c1
           in rep_stosl m v c2 (unat (n div 4))
      else rep_stosb m v c (unat n))"

primrec rep_movsb :: "mem \<Rightarrow> addr \<Rightarrow> addr \<Rightarrow> nat \<Rightarrow> mem" where
  "rep_movsb m d s 0 = m"
| "rep_movsb m d s (Suc n) = rep_movsb (m(d := m s)) (d + 1) (s + 1) n"

primrec rep_movsl :: "mem \<Rightarrow> addr \<Rightarrow> addr \<Rightarrow> nat \<Rightarrow> mem" where
  "rep_movsl m d s 0 = m"
| "rep_movsl m d s (Suc n) = rep_movsl (store32 m d (load32 m s)) (d + 4) (s + 4) n"

text \<open>The same instructions with the direction flag set (\<open>std\<close>).\<close>

primrec rep_movsb_down :: "mem \<Rightarrow> addr \<Rightarrow> addr \<Rightarrow> nat \<Rightarrow> mem" where
  "rep_movsb_down m d s 0 = m"
| "rep_movsb_down m d s (Suc n) = rep_movsb_down (m(d := m s)) (d - 1) (s - 1) n"

primrec rep_movsl_down :: "mem \<Rightarrow> addr \<Rightarrow> addr \<Rightarrow> nat \<Rightarrow> mem" where
  "rep_movsl_down m d s 0 = m"
| "rep_movsl_down m d s (Suc n) = rep_movsl_down (store32 m d (load32 m s)) (d - 4) (s - 4) n"

definition memmove :: "mem \<Rightarrow> addr \<Rightarrow> addr \<Rightarrow> u32 \<Rightarrow> mem" where
  "memmove m dst src n =
     (if src < dst \<and> src + n > dst
      then let s = src + n; d = dst + n
           in if s mod 4 = 0 \<and> d mod 4 = 0 \<and> n mod 4 = 0
              then rep_movsl_down m (d - 4) (s - 4) (unat (n div 4))
              else rep_movsb_down m (d - 1) (s - 1) (unat n)
      else if src mod 4 = 0 \<and> dst mod 4 = 0 \<and> n mod 4 = 0
           then rep_movsl m dst src (unat (n div 4))
           else rep_movsb m dst src (unat n))"

definition memcpy :: "mem \<Rightarrow> addr \<Rightarrow> addr \<Rightarrow> u32 \<Rightarrow> mem" where
  "memcpy m dst src n = memmove m dst src n"

primrec memcmp_loop :: "mem \<Rightarrow> addr \<Rightarrow> addr \<Rightarrow> nat \<Rightarrow> int" where
  "memcmp_loop m s1 s2 0 = 0"
| "memcmp_loop m s1 s2 (Suc n) =
     (if m s1 \<noteq> m s2 then uint (m s1) - uint (m s2) else memcmp_loop m (s1 + 1) (s2 + 1) n)"

definition memcmp :: "mem \<Rightarrow> addr \<Rightarrow> addr \<Rightarrow> u32 \<Rightarrow> int" where
  "memcmp m v1 v2 n = memcmp_loop m v1 v2 (unat n)"

function memfind_loop :: "mem \<Rightarrow> addr \<Rightarrow> addr \<Rightarrow> byte \<Rightarrow> addr" where
  "memfind_loop m s ends c =
     (if s < ends then (if m s = c then s else memfind_loop m (s + 1) ends c) else s)"
  by pat_completeness auto
termination
proof (relation "measure (\<lambda>(m, s, ends, c). unat ends - unat s)")
  show "wf (measure (\<lambda>(m :: mem, s :: addr, ends :: addr, c :: byte). unat ends - unat s))"
    by simp
next
  fix m :: mem and s ends :: addr and c :: byte
  assume "s < ends"
  then have "unat (s + 1) = Suc (unat s)" by (rule unat_succ_u32)
  with \<open>s < ends\<close> show "((m, s + 1, ends, c), m, s, ends, c) \<in>
      measure (\<lambda>(m, s, ends, c). unat ends - unat s)"
    by (simp add: word_less_nat_alt)
qed

declare memfind_loop.simps [simp del]

definition memfind :: "mem \<Rightarrow> addr \<Rightarrow> u32 \<Rightarrow> u32 \<Rightarrow> addr" where
  "memfind m s c n = memfind_loop m s (s + n) (ucast c)"

section \<open>Numbers\<close>

text \<open>
  \<open>itoa\<close> fills a static buffer of 30 bytes from its end; the caller's address of that
  buffer is the argument \<open>buf\<close>. The character of a digit is \<open>'0' + a % 10\<close> with C's
  remainder, so that a negative argument yields characters below \<open>'0'\<close>.
\<close>

function itoa_loop :: "mem \<Rightarrow> addr \<Rightarrow> int \<Rightarrow> mem \<times> addr" where
  "itoa_loop m p a =
     (let p' = p - 1;
          m' = m(p' := of_int (48 + c_mod a 10));
          a' = c_div a 10
      in if a' \<noteq> 0 then itoa_loop m' p' a' else (m', p'))"
  by pat_completeness auto
termination
proof (relation "measure (\<lambda>(m, p, a). nat \<bar>a\<bar>)")
  fix m :: mem and p p' :: addr and a a' :: int and m' :: mem
  assume "a' = c_div a 10" and "a' \<noteq> 0"
  then show "((m', p', a'), m, p, a) \<in> measure (\<lambda>(m, p, a). nat \<bar>a\<bar>)"
    by (simp add: c_div_def abs_mult sgn_if split: if_splits)
qed simp

declare itoa_loop.simps [simp del]

definition itoa :: "mem \<Rightarrow> addr \<Rightarrow> int \<Rightarrow> mem \<times> addr" where
  "itoa m buf a = itoa_loop m (buf + 30 - 1) a"

text \<open>\<open>strtol\<close>: white space, sign, base prefix, digits.\<close>

partial_function (option) skip_blanks :: "mem \<Rightarrow> addr \<Rightarrow> addr option" where
  "skip_blanks m s = (if m s = 0x20 \<or> m s = 0x09 then skip_blanks m (s + 1) else Some s)"

definition digit_of :: "byte \<Rightarrow> int option" where
  "digit_of b =
     (let c = sint b
      in if 48 \<le> c \<and> c \<le> 57 then Some (c - 48)
         else if 97 \<le> c \<and> c \<le> 122 then Some (c - 97 + 10)
         else if 65 \<le> c \<and> c \<le> 90 then Some (c - 65 + 10)
         else None)"

partial_function (option) strtol_digits :: "mem \<Rightarrow> addr \<Rightarrow> int \<Rightarrow> int \<Rightarrow> (int \<times> addr) option" where
  "strtol_digits m s base val =
     (case digit_of (m s) of
        None \<Rightarrow> Some (val, s)
      | Some dig \<Rightarrow>
          if dig \<ge> base then Some (val, s)
          else strtol_digits m (s + 1) base (i32 (val * base + dig)))"

definition strtol_sign :: "mem \<Rightarrow> addr \<Rightarrow> addr \<times> bool" where
  "strtol_sign m s =
     (if m s = 0x2B then (s + 1, False) else if m s = 0x2D then (s + 1, True) else (s, False))"

definition strtol_prefix :: "mem \<Rightarrow> addr \<Rightarrow> int \<Rightarrow> addr \<times> int" where
  "strtol_prefix m s base =
     (if (base = 0 \<or> base = 16) \<and> m s = 0x30 \<and> m (s + 1) = 0x78 then (s + 2, 16)
      else if base = 0 \<and> m s = 0x30 then (s + 1, 8)
      else if base = 0 then (s, 10)
      else (s, base))"

text \<open>The result is the value and the address stored through \<open>endptr\<close>.\<close>

definition strtol :: "mem \<Rightarrow> addr \<Rightarrow> int \<Rightarrow> (int \<times> addr) option" where
  "strtol m s base =
     (case skip_blanks m s of
        None \<Rightarrow> None
      | Some s1 \<Rightarrow>
          let (s2, neg) = strtol_sign m s1;
              (s3, b) = strtol_prefix m s2 base
          in case strtol_digits m s3 b 0 of
               None \<Rightarrow> None
             | Some (val, e) \<Rightarrow> Some (if neg then i32 (- val) else val, e))"

section \<open>Strings in memory\<close>

text \<open>\<open>cstr m s xs\<close>: the NUL-terminated string at \<open>s\<close> is \<open>xs\<close>.\<close>

fun cstr :: "mem \<Rightarrow> addr \<Rightarrow> byte list \<Rightarrow> bool" where
  "cstr m s [] \<longleftrightarrow> m s = 0"
| "cstr m s (x # xs) \<longleftrightarrow> m s = x \<and> x \<noteq> 0 \<and> cstr m (s + 1) xs"

section \<open>Block moves\<close>

text \<open>The effect every variant of a block move has to have: \<open>dst\<close> receives the old source.\<close>

definition moved :: "mem \<Rightarrow> addr \<Rightarrow> addr \<Rightarrow> nat \<Rightarrow> mem" where
  "moved m d s n = (\<lambda>x. if unat (x - d) < n then m (s + (x - d)) else m x)"

lemma unat_minus_succ:
  fixes x d :: u32
  assumes "x \<noteq> d"
  shows "unat (x - d) = Suc (unat (x - (d + 1)))"
proof -
  have "x - d \<noteq> 0" using assms by simp
  then have "unat (x - d - 1) = unat (x - d) - 1" by (rule unat_minus_one)
  moreover have "unat (x - d) \<noteq> 0" using \<open>x - d \<noteq> 0\<close> by (simp add: unat_eq_0)
  moreover have "x - (d + 1) = x - d - 1" by simp
  ultimately show ?thesis by (metis Suc_diff_1 neq0_conv)
qed

lemma rep_stosb_eq:
  "n \<le> 2 ^ 32 \<Longrightarrow> rep_stosb m d c n = (\<lambda>x. if unat (x - d) < n then ucast c else m x)"
proof (induction n arbitrary: m d)
  case (Suc n)
  then have IH: "rep_stosb (m(d := ucast c)) (d + 1) c n =
      (\<lambda>x. if unat (x - (d + 1)) < n then ucast c else (m(d := ucast c)) x)" by simp
  show ?case
  proof
    fix x
    show "rep_stosb m d c (Suc n) x = (if unat (x - d) < Suc n then ucast c else m x)"
      using IH unat_minus_succ [of x d] by (cases "x = d") (simp_all add: fun_eq_iff)
  qed
qed simp

lemma rep_movsb_eq:
  "n \<le> 2 ^ 32 \<Longrightarrow> d = s \<or> n \<le> unat (d - s) \<Longrightarrow> rep_movsb m d s n = moved m d s n"
proof (induction n arbitrary: m d s)
  case (Suc n)
  have "d + 1 = s + 1 \<or> n \<le> unat ((d + 1) - (s + 1))" using Suc.prems(2) by auto
  with Suc have IH: "rep_movsb (m(d := m s)) (d + 1) (s + 1) n = moved (m(d := m s)) (d + 1) (s + 1) n"
    by simp
  show ?case
  proof
    fix x
    have src: "(m(d := m s)) (s + 1 + (x - (d + 1))) = m (s + (x - d))"
      if "x \<noteq> d" and "unat (x - (d + 1)) < n"
    proof (cases "s + (x - d) = d")
      case True
      then have "x - d = d - s" by (metis add_diff_cancel_left')
      then have "d = s" using Suc.prems(2) that unat_minus_succ [OF that(1)] by auto
      with True that(1) have False by simp
      then show ?thesis ..
    qed (simp add: algebra_simps)
    show "rep_movsb m d s (Suc n) x = moved m d s (Suc n) x"
      using IH src unat_minus_succ [of x d] by (cases "x = d") (simp_all add: moved_def)
  qed
qed (simp add: moved_def)

lemma rep_movsb_down_eq:
  "n \<le> 2 ^ 32 \<Longrightarrow> d = s \<or> n \<le> unat (s - d) \<Longrightarrow>
     rep_movsb_down m (d + of_nat n - 1) (s + of_nat n - 1) n = moved m d s n"
proof (induction n arbitrary: m)
  case (Suc n)
  let ?m = "m(d + of_nat n := m (s + of_nat n))"
  have n: "unat (of_nat n :: u32) = n" using Suc.prems(1) by simp
  from Suc have IH: "rep_movsb_down ?m (d + of_nat n - 1) (s + of_nat n - 1) n = moved ?m d s n"
    by auto
  show ?case
  proof
    fix x
    have src: "?m (s + (x - d)) = m (s + (x - d))" if "unat (x - d) < n"
    proof (cases "s + (x - d) = d + of_nat n")
      case True
      then have eq: "of_nat n - (x - d) = s - d" by (simp add: algebra_simps)
      have "x - d \<le> of_nat n" using that n by (simp add: word_le_nat_alt)
      then have "unat (of_nat n - (x - d)) = n - unat (x - d)" using n by (simp add: unat_sub)
      then have "unat (s - d) = n - unat (x - d)" using eq by simp
      then have "d = s" using Suc.prems(2) by auto
      then have "x - d = of_nat n" using True by simp
      then have False using that n by simp
      then show ?thesis ..
    qed simp
    have last: "x = d + of_nat n" if "unat (x - d) = n"
      using that by auto
    have step: "rep_movsb_down m (d + of_nat (Suc n) - 1) (s + of_nat (Suc n) - 1) (Suc n) =
        moved ?m d s n"
      using IH by simp
    consider "unat (x - d) < n" | "unat (x - d) = n" | "n < unat (x - d)" by linarith
    then show "rep_movsb_down m (d + of_nat (Suc n) - 1) (s + of_nat (Suc n) - 1) (Suc n) x =
        moved m d s (Suc n) x"
    proof cases
      case 1
      then show ?thesis unfolding step using src by (simp add: moved_def)
    next
      case 2
      from last [OF this] n show ?thesis unfolding step by (simp add: moved_def)
    next
      case 3
      then have "x \<noteq> d + of_nat n" using n by auto
      with 3 show ?thesis unfolding step by (simp add: moved_def)
    qed
  qed
qed (simp add: moved_def)

lemma rep_movsb_add:
  "rep_movsb m d s (a + b) = rep_movsb (rep_movsb m d s a) (d + of_nat a) (s + of_nat a) b"
  by (induction a arbitrary: m d s) (simp_all add: add.assoc)

lemma rep_movsb_down_add:
  "rep_movsb_down m d s (a + b) =
     rep_movsb_down (rep_movsb_down m d s a) (d - of_nat a) (s - of_nat a) b"
  by (induction a arbitrary: m d s) (simp_all add: diff_diff_add)

lemma store32_load32_moved: "store32 m d (load32 m s) = moved m d s 4"
proof
  fix x
  consider "x = d" | "x = d + 1" | "x = d + 2" | "x = d + 3" | "\<not> in_region d 4 x"
  proof (cases "in_region d 4 x")
    case True
    then obtain k where "k < 4" and x: "x = d + of_nat k" using in_region_iff [of d 4 x] by blast
    then have "k = 0 \<or> k = 1 \<or> k = 2 \<or> k = 3" by linarith
    with x that show ?thesis by auto
  qed
  then show "store32 m d (load32 m s) x = moved m d s 4 x"
    by cases (simp_all add: store32_bytes bytes_of_load32 moved_def store32_other in_region_def)
qed

lemma rep_movsl_eq:
  "4 * n \<le> 2 ^ 32 \<Longrightarrow> d = s \<or> 4 \<le> unat (d - s) \<Longrightarrow> rep_movsl m d s n = rep_movsb m d s (4 * n)"
proof (induction n arbitrary: m d s)
  case (Suc n)
  have "rep_movsb m d s 4 = store32 m d (load32 m s)"
    using Suc.prems(2) by (simp add: rep_movsb_eq store32_load32_moved)
  moreover have "rep_movsl (store32 m d (load32 m s)) (d + 4) (s + 4) n =
      rep_movsb (store32 m d (load32 m s)) (d + 4) (s + 4) (4 * n)"
    using Suc by auto
  moreover have "4 * Suc n = 4 + 4 * n" by simp
  ultimately show ?case by (simp only: rep_movsl.simps rep_movsb_add) simp
qed simp

lemma rep_movsl_down_eq:
  "4 * n \<le> 2 ^ 32 \<Longrightarrow> d = s \<or> 4 \<le> unat (s - d) \<Longrightarrow>
     rep_movsl_down m d s n = rep_movsb_down m (d + 3) (s + 3) (4 * n)"
proof (induction n arbitrary: m d s)
  case (Suc n)
  have "rep_movsb_down m (d + 3) (s + 3) 4 = store32 m d (load32 m s)"
    using Suc.prems(2) rep_movsb_down_eq [of 4 d s m] by (simp add: store32_load32_moved add.commute)
  moreover have "rep_movsl_down (store32 m d (load32 m s)) (d - 4) (s - 4) n =
      rep_movsb_down (store32 m d (load32 m s)) (d - 4 + 3) (s - 4 + 3) (4 * n)"
    using Suc by auto
  moreover have "4 * Suc n = 4 + 4 * n" by simp
  ultimately show ?case by (simp only: rep_movsl_down.simps rep_movsb_down_add) (simp add: algebra_simps)
qed simp

lemma unat_mod4_div4: "(n :: u32) mod 4 = 0 \<Longrightarrow> 4 * unat (n div 4) = unat n"
proof -
  assume "n mod 4 = 0"
  then have "unat (n mod 4) = 0" by simp
  then have "unat n mod 4 = 0" by (simp add: unat_mod_distrib)
  then show ?thesis by (simp add: unat_div_distrib) presburger
qed

text \<open>
  \<open>memmove\<close> is correct for every pair of regions that do not wrap around the end of the
  address space, overlapping or not, on each of its four branches.
\<close>

lemma memmove_eq:
  assumes "unat src + unat n \<le> 2 ^ 32" and "unat dst + unat n \<le> 2 ^ 32"
  shows "memmove m dst src n = moved m dst src (unat n)"
proof (cases "src < dst \<and> src + n > dst")
  case True
  then have lt: "unat src < unat dst" by (simp add: word_less_nat_alt)
  have "unat (src - dst) = 2 ^ 32 + unat src - unat dst"
    using lt by (simp add: unat_sub_if' )
  with assms(2) lt have far: "unat n \<le> unat (src - dst)" by linarith
  have n: "unat n \<le> 2 ^ 32" using assms(1) by linarith
  have down: "rep_movsb_down m (dst + n - 1) (src + n - 1) (unat n) = moved m dst src (unat n)"
    using rep_movsb_down_eq [OF n, of dst src m] far by simp
  show ?thesis
  proof (cases "(src + n) mod 4 = 0 \<and> (dst + n) mod 4 = 0 \<and> n mod 4 = 0")
    case al: True
    then have n4: "4 * unat (n div 4) = unat n" by (simp add: unat_mod4_div4)
    show ?thesis
    proof (cases "n = 0")
      case True
      then show ?thesis using al by (simp add: memmove_def moved_def)
    next
      case False
      then have "unat n \<noteq> 0" by (simp add: unat_eq_0)
      with n4 have "4 \<le> unat n" by presburger
      with far have "4 \<le> unat ((src + n - 4) - (dst + n - 4))" by simp
      then have "rep_movsl_down m (dst + n - 4) (src + n - 4) (unat (n div 4)) =
          rep_movsb_down m (dst + n - 4 + 3) (src + n - 4 + 3) (unat n)"
        using rep_movsl_down_eq [of "unat (n div 4)" "dst + n - 4" "src + n - 4" m] n n4 by simp
      moreover have "dst + n - 4 + 3 = dst + n - 1" and "src + n - 4 + 3 = src + n - 1" by simp_all
      ultimately show ?thesis using True al down by (simp add: memmove_def)
    qed
  next
    case False
    show ?thesis unfolding memmove_def Let_def if_P [OF True] if_not_P [OF False] by (rule down)
  qed
next
  case nov: False
  have n: "unat n \<le> 2 ^ 32" using assms(1) by linarith
  have ok: "dst = src \<or> unat n \<le> unat (dst - src)"
  proof (cases "src < dst")
    case True
    then have lt: "unat src < unat dst" by (simp add: word_less_nat_alt)
    with assms(2) have "unat (src + n) = unat src + unat n"
      by (simp add: unat_word_ariths)
    with nov True have "unat src + unat n \<le> unat dst"
      by (metis not_less word_less_nat_alt)
    moreover have "unat (dst - src) = unat dst - unat src" using True by (simp add: unat_sub)
    ultimately show ?thesis by linarith
  next
    case False
    then have "dst = src \<or> unat dst < unat src" by (metis linorder_neqE word_less_nat_alt)
    then show ?thesis
    proof
      assume lt: "unat dst < unat src"
      then have "unat (dst - src) = 2 ^ 32 + unat dst - unat src"
        by (simp add: unat_sub_if')
      with assms(1) lt show ?thesis by linarith
    qed simp
  qed
  then have up: "rep_movsb m dst src (unat n) = moved m dst src (unat n)"
    using n by (simp add: rep_movsb_eq)
  show ?thesis
  proof (cases "src mod 4 = 0 \<and> dst mod 4 = 0 \<and> n mod 4 = 0 \<and> n \<noteq> 0")
    case al: True
    then have n4: "4 * unat (n div 4) = unat n" by (simp add: unat_mod4_div4)
    moreover have "unat n \<noteq> 0" using al by (simp add: unat_eq_0)
    ultimately have "4 \<le> unat n" by presburger
    with ok have "dst = src \<or> 4 \<le> unat (dst - src)" by linarith
    then have "rep_movsl m dst src (unat (n div 4)) = rep_movsb m dst src (unat n)"
      using rep_movsl_eq [of "unat (n div 4)" dst src m] n n4 by simp
    then show ?thesis unfolding memmove_def if_not_P [OF nov] using al up by simp
  next
    case False
    show ?thesis
    proof (cases "n = 0")
      case True
      then show ?thesis unfolding memmove_def if_not_P [OF nov] by (simp add: moved_def)
    next
      case nz: False
      with False have no4: "\<not> (src mod 4 = 0 \<and> dst mod 4 = 0 \<and> n mod 4 = 0)" by simp
      show ?thesis unfolding memmove_def if_not_P [OF nov] if_not_P [OF no4] by (rule up)
    qed
  qed
qed

lemma memcpy_eq:
  "unat src + unat n \<le> 2 ^ 32 \<Longrightarrow> unat dst + unat n \<le> 2 ^ 32 \<Longrightarrow>
     memcpy m dst src n = moved m dst src (unat n)"
  by (simp add: memcpy_def memmove_eq)

text \<open>\<open>memset\<close> on both of its branches.\<close>

lemma rep_stosb_add:
  "rep_stosb m d c (a + b) = rep_stosb (rep_stosb m d c a) (d + of_nat a) c b"
  by (induction a arbitrary: m d) (simp_all add: add.assoc)

lemma rep_stosb_4: "rep_stosb m d c 4 =
    m(d := ucast c, d + 1 := ucast c, d + 2 := ucast c, d + 3 := ucast c)"
  by (simp add: eval_nat_numeral add.assoc)

lemma and_FF: "(c :: u32) AND 0xFF = take_bit 8 c"
  by (simp add: take_bit_eq_mask mask_eq_exp_minus_1)

lemma replicated_byte:
  fixes c :: u32
  defines "c2 \<equiv> push_bit 24 (take_bit 8 c) OR push_bit 16 (take_bit 8 c) OR
    push_bit 8 (take_bit 8 c) OR take_bit 8 c"
  shows "(ucast c2 :: byte) = ucast c" and "(ucast (drop_bit 8 c2) :: byte) = ucast c"
    and "(ucast (drop_bit 16 c2) :: byte) = ucast c" and "(ucast (drop_bit 24 c2) :: byte) = ucast c"
  unfolding c2_def by (rule bit_word_eqI; auto simp: bit_simps)+

lemma rep_stosl_eq:
  assumes "(ucast c2 :: byte) = ucast c" and "(ucast (drop_bit 8 c2) :: byte) = ucast c"
    and "(ucast (drop_bit 16 c2) :: byte) = ucast c" and "(ucast (drop_bit 24 c2) :: byte) = ucast c"
  shows "rep_stosl m d c2 n = rep_stosb m d c (4 * n)"
proof (induction n arbitrary: m d)
  case (Suc n)
  have "store32 m d c2 = rep_stosb m d c 4"
    by (simp add: store32_def rep_stosb_4 assms)
  moreover have "4 * Suc n = 4 + 4 * n" by simp
  ultimately show ?case using Suc by (simp only: rep_stosl.simps rep_stosb_add) simp
qed simp

lemma memset_eq:
  "memset m v c n = (\<lambda>x. if unat (x - v) < unat n then ucast c else m x)"
proof (cases "n = 0")
  case False
  have "unat n \<le> 2 ^ 32" using unat_lt_u32 [of n] by simp
  then have bytes: "rep_stosb m v c (unat n) = (\<lambda>x. if unat (x - v) < unat n then ucast c else m x)"
    by (rule rep_stosb_eq)
  show ?thesis
  proof (cases "v mod 4 = 0 \<and> n mod 4 = 0")
    case True
    then have "4 * unat (n div 4) = unat n" by (simp add: unat_mod4_div4)
    with bytes show ?thesis
      unfolding memset_def Let_def if_not_P [OF False] if_P [OF True] and_FF
      by (simp add: rep_stosl_eq [OF replicated_byte])
  next
    case no4: False
    show ?thesis unfolding memset_def if_not_P [OF False] if_not_P [OF no4] by (rule bytes)
  qed
qed (simp add: memset_def)

section \<open>Strings\<close>

lemma cstr_nth:
  "cstr m s xs \<Longrightarrow> k < length xs \<Longrightarrow> m (s + of_nat k) = xs ! k \<and> xs ! k \<noteq> 0"
proof (induction xs arbitrary: s k)
  case (Cons x xs)
  then show ?case
    by (cases k) (use Cons.IH [of "s + 1"] in \<open>auto simp: add.assoc\<close>)
qed simp

lemma cstr_end: "cstr m s xs \<Longrightarrow> m (s + of_nat (length xs)) = 0"
proof (induction xs arbitrary: s)
  case (Cons x xs)
  then show ?case using Cons.IH [of "s + 1"] by (simp add: add.assoc)
qed simp

lemma cstr_unique: "cstr m s xs \<Longrightarrow> cstr m s ys \<Longrightarrow> xs = ys"
proof (induction xs arbitrary: s ys)
  case Nil
  then show ?case by (cases ys) auto
next
  case (Cons x xs)
  then show ?case by (cases ys) auto
qed

lemma cstr_cong:
  "cstr m s xs \<Longrightarrow> (\<And>k. k \<le> length xs \<Longrightarrow> m' (s + of_nat k) = m (s + of_nat k)) \<Longrightarrow> cstr m' s xs"
proof (induction xs arbitrary: s)
  case Nil
  from Nil.prems(2) [of 0] Nil.prems(1) show ?case by simp
next
  case (Cons x xs)
  from Cons.prems(2) [of 0] Cons.prems(1) have "m' s = x" by simp
  moreover have "cstr m' (s + 1) xs"
  proof (rule Cons.IH)
    fix k
    assume "k \<le> length xs"
    then show "m' (s + 1 + of_nat k) = m (s + 1 + of_nat k)"
      using Cons.prems(2) [of "Suc k"] by (simp add: add.assoc)
  qed (use Cons.prems in simp)
  ultimately show ?case using Cons.prems by simp
qed

lemma strlen_loop_cstr:
  "cstr m s xs \<Longrightarrow> 0 \<le> n \<Longrightarrow> n + int (length xs) < 2 ^ 31 \<Longrightarrow>
     strlen_loop m s n = Some (n + int (length xs))"
proof (induction xs arbitrary: s n)
  case Nil
  then show ?case by (simp add: strlen_loop.simps)
next
  case (Cons x xs)
  then have "strlen_loop m s n = strlen_loop m (s + 1) (n + 1)"
    by (subst strlen_loop.simps) (simp add: i32_id)
  also have "\<dots> = Some (n + 1 + int (length xs))" using Cons by simp
  finally show ?case by simp
qed

lemma strlen_cstr: "cstr m s xs \<Longrightarrow> length xs < 2 ^ 31 \<Longrightarrow> strlen m s = Some (int (length xs))"
  by (simp add: strlen_def strlen_loop_cstr)

text \<open>\<open>strcmp\<close> decides equality and the lexicographic order of the bytes.\<close>

fun lex_diff :: "byte list \<Rightarrow> byte list \<Rightarrow> int" where
  "lex_diff [] [] = 0"
| "lex_diff [] (y # ys) = - uint y"
| "lex_diff (x # xs) [] = uint x"
| "lex_diff (x # xs) (y # ys) = (if x = y then lex_diff xs ys else uint x - uint y)"

lemma strcmp_cstr: "cstr m p xs \<Longrightarrow> cstr m q ys \<Longrightarrow> strcmp m p q = Some (lex_diff xs ys)"
  by (induction xs ys arbitrary: p q rule: lex_diff.induct) (subst strcmp.simps; auto)+

lemma lex_diff_0_iff: "0 \<notin> set xs \<Longrightarrow> 0 \<notin> set ys \<Longrightarrow> lex_diff xs ys = 0 \<longleftrightarrow> xs = ys"
  by (induction xs ys rule: lex_diff.induct) (auto simp: uint_0_iff dest: word_uint_eqI)

lemma cstr_nonzero: "cstr m s xs \<Longrightarrow> 0 \<notin> set xs"
  by (induction xs arbitrary: s) auto

lemma strcmp_eq_0_iff:
  "cstr m p xs \<Longrightarrow> cstr m q ys \<Longrightarrow> strcmp m p q = Some 0 \<longleftrightarrow> xs = ys"
  by (simp add: strcmp_cstr lex_diff_0_iff cstr_nonzero)

text \<open>
  \<open>strcpy\<close> and \<open>strncpy\<close> on disjoint strings: the whole memory afterwards. The bytes
  \<open>padded xs n\<close> are the string cut or NUL-padded to \<open>n\<close>.
\<close>

definition padded :: "byte list \<Rightarrow> nat \<Rightarrow> byte list" where
  "padded xs n = take n xs @ replicate (n - length xs) 0"

lemma length_padded [simp]: "length (padded xs n) = n"
  by (simp add: padded_def)

lemma padded_simps [simp]:
  "padded xs 0 = []"
  "padded [] (Suc n) = 0 # padded [] n"
  "padded (x # xs) (Suc n) = x # padded xs n"
  by (simp_all add: padded_def)

lemma write_bytes_Nil [simp]: "write_bytes m a [] = m"
  by (simp add: write_bytes_def)

lemma write_bytes_Cons:
  "length bs < 2 ^ 32 \<Longrightarrow> write_bytes m a (b # bs) = write_bytes (m(a := b)) (a + 1) bs"
proof
  fix x
  assume "length bs < 2 ^ 32"
  show "write_bytes m a (b # bs) x = write_bytes (m(a := b)) (a + 1) bs x"
  proof (cases "x = a")
    case True
    have "a - (a + 1) = - 1" by simp
    then have "unat (a - (a + 1)) = 2 ^ 32 - 1"
      by (simp only: unsigned_minus_1_eq_mask) (simp add: mask_eq_exp_minus_1)
    with True \<open>length bs < 2 ^ 32\<close> show ?thesis by (simp add: write_bytes_def)
  next
    case False
    then show ?thesis using unat_minus_succ [of x a] by (simp add: write_bytes_def)
  qed
qed

lemma strncpy_loop_Nil:
  "m src = 0 \<Longrightarrow> n \<le> 2 ^ 32 \<Longrightarrow> strncpy_loop m dst src n = write_bytes m dst (padded [] n)"
proof (induction n arbitrary: m dst)
  case (Suc n)
  then have "(m(dst := m src)) src = 0" by simp
  with Suc have "strncpy_loop (m(dst := 0)) (dst + 1) src n =
      write_bytes (m(dst := 0)) (dst + 1) (padded [] n)" by simp
  with Suc.prems show ?case by (simp add: write_bytes_Cons Let_def)
qed simp

text \<open>The bytes of the source up to the terminator or the size must survive the copy.\<close>

lemma strncpy_loop_eq:
  assumes "n \<le> 2 ^ 32" and "\<And>k. k < n \<Longrightarrow> k \<le> length xs \<Longrightarrow> \<not> in_region dst n (src + of_nat k)"
    and "\<And>k. k < n \<Longrightarrow> k < length xs \<Longrightarrow> m (src + of_nat k) = xs ! k"
    and "length xs < n \<Longrightarrow> m (src + of_nat (length xs)) = 0" and "0 \<notin> set xs"
  shows "strncpy_loop m dst src n = write_bytes m dst (padded xs n)"
  using assms
proof (induction n arbitrary: m dst src xs)
  case (Suc n)
  show ?case
  proof (cases xs)
    case Nil
    then show ?thesis using Suc.prems(1,4) strncpy_loop_Nil [of m src "Suc n" dst] by simp
  next
    case (Cons y ys)
    let ?m = "m(dst := y)"
    have y: "m src = y" and "y \<noteq> 0" using Suc.prems(3) [of 0] Suc.prems(5) Cons by auto
    have off: "\<not> in_region dst (Suc n) (src + 1 + of_nat k)" if "k < n" and "k \<le> length ys" for k
      using Suc.prems(2) [of "Suc k"] that Cons by (simp add: add.assoc)
    have ne: "src + 1 + of_nat k \<noteq> dst" if "k < n" and "k \<le> length ys" for k
      using off [OF that] by (auto simp: in_region_def)
    have "strncpy_loop ?m (dst + 1) (src + 1) n = write_bytes ?m (dst + 1) (padded ys n)"
    proof (rule Suc.IH)
      fix k
      assume k: "k < n" "k \<le> length ys"
      show "\<not> in_region (dst + 1) n (src + 1 + of_nat k)"
        using off [OF k] ne [OF k] unat_minus_succ [of "src + 1 + of_nat k" dst]
        by (simp add: in_region_def)
    next
      fix k
      assume k: "k < n" "k < length ys"
      then show "?m (src + 1 + of_nat k) = ys ! k"
        using ne [of k] Suc.prems(3) [of "Suc k"] Cons by (simp add: add.assoc)
    next
      assume "length ys < n"
      then show "?m (src + 1 + of_nat (length ys)) = 0"
        using ne [of "length ys"] Suc.prems(4) Cons by (simp add: add.assoc)
    qed (use Suc.prems(1,5) Cons in auto)
    moreover have "src \<noteq> dst" using Suc.prems(2) [of 0] by (auto simp: in_region_def)
    ultimately show ?thesis
      using y \<open>y \<noteq> 0\<close> Cons Suc.prems(1) by (simp add: write_bytes_Cons Let_def)
  qed
qed simp

lemma strncpy_cstr:
  assumes "cstr m src xs" and "disj_regions dst (unat n) src (Suc (length xs))"
    and "length xs < 2 ^ 32 - 1"
  shows "strncpy m dst src n = write_bytes m dst (padded xs (unat n))"
  unfolding strncpy_def
proof (rule strncpy_loop_eq)
  show "unat n \<le> 2 ^ 32" using unat_lt_u32 [of n] by simp
next
  fix k
  assume "k < unat n" and "k \<le> length xs"
  then have "in_region src (Suc (length xs)) (src + of_nat k)"
    using assms(3) by (auto intro: in_region_offset)
  then show "\<not> in_region dst (unat n) (src + of_nat k)"
    using assms(2) disj_regionsD disj_regions_sym by blast
qed (use assms(1) cstr_nth cstr_end cstr_nonzero in auto)

section \<open>Decimal numbers\<close>

text \<open>The decimal representation, and that \<open>itoa\<close> writes it and \<open>strtol\<close> reads it.\<close>

function decimal :: "int \<Rightarrow> byte list" where
  "decimal a = (if a < 10 then [of_int (48 + a)] else decimal (a div 10) @ [of_int (48 + a mod 10)])"
  by pat_completeness auto
termination by (relation "measure nat") auto

declare decimal.simps [simp del]

lemma decimal_length: "0 \<le> a \<Longrightarrow> a < 10 ^ k \<Longrightarrow> 0 < k \<Longrightarrow> length (decimal a) \<le> k"
proof (induction k arbitrary: a)
  case (Suc k)
  show ?case
  proof (cases "a < 10")
    case False
    then have "k \<noteq> 0" using Suc.prems by (auto intro: ccontr)
    moreover have "a div 10 < 10 ^ k"
    proof -
      obtain b :: int where b: "b = 10 ^ k" by blast
      have "a < 10 * b" using Suc.prems(2) b by simp
      then show ?thesis unfolding b [symmetric] by linarith
    qed
    ultimately have "length (decimal (a div 10)) \<le> k" using Suc.IH [of "a div 10"] Suc.prems by simp
    then show ?thesis using False by (subst decimal.simps) simp
  qed (subst decimal.simps, simp)
qed simp

definition is_digit :: "byte \<Rightarrow> bool" where
  "is_digit b \<longleftrightarrow> 48 \<le> b \<and> b \<le> 57"

lemma digit_byte:
  assumes "0 \<le> d" and "d < 10"
  shows "is_digit (of_int (48 + d))" and "uint (of_int (48 + d) :: byte) = 48 + d"
    and "(of_int (48 + d) :: byte) \<noteq> 0"
proof -
  show u: "uint (of_int (48 + d) :: byte) = 48 + d"
    using assms by (simp only: uint_word_of_int take_bit_eq_mod) simp
  show "is_digit (of_int (48 + d))"
    unfolding is_digit_def word_le_def u using assms by simp
  show "(of_int (48 + d) :: byte) \<noteq> 0" using u assms by (auto simp del: of_int_add)
qed

lemma decimal_digits: "0 \<le> a \<Longrightarrow> \<forall>b \<in> set (decimal a). is_digit b"
proof (induction a rule: decimal.induct)
  case (1 a)
  then show ?case by (subst decimal.simps) (auto intro: digit_byte(1) [of "a mod 10", simplified] digit_byte(1) [of a, simplified])
qed

lemma cstr_push:
  assumes "cstr m p ys" and "c \<noteq> 0" and "length ys < 2 ^ 32 - 1"
  shows "cstr (m(p - 1 := c)) (p - 1) (c # ys)"
proof -
  have "p + of_nat k \<noteq> p - 1" if "k \<le> length ys" for k
  proof
    assume "p + of_nat k = p - 1"
    then have "of_nat (Suc k) = (0 :: u32)" by (simp add: algebra_simps)
    then have "unat (of_nat (Suc k) :: u32) = 0" by simp
    moreover have "unat (of_nat (Suc k) :: u32) = Suc k"
      using that assms(3) by (intro unat_of_nat_u32) linarith
    ultimately show False by simp
  qed
  then have "cstr (m(p - 1 := c)) p ys" using cstr_cong [OF assms(1)] by simp
  then show ?thesis using assms(2) by simp
qed

lemma itoa_loop_decimal:
  "0 \<le> a \<Longrightarrow> cstr m p ys \<Longrightarrow> length (decimal a) + length ys < 2 ^ 32 - 1 \<Longrightarrow>
     (case itoa_loop m p a of (m', p') \<Rightarrow>
        cstr m' p' (decimal a @ ys) \<and> p' = p - of_nat (length (decimal a)))"
proof (induction a arbitrary: m p ys rule: decimal.induct)
  case (1 a)
  let ?c = "of_int (48 + a mod 10) :: byte" and ?m = "m(p - 1 := of_int (48 + a mod 10))"
  have c: "cstr ?m (p - 1) (?c # ys)"
    using 1(4) by (intro cstr_push 1(3) digit_byte) auto
  have loop: "itoa_loop m p a = (if a div 10 \<noteq> 0 then itoa_loop ?m (p - 1) (a div 10) else (?m, p - 1))"
    using 1(2) by (subst itoa_loop.simps) (simp add: c_mod_nonneg c_div_nonneg Let_def)
  show ?case
  proof (cases "a < 10")
    case True
    then have "a div 10 = 0" "a mod 10 = a" "decimal a = [of_int (48 + a)]"
      using 1(2) by (simp, simp, subst decimal.simps, simp)
    then show ?thesis using loop c by simp
  next
    case False
    then have d: "decimal a = decimal (a div 10) @ [?c]" by (subst decimal.simps) simp
    have "a div 10 \<noteq> 0" and pos: "0 \<le> a div 10" using False by simp_all
    then have loop': "itoa_loop m p a = itoa_loop ?m (p - 1) (a div 10)" using loop by simp
    obtain m' p' where r: "itoa_loop ?m (p - 1) (a div 10) = (m', p')"
      by (cases "itoa_loop ?m (p - 1) (a div 10)")
    have "cstr m' p' (decimal (a div 10) @ ?c # ys) \<and> p' = p - 1 - of_nat (length (decimal (a div 10)))"
      using 1(1) [OF False pos c, unfolded r] 1(4) unfolding d by auto
    then show ?thesis unfolding loop' r d by (simp add: algebra_simps)
  qed
qed

definition digits_value :: "int \<Rightarrow> byte list \<Rightarrow> int" where
  "digits_value v xs = foldl (\<lambda>v d. i32 (v * 10 + (uint d - 48))) v xs"

lemma digit_of_digit: "is_digit b \<Longrightarrow> digit_of b = Some (uint b - 48) \<and> uint b - 48 < 10"
proof -
  assume "is_digit b"
  then have b: "48 \<le> uint b" "uint b \<le> 57" by (simp_all add: is_digit_def word_le_def)
  then have "sint b = uint b" by (simp add: sint_uint signed_take_bit_int_eq_self)
  then show ?thesis using b by (simp add: digit_of_def)
qed

lemma strtol_digits_cstr:
  "cstr m s xs \<Longrightarrow> \<forall>b \<in> set xs. is_digit b \<Longrightarrow>
     strtol_digits m s 10 v = Some (digits_value v xs, s + of_nat (length xs))"
proof (induction xs arbitrary: s v)
  case Nil
  then show ?case by (subst strtol_digits.simps) (simp add: digit_of_def digits_value_def)
next
  case (Cons x xs)
  then have "m s = x" "is_digit x" by simp_all
  then show ?case using Cons digit_of_digit [of x]
    by (subst strtol_digits.simps) (simp add: digits_value_def algebra_simps)
qed

lemma digits_value_decimal: "0 \<le> a \<Longrightarrow> a < 2 ^ 31 \<Longrightarrow> digits_value 0 (decimal a) = a"
proof (induction a rule: decimal.induct)
  case (1 a)
  show ?case
  proof (cases "a < 10")
    case True
    then show ?thesis using 1(2) digit_byte(2) [of a]
      by (subst decimal.simps) (simp add: digits_value_def i32_id)
  next
    case False
    have "uint (of_int (48 + a mod 10) :: byte) = 48 + a mod 10" by (rule digit_byte) auto
    then show ?thesis using False 1
      by (subst decimal.simps) (simp add: digits_value_def i32_id)
  qed
qed

lemma strtol_decimal:
  assumes "cstr m s (decimal a)" and "0 \<le> a" and "a < 2 ^ 31"
  shows "strtol m s 10 = Some (a, s + of_nat (length (decimal a)))"
proof -
  have "decimal a \<noteq> []" by (subst decimal.simps) simp
  then obtain x xs where x: "decimal a = x # xs" by (cases "decimal a") auto
  then have "is_digit (m s)" using decimal_digits [OF assms(2)] assms(1) by auto
  then have "m s \<noteq> 0x20" "m s \<noteq> 0x09" "m s \<noteq> 0x2B" "m s \<noteq> 0x2D" by (auto simp: is_digit_def)
  moreover from this have "skip_blanks m s = Some s" by (subst skip_blanks.simps) simp
  ultimately show ?thesis
    using strtol_digits_cstr [OF assms(1) decimal_digits [OF assms(2)], of 0]
      digits_value_decimal [OF assms(2,3)]
    by (simp add: strtol_def strtol_sign_def strtol_prefix_def)
qed

section \<open>Properties\<close>

text \<open>
  C38: \<open>memmove\<close> is correct for every pair of blocks that do not run over the end of the
  address space, overlapping or not, whichever of its four copying branches is taken: the
  destination holds what the source held before, and no other byte changes.
\<close>

theorem memmove_correct:
  assumes "unat src + unat n \<le> 2 ^ 32" and "unat dst + unat n \<le> 2 ^ 32"
  shows "read_bytes (memmove m dst src n) dst (unat n) = read_bytes m src (unat n) \<and>
    (\<not> in_region dst (unat n) x \<longrightarrow> memmove m dst src n x = m x)"
proof (intro conjI impI)
  have "memmove m dst src n = moved m dst src (unat n)" by (rule memmove_eq [OF assms])
  moreover have "k < unat n \<Longrightarrow> unat (of_nat k :: u32) = k" for k
    using unat_lt_u32 [of n] by simp
  ultimately show "read_bytes (memmove m dst src n) dst (unat n) = read_bytes m src (unat n)"
    and "\<not> in_region dst (unat n) x \<Longrightarrow> memmove m dst src n x = m x"
    by (auto simp: moved_def in_region_def intro!: nth_equalityI)
qed

theorem memmove_correct_witness:
  "read_bytes (memmove (\<lambda>x. ucast x) 0x1002 0x1000 5) 0x1002 (unat (5 :: u32)) = [0, 1, 2, 3, 4]"
proof -
  have "read_bytes (memmove (\<lambda>x. ucast x) 0x1002 0x1000 5) 0x1002 (unat (5 :: u32)) =
      read_bytes (\<lambda>x. ucast x) 0x1000 (unat (5 :: u32))"
    by (rule memmove_correct [THEN conjunct1]) simp_all
  then show ?thesis by (simp add: read_bytes_def upt_rec)
qed

text \<open>
  \<open>memset\<close> stores the low byte of its argument into exactly the \<open>n\<close> bytes of the
  block, on the byte-wise and on the word-wise branch.
\<close>

theorem memset_correct:
  "memset m v c n x = (if in_region v (unat n) x then ucast c else m x)"
  by (simp add: memset_eq in_region_def)

text \<open>
  On two NUL-terminated strings \<open>strcmp\<close> returns, the result is 0 exactly when the strings
  are equal, and otherwise it has the sign of the difference of the first bytes in which they
  differ, compared as unsigned characters.
\<close>

theorem strcmp_correct:
  assumes "cstr m p xs" and "cstr m q ys"
  shows "\<exists>r. strcmp m p q = Some r \<and> (r = 0 \<longleftrightarrow> xs = ys) \<and>
    (r < 0 \<longleftrightarrow> (xs, ys) \<in> lexord {(a, b). a < b})"
proof -
  have "(lex_diff xs ys < 0) = ((xs, ys) \<in> lexord {(a, b). a < b})"
    using cstr_nonzero [OF assms(1)] cstr_nonzero [OF assms(2)]
    by (induction xs ys rule: lex_diff.induct)
      (auto simp: word_less_def uint_0_iff less_le dest: word_uint_eqI)
  then show ?thesis
    using strcmp_cstr [OF assms] lex_diff_0_iff cstr_nonzero assms by blast
qed

theorem strcmp_correct_witness:
  "\<exists>r. strcmp ((\<lambda>_. 0)(0 := 97, 1 := 98, 8 := 97, 9 := 200)) 0 8 = Some r \<and> r < 0"
proof -
  let ?m = "(\<lambda>_. 0)(0 := 97, 1 := 98, 8 := 97, 9 := 200) :: mem"
  have "cstr ?m 0 [97, 98]" "cstr ?m 8 [97, 200]" by simp_all
  from strcmp_correct [OF this] show ?thesis by auto
qed

text \<open>
  \<open>strncpy\<close> fills the whole destination field: the string, cut at the field length, then
  NUL bytes up to it. Nothing outside the field is written. (The file system stores file names
  this way.)
\<close>

theorem strncpy_correct:
  assumes "cstr m src xs" and "disj_regions dst (unat n) src (Suc (length xs))"
    and "length xs < 2 ^ 32 - 1"
  shows "read_bytes (strncpy m dst src n) dst (unat n) =
      take (unat n) xs @ replicate (unat n - length xs) 0 \<and>
    (\<not> in_region dst (unat n) x \<longrightarrow> strncpy m dst src n x = m x)"
proof (intro conjI impI)
  have eq: "strncpy m dst src n = write_bytes m dst (padded xs (unat n))"
    by (rule strncpy_cstr [OF assms])
  have len: "length (padded xs (unat n)) = unat n" by (simp add: padded_def)
  have "unat n \<le> 2 ^ 32" using unat_lt_u32 [of n] by simp
  then show "read_bytes (strncpy m dst src n) dst (unat n) =
      take (unat n) xs @ replicate (unat n - length xs) 0"
    using read_write_bytes [of "padded xs (unat n)" m dst] by (simp add: eq len) (simp add: padded_def)
  show "\<not> in_region dst (unat n) x \<Longrightarrow> strncpy m dst src n x = m x"
    by (simp add: eq write_bytes_other len)
qed

theorem strncpy_correct_witness:
  "read_bytes (strncpy ((\<lambda>_. 0xFF)(0 := 97, 1 := 98, 2 := 0)) 16 0 4) 16 (unat (4 :: u32)) = [97, 98, 0, 0]"
proof -
  have "read_bytes (strncpy ((\<lambda>_. 0xFF)(0 := 97, 1 := 98, 2 := 0)) 16 0 4) 16 (unat (4 :: u32)) =
      take (unat (4 :: u32)) [97, 98] @ replicate (unat (4 :: u32) - length [97 :: byte, 98]) 0"
    by (rule strncpy_correct [THEN conjunct1]) (simp_all add: disj_regions_def)
  then show ?thesis by simp (simp add: numeral_2_eq_2)
qed



end
