(* ===== verification/Mmu.thy ===== *)
theory Mmu
  imports Kernel_Prelude
begin

text \<open>
  The memory-management vocabulary of the kernel: the address macros of \<open>kernel/inc/mmu.h\<close>
  and \<open>kernel/inc/memory.h\<close>, the control register CR3, segment and gate descriptors, and the
  code of \<open>kernel/src/memory/kvm.c\<close> and \<open>kernel/src/irq/idt.c\<close> that fills the GDT and the
  IDT. The page walk of the processor (\<open>page_walk\<close>) is a specification: it says what the
  tables the kernel writes mean.
\<close>

section \<open>Addresses\<close>

definition PGNUM :: "u32 \<Rightarrow> u32" where
  "PGNUM la = drop_bit 12 la"

definition PDX :: "u32 \<Rightarrow> u32" where
  "PDX la = drop_bit 22 la AND 0x3FF"

definition PTX :: "u32 \<Rightarrow> u32" where
  "PTX la = drop_bit 12 la AND 0x3FF"

definition PGOFF :: "u32 \<Rightarrow> u32" where
  "PGOFF la = la AND 0xFFF"

definition PGADDR :: "u32 \<Rightarrow> u32 \<Rightarrow> u32 \<Rightarrow> u32" where
  "PGADDR d t off = push_bit 22 d OR push_bit 12 t OR off"

definition PTE_ADDR :: "u32 \<Rightarrow> u32" where
  "PTE_ADDR pte = pte AND NOT 0xFFF"

abbreviation (input) PGSIZE :: u32 where "PGSIZE \<equiv> 4096"
abbreviation (input) PT_SIZE :: u32 where "PT_SIZE \<equiv> 0x400000"
abbreviation (input) NR_PTE :: nat where "NR_PTE \<equiv> 1024"
abbreviation (input) NR_PDE :: nat where "NR_PDE \<equiv> 1024"
abbreviation (input) KOFFSET :: u32 where "KOFFSET \<equiv> 0xC0000000"
abbreviation (input) PHY_MEM :: u32 where "PHY_MEM \<equiv> 0x8000000"
abbreviation (input) PTE_P :: u32 where "PTE_P \<equiv> 1"

definition va_to_pa :: "u32 \<Rightarrow> u32" where
  "va_to_pa a = a - KOFFSET"

definition pa_to_va :: "u32 \<Rightarrow> u32" where
  "pa_to_va a = a + KOFFSET"

definition make_pde :: "u32 \<Rightarrow> u32" where
  "make_pde a = (a AND 0xFFFFF000) OR 0x7"

definition make_pte :: "u32 \<Rightarrow> u32" where
  "make_pte a = (a AND 0xFFFFF000) OR 0x7"

text \<open>\<open>CR3 cr3; cr3.val = 0; cr3.page_directory_base = b;\<close> stores a 20-bit field at bit 12.\<close>

definition cr3_with_base :: "u32 \<Rightarrow> u32" where
  "cr3_with_base b = push_bit 12 (take_bit 20 b)"

definition cr3_base :: "u32 \<Rightarrow> u32" where
  "cr3_base v = drop_bit 12 v"

lemma mask10: "(0x3FF :: u32) = mask 10"
  by (simp add: mask_eq_exp_minus_1)

lemma mask12: "(0xFFF :: u32) = mask 12"
  by (simp add: mask_eq_exp_minus_1)

lemma page_mask: "(0xFFFFF000 :: u32) = NOT (mask 12)"
  by (simp add: mask_eq_exp_minus_1)

lemma and_mask10: "(x :: u32) AND 0x3FF = take_bit 10 x"
  by (simp add: mask10 take_bit_eq_mask del: mask_numeral)

lemma and_mask12: "(x :: u32) AND 0xFFF = take_bit 12 x"
  by (simp add: mask12 take_bit_eq_mask del: mask_numeral)

lemma PTE_ADDR_alt: "PTE_ADDR x = push_bit 12 (drop_bit 12 x)"
  by (rule bit_word_eqI)
    (auto simp: PTE_ADDR_def mask12 bit_simps simp del: mask_numeral)

lemma make_pde_alt: "make_pde a = push_bit 12 (drop_bit 12 a) OR 7"
  by (rule bit_word_eqI)
    (auto simp: make_pde_def page_mask bit_simps simp del: mask_numeral)

lemma make_pte_alt: "make_pte a = push_bit 12 (drop_bit 12 a) OR 7"
  using make_pde_alt by (simp add: make_pde_def make_pte_def)

lemma PGADDR_split: "PGADDR (PDX la) (PTX la) (PGOFF la) = la"
proof (rule bit_word_eqI)
  fix n
  assume "n < LENGTH(32)"
  then have "n < 12 \<or> 12 \<le> n \<and> n < 22 \<or> 22 \<le> n \<and> n < 32" by auto
  then show "bit (PGADDR (PDX la) (PTX la) (PGOFF la)) n = bit la n"
    by (elim disjE) (auto simp: PGADDR_def PDX_def PTX_def PGOFF_def and_mask10 and_mask12 bit_simps)
qed

lemma PGADDR_parts:
  assumes "d < 1024" and "t < 1024" and "off < 4096"
  shows "PDX (PGADDR d t off) = d" and "PTX (PGADDR d t off) = t" and "PGOFF (PGADDR d t off) = off"
proof -
  have bits: "bit d n \<Longrightarrow> n < 10" "bit t n \<Longrightarrow> n < 10" "bit off n \<Longrightarrow> n < 12" for n
    using assms high_bit_below [of d 10 n] high_bit_below [of t 10 n] high_bit_below [of off 12 n]
    by (auto simp: not_le [symmetric])
  show "PDX (PGADDR d t off) = d"
    by (rule bit_word_eqI) (auto simp: PGADDR_def PDX_def and_mask10 bit_simps dest: bits)
  show "PTX (PGADDR d t off) = t"
    by (rule bit_word_eqI) (auto simp: PGADDR_def PTX_def and_mask10 bit_simps dest: bits)
  show "PGOFF (PGADDR d t off) = off"
    by (rule bit_word_eqI) (auto simp: PGADDR_def PGOFF_def and_mask12 bit_simps dest: bits)
qed

section \<open>The page walk of the processor\<close>

text \<open>
  Memory is indexed by kernel linear addresses: physical address \<open>p\<close> is at \<open>p + KOFFSET\<close>,
  where the kernel maps all physical memory (\<open>KERNBASE\<close>).
\<close>

definition lin :: "u32 \<Rightarrow> addr" where
  "lin p = p + KOFFSET"

definition pde_at :: "mem \<Rightarrow> u32 \<Rightarrow> u32 \<Rightarrow> u32" where
  "pde_at m pgdir va = load32 m (lin (pgdir + PDX va * 4))"

definition pte_at :: "mem \<Rightarrow> u32 \<Rightarrow> u32 \<Rightarrow> u32" where
  "pte_at m pgdir va = load32 m (lin (PTE_ADDR (pde_at m pgdir va) + PTX va * 4))"

definition page_walk :: "mem \<Rightarrow> u32 \<Rightarrow> u32 \<Rightarrow> u32 option" where
  "page_walk m cr3 va =
     (if pde_at m (PTE_ADDR cr3) va AND PTE_P = 0 then None
      else if pte_at m (PTE_ADDR cr3) va AND PTE_P = 0 then None
      else Some (PTE_ADDR (pte_at m (PTE_ADDR cr3) va) + PGOFF va))"

section \<open>Segment descriptors\<close>

text \<open>The bit fields of \<open>SegDesc\<close>; storing into one truncates to its width.\<close>

record SegDesc =
  limit_15_0 :: "16 word"
  base_15_0 :: "16 word"
  base_23_16 :: "8 word"
  sd_type :: "4 word"
  segment_type :: "1 word"
  sd_privilege_level :: "2 word"
  sd_present :: "1 word"
  limit_19_16 :: "4 word"
  soft_use :: "1 word"
  operation_size :: "1 word"
  sd_pad0 :: "1 word"
  granularity :: "1 word"
  base_31_24 :: "8 word"

abbreviation (input) DPL_KERNEL :: u32 where "DPL_KERNEL \<equiv> 0"
abbreviation (input) DPL_USER :: u32 where "DPL_USER \<equiv> 3"
abbreviation (input) SEG_WRITABLE :: u32 where "SEG_WRITABLE \<equiv> 2"
abbreviation (input) SEG_READABLE :: u32 where "SEG_READABLE \<equiv> 2"
abbreviation (input) SEG_EXECUTABLE :: u32 where "SEG_EXECUTABLE \<equiv> 8"
abbreviation (input) SEG_TSS_32BIT :: u32 where "SEG_TSS_32BIT \<equiv> 9"
abbreviation (input) SEG_KERNEL_CODE :: nat where "SEG_KERNEL_CODE \<equiv> 1"
abbreviation (input) SEG_KERNEL_DATA :: nat where "SEG_KERNEL_DATA \<equiv> 2"
abbreviation (input) SEG_USER_CODE :: nat where "SEG_USER_CODE \<equiv> 3"
abbreviation (input) SEG_USER_DATA :: nat where "SEG_USER_DATA \<equiv> 4"
abbreviation (input) SEG_TSS :: nat where "SEG_TSS \<equiv> 5"
abbreviation (input) NR_SEGMENTS :: nat where "NR_SEGMENTS \<equiv> 6"

definition SELECTOR_KERNEL :: "u32 \<Rightarrow> u32" where
  "SELECTOR_KERNEL s = push_bit 3 s OR DPL_KERNEL"

definition SELECTOR_USER :: "u32 \<Rightarrow> u32" where
  "SELECTOR_USER s = push_bit 3 s OR DPL_USER"

definition seg_zero :: SegDesc where
  "seg_zero = \<lparr>limit_15_0 = 0, base_15_0 = 0, base_23_16 = 0, sd_type = 0, segment_type = 0,
     sd_privilege_level = 0, sd_present = 0, limit_19_16 = 0, soft_use = 0, operation_size = 0,
     sd_pad0 = 0, granularity = 0, base_31_24 = 0\<rparr>"

definition set_segment :: "SegDesc \<Rightarrow> u32 \<Rightarrow> u32 \<Rightarrow> SegDesc" where
  "set_segment ptr pl type = ptr\<lparr>limit_15_0 := 0xFFFF, base_15_0 := 0, base_23_16 := 0,
     sd_type := ucast type, segment_type := 1, sd_privilege_level := ucast pl, sd_present := 1,
     limit_19_16 := 0xF, soft_use := 0, operation_size := 0, sd_pad0 := 1, granularity := 1,
     base_31_24 := 0\<rparr>"

record TSS =
  esp0 :: u32
  ss0 :: u32

text \<open>\<open>set_tss\<close>; \<open>base\<close> is the address of the static \<open>tss\<close>, \<open>sizeof(TSS)\<close> is 100.\<close>

definition set_tss :: "u32 \<Rightarrow> TSS \<Rightarrow> SegDesc \<Rightarrow> TSS \<times> SegDesc" where
  "set_tss base tss ptr =
     (let limit = 100 - 1 :: u32
      in (tss\<lparr>ss0 := SELECTOR_KERNEL 2\<rparr>,
          ptr\<lparr>limit_15_0 := ucast (limit AND 0xFFFF), base_15_0 := ucast (base AND 0xFFFF),
            base_23_16 := ucast (drop_bit 16 base AND 0xFF), sd_type := ucast SEG_TSS_32BIT,
            segment_type := 0, sd_privilege_level := ucast DPL_USER, sd_present := 1,
            limit_19_16 := ucast (drop_bit 16 limit), soft_use := 0, operation_size := 0,
            sd_pad0 := 1, granularity := 0, base_31_24 := ucast (drop_bit 24 base)\<rparr>))"

definition set_tss_esp0 :: "u32 \<Rightarrow> TSS \<Rightarrow> TSS" where
  "set_tss_esp0 esp tss = tss\<lparr>esp0 := esp\<rparr>"

record seg_regs =
  gdt :: "SegDesc list"
  gdtr :: "u16 list"
  tr :: u16

text \<open>The three half-words handed to \<open>lgdt\<close>.\<close>

definition write_gdtr :: "u32 \<Rightarrow> u32 \<Rightarrow> u16 list" where
  "write_gdtr a n = [ucast (n - 1), ucast a, ucast (drop_bit 16 a)]"

definition init_segment :: "u32 \<Rightarrow> u32 \<Rightarrow> TSS \<Rightarrow> TSS \<times> seg_regs" where
  "init_segment gdt_addr tss_addr tss =
     (let g0 = replicate NR_SEGMENTS seg_zero;
          g1 = g0[SEG_KERNEL_CODE := set_segment (g0 ! SEG_KERNEL_CODE) DPL_KERNEL (SEG_EXECUTABLE OR SEG_READABLE)];
          g2 = g1[SEG_KERNEL_DATA := set_segment (g1 ! SEG_KERNEL_DATA) DPL_KERNEL SEG_WRITABLE];
          g3 = g2[SEG_USER_CODE := set_segment (g2 ! SEG_USER_CODE) DPL_USER (SEG_EXECUTABLE OR SEG_READABLE)];
          g4 = g3[SEG_USER_DATA := set_segment (g3 ! SEG_USER_DATA) DPL_USER SEG_WRITABLE];
          r = write_gdtr gdt_addr (6 * 8);
          (tss', d) = set_tss tss_addr tss (g4 ! SEG_TSS)
      in (tss', \<lparr>gdt = g4[SEG_TSS := d], gdtr = r, tr = ucast (SELECTOR_USER 5)\<rparr>))"

text \<open>What the processor reads out of a descriptor.\<close>

definition seg_base :: "SegDesc \<Rightarrow> u32" where
  "seg_base d = push_bit 24 (ucast (base_31_24 d)) OR push_bit 16 (ucast (base_23_16 d))
     OR ucast (base_15_0 d)"

definition seg_limit :: "SegDesc \<Rightarrow> u32" where
  "seg_limit d =
     (let l = push_bit 16 (ucast (limit_19_16 d)) OR ucast (limit_15_0 d) :: u32
      in if granularity d = 1 then push_bit 12 l OR 0xFFF else l)"

lemma set_segment_flat:
  "seg_base (set_segment p pl ty) = 0" "seg_limit (set_segment p pl ty) = 0xFFFFFFFF"
  "sd_present (set_segment p pl ty) = 1"
  by (simp_all add: seg_base_def seg_limit_def set_segment_def)

lemma set_tss_base: "seg_base (snd (set_tss b t p)) = b"
proof (rule bit_word_eqI)
  fix n
  assume "n < LENGTH(32)"
  moreover have FF: "(0xFF :: u32) = mask 8" and FFFF: "(0xFFFF :: u32) = mask 16"
    by (simp_all add: mask_eq_exp_minus_1)
  ultimately have "n < 16 \<or> 16 \<le> n \<and> n < 24 \<or> 24 \<le> n \<and> n < 32" by auto
  then show "bit (seg_base (snd (set_tss b t p))) n = bit b n"
    by (elim disjE) (auto simp: seg_base_def set_tss_def Let_def FF FFFF bit_simps simp del: mask_numeral)
qed

lemma set_tss_limit: "seg_limit (snd (set_tss b t p)) = 99"
  by (simp add: seg_limit_def set_tss_def Let_def)

lemma set_tss_fields: "sd_type (snd (set_tss b t p)) = 9" "sd_present (snd (set_tss b t p)) = 1"
  by (simp_all add: set_tss_def)

section \<open>Interrupt gates\<close>

record GateDescriptor =
  offset_15_0 :: "16 word"
  segment :: "16 word"
  pad0 :: "8 word"
  gd_type :: "4 word"
  system :: "1 word"
  privilege_level :: "2 word"
  present :: "1 word"
  offset_31_16 :: "16 word"

definition set_intr :: "GateDescriptor \<Rightarrow> u32 \<Rightarrow> u32 \<Rightarrow> u32 \<Rightarrow> GateDescriptor" where
  "set_intr ptr selector offset dpl = ptr\<lparr>offset_15_0 := ucast (offset AND 0xFFFF),
     segment := ucast (push_bit 3 selector), pad0 := 0, gd_type := 0xE, system := 0,
     privilege_level := ucast dpl, present := 1,
     offset_31_16 := ucast (drop_bit 16 offset AND 0xFFFF)\<rparr>"

definition set_trap :: "GateDescriptor \<Rightarrow> u32 \<Rightarrow> u32 \<Rightarrow> u32 \<Rightarrow> GateDescriptor" where
  "set_trap ptr selector offset dpl = ptr\<lparr>offset_15_0 := ucast (offset AND 0xFFFF),
     segment := ucast (push_bit 3 selector), pad0 := 0, gd_type := 0xF, system := 0,
     privilege_level := ucast dpl, present := 1,
     offset_31_16 := ucast (drop_bit 16 offset AND 0xFFFF)\<rparr>"

text \<open>The entry points of \<open>do_irq.S\<close> are symbols; their addresses are a function of them.\<close>

datatype idt_entry = vec nat | vecsys | irq nat | irq_empty

definition set_trap_at :: "(idt_entry \<Rightarrow> u32) \<Rightarrow> nat \<Rightarrow> idt_entry \<Rightarrow> u32 \<Rightarrow> GateDescriptor list \<Rightarrow> GateDescriptor list" where
  "set_trap_at addr_of i h dpl idt = idt[i := set_trap (idt ! i) 1 (addr_of h) dpl]"

definition set_intr_at :: "(idt_entry \<Rightarrow> u32) \<Rightarrow> nat \<Rightarrow> idt_entry \<Rightarrow> u32 \<Rightarrow> GateDescriptor list \<Rightarrow> GateDescriptor list" where
  "set_intr_at addr_of i h dpl idt = idt[i := set_intr (idt ! i) 1 (addr_of h) dpl]"

abbreviation (input) NR_IRQ :: nat where "NR_IRQ \<equiv> 256"

text \<open>\<open>save_idt\<close> loads the IDT register; \<open>idt_addr\<close> is the address of the static \<open>idt\<close>.\<close>

definition save_idt :: "u32 \<Rightarrow> u32 \<Rightarrow> u16 list" where
  "save_idt a n = [ucast (n - 1), ucast a, ucast (drop_bit 16 a)]"

definition init_idt :: "(idt_entry \<Rightarrow> u32) \<Rightarrow> u32 \<Rightarrow> GateDescriptor list \<Rightarrow> GateDescriptor list \<times> u16 list" where
  "init_idt addr_of idt_addr idt =
     (let t1 = fold (\<lambda>i. set_trap_at addr_of i irq_empty DPL_KERNEL) [0..<NR_IRQ] idt;
          t2 = fold (\<lambda>i. set_trap_at addr_of i (vec i) DPL_KERNEL) [0..<15] t1;
          t3 = set_trap_at addr_of 0x80 vecsys DPL_USER t2;
          t4 = set_intr_at addr_of 32 (irq 0) DPL_KERNEL t3;
          t5 = set_intr_at addr_of (32 + 1) (irq 1) DPL_KERNEL t4
      in (set_intr_at addr_of (32 + 14) (irq 14) DPL_KERNEL t5, save_idt idt_addr (256 * 8)))"

definition gate_offset :: "GateDescriptor \<Rightarrow> u32" where
  "gate_offset g = push_bit 16 (ucast (offset_31_16 g)) OR ucast (offset_15_0 g)"

lemma gate_offset_set [simp]:
  "gate_offset (set_trap p s a d) = a" "gate_offset (set_intr p s a d) = a"
proof -
  have FFFF: "(0xFFFF :: u32) = mask 16" by (simp add: mask_eq_exp_minus_1)
  show "gate_offset (set_trap p s a d) = a" "gate_offset (set_intr p s a d) = a"
    by (rule bit_word_eqI;
        auto simp: gate_offset_def set_trap_def set_intr_def FFFF bit_simps simp del: mask_numeral)+
qed

lemma gate_fields [simp]:
  "gd_type (set_trap p s a d) = 0xF" "gd_type (set_intr p s a d) = 0xE"
  "privilege_level (set_trap p s a d) = ucast d" "privilege_level (set_intr p s a d) = ucast d"
  "present (set_trap p s a d) = 1" "present (set_intr p s a d) = 1"
  "segment (set_trap p s a d) = ucast (push_bit 3 s)" "segment (set_intr p s a d) = ucast (push_bit 3 s)"
  by (simp_all add: set_trap_def set_intr_def)

lemma fold_set_trap_length [simp]:
  "length (fold (\<lambda>i. set_trap_at f i (h i) d) is t) = length t"
  by (induction "is" arbitrary: t) (simp_all add: set_trap_at_def)

lemma fold_set_trap_nth:
  "distinct is \<Longrightarrow> i < length t \<Longrightarrow>
     fold (\<lambda>i. set_trap_at f i (h i) d) is t ! i =
       (if i \<in> set is then set_trap (t ! i) 1 (f (h i)) d else t ! i)"
proof (induction "is" arbitrary: t)
  case (Cons j js)
  let ?t = "set_trap_at f j (h j) d t"
  have "?t ! i = (if i = j then set_trap (t ! i) 1 (f (h i)) d else t ! i)"
    using Cons.prems by (simp add: set_trap_at_def)
  moreover have "i < length ?t" using Cons.prems by (simp add: set_trap_at_def)
  ultimately show ?case using Cons.IH [of ?t] Cons.prems by auto
qed simp

section \<open>Properties\<close>

text \<open>
  the address macros split a linear address into directory index, table index and offset
  and \<open>PGADDR\<close> puts it together again, and conversely every triple of in-range parts is what
  the macros extract from the address built out of it.
\<close>

theorem PGADDR_roundtrip:
  assumes "d < 1024" and "t < 1024" and "off < 4096"
  shows "(PDX (PGADDR d t off), PTX (PGADDR d t off), PGOFF (PGADDR d t off)) = (d, t, off) \<and>
    PGADDR (PDX la) (PTX la) (PGOFF la) = la"
  using assms by (simp add: PGADDR_split PGADDR_parts)

theorem PGADDR_roundtrip_witness:
  "(PDX (PGADDR 32 72 0x123), PTX (PGADDR 32 72 0x123), PGOFF (PGADDR 32 72 0x123)) = (32, 72, 0x123)"
  by (rule PGADDR_roundtrip [THEN conjunct1]) simp_all

text \<open>
  \<open>init_segment\<close> leaves flat 4 GB code and data segments for the kernel (privilege 0) and
  the user (privilege 3), a task-state segment descriptor whose base and limit are those of the
  static \<open>tss\<close>, the kernel data selector as its \<open>ss0\<close>, and the GDT register covering exactly
  the six descriptors.
\<close>

theorem init_segment_correct:
  "case init_segment ga ta t of (t', r) \<Rightarrow>
     length (gdt r) = NR_SEGMENTS \<and>
     list_all (\<lambda>d. seg_base d = 0 \<and> seg_limit d = 0xFFFFFFFF \<and> sd_present d = 1 \<and> segment_type d = 1)
       (take 4 (tl (gdt r))) \<and>
     map sd_privilege_level (take 4 (tl (gdt r))) = [0, 0, 3, 3] \<and>
     map sd_type (take 4 (tl (gdt r))) = [0xA, 2, 0xA, 2] \<and>
     seg_base (gdt r ! SEG_TSS) = ta \<and> seg_limit (gdt r ! SEG_TSS) = 99 \<and>
     sd_type (gdt r ! SEG_TSS) = 9 \<and> sd_present (gdt r ! SEG_TSS) = 1 \<and>
     ss0 t' = 16 \<and> esp0 t' = esp0 t \<and> unat (gdtr r ! 0) + 1 = NR_SEGMENTS * 8"
proof -
  obtain t' d where td: "set_tss ta t seg_zero = (t', d)" by (cases "set_tss ta t seg_zero")
  have d: "seg_base d = ta" "seg_limit d = 99" "sd_type d = 9" "sd_present d = 1"
    using set_tss_base [of ta t seg_zero] set_tss_limit [of ta t seg_zero]
      set_tss_fields [of ta t seg_zero] by (simp_all add: td)
  have t': "ss0 t' = 16" "esp0 t' = esp0 t"
    using td by (auto simp: set_tss_def SELECTOR_KERNEL_def)
  have gdt0: "replicate NR_SEGMENTS seg_zero = [seg_zero, seg_zero, seg_zero, seg_zero, seg_zero, seg_zero]"
    by (simp add: eval_nat_numeral)
  have "init_segment ga ta t = (t', \<lparr>gdt = [seg_zero, set_segment seg_zero 0 0xA, set_segment seg_zero 0 2,
      set_segment seg_zero 3 0xA, set_segment seg_zero 3 2, d], gdtr = write_gdtr ga 48, tr = 43\<rparr>)"
    unfolding init_segment_def Let_def gdt0 by (simp add: td SELECTOR_USER_def)
  moreover have "segment_type (set_segment p pl ty) = 1" "sd_privilege_level (set_segment p pl ty) = ucast pl"
    "sd_type (set_segment p pl ty) = ucast ty" for p pl ty
    by (simp_all add: set_segment_def)
  moreover have "unat (write_gdtr ga 48 ! 0) = 47" by (simp add: write_gdtr_def)
  ultimately show ?thesis using d t' by (simp add: set_segment_flat)
qed

text \<open>
  after \<open>init_idt\<close> every one of the 256 gates is present and enters the kernel code segment;
  exactly the system-call gate 0x80 can be raised by user code; the gates of the timer, the
  keyboard and the disk are interrupt gates (entered with interrupts off) and all others are
  trap gates; each gate leads to its own entry point; and the IDT register covers the whole
  table.
\<close>

theorem init_idt_correct:
  assumes "length idt = NR_IRQ" and "i < NR_IRQ"
  shows "unat (snd (init_idt addr_of ia idt) ! 0) + 1 = 8 * length (fst (init_idt addr_of ia idt)) \<and>
    (case fst (init_idt addr_of ia idt) ! i of g \<Rightarrow>
    present g = 1 \<and> segment g = ucast (SELECTOR_KERNEL 1) \<and>
    (privilege_level g = 3 \<longleftrightarrow> i = 0x80) \<and> (gd_type g = 0xE \<longleftrightarrow> i \<in> {32, 33, 46}) \<and>
    gate_offset g = addr_of (if i < 15 then vec i else if i = 0x80 then vecsys
      else if i = 32 then irq 0 else if i = 33 then irq 1 else if i = 46 then irq 14
      else irq_empty))"
proof
  obtain n where n: "n = NR_IRQ" by blast
  let ?t1 = "fold (\<lambda>i. set_trap_at addr_of i irq_empty DPL_KERNEL) [0..<n] idt"
  let ?t2 = "fold (\<lambda>i. set_trap_at addr_of i (vec i) DPL_KERNEL) [0..<15] ?t1"
  have t1: "?t1 ! i = set_trap (idt ! i) 1 (addr_of irq_empty) DPL_KERNEL"
    using fold_set_trap_nth [of "[0..<n]" i idt addr_of "\<lambda>_. irq_empty"] assms n by simp
  have t2: "?t2 ! i = (if i < 15 then set_trap (?t1 ! i) 1 (addr_of (vec i)) DPL_KERNEL else ?t1 ! i)"
    using fold_set_trap_nth [of "[0..<15]" i ?t1 addr_of vec DPL_KERNEL] assms by simp
  have len: "length ?t2 = 256" using assms by simp
  have "fst (init_idt addr_of ia idt) ! i =
      (if i = 46 then set_intr (?t2 ! i) 1 (addr_of (irq 14)) DPL_KERNEL
       else if i = 33 then set_intr (?t2 ! i) 1 (addr_of (irq 1)) DPL_KERNEL
       else if i = 32 then set_intr (?t2 ! i) 1 (addr_of (irq 0)) DPL_KERNEL
       else if i = 0x80 then set_trap (?t2 ! i) 1 (addr_of vecsys) DPL_USER else ?t2 ! i)"
    using len assms(2) unfolding init_idt_def Let_def set_intr_at_def set_trap_at_def [of _ 128] n [symmetric]
    by (simp add: nth_list_update)
  then show "case fst (init_idt addr_of ia idt) ! i of g \<Rightarrow>
    present g = 1 \<and> segment g = ucast (SELECTOR_KERNEL 1) \<and>
    (privilege_level g = 3 \<longleftrightarrow> i = 0x80) \<and> (gd_type g = 0xE \<longleftrightarrow> i \<in> {32, 33, 46}) \<and>
    gate_offset g = addr_of (if i < 15 then vec i else if i = 0x80 then vecsys
      else if i = 32 then irq 0 else if i = 33 then irq 1 else if i = 46 then irq 14
      else irq_empty)" using t1 t2 by (auto simp: SELECTOR_KERNEL_def)
  show "unat (snd (init_idt addr_of ia idt) ! 0) + 1 = 8 * length (fst (init_idt addr_of ia idt))"
    using assms(1) unfolding init_idt_def Let_def n [symmetric]
    by (simp add: set_intr_at_def set_trap_at_def [of _ 128] save_idt_def n)
qed

theorem init_idt_correct_witness:
  "gate_offset (fst (init_idt (\<lambda>e. if e = vecsys then 0xC0101234 else 0) 0xC0110000
      (replicate NR_IRQ \<lparr>offset_15_0 = 0, segment = 0, pad0 = 0, gd_type = 0, system = 0,
        privilege_level = 0, present = 0, offset_31_16 = 0\<rparr>)) ! 0x80) = 0xC0101234"
  using init_idt_correct [of "replicate NR_IRQ \<lparr>offset_15_0 = 0, segment = 0, pad0 = 0,
    gd_type = 0, system = 0, privilege_level = 0, present = 0, offset_31_16 = 0\<rparr>" "0x80"
    "\<lambda>e. if e = vecsys then 0xC0101234 else 0" "0xC0110000"]
  unfolding Let_def by (simp only: length_replicate) simp

end
