(* ===== verification/Pmap.thy ===== *)
theory Pmap
  imports Lib_String Mmu
begin

text \<open>
  The physical page allocator and the two-level page tables of \<open>kernel/src/memory/pmap.c\<close>.
  A \<open>struct PageInfo *\<close> is an index into the array \<open>pages\<close> (\<open>None\<close> for a null pointer);
  memory is indexed by kernel linear addresses. Following a null or an uninitialised pointer
  is a value of type \<open>fault\<close>.

  The free list is abstracted to the list of its pages, and the user part of an address
  space to a partial map from table slots to page frames; \<open>page_alloc\<close>, \<open>page_free\<close> and
  \<open>pgdir_walk\<close> are shown to act on these abstractions as one expects.
\<close>

section \<open>State\<close>

definition npages :: nat where
  "npages = 2 ^ 15"

record PageInfo =
  pp_link :: "nat option"
  pp_ref :: u16

record pm =
  pages :: "nat \<Rightarrow> PageInfo"
  page_free_list :: "nat option"
  mem :: mem

text \<open>Conversions of \<open>kernel/inc/pmap.h\<close>.\<close>

definition page2pa :: "nat \<Rightarrow> u32" where
  "page2pa pp = push_bit 12 (of_nat pp)"

definition pa2page :: "u32 \<Rightarrow> nat" where
  "pa2page pa = unat (PGNUM pa)"

definition page2kva :: "nat \<Rightarrow> addr" where
  "page2kva pp = page2pa pp + KOFFSET"

section \<open>Physical pages\<close>

definition page_init_step :: "nat \<Rightarrow> 'a pm_scheme \<Rightarrow> 'a pm_scheme" where
  "page_init_step i s =
     (if i > 1024
      then s\<lparr>pages := (pages s)(i := \<lparr>pp_link = page_free_list s, pp_ref = 0\<rparr>),
             page_free_list := Some i\<rparr>
      else s\<lparr>pages := (pages s)(i := \<lparr>pp_link = None, pp_ref = 1\<rparr>)\<rparr>)"

definition page_init :: "'a pm_scheme \<Rightarrow> 'a pm_scheme" where
  "page_init s = fold page_init_step [0..<npages] s"

abbreviation (input) ALLOC_ZERO :: u32 where "ALLOC_ZERO \<equiv> 1"

definition page_alloc :: "u32 \<Rightarrow> 'a pm_scheme \<Rightarrow> nat option \<times> 'a pm_scheme" where
  "page_alloc alloc_flags s =
     (case page_free_list s of
        None \<Rightarrow> (None, s)
      | Some pg \<Rightarrow>
          let s1 = s\<lparr>page_free_list := pp_link (pages s pg),
                     pages := (pages s)(pg := (pages s pg)\<lparr>pp_link := None, pp_ref := 0\<rparr>)\<rparr>
          in (Some pg,
              if alloc_flags AND ALLOC_ZERO \<noteq> 0
              then s1\<lparr>mem := memset (mem s1) (page2kva pg) 0 PGSIZE\<rparr>
              else s1))"

definition page_free :: "nat \<Rightarrow> 'a pm_scheme \<Rightarrow> 'a pm_scheme" where
  "page_free pp s = s\<lparr>pages := (pages s)(pp := (pages s pp)\<lparr>pp_link := page_free_list s\<rparr>),
     page_free_list := Some pp\<rparr>"

definition page_decref :: "nat \<Rightarrow> 'a pm_scheme \<Rightarrow> 'a pm_scheme" where
  "page_decref pp s =
     (let r = pp_ref (pages s pp) - 1;
          s1 = s\<lparr>pages := (pages s)(pp := (pages s pp)\<lparr>pp_ref := r\<rparr>)\<rparr>
      in if r = 0 then page_free pp s1 else s1)"

text \<open>
  \<open>pp = page_alloc(ALLOC_ZERO); pp->pp_ref++;\<close> as it occurs throughout the file: the
  result of \<open>page_alloc\<close> is followed without a test.
\<close>

definition page_alloc_ref :: "'a pm_scheme \<Rightarrow> (nat \<times> 'a pm_scheme) res" where
  "page_alloc_ref s =
     (case page_alloc ALLOC_ZERO s of
        (None, s1) \<Rightarrow> Inl NullDeref
      | (Some pg, s1) \<Rightarrow>
          Inr (pg, s1\<lparr>pages := (pages s1)(pg := (pages s1 pg)\<lparr>pp_ref := pp_ref (pages s1 pg) + 1\<rparr>)\<rparr>))"

section \<open>Page tables\<close>

text \<open>
  \<open>pgdir_walk\<close>. Page tables are followed through their physical addresses (the kernel's
  identity mapping), hence \<open>lin\<close>; the directory pointer is a kernel linear address.
\<close>

definition fill_entry :: "addr \<Rightarrow> 'a pm_scheme \<Rightarrow> 'a pm_scheme res" where
  "fill_entry a s =
     (if load32 (mem s) a AND PTE_P = 0
      then bnd (page_alloc_ref s) (\<lambda>(pg, s1). Inr (s1\<lparr>mem := store32 (mem s1) a (page2pa pg OR 0x7)\<rparr>))
      else Inr s)"

definition pgdir_walk :: "addr \<Rightarrow> u32 \<Rightarrow> bool \<Rightarrow> 'a pm_scheme \<Rightarrow> (u32 option \<times> 'a pm_scheme) res" where
  "pgdir_walk pgdir va create s =
     (let pde = pgdir + PDX va * 4
      in if \<not> create
         then if load32 (mem s) pde AND PTE_P = 0 then Inr (None, s)
              else let pte = PTE_ADDR (load32 (mem s) pde) + PTX va * 4
                   in if load32 (mem s) (lin pte) AND PTE_P = 0 then Inr (None, s)
                      else Inr (Some pte, s)
         else bnd (fill_entry pde s) (\<lambda>s1.
                let pte = PTE_ADDR (load32 (mem s1) pde) + PTX va * 4
                in bnd (fill_entry (lin pte) s1) (\<lambda>s2. Inr (Some pte, s2))))"

text \<open>\<open>mm_malloc\<close>; \<open>updir\<close> is the address of the user page directory (\<open>get_updir\<close>).\<close>

definition mm_malloc :: "addr \<Rightarrow> u32 \<Rightarrow> 'a pm_scheme \<Rightarrow> (u32 \<times> 'a pm_scheme) res" where
  "mm_malloc updir va s =
     bnd (pgdir_walk updir va True s) (\<lambda>(pte, s1).
       case pte of
         None \<Rightarrow> Inl NullDeref
       | Some p \<Rightarrow> Inr (PTE_ADDR (load32 (mem s1) (lin p)) + PGOFF va, s1))"

text \<open>
  \<open>page_lookup\<close> stores through \<open>pte_store\<close> exactly when it is null, so the store never
  reaches a caller's variable; \<open>store\<close> says whether the argument is non-null.
\<close>

definition page_lookup :: "addr \<Rightarrow> u32 \<Rightarrow> bool \<Rightarrow> 'a pm_scheme \<Rightarrow> (nat option) res" where
  "page_lookup pgdir va store s =
     bnd (pgdir_walk pgdir va False s) (\<lambda>(pte, _).
       case pte of
         None \<Rightarrow> Inr None
       | Some p \<Rightarrow>
           if \<not> store then Inl NullDeref
           else Inr (Some (pa2page (PTE_ADDR (load32 (mem s) (lin p))))))"

text \<open>\<open>page_remove\<close> passes the address of an uninitialised local and then follows it.\<close>

definition page_remove :: "addr \<Rightarrow> u32 \<Rightarrow> 'a pm_scheme \<Rightarrow> 'a pm_scheme res" where
  "page_remove pgdir va s =
     bnd (page_lookup pgdir va True s) (\<lambda>pginfo.
       case pginfo of
         None \<Rightarrow> Inr s
       | Some pp \<Rightarrow> if npages \<le> pp then Inl OutOfBounds else let s1 = page_decref pp s in Inl Uninit)"

section \<open>The free list\<close>

fun chain :: "(nat \<Rightarrow> nat option) \<Rightarrow> nat option \<Rightarrow> nat list \<Rightarrow> bool" where
  "chain nxt p [] \<longleftrightarrow> p = None"
| "chain nxt p (x # xs) \<longleftrightarrow> p = Some x \<and> chain nxt (nxt x) xs"

definition free_list :: "'a pm_scheme \<Rightarrow> nat list \<Rightarrow> bool" where
  "free_list s xs \<longleftrightarrow>
     chain (\<lambda>i. pp_link (pages s i)) (page_free_list s) xs \<and> distinct xs \<and>
     (\<forall>x \<in> set xs. 1024 < x \<and> x < npages)"

lemma chain_cong: "(\<And>x. x \<in> set xs \<Longrightarrow> f x = g x) \<Longrightarrow> chain f p xs = chain g p xs"
  by (induction xs arbitrary: p) auto

lemma chain_upd [simp]: "y \<notin> set xs \<Longrightarrow> chain (f(y := q)) p xs = chain f p xs"
  by (rule chain_cong) auto

lemma chain_if [simp]:
  "y \<notin> set xs \<Longrightarrow> chain (\<lambda>x. g (if x = y then a else f x)) p xs = chain (\<lambda>x. g (f x)) p xs"
  by (rule chain_cong) auto

lemma chain_unique: "chain f p xs \<Longrightarrow> chain f p ys \<Longrightarrow> xs = ys"
proof (induction xs arbitrary: p ys)
  case Nil
  then show ?case by (cases ys) auto
next
  case (Cons x xs)
  then show ?case by (cases ys) auto
qed

lemma free_list_unique: "free_list s xs \<Longrightarrow> free_list s ys \<Longrightarrow> xs = ys"
  unfolding free_list_def using chain_unique by blast

lemma free_list_cong:
  "pages s' = pages s \<Longrightarrow> page_free_list s' = page_free_list s \<Longrightarrow> free_list s' xs = free_list s xs"
  by (simp add: free_list_def)

lemma free_list_mem [simp]: "free_list (s\<lparr>mem := m\<rparr>) xs = free_list s xs"
  by (simp add: free_list_def)

lemma page_alloc_Nil: "free_list s [] \<Longrightarrow> page_alloc fl s = (None, s)"
  by (simp add: free_list_def page_alloc_def)

lemma page_alloc_Cons:
  assumes "free_list s (x # xs)"
  shows "fst (page_alloc fl s) = Some x" and "free_list (snd (page_alloc fl s)) xs"
    and "pp_ref (pages (snd (page_alloc fl s)) x) = 0"
    and "mem (snd (page_alloc fl s)) =
      (if fl AND ALLOC_ZERO \<noteq> 0 then memset (mem s) (page2kva x) 0 PGSIZE else mem s)"
  using assms by (auto simp: free_list_def page_alloc_def Let_def)

lemma page_free_list_push:
  assumes "free_list s xs" and "1024 < x" and "x < npages" and "x \<notin> set xs"
  shows "free_list (page_free x s) (x # xs)"
  using assms by (auto simp: free_list_def page_free_def)

lemma page_init_fold:
  "i \<le> n \<Longrightarrow> 1024 < i \<Longrightarrow> n \<le> npages \<Longrightarrow> free_list s xs \<Longrightarrow> (\<forall>x \<in> set xs. x < i) \<Longrightarrow>
     free_list (fold page_init_step [i..<n] s) (rev [i..<n] @ xs)"
proof (induction n)
  case (Suc n)
  show ?case
  proof (cases "i = Suc n")
    case False
    let ?s = "fold page_init_step [i..<n] s"
    have "free_list ?s (rev [i..<n] @ xs)" using Suc False by simp
    moreover have "n \<notin> set xs" using Suc.prems False by auto
    ultimately have "free_list (page_init_step n ?s) (n # rev [i..<n] @ xs)"
      using Suc.prems False by (auto simp: free_list_def page_init_step_def)
    then show ?thesis using Suc.prems False by simp
  qed (use Suc in simp)
qed simp

lemma page_init_fold_low:
  "n \<le> 1025 \<Longrightarrow> page_free_list (fold page_init_step [0..<n] s) = page_free_list s"
  by (induction n) (auto simp: page_init_step_def)

lemma page_init_free_list:
  assumes "page_free_list s = None"
  shows "free_list (page_init s) (rev [1025..<npages])"
proof -
  obtain a :: nat where a: "a = 1025" by blast
  then have "a \<le> npages" by (simp add: npages_def)
  then have split: "[0..<npages] = [0..<a] @ [a..<npages]"
    using upt_add_eq_append [of 0 a "npages - a"] by simp
  let ?s = "fold page_init_step [0..<a] s"
  have "free_list ?s []"
    using assms page_init_fold_low [of a s] a by (simp add: free_list_def)
  then have "free_list (fold page_init_step [a..<npages] ?s) (rev [a..<npages] @ [])"
    using \<open>a \<le> npages\<close> a by (intro page_init_fold) simp_all
  then show ?thesis by (simp add: page_init_def split flip: a)
qed

section \<open>Interface of a page pool\<close>

text \<open>
  What the clients of the allocator (the page-table code, \<open>fork\<close>, the loader) rely on.
  \<open>pool s xs\<close> says that the free pages of \<open>s\<close> are \<open>xs\<close> in the order they are handed out.
\<close>

primrec alloc_seq :: "('s \<Rightarrow> nat option \<times> 's) \<Rightarrow> nat \<Rightarrow> 's \<Rightarrow> nat list \<times> 's" where
  "alloc_seq alloc 0 s = ([], s)"
| "alloc_seq alloc (Suc n) s =
     (case alloc s of
        (None, s1) \<Rightarrow> ([], s1)
      | (Some x, s1) \<Rightarrow> let (xs, s2) = alloc_seq alloc n s1 in (x # xs, s2))"

locale page_pool =
  fixes alloc :: "'s \<Rightarrow> nat option \<times> 's"
    and give :: "nat \<Rightarrow> 's \<Rightarrow> 's"
    and pool :: "'s \<Rightarrow> nat list \<Rightarrow> bool"
  assumes alloc_none: "pool s [] \<Longrightarrow> alloc s = (None, s)"
    and alloc_some: "pool s (x # xs) \<Longrightarrow> fst (alloc s) = Some x \<and> pool (snd (alloc s)) xs"
    and pool_distinct: "pool s xs \<Longrightarrow> distinct xs"
    and pool_range: "pool s xs \<Longrightarrow> x \<in> set xs \<Longrightarrow> 1024 < x \<and> x < npages"
    and give_back: "pool s xs \<Longrightarrow> 1024 < x \<Longrightarrow> x < npages \<Longrightarrow> x \<notin> set xs \<Longrightarrow> pool (give x s) (x # xs)"
begin

lemma alloc_cases:
  assumes "pool s xs"
  shows "alloc s = (None, s) \<and> xs = [] \<or>
    (\<exists>x ys s'. xs = x # ys \<and> alloc s = (Some x, s') \<and> pool s' ys)"
proof (cases xs)
  case Nil
  then show ?thesis using assms alloc_none by simp
next
  case (Cons x ys)
  then show ?thesis using assms alloc_some [of s x ys] by (metis prod.collapse)
qed

text \<open>Successive allocations hand out the pool in order, until it is empty.\<close>

lemma alloc_seq_take:
  "pool s xs \<Longrightarrow> fst (alloc_seq alloc n s) = take n xs \<and> pool (snd (alloc_seq alloc n s)) (drop n xs)"
proof (induction n arbitrary: s xs)
  case (Suc n)
  from alloc_cases [OF Suc.prems] show ?case
  proof (elim disjE exE conjE)
    fix x ys s'
    assume "xs = x # ys" and "alloc s = (Some x, s')" and "pool s' ys"
    then show ?thesis using Suc.IH [of s' ys] by (auto simp: split_beta)
  qed (use Suc.prems in auto)
qed simp

lemma alloc_seq_distinct: "pool s xs \<Longrightarrow> distinct (fst (alloc_seq alloc n s))"
  using alloc_seq_take pool_distinct by (metis distinct_take)

lemma alloc_then_give:
  assumes "pool s (x # xs)"
  shows "pool (give x (snd (alloc s))) (x # xs)"
proof -
  have "pool (snd (alloc s)) xs" using assms alloc_some by blast
  moreover have "1024 < x" "x < npages" using pool_range [OF assms, of x] by auto
  moreover have "x \<notin> set xs" using pool_distinct [OF assms] by simp
  ultimately show ?thesis by (rule give_back)
qed

end

interpretation ppool: page_pool "page_alloc fl" page_free free_list
proof unfold_locales
  fix s :: "'a pm_scheme" and x xs
  show "free_list s [] \<Longrightarrow> page_alloc fl s = (None, s)" by (rule page_alloc_Nil)
  show "free_list s (x # xs) \<Longrightarrow>
      fst (page_alloc fl s) = Some x \<and> free_list (snd (page_alloc fl s)) xs"
    using page_alloc_Cons(1,2) by blast
  show "free_list s xs \<Longrightarrow> distinct xs" by (simp add: free_list_def)
  show "free_list s xs \<Longrightarrow> x \<in> set xs \<Longrightarrow> 1024 < x \<and> x < npages" by (simp add: free_list_def)
  show "free_list s xs \<Longrightarrow> 1024 < x \<Longrightarrow> x < npages \<Longrightarrow> x \<notin> set xs \<Longrightarrow>
      free_list (page_free x s) (x # xs)" by (rule page_free_list_push)
qed

section \<open>Frames\<close>

text \<open>Entry \<open>k\<close> of the table in page frame \<open>f\<close>.\<close>

definition entry :: "nat \<Rightarrow> nat \<Rightarrow> addr" where
  "entry f k = page2kva f + of_nat k * 4"

definition fr :: "u32 \<Rightarrow> nat" where
  "fr e = unat (drop_bit 12 e)"

definition frame :: "addr \<Rightarrow> nat" where
  "frame a = unat (drop_bit 12 (a - KOFFSET))"

lemma npages_less: "f < npages \<Longrightarrow> f < 32768"
  by (simp add: npages_def)

lemma unat_page2pa: "f < npages \<Longrightarrow> unat (page2pa f) = f * 4096"
  by (simp add: page2pa_def npages_def push_bit_eq_mult unat_word_ariths)

lemma unat_page2kva: "f < npages \<Longrightarrow> unat (page2kva f) = 0xC0000000 + f * 4096"
  unfolding page2kva_def using unat_page2pa [of f] npages_less [of f]
  by (simp add: unat_word_ariths)

lemma unat_entry: "f < npages \<Longrightarrow> k < 1024 \<Longrightarrow> unat (entry f k) = 0xC0000000 + f * 4096 + k * 4"
  unfolding entry_def using unat_page2kva [of f] npages_less [of f]
  by (simp add: unat_word_ariths)

lemma page_div: "f * 4096 \<le> (y :: nat) \<Longrightarrow> (y - f * 4096 < 4096) = (y div 4096 = f)"
proof -
  assume "f * 4096 \<le> y"
  then obtain r where "y = f * 4096 + r" using le_Suc_ex by blast
  then show ?thesis by (simp add: div_eq_0_iff)
qed

lemma frame_region:
  assumes "f < npages"
  shows "unat (x - page2kva f) < 4096 \<longleftrightarrow> frame x = f"
proof -
  let ?y = "x - KOFFSET"
  have eq: "x - page2kva f = ?y - page2pa f" by (simp add: page2kva_def)
  have fr: "frame x = unat ?y div 4096"
    by (simp add: frame_def drop_bit_eq_div unat_div_distrib)
  have p: "unat (page2pa f) = f * 4096" and f: "f < 32768"
    using assms by (simp_all add: unat_page2pa npages_less)
  show ?thesis
  proof (cases "f * 4096 \<le> unat ?y")
    case True
    then have "unat (x - page2kva f) = unat ?y - f * 4096"
      unfolding eq using p by (simp add: unat_sub_if_size)
    then show ?thesis unfolding fr using page_div [OF True] by (simp only:)
  next
    case False
    then have "unat (x - page2kva f) = unat ?y + 2 ^ 32 - f * 4096"
      unfolding eq using p by (simp add: unat_sub_if_size word_size)
    moreover have "unat ?y div 4096 < f" using False by (simp add: div_less_iff_less_mult)
    ultimately have "\<not> unat (x - page2kva f) < 4096" using f by simp
    moreover have "frame x \<noteq> f" using fr \<open>unat ?y div 4096 < f\<close> by simp
    ultimately show ?thesis by simp
  qed
qed

lemma entry_frame:
  assumes "f < npages" and "k < 1024" and "in_region (entry f k) 4 x"
  shows "frame x = f"
proof -
  obtain j where "j < 4" and x: "x = entry f k + of_nat j"
    using assms(3) by (auto simp: in_region_iff)
  then have "x - page2kva f = of_nat (k * 4 + j)" by (simp add: entry_def)
  moreover have "unat (of_nat (k * 4 + j) :: u32) = k * 4 + j"
    using assms(2) \<open>j < 4\<close> by (intro unat_of_nat_u32) simp
  ultimately have "unat (x - page2kva f) = k * 4 + j" by (simp only:)
  then show ?thesis using assms \<open>j < 4\<close> frame_region [OF assms(1), of x] by simp
qed

lemma memset_page:
  "f < npages \<Longrightarrow> memset m (page2kva f) 0 PGSIZE = (\<lambda>x. if frame x = f then 0 else m x)"
  by (rule ext) (simp add: memset_eq frame_region)

lemma load_entry_memset [mem_simps]:
  assumes "f < npages" and "g < npages" and "k < 1024"
  shows "load32 (memset m (page2kva f) 0 PGSIZE) (entry g k) =
    (if g = f then 0 else load32 m (entry g k))"
proof (cases "g = f")
  case True
  then have "load32 (memset m (page2kva f) 0 PGSIZE) (entry g k) = load32 (\<lambda>_. 0) (entry g k)"
    by (intro load32_cong) (use assms in \<open>simp add: memset_page entry_frame\<close>)
  then show ?thesis using True by (simp add: load32_def)
next
  case False
  then show ?thesis
    by simp (intro load32_cong, use assms entry_frame in \<open>auto simp: memset_page\<close>)
qed

lemma entry_disj:
  assumes "f < npages" "g < npages" "k < 1024" "l < 1024" "(f, k) \<noteq> (g, l)"
  shows "disj_regions (entry f k) 4 (entry g l) 4"
proof -
  obtain a b where a: "a = f * 1024 + k" and b: "b = g * 1024 + l" by blast
  have u: "unat (entry f k) = 0xC0000000 + 4 * a" "unat (entry g l) = 0xC0000000 + 4 * b"
    using assms by (simp_all add: unat_entry a b)
  have "a \<noteq> b"
  proof
    assume "a = b"
    then have "a div 1024 = b div 1024" and "a mod 1024 = b mod 1024" by simp_all
    then show False using assms(3-5) by (simp add: a b)
  qed
  moreover have "a < 2 ^ 25" "b < 2 ^ 25"
    using assms(3,4) npages_less [OF assms(1)] npages_less [OF assms(2)] by (simp_all add: a b)
  ultimately show ?thesis
    unfolding disj_regions_def unat_sub_if_size u by (auto simp: word_size)
qed

lemma load_entry_store [mem_simps]:
  assumes "f < npages" "g < npages" "k < 1024" "l < 1024"
  shows "load32 (store32 m (entry f k) v) (entry g l) =
    (if f = g \<and> k = l then v else load32 m (entry g l))"
  using assms entry_disj [of f g k l] by (auto simp: load32_store32_other)

lemma fr_page2pa [simp]:
  assumes "f < npages"
  shows "fr (page2pa f OR 7) = f" and "(page2pa f OR 7) AND 1 \<noteq> 0"
proof -
  have "drop_bit 12 (page2pa f OR 7) = of_nat f"
  proof (rule bit_word_eqI)
    fix n
    have "bit (of_nat f :: u32) n \<Longrightarrow> n < 15"
      using high_bit_below [of "of_nat f" 15 n] npages_less [OF assms]
      by (auto simp: word_less_nat_alt not_le [symmetric])
    moreover have "\<not> bit (7 :: u32) (12 + n)"
      using high_bit_below [of 7 3 "12 + n"] by simp
    ultimately show "bit (drop_bit 12 (page2pa f OR 7)) n = bit (of_nat f :: u32) n"
      by (auto simp: page2pa_def bit_simps)
  qed
  then show "fr (page2pa f OR 7) = f" using npages_less [OF assms] by (simp add: fr_def)
  have "bit ((page2pa f OR 7) AND 1) 0" by (simp add: bit_simps)
  then show "(page2pa f OR 7) AND 1 \<noteq> 0" by auto
qed

lemma lin_PTE_ADDR: "lin (PTE_ADDR e + PTX va * 4) = entry (fr e) (unat (PTX va))"
  by (simp add: lin_def entry_def page2kva_def page2pa_def fr_def PTE_ADDR_alt)

lemma pgdir_entry: "page2kva d + PDX va * 4 = entry d (unat (PDX va))"
  by (simp add: entry_def)

lemma unat_take_bit_10: "unat (take_bit 10 (x :: u32)) < 1024"
  using take_bit_nat_less_exp [of 10 "unat x"] by (simp add: unsigned_take_bit_eq)

lemma PDX_lt [simp]: "unat (PDX va) < 1024"
  by (simp add: PDX_def and_mask10 unat_take_bit_10)

lemma PTX_lt [simp]: "unat (PTX va) < 1024"
  by (simp add: PTX_def and_mask10 unat_take_bit_10)

section \<open>Address spaces\<close>

text \<open>
  The user part of the address space below a page directory in frame \<open>d\<close>, as a partial map
  from slots to the frames they hold: the directory itself, the tables of the 768 user
  directory entries, and the pages those tables map.
\<close>

datatype slot = Dir | Tab nat | Leaf nat nat

abbreviation (input) USER_PDES :: nat where "USER_PDES \<equiv> 768"

definition tab_entry :: "mem \<Rightarrow> nat \<Rightarrow> nat \<Rightarrow> nat option" where
  "tab_entry m f k = (let e = load32 m (entry f k) in if e AND PTE_P = 0 then None else Some (fr e))"

fun slot_frame :: "mem \<Rightarrow> nat \<Rightarrow> slot \<Rightarrow> nat option" where
  "slot_frame m d Dir = Some d"
| "slot_frame m d (Tab i) = (if i < USER_PDES then tab_entry m d i else None)"
| "slot_frame m d (Leaf i j) =
     (if i < USER_PDES \<and> j < NR_PTE
      then case tab_entry m d i of None \<Rightarrow> None | Some t \<Rightarrow> tab_entry m t j
      else None)"

text \<open>
  Well-formed: no frame is used by two slots, all frames are managed pages, and none of them
  is on the free list.
\<close>

definition space_ok :: "'a pm_scheme \<Rightarrow> nat \<Rightarrow> nat list \<Rightarrow> bool" where
  "space_ok s d xs \<longleftrightarrow>
     free_list s xs \<and>
     (\<forall>a b f. slot_frame (mem s) d a = Some f \<and> slot_frame (mem s) d b = Some f \<longrightarrow> a = b) \<and>
     (\<forall>a f. slot_frame (mem s) d a = Some f \<longrightarrow> f < npages \<and> f \<notin> set xs)"

lemma space_okD:
  assumes "space_ok s d xs"
  shows "free_list s xs"
    and "slot_frame (mem s) d a = Some f \<Longrightarrow> slot_frame (mem s) d b = Some f \<Longrightarrow> a = b"
    and "slot_frame (mem s) d a = Some f \<Longrightarrow> f < npages"
    and "slot_frame (mem s) d a = Some f \<Longrightarrow> f \<notin> set xs"
  using assms unfolding space_ok_def by blast+

lemma space_ok_dir: "space_ok s d xs \<Longrightarrow> d < npages \<and> d \<notin> set xs"
  using space_okD(3,4) [of s d xs Dir d] by simp

lemma tab_entry_memset:
  assumes "f < npages" "x < npages" "k < 1024"
  shows "tab_entry (memset m (page2kva x) 0 PGSIZE) f k = (if f = x then None else tab_entry m f k)"
  using assms by (simp add: tab_entry_def load_entry_memset)

lemma tab_entry_store:
  assumes "f < npages" "g < npages" "k < 1024" "l < 1024" "x < npages"
  shows "tab_entry (store32 m (entry g l) (page2pa x OR 7)) f k =
    (if f = g \<and> k = l then Some x else tab_entry m f k)"
  using assms by (auto simp: tab_entry_def load_entry_store)

text \<open>One filled entry: the memory effect of \<open>fill_entry\<close> on the abstraction.\<close>

definition filled :: "mem \<Rightarrow> nat \<Rightarrow> nat \<Rightarrow> nat \<Rightarrow> mem" where
  "filled m g l x = store32 (memset m (page2kva x) 0 PGSIZE) (entry g l) (page2pa x OR 7)"

lemma tab_entry_filled:
  assumes "f < npages" "g < npages" "k < 1024" "l < 1024" "x < npages" "x \<noteq> g"
  shows "tab_entry (filled m g l x) f k =
    (if f = g \<and> k = l then Some x else if f = x then None else tab_entry m f k)"
  using assms by (simp add: filled_def tab_entry_store tab_entry_memset)

lemma fill_entry_absent:
  assumes "free_list s (x # xs)" and "load32 (mem s) a AND PTE_P = 0"
  obtains s' where "fill_entry a s = Inr s'" and "free_list s' xs"
    and "mem s' = store32 (memset (mem s) (page2kva x) 0 PGSIZE) a (page2pa x OR 7)"
    and "pp_ref (pages s' x) = 1"
proof -
  obtain s1 where s1: "page_alloc ALLOC_ZERO s = (Some x, s1)" and fl: "free_list s1 xs"
    and m: "mem s1 = memset (mem s) (page2kva x) 0 PGSIZE" and r: "pp_ref (pages s1 x) = 0"
    using page_alloc_Cons [OF assms(1), of ALLOC_ZERO] by (metis and.idem one_neq_zero prod.collapse)
  have "x \<notin> set xs" using assms(1) by (simp add: free_list_def)
  let ?s2 = "s1\<lparr>pages := (pages s1)(x := (pages s1 x)\<lparr>pp_ref := pp_ref (pages s1 x) + 1\<rparr>)\<rparr>"
  let ?s' = "?s2\<lparr>mem := store32 (mem ?s2) a (page2pa x OR 7)\<rparr>"
  have "fill_entry a s = Inr ?s'"
    using assms(2) s1 by (simp add: fill_entry_def page_alloc_ref_def)
  moreover have "free_list ?s' xs" using fl \<open>x \<notin> set xs\<close> by (simp add: free_list_def)
  ultimately show thesis using that [of ?s'] m r by simp
qed

lemma fill_entry_present: "load32 (mem s) a AND PTE_P \<noteq> 0 \<Longrightarrow> fill_entry a s = Inr s"
  by (simp add: fill_entry_def)

lemma fill_entry_oom:
  "free_list s [] \<Longrightarrow> load32 (mem s) a AND PTE_P = 0 \<Longrightarrow> fill_entry a s = Inl NullDeref"
  by (simp add: fill_entry_def page_alloc_ref_def page_alloc_Nil)

text \<open>Filling a directory entry and filling a table entry extend the map at one slot.\<close>

lemma slot_frame_fill_tab:
  assumes ok: "space_ok s d (x # xs)" and i: "i < USER_PDES" and "tab_entry (mem s) d i = None"
  shows "slot_frame (filled (mem s) d i x) d = (slot_frame (mem s) d)(Tab i \<mapsto> x)"
proof
  fix sl
  have d: "d < npages" "d \<noteq> x" using space_ok_dir [OF ok] by auto
  have x: "x < npages" using space_okD(1) [OF ok] by (simp add: free_list_def)
  have tab: "tab_entry (filled (mem s) d i x) d k = (if k = i then Some x else tab_entry (mem s) d k)"
    if "k < 1024" for k
    using tab_entry_filled [OF d(1) d(1) that _ x] d i by auto
  show "slot_frame (filled (mem s) d i x) d sl = ((slot_frame (mem s) d)(Tab i \<mapsto> x)) sl"
  proof (cases sl)
    case (Leaf k j)
    have "tab_entry (filled (mem s) d i x) t j = tab_entry (mem s) t j"
      if "tab_entry (mem s) d k = Some t" "k < USER_PDES" "j < 1024" for t
    proof -
      have "slot_frame (mem s) d (Tab k) = Some t" using that by simp
      then have "t < npages" "t \<noteq> x" "t \<noteq> d"
        using space_okD(2-4) [OF ok, of "Tab k" t] space_okD(2) [OF ok, of "Tab k" t Dir] by auto
      then show ?thesis using tab_entry_filled [of t d j i x "mem s"] d x i that by simp
    qed
    moreover have "tab_entry (filled (mem s) d i x) x j = None" if "j < 1024"
      using tab_entry_filled [of x d j i x "mem s"] d x i that by simp
    ultimately show ?thesis using Leaf tab assms(3) by (auto split: option.splits)
  qed (use tab i in auto)
qed

lemma slot_frame_fill_leaf:
  assumes ok: "space_ok s d (x # xs)" and i: "i < USER_PDES" and j: "j < NR_PTE"
    and t: "tab_entry (mem s) d i = Some t" and "tab_entry (mem s) t j = None"
  shows "slot_frame (filled (mem s) t j x) d = (slot_frame (mem s) d)(Leaf i j \<mapsto> x)"
proof
  fix sl
  have slt: "slot_frame (mem s) d (Tab i) = Some t" using i t by simp
  have tt: "t < npages" "t \<noteq> x" "t \<noteq> d"
    using slt space_okD(2-4) [OF ok, of "Tab i" t] space_okD(2) [OF ok, of "Tab i" t Dir] by auto
  have d: "d < npages" "d \<noteq> x" using space_ok_dir [OF ok] by auto
  have x: "x < npages" using space_okD(1) [OF ok] by (simp add: free_list_def)
  have tab: "tab_entry (filled (mem s) t j x) d k = tab_entry (mem s) d k" if "k < 1024" for k
    using tab_entry_filled [OF d(1) tt(1) that j x] d tt by simp
  show "slot_frame (filled (mem s) t j x) d sl = ((slot_frame (mem s) d)(Leaf i j \<mapsto> x)) sl"
  proof (cases sl)
    case (Leaf k l)
    have "tab_entry (filled (mem s) t j x) u l = (if k = i \<and> l = j then Some x else tab_entry (mem s) u l)"
      if "tab_entry (mem s) d k = Some u" "k < USER_PDES" "l < 1024" for u
    proof -
      have slu: "slot_frame (mem s) d (Tab k) = Some u" using that by simp
      then have u: "u < npages" "u \<noteq> x"
        using space_okD(3,4) [OF ok, of "Tab k" u] by auto
      moreover have "u = t \<longleftrightarrow> k = i"
        using slu slt space_okD(2) [OF ok, of "Tab k" u "Tab i"] by auto
      ultimately show ?thesis
        using tab_entry_filled [of u t l j x "mem s"] tt x j that by auto
    qed
    then show ?thesis using Leaf tab t i j by (auto split: option.splits)
  qed (use tab in auto)
qed

subsection \<open>The abstract page-table operation\<close>

text \<open>
  \<open>vm_fill\<close> gives a slot the next free page if it has none; \<open>vm_touch\<close> is what a walk with
  \<open>create\<close> promises: a table for the directory slot, then a page for the leaf slot.
\<close>

type_synonym vm = "(slot \<rightharpoonup> nat) \<times> nat list"

fun vm_fill :: "slot \<Rightarrow> vm \<Rightarrow> vm option" where
  "vm_fill sl (M, xs) =
     (case M sl of
        Some _ \<Rightarrow> Some (M, xs)
      | None \<Rightarrow> (case xs of [] \<Rightarrow> None | x # ys \<Rightarrow> Some (M(sl \<mapsto> x), ys)))"

definition vm_touch :: "nat \<Rightarrow> nat \<Rightarrow> vm \<Rightarrow> vm option" where
  "vm_touch i j st = (case vm_fill (Tab i) st of None \<Rightarrow> None | Some st1 \<Rightarrow> vm_fill (Leaf i j) st1)"

lemma space_ok_extend:
  assumes "space_ok s d (x # xs)" and "free_list s' xs"
    and "slot_frame (mem s') d = (slot_frame (mem s) d)(a \<mapsto> x)"
  shows "space_ok s' d xs"
  unfolding space_ok_def
proof (intro conjI allI impI)
  show "free_list s' xs" by (rule assms(2))
next
  fix b c f
  assume bc: "slot_frame (mem s') d b = Some f \<and> slot_frame (mem s') d c = Some f"
  have "slot_frame (mem s) d e \<noteq> Some x" for e using space_okD(4) [OF assms(1), of e x] by auto
  with bc show "b = c"
    using space_okD(2) [OF assms(1), of b f c]
    by (cases "b = a"; cases "c = a") (auto simp: assms(3))
next
  fix b f
  assume "slot_frame (mem s') d b = Some f"
  moreover have "x < npages" "x \<notin> set xs"
    using space_okD(1) [OF assms(1)] by (auto simp: free_list_def)
  ultimately show "f < npages" and "f \<notin> set xs"
    using space_okD(3,4) [OF assms(1), of b f] by (auto simp: assms(3) split: if_splits)
qed

lemma entry_absent: "tab_entry m f k = None \<longleftrightarrow> load32 m (entry f k) AND PTE_P = 0"
  by (simp add: tab_entry_def Let_def)

lemma fill_tab_refines:
  assumes ok: "space_ok s d xs" and i: "i < USER_PDES"
  shows "case vm_fill (Tab i) (slot_frame (mem s) d, xs) of
      None \<Rightarrow> fill_entry (entry d i) s = Inl NullDeref
    | Some (M, ys) \<Rightarrow> \<exists>s'. fill_entry (entry d i) s = Inr s' \<and> space_ok s' d ys \<and>
        slot_frame (mem s') d = M"
proof (cases "tab_entry (mem s) d i")
  case None
  then have abs: "load32 (mem s) (entry d i) AND PTE_P = 0" by (simp add: entry_absent)
  show ?thesis
  proof (cases xs)
    case Nil
    then show ?thesis using None i fill_entry_oom [OF _ abs] space_okD(1) [OF ok] by simp
  next
    case (Cons x ys)
    obtain s' where s': "fill_entry (entry d i) s = Inr s'" "free_list s' ys"
      "mem s' = filled (mem s) d i x"
      using fill_entry_absent [OF _ abs] space_okD(1) [OF ok] Cons unfolding filled_def by metis
    have M: "slot_frame (mem s') d = (slot_frame (mem s) d)(Tab i \<mapsto> x)"
      using slot_frame_fill_tab ok i None Cons s'(3) by simp
    then have "space_ok s' d ys" using space_ok_extend [OF _ s'(2)] ok Cons by blast
    then show ?thesis using s' M None i Cons by simp
  qed
next
  case (Some t)
  then have "load32 (mem s) (entry d i) AND PTE_P \<noteq> 0" by (auto simp: tab_entry_def Let_def)
  then show ?thesis using Some i ok by (simp add: fill_entry_present)
qed

lemma fill_leaf_refines:
  assumes ok: "space_ok s d xs" and i: "i < USER_PDES" and j: "j < NR_PTE"
    and t: "tab_entry (mem s) d i = Some t"
  shows "case vm_fill (Leaf i j) (slot_frame (mem s) d, xs) of
      None \<Rightarrow> fill_entry (entry t j) s = Inl NullDeref
    | Some (M, ys) \<Rightarrow> \<exists>s'. fill_entry (entry t j) s = Inr s' \<and> space_ok s' d ys \<and>
        slot_frame (mem s') d = M"
proof (cases "tab_entry (mem s) t j")
  case None
  then have abs: "load32 (mem s) (entry t j) AND PTE_P = 0" by (simp add: entry_absent)
  show ?thesis
  proof (cases xs)
    case Nil
    then show ?thesis using None i j t fill_entry_oom [OF _ abs] space_okD(1) [OF ok] by simp
  next
    case (Cons x ys)
    obtain s' where s': "fill_entry (entry t j) s = Inr s'" "free_list s' ys"
      "mem s' = filled (mem s) t j x"
      using fill_entry_absent [OF _ abs] space_okD(1) [OF ok] Cons unfolding filled_def by metis
    have M: "slot_frame (mem s') d = (slot_frame (mem s) d)(Leaf i j \<mapsto> x)"
      using slot_frame_fill_leaf ok i j t None Cons s'(3) by simp
    then have "space_ok s' d ys" using space_ok_extend [OF _ s'(2)] ok Cons by blast
    then show ?thesis using s' M None i j t Cons by simp
  qed
next
  case (Some f)
  then have "load32 (mem s) (entry t j) AND PTE_P \<noteq> 0" by (auto simp: tab_entry_def Let_def)
  then show ?thesis using Some i j t ok by (simp add: fill_entry_present)
qed

lemma user_PDX:
  assumes "va < KOFFSET"
  shows "unat (PDX va) < USER_PDES"
proof -
  have "unat (PDX va) = unat va div 2 ^ 22 mod 1024"
    by (simp add: PDX_def and_mask10 unsigned_take_bit_eq unat_drop_bit_eq take_bit_eq_mod drop_bit_eq_div
        unat_div_distrib unat_mod_distrib)
  moreover have "unat va < 0xC0000000" using assms by (simp add: word_less_nat_alt)
  then have "unat va div 2 ^ 22 < 768" by (simp add: div_less_iff_less_mult)
  ultimately show ?thesis by simp
qed

lemma vm_fill_maps: "vm_fill sl st = Some (M, ys) \<Longrightarrow> M sl \<noteq> None"
  by (cases st) (auto split: option.splits list.splits)

lemma vm_fill_extends: "vm_fill sl (M, xs) = Some (M', ys) \<Longrightarrow> M \<subseteq>\<^sub>m M'"
  by (auto simp: map_le_def split: option.splits list.splits)

lemma pgdir_walk_refines_lemma:
  assumes ok: "space_ok s d xs" and va: "va < KOFFSET"
  shows "case vm_touch (unat (PDX va)) (unat (PTX va)) (slot_frame (mem s) d, xs) of
      None \<Rightarrow> pgdir_walk (page2kva d) va True s = Inl NullDeref
    | Some (M, ys) \<Rightarrow> \<exists>pte s'. pgdir_walk (page2kva d) va True s = Inr (Some pte, s') \<and>
        space_ok s' d ys \<and> slot_frame (mem s') d = M \<and>
        tab_entry (mem s') d (unat (PDX va)) = Some (fr (load32 (mem s') (entry d (unat (PDX va))))) \<and>
        lin pte = entry (fr (load32 (mem s') (entry d (unat (PDX va))))) (unat (PTX va))"
proof -
  let ?i = "unat (PDX va)" and ?j = "unat (PTX va)"
  have i: "?i < USER_PDES" using va by (rule user_PDX)
  have walk: "pgdir_walk (page2kva d) va True s = bnd (fill_entry (entry d ?i) s) (\<lambda>s1.
      let pte = PTE_ADDR (load32 (mem s1) (entry d ?i)) + PTX va * 4
      in bnd (fill_entry (lin pte) s1) (\<lambda>s2. Inr (Some pte, s2)))"
    by (simp add: pgdir_walk_def pgdir_entry Let_def)
  show ?thesis
  proof (cases "vm_fill (Tab ?i) (slot_frame (mem s) d, xs)")
    case None
    then show ?thesis using fill_tab_refines [OF ok i] by (simp add: vm_touch_def walk)
  next
    case (Some st1)
    obtain M1 ys1 where st1: "st1 = (M1, ys1)" by (cases st1)
    obtain s1 where s1: "fill_entry (entry d ?i) s = Inr s1" "space_ok s1 d ys1"
      "slot_frame (mem s1) d = M1"
      using fill_tab_refines [OF ok i] Some st1 by auto
    have "M1 (Tab ?i) \<noteq> None" using Some st1 vm_fill_maps by blast
    then obtain t where t: "tab_entry (mem s1) d ?i = Some t" using s1(3) i by force
    then have fr: "fr (load32 (mem s1) (entry d ?i)) = t"
      by (auto simp: tab_entry_def Let_def split: if_splits)
    let ?p = "PTE_ADDR (load32 (mem s1) (entry d ?i)) + PTX va * 4"
    have lin: "lin ?p = entry t ?j" by (simp add: lin_PTE_ADDR fr)
    then have walk1: "pgdir_walk (page2kva d) va True s =
        bnd (fill_entry (entry t ?j) s1) (\<lambda>s2. Inr (Some ?p, s2))"
      unfolding walk s1(1) by (simp add: Let_def)
    show ?thesis
    proof (cases "vm_fill (Leaf ?i ?j) (M1, ys1)")
      case None
      then show ?thesis
        using fill_leaf_refines [OF s1(2) i _ t, of ?j] Some st1 s1(3) walk1 by (simp add: vm_touch_def)
    next
      case (Some st2)
      obtain M2 ys2 where st2: "st2 = (M2, ys2)" by (cases st2)
      obtain s2 where s2: "fill_entry (entry t ?j) s1 = Inr s2" "space_ok s2 d ys2"
        "slot_frame (mem s2) d = M2"
        using fill_leaf_refines [OF s1(2) i _ t, of ?j] Some st2 s1(3) by auto
      have "M1 \<subseteq>\<^sub>m M2" using Some st2 vm_fill_extends by blast
      then have "M2 (Tab ?i) = Some t"
        using t s1(3) i by (force simp: map_le_def dom_def)
      then have t2: "tab_entry (mem s2) d ?i = Some t" using s2(3) i by auto
      then have "fr (load32 (mem s2) (entry d ?i)) = t"
        by (auto simp: tab_entry_def Let_def split: if_splits)
      then show ?thesis
        using walk1 s2 lin t2 \<open>vm_fill (Tab ?i) _ = Some st1\<close> Some st1 st2 by (simp add: vm_touch_def)
    qed
  qed
qed

subsection \<open>Translations\<close>

lemma PTE_ADDR_page2pa [simp]: "PTE_ADDR (page2pa d) = page2pa d"
  by (rule bit_word_eqI) (auto simp: PTE_ADDR_alt page2pa_def bit_simps)

lemma PTE_ADDR_fr: "PTE_ADDR e = page2pa (fr e)"
  by (simp add: PTE_ADDR_alt page2pa_def fr_def)

lemma page_walk_slot:
  assumes "d < npages" and "va < KOFFSET"
  shows "page_walk m (page2pa d) va =
    map_option (\<lambda>f. page2pa f + PGOFF va) (slot_frame m d (Leaf (unat (PDX va)) (unat (PTX va))))"
proof -
  let ?e = "load32 m (entry d (unat (PDX va)))"
  have "lin (page2pa d + PDX va * 4) = entry d (unat (PDX va))"
    by (simp add: lin_def entry_def page2kva_def)
  then have pde: "pde_at m (page2pa d) va = ?e" by (simp add: pde_at_def)
  then have pte: "pte_at m (page2pa d) va = load32 m (entry (fr ?e) (unat (PTX va)))"
    by (simp add: pte_at_def lin_PTE_ADDR)
  show ?thesis
    unfolding page_walk_def PTE_ADDR_page2pa pde pte
    using user_PDX [OF assms(2)] by (simp add: tab_entry_def Let_def PTE_ADDR_fr)
qed

lemma page_walk_mono:
  assumes "d < npages" and "va < KOFFSET" and "slot_frame m d \<subseteq>\<^sub>m slot_frame m' d"
    and "page_walk m (page2pa d) va = Some p"
  shows "page_walk m' (page2pa d) va = Some p"
proof -
  obtain f where f: "slot_frame m d (Leaf (unat (PDX va)) (unat (PTX va))) = Some f"
    and p: "p = page2pa f + PGOFF va"
    using assms(4) unfolding page_walk_slot [OF assms(1,2)] map_option_eq_Some by blast
  then have "slot_frame m' d (Leaf (unat (PDX va)) (unat (PTX va))) = Some f"
    using assms(3) unfolding map_le_def by (metis domI)
  then show ?thesis using p unfolding page_walk_slot [OF assms(1,2)] by (simp only: option.map)
qed

lemma PGNUM_PTE_ADDR: "PGNUM (PTE_ADDR e) = PGNUM e"
  by (rule bit_word_eqI) (auto simp: PGNUM_def PTE_ADDR_alt bit_simps dest: bit_imp_le_length)

lemma of_nat_inj_npages:
  assumes "f < npages" and "g < npages"
  shows "(of_nat f :: u32) = of_nat g \<longleftrightarrow> f = g"
proof -
  have "unat (of_nat f :: u32) = f" "unat (of_nat g :: u32) = g"
    using assms npages_less by (simp_all add: npages_def)
  then show ?thesis by metis
qed

lemma PGNUM_eq_iff: "PGNUM a = PGNUM b \<longleftrightarrow> PDX a = PDX b \<and> PTX a = PTX b"
proof
  assume eq: "PGNUM a = PGNUM b"
  have "PDX x = take_bit 10 (drop_bit 10 (PGNUM x))" "PTX x = take_bit 10 (PGNUM x)" for x
    by (simp_all add: PDX_def PTX_def PGNUM_def and_mask10)
  then show "PDX a = PDX b \<and> PTX a = PTX b" using eq by simp
next
  have "PGNUM x = push_bit 10 (PDX x) OR PTX x" for x
  proof (rule bit_word_eqI)
    fix n
    assume "n < LENGTH(32)"
    then have "n < 10 \<or> 10 \<le> n \<and> n < 20 \<or> 20 \<le> n \<and> n < 32" by auto
    then show "bit (PGNUM x) n = bit (push_bit 10 (PDX x) OR PTX x) n"
      by (elim disjE)
        (auto simp: PGNUM_def PDX_def PTX_def and_mask10 bit_simps dest: bit_imp_le_length)
  qed
  then show "PDX a = PDX b \<and> PTX a = PTX b \<Longrightarrow> PGNUM a = PGNUM b" by simp
qed

lemma PGOFF_lt: "unat (PGOFF va) < 4096"
  using take_bit_nat_less_exp [of 12 "unat va"]
  by (simp add: PGOFF_def and_mask12 unsigned_take_bit_eq)

lemma PGNUM_page2pa:
  assumes "f < npages"
  shows "PGNUM (page2pa f + PGOFF va) = of_nat f"
proof -
  have "unat (page2pa f + PGOFF va) = f * 4096 + unat (PGOFF va)"
    using unat_page2pa [OF assms] npages_less [OF assms] PGOFF_lt [of va]
    by (simp add: unat_word_ariths)
  moreover have "unat (PGNUM x) = unat x div 4096" for x
    by (simp add: PGNUM_def drop_bit_eq_div unat_div_distrib)
  ultimately have "unat (PGNUM (page2pa f + PGOFF va)) = f"
    using PGOFF_lt [of va] by simp
  moreover have "of_nat (unat (PGNUM (page2pa f + PGOFF va))) = PGNUM (page2pa f + PGOFF va)" by simp
  ultimately show ?thesis by (simp only:)
qed

lemma walk_frame:
  assumes "space_ok s d xs" and "va < KOFFSET" and "page_walk (mem s) (page2pa d) va = Some p"
  obtains f where "slot_frame (mem s) d (Leaf (unat (PDX va)) (unat (PTX va))) = Some f"
    and "PGNUM p = of_nat f" and "f < npages"
proof -
  have d: "d < npages" using space_ok_dir [OF assms(1)] by simp
  obtain f where f: "slot_frame (mem s) d (Leaf (unat (PDX va)) (unat (PTX va))) = Some f"
    and p: "p = page2pa f + PGOFF va"
    using assms(3) unfolding page_walk_slot [OF d assms(2)] map_option_eq_Some by blast
  moreover have "f < npages" using space_okD(3) [OF assms(1) f] .
  ultimately show thesis using that PGNUM_page2pa by blast
qed

lemma vm_touch_enough:
  assumes "2 \<le> length xs"
  obtains M' ys where "vm_touch i j (M, xs) = Some (M', ys)"
proof -
  obtain x y zs where "xs = x # y # zs"
    using assms by (cases xs; cases "tl xs") auto
  then have "vm_touch i j (M, xs) \<noteq> None"
    by (cases "M (Tab i)"; cases "M (Leaf i j)") (auto simp: vm_touch_def)
  then show thesis using that by auto
qed

lemma vm_touch_extends: "vm_touch i j (M, xs) = Some (M', ys) \<Longrightarrow> M \<subseteq>\<^sub>m M'"
  unfolding vm_touch_def
  by (auto split: option.splits dest!: vm_fill_extends intro: map_le_trans simp del: vm_fill.simps)

lemma vm_touch_length: "vm_touch i j (M, xs) = Some (M', ys) \<Longrightarrow> length xs \<le> length ys + 2"
  unfolding vm_touch_def by (auto split: option.splits list.splits if_splits)

lemma vm_touch_maps: "vm_touch i j st = Some (M', ys) \<Longrightarrow> M' (Leaf i j) \<noteq> None"
  unfolding vm_touch_def by (auto split: option.splits dest!: vm_fill_maps simp del: vm_fill.simps)

lemma mm_malloc_maps_lemma:
  assumes ok: "space_ok s d xs" and len: "2 \<le> length xs" and va: "va < KOFFSET"
  obtains pa s' ys where "mm_malloc (page2kva d) va s = Inr (pa, s')" and "space_ok s' d ys"
    and "page_walk (mem s') (page2pa d) va = Some pa"
    and "slot_frame (mem s) d \<subseteq>\<^sub>m slot_frame (mem s') d" and "length xs \<le> length ys + 2"
proof -
  let ?i = "unat (PDX va)" and ?j = "unat (PTX va)"
  obtain M ys where M: "vm_touch ?i ?j (slot_frame (mem s) d, xs) = Some (M, ys)"
    using vm_touch_enough [OF len] by blast
  obtain pte s' where w: "pgdir_walk (page2kva d) va True s = Inr (Some pte, s')"
    and ok': "space_ok s' d ys" and sf: "slot_frame (mem s') d = M"
    and t: "tab_entry (mem s') d ?i = Some (fr (load32 (mem s') (entry d ?i)))"
    and lin: "lin pte = entry (fr (load32 (mem s') (entry d ?i))) ?j"
    using pgdir_walk_refines_lemma [OF ok va] M by auto
  let ?e = "load32 (mem s') (lin pte)"
  have mal: "mm_malloc (page2kva d) va s = Inr (PTE_ADDR ?e + PGOFF va, s')"
    by (simp add: mm_malloc_def w)
  have leaf: "slot_frame (mem s') d (Leaf ?i ?j) = tab_entry (mem s') (fr (load32 (mem s') (entry d ?i))) ?j"
    using t user_PDX [OF va] by simp
  moreover have "M (Leaf ?i ?j) \<noteq> None" using vm_touch_maps [OF M] .
  ultimately have "slot_frame (mem s') d (Leaf ?i ?j) = Some (fr ?e)"
    using sf lin by (auto simp: tab_entry_def Let_def split: if_splits)
  moreover have "d < npages" using space_ok_dir [OF ok] by simp
  ultimately have "page_walk (mem s') (page2pa d) va = Some (PTE_ADDR ?e + PGOFF va)"
    using page_walk_slot va by (simp add: PTE_ADDR_fr)
  then show thesis using that mal ok' sf vm_touch_extends [OF M] vm_touch_length [OF M] by blast
qed

lemma vm_fill_ran: "vm_fill sl (M, xs) = Some (M', ys) \<Longrightarrow> ran M' \<subseteq> ran M \<union> set xs \<and> set ys \<subseteq> set xs"
  by (auto simp: ran_def split: option.splits list.splits if_splits)

lemma vm_touch_ran: "vm_touch i j (M, xs) = Some (M', ys) \<Longrightarrow> ran M' \<subseteq> ran M \<union> set xs"
  unfolding vm_touch_def by (auto split: option.splits dest!: vm_fill_ran simp del: vm_fill.simps)

text \<open>The frames after \<open>mm_malloc\<close> are the old ones and pages that were free.\<close>

lemma mm_malloc_ran:
  assumes ok: "space_ok s d xs" and va: "va < KOFFSET" and r: "mm_malloc (page2kva d) va s = Inr (pa, s')"
  shows "ran (slot_frame (mem s') d) \<subseteq> ran (slot_frame (mem s) d) \<union> set xs"
proof -
  obtain pte where w: "pgdir_walk (page2kva d) va True s = Inr (Some pte, s')"
    using r by (auto simp: mm_malloc_def bnd_Inr_iff split: option.splits)
  then obtain M ys where "vm_touch (unat (PDX va)) (unat (PTX va)) (slot_frame (mem s) d, xs) = Some (M, ys)"
    "slot_frame (mem s') d = M"
    using pgdir_walk_refines_lemma [OF ok va] by (auto split: option.splits)
  then show ?thesis using vm_touch_ran by blast
qed

lemma space_ok_fresh:
  assumes "page_free_list s = None" and "d \<le> 1024"
  shows "space_ok (page_init (s\<lparr>mem := (\<lambda>_. 0)\<rparr>)) d (rev [1025..<npages])"
    and "ran (slot_frame (mem (page_init (s\<lparr>mem := (\<lambda>_. 0)\<rparr>))) d) = {d}"
proof -
  let ?s = "s\<lparr>mem := (\<lambda>_. 0)\<rparr>"
  have step: "mem (page_init_step i u) = mem u" for i and u :: "'a pm_scheme"
    by (simp add: page_init_step_def)
  have "mem (fold page_init_step is u) = mem u" for "is" and u :: "'a pm_scheme"
    by (induction "is" arbitrary: u) (simp_all add: step)
  then have m: "mem (page_init ?s) = (\<lambda>_. 0)" by (simp add: page_init_def)
  have "tab_entry (\<lambda>_. 0) f k = None" for f k by (simp add: tab_entry_def load32_def)
  then have sf: "slot_frame (\<lambda>_. 0) d sl = (if sl = Dir then Some d else None)" for sl
    by (cases sl) simp_all
  then show "ran (slot_frame (mem (page_init ?s)) d) = {d}" unfolding m ran_def by auto
  have "free_list (page_init ?s) (rev [1025..<npages])"
    using assms(1) by (intro page_init_free_list) simp
  moreover have "d < npages" using assms(2) by (simp add: npages_def)
  ultimately show "space_ok (page_init ?s) d (rev [1025..<npages])"
    using assms(2) by (auto simp: space_ok_def m sf split: if_splits)
qed

subsection \<open>Directories and blocks\<close>

lemma frame_addr:
  assumes "f < npages" and "k < 4096"
  shows "frame (page2kva f + of_nat k) = f"
proof -
  have "unat (page2kva f + of_nat k - page2kva f) = k" using assms(2) by simp
  then show ?thesis using frame_region [OF assms(1), of "page2kva f + of_nat k"] assms(2) by simp
qed

lemma cr3_page: "f < npages \<Longrightarrow> cr3_with_base (drop_bit 12 (page2pa f)) = page2pa f"
proof -
  assume f: "f < npages"
  have "drop_bit 12 (page2pa f) = of_nat f"
    using PGNUM_page2pa [OF f, of 0] by (simp add: PGNUM_def PGOFF_def)
  moreover have "take_bit 20 (of_nat f :: u32) = of_nat f"
    using npages_less [OF f] by (intro take_bit_below) (simp add: word_less_nat_alt)
  ultimately show ?thesis by (simp add: cr3_with_base_def page2pa_def)
qed

lemma load32_moved:
  assumes "k + 4 \<le> n" and "n < 2 ^ 32"
  shows "load32 (moved m d s n) (d + of_nat k) = load32 m (s + of_nat k)"
proof -
  have "moved m d s n (d + of_nat k + of_nat r) = m (s + of_nat k + of_nat r)" if "r < 4" for r
  proof -
    have "unat (of_nat (k + r) :: u32) = k + r" using that assms by (intro unat_of_nat_u32) simp
    then have "unat (d + of_nat k + of_nat r - d) = k + r" by simp
    then show ?thesis using that assms by (simp add: moved_def add.assoc)
  qed
  from this [of 0] this [of 1] this [of 2] this [of 3] show ?thesis by (simp add: load32_def)
qed

lemma moved_other: "n \<le> unat (x - d) \<Longrightarrow> moved m d s n x = m x"
  by (simp add: moved_def)

text \<open>The kernel part of the directory: entries 768 to 799.\<close>

lemma kernel_entries:
  assumes "c < npages" "d < npages" "c \<noteq> d" and m: "m' = memcpy m (page2kva c + 768 * 4) (page2kva d + 768 * 4) (32 * 4)"
  shows "768 \<le> k \<Longrightarrow> k < 800 \<Longrightarrow> load32 m' (entry c k) = load32 m (entry d k)"
    and "k < 768 \<Longrightarrow> load32 m' (entry c k) = load32 m (entry c k)"
    and "frame a \<noteq> c \<Longrightarrow> m' a = m a"
proof -
  have u: "unat (page2kva f + 768 * 4) = 0xC0000C00 + f * 4096" if "f < npages" for f
    using unat_page2kva [OF that] npages_less [OF that] by (simp add: unat_word_ariths)
  have m': "m' = moved m (page2kva c + 768 * 4) (page2kva d + 768 * 4) 128"
    unfolding m using u [OF assms(1)] u [OF assms(2)] npages_less [OF assms(1)] npages_less [OF assms(2)]
    by (subst memcpy_eq) simp_all
  show "load32 m' (entry c k) = load32 m (entry d k)" if k: "768 \<le> k" "k < 800"
  proof -
    have E: "entry f k = page2kva f + 768 * 4 + of_nat ((k - 768) * 4)" for f
      using k by (simp add: entry_def of_nat_diff algebra_simps)
    show ?thesis unfolding m' E by (rule load32_moved) (use k in simp_all)
  qed
  have out: "128 \<le> unat (a - (page2kva c + 768 * 4))" if "frame a \<noteq> c \<or> (\<exists>k < 768. in_region (entry c k) 4 a)" for a
  proof (rule ccontr)
    assume "\<not> 128 \<le> unat (a - (page2kva c + 768 * 4))"
    then obtain r where r: "r < 128" "r = unat (a - (page2kva c + 768 * 4))" by simp
    then have a: "a = page2kva c + of_nat (3072 + r)" by simp
    have "frame a = c" unfolding a using r(1) by (intro frame_addr [OF assms(1)]) simp
    moreover have "\<not> in_region (entry c k) 4 a" if k: "k < 768" for k
    proof
      assume "in_region (entry c k) 4 a"
      then obtain q where q: "q < 4" "a = entry c k + of_nat q" by (auto simp: in_region_iff)
      then have "page2kva c + of_nat (k * 4 + q) = page2kva c + of_nat (3072 + r)"
        unfolding a entry_def by simp
      then have "unat (of_nat (k * 4 + q) :: u32) = unat (of_nat (3072 + r) :: u32)" by simp
      moreover have "unat (of_nat (k * 4 + q) :: u32) = k * 4 + q"
        using k q(1) by (intro unat_of_nat_u32) simp
      moreover have "unat (of_nat (3072 + r) :: u32) = 3072 + r"
        using r(1) by (intro unat_of_nat_u32) simp
      ultimately show False using k q(1) by linarith
    qed
    ultimately show False using that by blast
  qed
  show "k < 768 \<Longrightarrow> load32 m' (entry c k) = load32 m (entry c k)"
    unfolding m' by (rule load32_cong) (use out moved_other in blast)
  show "frame a \<noteq> c \<Longrightarrow> m' a = m a" unfolding m' using out moved_other by blast
qed

definition pm_start :: pm where
  "pm_start = \<lparr>pages = (\<lambda>_. \<lparr>pp_link = None, pp_ref = 0\<rparr>), page_free_list = None, mem = (\<lambda>_. 0)\<rparr>"

text \<open>A fresh address space with two pages of a program mapped, for concrete instances.\<close>

lemma two_mapped_pages:
  "\<exists>(s :: pm) xs p p'. space_ok s 256 xs \<and>
     page_walk (mem s) (page2pa 256) 0x8048000 = Some p \<and>
     page_walk (mem s) (page2pa 256) 0x8049000 = Some p'"
proof -
  let ?s = "page_init (pm_start\<lparr>mem := (\<lambda>_. 0)\<rparr>)"
  have ok: "space_ok ?s 256 (rev [1025..<npages])"
    by (rule space_ok_fresh(1)) (simp_all add: pm_start_def)
  have "1029 \<le> npages" by (simp add: npages_def)
  then have len: "4 \<le> length (rev [1025..<npages])" by simp
  obtain p s1 xs1 where 1: "mm_malloc (page2kva 256) 0x8048000 ?s = Inr (p, s1)"
    "space_ok s1 256 xs1" "page_walk (mem s1) (page2pa 256) 0x8048000 = Some p"
    "length (rev [1025..<npages]) \<le> length xs1 + 2"
    by (rule mm_malloc_maps_lemma [where va = "0x8048000", OF ok]) (use len in simp_all)
  obtain p' s2 xs2 where 2: "space_ok s2 256 xs2"
    "page_walk (mem s2) (page2pa 256) 0x8049000 = Some p'"
    "slot_frame (mem s1) 256 \<subseteq>\<^sub>m slot_frame (mem s2) 256"
    "mm_malloc (page2kva 256) 0x8049000 s1 = Inr (p', s2)" "length xs1 \<le> length xs2 + 2"
    by (rule mm_malloc_maps_lemma [where va = "0x8049000", OF 1(2)]) (use len 1(4) in simp_all)
  have "page_walk (mem s2) (page2pa 256) 0x8048000 = Some p"
    by (rule page_walk_mono [OF _ _ 2(3) 1(3)]) (simp_all add: npages_def)
  then show ?thesis using 2 by blast
qed

section \<open>Properties\<close>

text \<open>
  after \<open>page_init\<close> on an empty free list, \<open>page_alloc\<close> hands out the pages 32767,
  32766, \<dots>, 1025 in this order, each exactly once, whatever flags are passed: the pages up to
  1024, which hold the kernel image, are never allocated, and the request after the last
  page returns a null pointer.
\<close>

theorem page_init_then_alloc:
  assumes "page_free_list s = None"
  shows "fst (alloc_seq (page_alloc fl) n (page_init s)) = take n (rev [1025..<npages]) \<and>
    distinct (fst (alloc_seq (page_alloc fl) n (page_init s))) \<and>
    (npages - 1025 \<le> n \<longrightarrow>
      page_alloc fl (snd (alloc_seq (page_alloc fl) n (page_init s))) =
        (None, snd (alloc_seq (page_alloc fl) n (page_init s))))"
proof (intro conjI impI)
  let ?xs = "rev [1025..<npages]"
  have fl: "free_list (page_init s) ?xs" by (rule page_init_free_list [OF assms])
  note seq = ppool.alloc_seq_take [OF fl, of fl n]
  show "fst (alloc_seq (page_alloc fl) n (page_init s)) = take n ?xs" using seq by blast
  show "distinct (fst (alloc_seq (page_alloc fl) n (page_init s)))"
    by (rule ppool.alloc_seq_distinct [OF fl])
  assume "npages - 1025 \<le> n"
  then have "drop n ?xs = []" by simp
  then show "page_alloc fl (snd (alloc_seq (page_alloc fl) n (page_init s))) =
      (None, snd (alloc_seq (page_alloc fl) n (page_init s)))"
    using seq page_alloc_Nil by metis
qed

theorem page_init_then_alloc_witness:
  "fst (alloc_seq (page_alloc 1) 2 (page_init pm_start)) = take 2 (rev [1025..<npages])"
  using page_init_then_alloc [of pm_start 1 2] by (simp add: pm_start_def)

text \<open>
  C11: \<open>pgdir_walk\<close> with \<open>create\<close> refines the abstract operation \<open>vm_touch\<close> on the map of
  page-table slots to frames: it fills exactly the missing directory and table entry with the
  next free pages, keeps every other translation, and keeps the address space well-formed. When
  a page is needed and none is left, the code follows a null pointer.
\<close>

theorem pgdir_walk_refines:
  assumes "space_ok s d xs" and "va < KOFFSET"
  shows "case vm_touch (unat (PDX va)) (unat (PTX va)) (slot_frame (mem s) d, xs) of
      None \<Rightarrow> pgdir_walk (page2kva d) va True s = Inl NullDeref
    | Some (M, ys) \<Rightarrow> \<exists>pte s'. pgdir_walk (page2kva d) va True s = Inr (Some pte, s') \<and>
        space_ok s' d ys \<and> slot_frame (mem s') d = M"
  using pgdir_walk_refines_lemma [OF assms] by (auto split: option.splits)

theorem pgdir_walk_refines_witness:
  "case vm_touch (unat (PDX 0x8048000)) (unat (PTX 0x8048000))
      (slot_frame (mem (page_init (pm_start\<lparr>mem := (\<lambda>_. 0)\<rparr>))) 256, rev [1025..<npages]) of
      None \<Rightarrow> pgdir_walk (page2kva 256) 0x8048000 True (page_init (pm_start\<lparr>mem := (\<lambda>_. 0)\<rparr>)) = Inl NullDeref
    | Some (M, ys) \<Rightarrow> \<exists>pte s'.
        pgdir_walk (page2kva 256) 0x8048000 True (page_init (pm_start\<lparr>mem := (\<lambda>_. 0)\<rparr>)) = Inr (Some pte, s') \<and>
        space_ok s' 256 ys \<and> slot_frame (mem s') 256 = M"
proof (rule pgdir_walk_refines)
  show "space_ok (page_init (pm_start\<lparr>mem := (\<lambda>_. 0)\<rparr>)) 256 (rev [1025..<npages])"
    by (rule space_ok_fresh(1)) (simp_all add: pm_start_def)
qed simp

text \<open>
  C13: \<open>mm_malloc\<close>, which the loader calls for every page of a program, succeeds as long as
  two pages are free; afterwards the processor translates the virtual address to the returned
  physical address, and every address that was mapped before is translated as before.
\<close>

theorem mm_malloc_maps:
  assumes "space_ok s d xs" and "2 \<le> length xs" and "va < KOFFSET"
  shows "\<exists>pa s' ys. mm_malloc (page2kva d) va s = Inr (pa, s') \<and> space_ok s' d ys \<and>
    page_walk (mem s') (page2pa d) va = Some pa \<and>
    (\<forall>va' p. va' < KOFFSET \<and> page_walk (mem s) (page2pa d) va' = Some p \<longrightarrow>
       page_walk (mem s') (page2pa d) va' = Some p)"
proof -
  obtain pa s' ys where r: "mm_malloc (page2kva d) va s = Inr (pa, s')" "space_ok s' d ys"
    "page_walk (mem s') (page2pa d) va = Some pa" "slot_frame (mem s) d \<subseteq>\<^sub>m slot_frame (mem s') d"
    using mm_malloc_maps_lemma [OF assms] by metis
  have "d < npages" using space_ok_dir [OF assms(1)] by simp
  then have "page_walk (mem s') (page2pa d) va' = Some p"
    if "va' < KOFFSET" "page_walk (mem s) (page2pa d) va' = Some p" for va' p
    using page_walk_mono [OF _ that(1) r(4) that(2)] by blast
  with r show ?thesis by blast
qed

theorem mm_malloc_maps_witness:
  "\<exists>pa s' ys. mm_malloc (page2kva 256) 0x8048000 (page_init (pm_start\<lparr>mem := (\<lambda>_. 0)\<rparr>)) = Inr (pa, s') \<and>
    space_ok s' 256 ys \<and> page_walk (mem s') (page2pa 256) 0x8048000 = Some pa \<and>
    (\<forall>va' p. va' < KOFFSET \<and>
       page_walk (mem (page_init (pm_start\<lparr>mem := (\<lambda>_. 0)\<rparr>))) (page2pa 256) va' = Some p \<longrightarrow>
       page_walk (mem s') (page2pa 256) va' = Some p)"
proof (rule mm_malloc_maps)
  show "space_ok (page_init (pm_start\<lparr>mem := (\<lambda>_. 0)\<rparr>)) 256 (rev [1025..<npages])"
    by (rule space_ok_fresh(1)) (simp_all add: pm_start_def)
  have "1027 \<le> npages" by (simp add: npages_def)
  then show "2 \<le> length (rev [1025..<npages])" by simp
qed simp





end
