(* ===== verification/Paging_Init.thy ===== *)
theory Paging_Init
  imports Pmap
begin

text \<open>
  The page tables the kernel sets up before any process exists: \<open>init_page\<close>
  (\<open>kernel/src/memory/kvm.c\<close>), \<open>init_mm\<close> (\<open>mm.c\<close>) and \<open>create_video_mapping\<close> (\<open>vmem.c\<close>). The
  statically allocated tables are parameters: the addresses the linker gives them.
\<close>

section \<open>Kernel page tables\<close>

text \<open>
  The loop \<open>stosl; subl 4096, eax; jge\<close> that fills the page-table entries downwards.
\<close>

function fill_ptes :: "mem \<Rightarrow> addr \<Rightarrow> u32 \<Rightarrow> mem" where
  "fill_ptes m edi eax =
     (let m' = store32 m edi eax
      in if 4096 \<le> sint eax then fill_ptes m' (edi - 4) (eax - 4096) else m')"
  by pat_completeness auto
termination
proof (relation "measure (\<lambda>(m, edi, eax). unat eax)")
  fix m m' :: mem and edi eax :: u32
  assume "4096 \<le> sint eax"
  moreover have "sint eax < 2 ^ 31" using sint_less [of eax] by simp
  moreover have "uint eax = take_bit 32 (sint eax)" using uint_sint [of eax] by simp
  ultimately have "4096 \<le> uint eax" by (simp add: take_bit_int_eq_self)
  then have "4096 \<le> unat eax" by (simp only: unat_eq_nat_uint)
  then show "((m', edi - 4, eax - 4096), m, edi, eax) \<in> measure (\<lambda>(m, edi, eax). unat eax)"
    by (simp add: unat_sub word_le_nat_alt)
qed simp

declare fill_ptes.simps [simp del]

definition init_page :: "addr \<Rightarrow> addr \<Rightarrow> u32 \<Rightarrow> mem \<Rightarrow> mem \<times> u32 \<times> u32" where
  "init_page kpdir kptable cr0 m =
     (let pdir = va_to_pa kpdir; ptable = va_to_pa kptable;
          m1 = memset m (lin pdir) 0 (1024 * 4);
          m2 = fold (\<lambda>i m.
                 let pt = ptable + of_nat (i * 4096);
                     m' = store32 m (lin (pdir + of_nat (i * 4))) (make_pde pt)
                 in store32 m' (lin (pdir + of_nat ((i + 768) * 4))) (make_pde pt)) [0..<32] m1;
          m3 = fill_ptes m2 (lin (ptable + 32 * 4096 - 4)) ((PHY_MEM - PGSIZE) OR 7);
          cr3 = cr3_with_base (drop_bit 12 pdir)
      in (m3, cr3, set_bit 31 cr0))"

definition init_mm :: "addr \<Rightarrow> addr \<Rightarrow> mem \<Rightarrow> mem \<times> u32" where
  "init_mm kpdir updir m =
     (let m1 = memset m updir 0 (1024 * 4);
          m2 = memcpy m1 (updir + 768 * 4) (kpdir + 768 * 4) (32 * 4)
      in (m2, va_to_pa updir AND NOT 0xFFF))"

definition create_video_mapping :: "addr \<Rightarrow> addr \<Rightarrow> mem \<Rightarrow> mem" where
  "create_video_mapping updir vdtable m =
     (let m1 = store32 m updir (make_pde (va_to_pa vdtable))
      in fst (fold (\<lambda>i (m, pframe).
           (store32 m (vdtable + of_nat ((i + 0xA0) * 4)) (make_pte pframe), pframe + PGSIZE))
           [0..<16] (m1, 0xA0000)))"

section \<open>Filling entries\<close>

text \<open>Entry \<open>k\<close> of the consecutive tables that start in frame \<open>kt\<close>.\<close>

definition lent :: "nat \<Rightarrow> nat \<Rightarrow> addr" where
  "lent kt k = entry (kt + k div 1024) (k mod 1024)"

lemma page2kva_add: "page2kva (f + n) = page2kva f + of_nat n * 4096"
  by (simp add: page2kva_def page2pa_def push_bit_eq_mult algebra_simps)

lemma lent_addr: "lent kt k = page2kva kt + of_nat k * 4"
proof -
  have k: "of_nat k = (of_nat (k div 1024) * 1024 + of_nat (k mod 1024) :: u32)"
    by (metis div_mult_mod_eq of_nat_add of_nat_mult of_nat_numeral)
  have "lent kt k = page2kva kt + (of_nat (k div 1024) * 1024 + of_nat (k mod 1024)) * 4"
    unfolding lent_def entry_def page2kva_add by (simp add: algebra_simps)
  then show ?thesis using k by simp
qed

lemma or_7: "of_nat (n * 4096) OR 7 = (of_nat (n * 4096 + 7) :: u32)"
proof -
  have "of_nat (n * 4096) AND (7 :: u32) = 0"
  proof (rule bit_word_eqI)
    fix k
    have "of_nat (n * 4096) = (push_bit 12 (of_nat n) :: u32)" by (simp add: push_bit_eq_mult)
    moreover have "bit (7 :: u32) k \<Longrightarrow> k < 3" using high_bit_below [of 7 3 k] by force
    ultimately show "bit (of_nat (n * 4096) AND (7 :: u32)) k = bit 0 k" by (auto simp: bit_simps)
  qed
  then have "of_nat (n * 4096) + (7 :: u32) = of_nat (n * 4096) OR 7" by (rule disjunctive_add_eq_or)
  then show ?thesis by simp
qed

lemma load_lent_store:
  assumes "kt + 32 \<le> npages" and "n < 32768" and "k < 32768"
  shows "load32 (store32 m (lent kt n) v) (lent kt k) = (if n = k then v else load32 m (lent kt k))"
proof -
  have "n div 1024 < 32" "k div 1024 < 32" using assms by (simp_all add: div_less_iff_less_mult)
  then have f: "kt + n div 1024 < npages" "kt + k div 1024 < npages" using assms(1) by linarith+
  have "(n div 1024 = k div 1024 \<and> n mod 1024 = k mod 1024) \<longleftrightarrow> n = k" by (metis div_mult_mod_eq)
  then show ?thesis unfolding lent_def using load_entry_store [OF f, of "n mod 1024" "k mod 1024" m v] by auto
qed

lemma load_other_store:
  assumes "kt + 32 \<le> npages" and "n < 32768" and "f < npages" and "l < 1024" and "f \<notin> {kt..<kt + 32}"
  shows "load32 (store32 m (lent kt n) v) (entry f l) = load32 m (entry f l)"
proof -
  have n: "n div 1024 < 32" using assms by (simp add: div_less_iff_less_mult)
  then have "kt + n div 1024 < npages" "kt + n div 1024 \<noteq> f" using assms(1,5) by auto
  then show ?thesis unfolding lent_def
    using load_entry_store [of "kt + n div 1024" f "n mod 1024" l m v] assms(3,4) by simp
qed

text \<open>The entry that maps page \<open>n\<close> of physical memory.\<close>

definition pte_val :: "nat \<Rightarrow> u32" where
  "pte_val n = of_nat (n * 4096) OR 7"

lemma fill_ptes_step:
  assumes "n < 32768"
  shows "fill_ptes m (lent kt n) (pte_val n) =
    (let m' = store32 m (lent kt n) (pte_val n)
     in if n = 0 then m' else fill_ptes m' (lent kt (n - 1)) (pte_val (n - 1)))"
proof -
  have u: "unat (of_nat (n * 4096 + 7) :: u32) = n * 4096 + 7" using assms by (intro unat_of_nat_u32) simp
  then have "uint (of_nat (n * 4096 + 7) :: u32) = int (n * 4096 + 7)" by (simp only: uint_nat)
  then have "sint (of_nat (n * 4096 + 7) :: u32) = int (n * 4096 + 7)"
    using assms unfolding sint_uint by (simp only: signed_take_bit_int_eq_self) (simp add: signed_take_bit_int_eq_self)
  then have s: "4096 \<le> sint (pte_val n) \<longleftrightarrow> n \<noteq> 0"
    unfolding pte_val_def or_7 by (simp only:) auto
  show ?thesis
  proof (cases "n = 0")
    case True
    then show ?thesis using s by (subst fill_ptes.simps) (simp add: Let_def)
  next
    case False
    then have "lent kt n - 4 = lent kt (n - 1)" by (simp add: lent_addr of_nat_diff algebra_simps)
    moreover have "(pte_val n) - 4096 = pte_val (n - 1)"
      unfolding pte_val_def or_7 using False by (simp add: of_nat_diff algebra_simps)
    ultimately show ?thesis using s False by (subst fill_ptes.simps) (simp add: Let_def)
  qed
qed

lemma fill_ptes_loads:
  assumes kt: "kt + 32 \<le> npages"
  shows "n < 32768 \<Longrightarrow> k < 32768 \<Longrightarrow> load32 (fill_ptes m (lent kt n) (pte_val n)) (lent kt k) =
      (if k \<le> n then pte_val k else load32 m (lent kt k))"
    and "n < 32768 \<Longrightarrow> f < npages \<Longrightarrow> l < 1024 \<Longrightarrow> f \<notin> {kt..<kt + 32} \<Longrightarrow>
      load32 (fill_ptes m (lent kt n) (pte_val n)) (entry f l) = load32 m (entry f l)"
proof (induction n arbitrary: m)
  case 0
  {
    case 1
    then show ?case using load_lent_store [OF kt, of 0 k] by (subst fill_ptes_step) (auto simp: Let_def)
  next
    case 2
    then show ?case using load_other_store [OF kt, of 0 f l] by (subst fill_ptes_step) (auto simp: Let_def)
  }
next
  case (Suc n)
  have step: "Suc n < 32768 \<Longrightarrow> fill_ptes m (lent kt (Suc n)) (pte_val (Suc n)) =
      fill_ptes (store32 m (lent kt (Suc n)) (pte_val (Suc n))) (lent kt n) (pte_val n)" for m
    using fill_ptes_step [of "Suc n" m kt] by (simp add: Let_def)
  {
    case 1
    show ?case unfolding step [OF 1(1)]
      using Suc.IH(1) load_lent_store [OF kt 1] 1 by (cases "k = Suc n") auto
  next
    case 2
    then show ?case unfolding step [OF 2(1)] using Suc.IH(2) load_other_store [OF kt 2] by simp
  }
qed

section \<open>Kernel mappings\<close>

text \<open>
  \<open>kdir m kd kt\<close>: the directory in frame \<open>kd\<close> maps the 32 tables from frame \<open>kt\<close> on, and the
  tables map physical memory in order.
\<close>

definition kdir_tables :: "mem \<Rightarrow> nat \<Rightarrow> nat \<Rightarrow> nat \<Rightarrow> bool" where
  "kdir_tables m kd kt off \<longleftrightarrow> (\<forall>i < 32. load32 m (entry kd (i + off)) = page2pa (kt + i) OR 7)"

definition ktables :: "mem \<Rightarrow> nat \<Rightarrow> bool" where
  "ktables m kt \<longleftrightarrow> (\<forall>k < 32768. load32 m (lent kt k) = pte_val k)"

lemma page_walk_entries:
  "page_walk m (page2pa d) va =
     (let e = load32 m (entry d (unat (PDX va))); f = load32 m (entry (fr e) (unat (PTX va)))
      in if e AND PTE_P = 0 then None else if f AND PTE_P = 0 then None else Some (PTE_ADDR f + PGOFF va))"
proof -
  have "lin (page2pa d + PDX va * 4) = entry d (unat (PDX va))"
    by (simp add: lin_def entry_def page2kva_def)
  then have "pde_at m (page2pa d) va = load32 m (entry d (unat (PDX va)))" by (simp add: pde_at_def)
  then show ?thesis
    unfolding page_walk_def PTE_ADDR_page2pa by (simp add: pte_at_def lin_PTE_ADDR Let_def)
qed

lemma unat_PDX: "unat (PDX va) = unat va div 2 ^ 22 mod 1024"
  by (simp add: PDX_def and_mask10 unsigned_take_bit_eq unat_drop_bit_eq take_bit_eq_mod drop_bit_eq_div
      unat_div_distrib unat_mod_distrib)

lemma unat_PTX: "unat (PTX va) = unat va div 2 ^ 12 mod 1024"
  by (simp add: PTX_def and_mask10 unsigned_take_bit_eq unat_drop_bit_eq take_bit_eq_mod drop_bit_eq_div
      unat_div_distrib unat_mod_distrib)

lemma unat_PGOFF: "unat (PGOFF va) = unat va mod 4096"
  by (simp add: PGOFF_def and_mask12 take_bit_eq_mod unat_mod_distrib)

lemma pte_val_parts:
  assumes "n < npages"
  shows "pte_val n AND PTE_P \<noteq> 0" and "PTE_ADDR (pte_val n) = page2pa n"
proof -
  have e: "pte_val n = page2pa n OR 7" by (simp add: pte_val_def page2pa_def push_bit_eq_mult)
  show "pte_val n AND PTE_P \<noteq> 0" unfolding e by (rule fr_page2pa(2) [OF assms])
  show "PTE_ADDR (pte_val n) = page2pa n" unfolding e PTE_ADDR_fr fr_page2pa(1) [OF assms] by (rule refl)
qed

lemma kernel_walk:
  assumes dir: "kdir_tables m kd kt off" and tab: "ktables m kt" and kt: "kt + 32 \<le> npages"
    and pa: "pa < PHY_MEM" and va: "unat (PDX va) = unat pa div 2 ^ 22 + off" "PTX va = PTX pa" "PGOFF va = PGOFF pa"
  shows "page_walk m (page2pa kd) va = Some pa"
proof -
  let ?n = "unat pa div 4096"
  have pb: "unat pa < 134217728" using pa by (simp add: word_less_nat_alt)
  then have n: "?n < 32768" by (simp add: div_less_iff_less_mult)
  then have nn: "?n < npages" by (simp add: npages_def)
  have i: "unat pa div 2 ^ 22 = ?n div 1024" "unat (PTX pa) = ?n mod 1024"
    by (simp_all add: unat_PTX flip: div_mult2_eq)
  then have i32: "?n div 1024 < 32" using n by (simp add: div_less_iff_less_mult)
  have e: "load32 m (entry kd (unat (PDX va))) = page2pa (kt + ?n div 1024) OR 7"
    using dir i32 va(1) i(1) by (simp add: kdir_tables_def)
  have f: "load32 m (entry (kt + ?n div 1024) (unat (PTX va))) = pte_val ?n"
    using tab n va(2) i(2) by (simp add: ktables_def lent_def)
  have "kt + ?n div 1024 < npages" using kt i32 by linarith
  note k = fr_page2pa [OF this]
  have "page2pa ?n + PGOFF pa = pa"
  proof (rule unsigned_word_eqI)
    have "unat (page2pa ?n + PGOFF pa) = ?n * 4096 + unat pa mod 4096"
      using unat_page2pa [OF nn] unat_PGOFF [of pa] pb
      by (simp add: unat_word_ariths)
    then show "unat (page2pa ?n + PGOFF pa) = unat pa" by simp
  qed
  then show ?thesis
    unfolding page_walk_entries Let_def e k(1) f using k(2) pte_val_parts [OF nn] va(3) by simp
qed

lemma high_parts:
  assumes "pa < PHY_MEM"
  shows "unat (PDX (pa + KOFFSET)) = unat pa div 2 ^ 22 + 768" and "PTX (pa + KOFFSET) = PTX pa"
    and "PGOFF (pa + KOFFSET) = PGOFF pa" and "unat (PDX pa) = unat pa div 2 ^ 22 + 0"
proof -
  have pb: "unat pa < 134217728" using assms by (simp add: word_less_nat_alt)
  have u: "unat (pa + KOFFSET) = unat pa + 768 * 2 ^ 22" using pb by (simp add: unat_word_ariths)
  have d: "unat pa div 2 ^ 22 < 32" using pb by (simp add: div_less_iff_less_mult)
  show "unat (PDX (pa + KOFFSET)) = unat pa div 2 ^ 22 + 768" unfolding unat_PDX u using d by simp
  show "unat (PDX pa) = unat pa div 2 ^ 22 + 0" unfolding unat_PDX using d by simp
  have "unat (PTX (pa + KOFFSET)) = unat (PTX pa)"
  proof -
    have "unat pa + 768 * 2 ^ 22 = unat pa + (768 * 1024) * 2 ^ 12" by simp
    then have "(unat pa + 768 * 2 ^ 22) div 2 ^ 12 = unat pa div 2 ^ 12 + 768 * 1024"
      by (simp only: div_mult_self1)  simp
    moreover have "(unat pa div 2 ^ 12 + 768 * 1024) mod 1024 = unat pa div 2 ^ 12 mod 1024"
      by (rule mod_mult_self1)
    ultimately show ?thesis unfolding unat_PTX u by (simp only:)
  qed
  then show "PTX (pa + KOFFSET) = PTX pa" by (rule unsigned_word_eqI)
  have "(unat pa + (768 * 1024) * 4096) mod 4096 = unat pa mod 4096" by (rule mod_mult_self1)
  then have "unat (PGOFF (pa + KOFFSET)) = unat (PGOFF pa)" unfolding unat_PGOFF u by simp
  then show "PGOFF (pa + KOFFSET) = PGOFF pa" by (rule unsigned_word_eqI)
qed

section \<open>The initial tables\<close>

lemma make_pde_page: "f < npages \<Longrightarrow> make_pde (page2pa f) = page2pa f OR 7"
  using PTE_ADDR_page2pa [of f] by (simp add: make_pde_alt flip: PTE_ADDR_alt)

lemma lin_va_to_pa: "lin (va_to_pa a + b) = a + b"
  by (simp add: lin_def va_to_pa_def)

definition init_pdes :: "nat \<Rightarrow> nat \<Rightarrow> nat \<Rightarrow> mem \<Rightarrow> mem" where
  "init_pdes kd kt n m = fold (\<lambda>i m. store32 (store32 m (entry kd i) (page2pa (kt + i) OR 7))
     (entry kd (i + 768)) (page2pa (kt + i) OR 7)) [0..<n] m"

lemma init_pdes_Suc:
  "init_pdes kd kt (Suc n) m = store32 (store32 (init_pdes kd kt n m) (entry kd n) (page2pa (kt + n) OR 7))
     (entry kd (n + 768)) (page2pa (kt + n) OR 7)"
  by (simp add: init_pdes_def)

lemma init_pdes_load:
  assumes "kd < npages"
  shows "n \<le> 32 \<Longrightarrow> k < 1024 \<Longrightarrow> load32 (init_pdes kd kt n m) (entry kd k) =
      (if k < n then page2pa (kt + k) OR 7 else if 768 \<le> k \<and> k < 768 + n then page2pa (kt + (k - 768)) OR 7
       else load32 m (entry kd k))"
proof (induction n)
  case (Suc n)
  then show ?case unfolding init_pdes_Suc using assms
    by (simp add: load_entry_store) auto
qed (auto simp: init_pdes_def)

lemma init_page_eq:
  assumes "kd < npages" and "kt + 32 \<le> npages"
  shows "init_page (page2kva kd) (page2kva kt) cr0 m =
    (fill_ptes (init_pdes kd kt 32 (memset m (page2kva kd) 0 PGSIZE)) (lent kt 32767) (pte_val 32767),
     page2pa kd, set_bit 31 cr0)"
proof -
  have pa: "va_to_pa (page2kva f) = page2pa f" for f by (simp add: va_to_pa_def page2kva_def)
  have dir: "lin (page2pa kd + of_nat (i * 4)) = entry kd i" for i
    by (simp add: lin_def entry_def page2kva_def)
  have tab: "make_pde (page2pa kt + of_nat (i * 4096)) = page2pa (kt + i) OR 7" if "i < 32" for i
  proof -
    have "page2pa kt + of_nat (i * 4096) = page2pa (kt + i)" by (simp add: page2pa_def push_bit_eq_mult algebra_simps)
    then show ?thesis using make_pde_page [of "kt + i"] that assms(2) by simp
  qed
  have fold: "fold (\<lambda>i m. let pt = page2pa kt + of_nat (i * 4096);
        m' = store32 m (lin (page2pa kd + of_nat (i * 4))) (make_pde pt)
      in store32 m' (lin (page2pa kd + of_nat ((i + 768) * 4))) (make_pde pt)) [0..<n] m = init_pdes kd kt n m"
    if "n \<le> 32" for n m
    unfolding init_pdes_def
  proof (rule fold_cong)
    fix x
    assume "x \<in> set [0..<n]"
    then have "x < 32" using that by simp
    show "(\<lambda>m. let pt = page2pa kt + of_nat (x * 4096);
        m' = store32 m (lin (page2pa kd + of_nat (x * 4))) (make_pde pt)
      in store32 m' (lin (page2pa kd + of_nat ((x + 768) * 4))) (make_pde pt)) =
      (\<lambda>m. store32 (store32 m (entry kd x) (page2pa (kt + x) OR 7)) (entry kd (x + 768)) (page2pa (kt + x) OR 7))"
      unfolding Let_def dir tab [OF \<open>x < 32\<close>] by (rule refl)
  qed simp_all
  have "lin (page2pa kt + 32 * 4096 - 4) = lent kt 32767"
    by (simp add: lent_addr lin_def page2kva_def)
  moreover have "(PHY_MEM - PGSIZE) OR 7 = pte_val 32767" by (simp add: pte_val_def)
  moreover have "cr3_with_base (drop_bit 12 (page2pa kd)) = page2pa kd" by (rule cr3_page [OF assms(1)])
  moreover have "lin (page2pa kd) = page2kva kd" by (simp add: lin_def page2kva_def)
  moreover have "(1024 * 4 :: u32) = PGSIZE" by simp
  ultimately show ?thesis
    unfolding init_page_def Let_def [of "va_to_pa (page2kva kd)"] Let_def [of "va_to_pa (page2kva kt)"] pa
    using fold [of 32] by (simp only: Let_def order_refl) 
qed

lemma init_page_tables:
  assumes "kd < npages" and "kt + 32 \<le> npages" and "kd \<notin> {kt..<kt + 32}"
    and "init_page (page2kva kd) (page2kva kt) cr0 m = (m', c, cr0')"
  shows "kdir_tables m' kd kt 0" and "kdir_tables m' kd kt 768" and "ktables m' kt" and "c = page2pa kd"
    and "cr0' = set_bit 31 cr0"
proof -
  let ?m = "init_pdes kd kt 32 (memset m (page2kva kd) 0 PGSIZE)"
  have m': "m' = fill_ptes ?m (lent kt 32767) (pte_val 32767)" and "c = page2pa kd" "cr0' = set_bit 31 cr0"
    using assms(4) unfolding init_page_eq [OF assms(1,2)] by auto
  then show "c = page2pa kd" "cr0' = set_bit 31 cr0" by auto
  have e: "load32 m' (entry kd k) = load32 ?m (entry kd k)" if "k < 1024" for k
    unfolding m' by (rule fill_ptes_loads(2) [OF assms(2)]) (use assms that in auto)
  show "kdir_tables m' kd kt 0" "kdir_tables m' kd kt 768"
    unfolding kdir_tables_def using e init_pdes_load [OF assms(1), of 32] by simp_all
  show "ktables m' kt" unfolding ktables_def m' using fill_ptes_loads(1) [OF assms(2), of 32767] by simp
qed

text \<open>\<open>init_mm\<close>: no user entry, the kernel's entries 768 to 799.\<close>

lemma init_mm_entries:
  assumes "kd < npages" and "ud < npages" and "kd \<noteq> ud" and "init_mm (page2kva kd) (page2kva ud) m = (m', c)"
  shows "k < 768 \<Longrightarrow> load32 m' (entry ud k) = 0"
    and "768 \<le> k \<Longrightarrow> k < 800 \<Longrightarrow> load32 m' (entry ud k) = load32 m (entry kd k)"
    and "frame a \<noteq> ud \<Longrightarrow> m' a = m a" and "c = page2pa ud"
proof -
  let ?m = "memset m (page2kva ud) 0 PGSIZE"
  have m': "m' = memcpy ?m (page2kva ud + 768 * 4) (page2kva kd + 768 * 4) (32 * 4)"
    and c: "c = va_to_pa (page2kva ud) AND NOT 0xFFF"
    using assms(4) by (auto simp: init_mm_def Let_def)
  note k = kernel_entries [OF assms(2,1) assms(3) [symmetric] m']
  show "k < 768 \<Longrightarrow> load32 m' (entry ud k) = 0"
    using k(2) load_entry_memset [OF assms(2,2), of k m] by simp
  show "768 \<le> k \<Longrightarrow> k < 800 \<Longrightarrow> load32 m' (entry ud k) = load32 m (entry kd k)"
    using k(1) load_entry_memset [OF assms(2,1), of k m] assms(3) by simp
  show "frame a \<noteq> ud \<Longrightarrow> m' a = m a" using k(3) by (simp add: memset_page [OF assms(2)])
  have "c = PTE_ADDR (page2pa ud)" unfolding c PTE_ADDR_def by (simp add: va_to_pa_def page2kva_def)
  then show "c = page2pa ud" by simp
qed

text \<open>\<open>create_video_mapping\<close>: one table, entries 0xA0 to 0xAF.\<close>

definition video_ptes :: "nat \<Rightarrow> nat \<Rightarrow> mem \<Rightarrow> mem \<times> u32" where
  "video_ptes vt n m = fold (\<lambda>i (m, pframe).
     (store32 m (page2kva vt + of_nat ((i + 0xA0) * 4)) (make_pte pframe), pframe + PGSIZE)) [0..<n] (m, 0xA0000)"

lemma video_ptes_load:
  assumes "vt < npages"
  shows "n \<le> 16 \<Longrightarrow> snd (video_ptes vt n m) = page2pa (0xA0 + n) \<and>
    (\<forall>f k. f < npages \<longrightarrow> k < 1024 \<longrightarrow> load32 (fst (video_ptes vt n m)) (entry f k) =
      (if f = vt \<and> 0xA0 \<le> k \<and> k < 0xA0 + n then page2pa k OR 7 else load32 m (entry f k)))"
proof (induction n)
  case 0
  show ?case by (auto simp: video_ptes_def page2pa_def push_bit_eq_mult)
next
  case (Suc n)
  obtain m1 pf where r: "video_ptes vt n m = (m1, pf)" by (cases "video_ptes vt n m")
  then have pf: "pf = page2pa (0xA0 + n)" and IH: "f < npages \<Longrightarrow> k < 1024 \<Longrightarrow> load32 m1 (entry f k) =
      (if f = vt \<and> 0xA0 \<le> k \<and> k < 0xA0 + n then page2pa k OR 7 else load32 m (entry f k))" for f k
    using Suc by auto
  have n: "0xA0 + n < npages" using Suc.prems by (simp add: npages_def)
  have "make_pte pf = page2pa (0xA0 + n) OR 7"
    unfolding pf using make_pde_page [OF n] by (simp add: make_pte_def make_pde_def)
  moreover have "page2kva vt + of_nat ((n + 0xA0) * 4) = entry vt (0xA0 + n)" by (simp add: entry_def)
  moreover have "pf + PGSIZE = page2pa (0xA0 + Suc n)"
    unfolding pf by (simp add: page2pa_def push_bit_eq_mult algebra_simps)
  ultimately have step: "video_ptes vt (Suc n) m =
      (store32 m1 (entry vt (0xA0 + n)) (page2pa (0xA0 + n) OR 7), page2pa (0xA0 + Suc n))"
    using r by (simp add: video_ptes_def)
  show ?case unfolding step using IH assms Suc.prems by (auto simp: load_entry_store less_Suc_eq)
qed

lemma create_video_mapping_load:
  assumes "ud < npages" and "vt < npages" and "ud \<noteq> vt"
  shows "load32 (create_video_mapping (page2kva ud) (page2kva vt) m) (entry ud 0) = page2pa vt OR 7"
    and "0xA0 \<le> k \<Longrightarrow> k < 0xB0 \<Longrightarrow>
      load32 (create_video_mapping (page2kva ud) (page2kva vt) m) (entry vt k) = page2pa k OR 7"
    and "f < npages \<Longrightarrow> k < 1024 \<Longrightarrow> (f, k) \<noteq> (ud, 0) \<Longrightarrow> \<not> (f = vt \<and> 0xA0 \<le> k \<and> k < 0xB0) \<Longrightarrow>
      load32 (create_video_mapping (page2kva ud) (page2kva vt) m) (entry f k) = load32 m (entry f k)"
proof -
  have "va_to_pa (page2kva vt) = page2pa vt" by (simp add: va_to_pa_def page2kva_def)
  then have eq: "create_video_mapping (page2kva ud) (page2kva vt) m =
      fst (video_ptes vt 16 (store32 m (entry ud 0) (page2pa vt OR 7)))"
    unfolding create_video_mapping_def Let_def video_ptes_def using make_pde_page [OF assms(2)]
    by (simp add: entry_def)
  note v = video_ptes_load [OF assms(2), of 16 "store32 m (entry ud 0) (page2pa vt OR 7)"]
  show "load32 (create_video_mapping (page2kva ud) (page2kva vt) m) (entry ud 0) = page2pa vt OR 7"
    unfolding eq using v assms by simp
  show "0xA0 \<le> k \<Longrightarrow> k < 0xB0 \<Longrightarrow>
      load32 (create_video_mapping (page2kva ud) (page2kva vt) m) (entry vt k) = page2pa k OR 7"
    unfolding eq using v assms by simp
  show "f < npages \<Longrightarrow> k < 1024 \<Longrightarrow> (f, k) \<noteq> (ud, 0) \<Longrightarrow> \<not> (f = vt \<and> 0xA0 \<le> k \<and> k < 0xB0) \<Longrightarrow>
      load32 (create_video_mapping (page2kva ud) (page2kva vt) m) (entry f k) = load32 m (entry f k)"
    unfolding eq using v load_entry_store [OF assms(1), of f 0 k m] by auto
qed

section \<open>Properties\<close>

text \<open>
  C28: after \<open>init_page\<close> the processor translates every physical address below 128 MB to itself,
  both at its own address and above \<open>KOFFSET\<close>, and paging is switched on. The hypotheses say that
  the directory and the 32 tables are distinct page-aligned frames of physical memory.
\<close>

theorem init_page_identity:
  assumes "kd < npages" and "kt + 32 \<le> npages" and "kd \<notin> {kt..<kt + 32}" and "pa < PHY_MEM"
  shows "case init_page (page2kva kd) (page2kva kt) cr0 m of (m', cr3, cr0') \<Rightarrow>
    page_walk m' cr3 pa = Some pa \<and> page_walk m' cr3 (pa + KOFFSET) = Some pa \<and> bit cr0' 31"
proof -
  obtain m' c cr0' where r: "init_page (page2kva kd) (page2kva kt) cr0 m = (m', c, cr0')"
    by (metis prod_cases3)
  note t = init_page_tables [OF assms(1-3) r] and h = high_parts [OF assms(4)]
  have "page_walk m' (page2pa kd) pa = Some pa"
    by (rule kernel_walk [OF t(1,3) assms(2,4) h(4) refl refl])
  moreover have "page_walk m' (page2pa kd) (pa + KOFFSET) = Some pa"
    by (rule kernel_walk [OF t(2,3) assms(2,4) h(1-3)])
  moreover have "bit cr0' 31" unfolding t(5) by (simp add: bit_set_bit_iff)
  ultimately show ?thesis using r t(4) by simp
qed

theorem init_page_identity_witness:
  "case init_page (page2kva 257) (page2kva 258) 0x11 (\<lambda>_. 0xFF) of (m', cr3, cr0') \<Rightarrow>
     page_walk m' cr3 0x7C00 = Some 0x7C00 \<and> page_walk m' cr3 (0x7C00 + KOFFSET) = Some 0x7C00 \<and> bit cr0' 31"
  by (rule init_page_identity) (simp_all add: npages_def)

text \<open>
  C29: \<open>init_mm\<close> after \<open>init_page\<close> builds the first user address space: with the user's CR3 no
  user address is mapped and all of physical memory is mapped above \<open>KOFFSET\<close>, so the kernel
  keeps running when CR3 is switched.
\<close>

theorem init_mm_space:
  assumes "kd < npages" and "kt + 32 \<le> npages" and "kd \<notin> {kt..<kt + 32}"
    and "ud < npages" and "ud \<notin> {kt..<kt + 32}" and "ud \<noteq> kd"
    and "va < KOFFSET" and "pa < PHY_MEM"
  shows "case init_page (page2kva kd) (page2kva kt) cr0 m of (m1, _, _) \<Rightarrow>
    case init_mm (page2kva kd) (page2kva ud) m1 of (m2, ucr3) \<Rightarrow>
      page_walk m2 ucr3 va = None \<and> page_walk m2 ucr3 (pa + KOFFSET) = Some pa"
proof -
  obtain m1 c cr0' where r: "init_page (page2kva kd) (page2kva kt) cr0 m = (m1, c, cr0')"
    by (metis prod_cases3)
  obtain m2 u where r2: "init_mm (page2kva kd) (page2kva ud) m1 = (m2, u)"
    by (cases "init_mm (page2kva kd) (page2kva ud) m1")
  note t = init_page_tables [OF assms(1-3) r] and e = init_mm_entries [OF assms(1,4) assms(6) [symmetric] r2]
  have "page_walk m2 (page2pa ud) va = None"
    unfolding page_walk_entries using e(1) [OF user_PDX [OF assms(7)]] by simp
  moreover have "kdir_tables m2 ud kt 768"
    using t(2) e(2) by (simp add: kdir_tables_def)
  moreover have "ktables m2 kt"
    unfolding ktables_def
  proof (intro allI impI)
    fix k :: nat
    assume k: "k < 32768"
    then have "k div 1024 < 32" by (simp add: div_less_iff_less_mult)
    then have f: "kt + k div 1024 < npages" "kt + k div 1024 \<noteq> ud" using assms(2,5) by auto
    have "load32 m2 (lent kt k) = load32 m1 (lent kt k)"
      unfolding lent_def
    proof (rule load32_cong)
      fix x
      assume "in_region (entry (kt + k div 1024) (k mod 1024)) 4 x"
      then have "frame x = kt + k div 1024" by (intro entry_frame [OF f(1)]) simp_all
      then show "m2 x = m1 x" using e(3) f(2) by simp
    qed
    then show "load32 m2 (lent kt k) = pte_val k" using t(3) k by (simp add: ktables_def)
  qed
  ultimately show ?thesis
    using r r2 e(4) kernel_walk [OF _ _ assms(2,8) high_parts(1-3) [OF assms(8)]] by simp
qed

theorem init_mm_space_witness:
  "case init_page (page2kva 257) (page2kva 258) 0x11 (\<lambda>_. 0xFF) of (m1, _, _) \<Rightarrow>
    case init_mm (page2kva 257) (page2kva 300) m1 of (m2, ucr3) \<Rightarrow>
      page_walk m2 ucr3 0x8048000 = None \<and> page_walk m2 ucr3 (0x100000 + KOFFSET) = Some 0x100000"
  by (rule init_mm_space) (simp_all add: npages_def)

text \<open>
  \<open>create_video_mapping\<close> maps the video memory, and with it the whole 320 by 200 screen, into
  the user's address space at its physical address.
\<close>

theorem video_memory_identity:
  assumes "ud < npages" and "vt < npages" and "ud \<noteq> vt" and "0xA0000 \<le> va" and "va < 0xA0000 + 320 * 200"
  shows "page_walk (create_video_mapping (page2kva ud) (page2kva vt) m) (page2pa ud) va = Some va"
proof -
  let ?m = "create_video_mapping (page2kva ud) (page2kva vt) m" and ?n = "unat va div 4096"
  have b: "0xA0000 \<le> unat va" "unat va < 0xAFA00" using assms(4,5) by (simp_all add: word_le_nat_alt word_less_nat_alt)
  then have n: "0xA0 \<le> ?n" "?n < 0xB0" by (simp_all add: div_less_iff_less_mult less_eq_div_iff_mult_less_eq)
  have i: "unat (PDX va) = 0" "unat (PTX va) = ?n"
    unfolding unat_PDX unat_PTX using b n by simp_all
  have nn: "?n < npages" using n by (simp add: npages_def)
  have "page2pa ?n + PGOFF va = va"
  proof (rule unsigned_word_eqI)
    have "unat (page2pa ?n + PGOFF va) = ?n * 4096 + unat va mod 4096"
      using unat_page2pa [OF nn] unat_PGOFF [of va] b by (simp add: unat_word_ariths)
    then show "unat (page2pa ?n + PGOFF va) = unat va" by simp
  qed
  moreover have "load32 ?m (entry ud 0) = page2pa vt OR 7" by (rule create_video_mapping_load(1) [OF assms(1-3)])
  moreover have "load32 ?m (entry vt ?n) = page2pa ?n OR 7"
    by (rule create_video_mapping_load(2) [OF assms(1-3) n])
  ultimately show ?thesis
    unfolding page_walk_entries i Let_def using fr_page2pa [OF assms(2)] fr_page2pa [OF nn]
    by (simp add: PTE_ADDR_fr)
qed

theorem video_memory_identity_witness:
  "page_walk (create_video_mapping (page2kva 300) (page2kva 301) (\<lambda>_. 0)) (page2pa 300) 0xA1234 = Some 0xA1234"
  by (rule video_memory_identity) (simp_all add: npages_def)

end
