(* ===== verification/Process.thy ===== *)
theory Process
  imports Pmap
begin

text \<open>
  Processes: the process table of \<open>kernel/src/process/pcb.c\<close> (\<open>struct PCB\<close> of
  \<open>lib/pcb_struct.h\<close>), the round-robin scheduler, sleeping and waking, and the timer branch of
  \<open>irq_handle\<close>. The kernel stacks inside the table are ordinary kernel memory, because trap
  frames are pointers into them; the other members are fields of a record. An index outside
  the table is the fault \<open>OutOfBounds\<close>.
\<close>

section \<open>State\<close>

abbreviation (input) MAX_PCB :: nat where "MAX_PCB \<equiv> 100"
abbreviation (input) Sleeptime :: int where "Sleeptime \<equiv> 5"
abbreviation (input) NR_FILE :: nat where "NR_FILE \<equiv> 32"
abbreviation (input) KSTACK_SIZE :: u32 where "KSTACK_SIZE \<equiv> 4096"

text \<open>The values -1, 0, 1, 2, 3 of the member \<open>status\<close>.\<close>

datatype pstatus = Free | New | Ready | Running | Blocked

record PCB =
  tf :: addr
  fcb :: "int list"
  pid :: int
  ppid :: int
  status :: pstatus
  time_count :: int
  sleep_time :: int
  cr3 :: u32
  pcb_index :: nat
  block_sem_index :: int

text \<open>
  \<open>current\<close> is the index of the PCB the C pointer designates. \<open>cr3_reg\<close> and \<open>IF\<close> are the
  processor's page-directory register and interrupt flag; \<open>pcb_base\<close> is the address the linker
  gives to \<open>pcb_table\<close>.
\<close>

record kst = pm +
  pcb_table :: "PCB list"
  pid_count :: int
  current :: nat
  tss :: TSS
  cr3_reg :: u32
  IF :: bool
  time_tick :: u32
  sem_count :: int
  pcb_base :: addr

text \<open>Address of \<open>pcb_table[i].kstack\<close>; a PCB has 4260 bytes and starts with the \<open>tf\<close> pointer.\<close>

definition kstack :: "'a kst_scheme \<Rightarrow> nat \<Rightarrow> addr" where
  "kstack s i = pcb_base s + of_nat (4260 * i) + 4"

abbreviation pcb :: "'a kst_scheme \<Rightarrow> nat \<Rightarrow> PCB" where
  "pcb s i \<equiv> pcb_table s ! i"

definition upd_pcb :: "nat \<Rightarrow> (PCB \<Rightarrow> PCB) \<Rightarrow> 'a kst_scheme \<Rightarrow> 'a kst_scheme" where
  "upd_pcb i f s = s\<lparr>pcb_table := (pcb_table s)[i := f (pcb s i)]\<rparr>"

definition at_pcb :: "nat \<Rightarrow> (PCB \<Rightarrow> PCB) \<Rightarrow> 'a kst_scheme \<Rightarrow> 'a kst_scheme res" where
  "at_pcb i f s = (if i < MAX_PCB then Inr (upd_pcb i f s) else Inl OutOfBounds)"

section \<open>Operations\<close>

definition get_pid :: "'a kst_scheme \<Rightarrow> int \<times> 'a kst_scheme" where
  "get_pid s = (let s1 = s\<lparr>pid_count := i32 (pid_count s + 1)\<rparr> in (pid_count s1, s1))"

definition pcb_init :: "'a kst_scheme \<Rightarrow> 'a kst_scheme" where
  "pcb_init s = s\<lparr>pcb_table := map (\<lambda>p. p\<lparr>status := Free, pid := -1, block_sem_index := -1,
     fcb := replicate NR_FILE (-1)\<rparr>) (pcb_table s)\<rparr>"

text \<open>\<open>get_pcb\<close> leaves its result uninitialised when no entry is free.\<close>

fun first_free :: "PCB list \<Rightarrow> nat \<Rightarrow> nat option" where
  "first_free [] i = None"
| "first_free (p # ps) i = (if status p = Free then Some i else first_free ps (i + 1))"

definition get_pcb :: "'a kst_scheme \<Rightarrow> nat res" where
  "get_pcb s = (case first_free (pcb_table s) 0 of None \<Rightarrow> Inl Uninit | Some i \<Rightarrow> Inr i)"

definition pcb_new :: "int \<Rightarrow> int \<Rightarrow> nat \<Rightarrow> 'a kst_scheme \<Rightarrow> 'a kst_scheme res" where
  "pcb_new p pp i s = at_pcb i (\<lambda>b. b\<lparr>pid := p, ppid := pp, status := New, time_count := 0,
     sleep_time := Sleeptime, pcb_index := i\<rparr>) s"

definition pcb_cr3write :: "nat \<Rightarrow> u32 \<Rightarrow> 'a kst_scheme \<Rightarrow> 'a kst_scheme res" where
  "pcb_cr3write i val s = at_pcb i (\<lambda>b. b\<lparr>cr3 := val\<rparr>) s"

definition process_ready :: "nat \<Rightarrow> 'a kst_scheme \<Rightarrow> 'a kst_scheme res" where
  "process_ready i s = at_pcb i (\<lambda>b. b\<lparr>status := Ready, time_count := 0\<rparr>) s"

definition process_run :: "nat \<Rightarrow> 'a kst_scheme \<Rightarrow> 'a kst_scheme res" where
  "process_run i s = at_pcb i (\<lambda>b. b\<lparr>status := Running, time_count := i32 (time_count b + 1)\<rparr>) s"

text \<open>
  \<open>schedule\<close>: the loop starts at the successor of the current index without reducing it modulo
  the table size. A hundred iterations visit every entry, so that running out of the 101 steps
  the loop is given means that it never ends.
\<close>

definition dispatch :: "nat \<Rightarrow> 'a kst_scheme \<Rightarrow> 'a kst_scheme" where
  "dispatch i s =
     (let s1 = upd_pcb i (\<lambda>b. b\<lparr>status := Running\<rparr>) (s\<lparr>current := i\<rparr>)
      in s1\<lparr>tss := set_tss_esp0 (kstack s1 i + 4096) (tss s1), cr3_reg := cr3 (pcb s1 i)\<rparr>)"

primrec sched_scan :: "nat \<Rightarrow> nat \<Rightarrow> nat \<Rightarrow> 'a kst_scheme \<Rightarrow> 'a kst_scheme res" where
  "sched_scan 0 c i s = Inl Hang"
| "sched_scan (Suc n) c i s =
     (if i mod MAX_PCB = c then Inr (s\<lparr>current := 0\<rparr>)
      else if MAX_PCB \<le> i then Inl OutOfBounds
      else if status (pcb s i) = Ready then Inr (dispatch i s)
      else sched_scan n c ((i + 1) mod MAX_PCB) s)"

definition schedule :: "'a kst_scheme \<Rightarrow> 'a kst_scheme res" where
  "schedule s =
     (let c = pcb_index (pcb s (current s)) in sched_scan (MAX_PCB + 1) c (c + 1) s)"

definition wake_one :: "PCB \<Rightarrow> PCB" where
  "wake_one b =
     (if status b = Blocked
      then let b1 = b\<lparr>sleep_time := i32 (sleep_time b - 1)\<rparr>
           in if sleep_time b1 = 0 then b1\<lparr>status := Ready\<rparr> else b1
      else b)"

definition wakeup :: "'a kst_scheme \<Rightarrow> 'a kst_scheme" where
  "wakeup s = s\<lparr>pcb_table := map wake_one (pcb_table s)\<rparr>"

definition process_sleep :: "int \<Rightarrow> 'a kst_scheme \<Rightarrow> 'a kst_scheme res" where
  "process_sleep t s =
     bnd (at_pcb (current s) (\<lambda>b. b\<lparr>status := Blocked, sleep_time := t\<rparr>) s) schedule"

definition getpid :: "'a kst_scheme \<Rightarrow> int" where
  "getpid s = pid (pcb s (current s))"

fun release_first :: "int \<Rightarrow> PCB list \<Rightarrow> PCB list" where
  "release_first k [] = []"
| "release_first k (b # bs) =
     (if block_sem_index b = k
      then b\<lparr>block_sem_index := -1, status := Ready, time_count := 0\<rparr> # bs
      else b # release_first k bs)"

definition release_sem :: "int \<Rightarrow> 'a kst_scheme \<Rightarrow> 'a kst_scheme" where
  "release_sem k s = s\<lparr>pcb_table := release_first k (pcb_table s)\<rparr>"

text \<open>The timer branch of \<open>irq_handle\<close>; \<open>t\<close> is the trap frame the entry code pushed.\<close>

definition timer_event :: "addr \<Rightarrow> 'a kst_scheme \<Rightarrow> 'a kst_scheme res" where
  "timer_event t s =
     (let s1 = wakeup (s\<lparr>time_tick := time_tick s + 1\<rparr>); c = current s1
      in if time_count (pcb s1 c) = 10
         then bnd (at_pcb c (\<lambda>b. b\<lparr>tf := t\<rparr>) s1) (\<lambda>s2.
              bnd (process_ready (pcb_index (pcb s2 c)) s2) schedule)
         else at_pcb c (\<lambda>b. b\<lparr>tf := t, time_count := i32 (time_count b + 1)\<rparr>) s1)"

section \<open>Table accesses\<close>

lemma upd_pcb_fields [simp]:
  "current (upd_pcb i f s) = current s" "length (pcb_table (upd_pcb i f s)) = length (pcb_table s)"
  "cr3_reg (upd_pcb i f s) = cr3_reg s" "tss (upd_pcb i f s) = tss s" "mem (upd_pcb i f s) = mem s"
  "pages (upd_pcb i f s) = pages s" "page_free_list (upd_pcb i f s) = page_free_list s"
  "pcb_base (upd_pcb i f s) = pcb_base s" "IF (upd_pcb i f s) = IF s" "pid_count (upd_pcb i f s) = pid_count s"
  "time_tick (upd_pcb i f s) = time_tick s" "sem_count (upd_pcb i f s) = sem_count s"
  by (simp_all add: upd_pcb_def)

lemma pcb_upd_pcb:
  "i < length (pcb_table s) \<Longrightarrow> pcb (upd_pcb i f s) j = (if i = j then f (pcb s j) else pcb s j)"
  by (simp add: upd_pcb_def)

lemma dispatch_fields [simp]:
  "current (dispatch i s) = i" "length (pcb_table (dispatch i s)) = length (pcb_table s)"
  "mem (dispatch i s) = mem s" "pages (dispatch i s) = pages s"
  "page_free_list (dispatch i s) = page_free_list s" "pcb_base (dispatch i s) = pcb_base s"
  "IF (dispatch i s) = IF s"
  by (simp_all add: dispatch_def Let_def)

lemma pcb_dispatch:
  "i < length (pcb_table s) \<Longrightarrow>
     pcb (dispatch i s) j = (if i = j then (pcb s j)\<lparr>status := Running\<rparr> else pcb s j)"
  by (simp add: dispatch_def Let_def upd_pcb_def)

lemma dispatch_regs:
  "i < length (pcb_table s) \<Longrightarrow> cr3_reg (dispatch i s) = cr3 (pcb s i) \<and>
     esp0 (tss (dispatch i s)) = kstack s i + 4096"
  by (simp add: dispatch_def Let_def upd_pcb_def set_tss_esp0_def kstack_def)

text \<open>
  The well-formed process table: entry 99 is not in use (the scheduler cannot step over it),
  every entry in use and the current one know their own index, and no time slice is longer
  than 10 ticks.
\<close>

definition table_ok :: "'a kst_scheme \<Rightarrow> bool" where
  "table_ok s \<longleftrightarrow>
     length (pcb_table s) = MAX_PCB \<and> current s < 99 \<and> status (pcb s 99) = Free \<and>
     (\<forall>i < MAX_PCB. status (pcb s i) \<noteq> Free \<longrightarrow> pcb_index (pcb s i) = i) \<and>
     pcb_index (pcb s (current s)) = current s \<and> pcb_index (pcb s 0) = 0 \<and>
     (\<forall>i < MAX_PCB. 0 \<le> time_count (pcb s i) \<and> time_count (pcb s i) \<le> 10)"

lemma table_okD:
  assumes "table_ok s"
  shows "length (pcb_table s) = MAX_PCB" and "current s < 99" and "status (pcb s 99) = Free"
    and "i < MAX_PCB \<Longrightarrow> status (pcb s i) \<noteq> Free \<Longrightarrow> pcb_index (pcb s i) = i"
    and "pcb_index (pcb s (current s)) = current s" and "pcb_index (pcb s 0) = 0"
    and "i < MAX_PCB \<Longrightarrow> 0 \<le> time_count (pcb s i) \<and> time_count (pcb s i) \<le> 10"
  using assms unfolding table_ok_def by blast+

lemma table_ok_upd:
  assumes "table_ok s" and "i < 99"
    and "\<And>b. pcb_index (f b) = pcb_index b"
    and "status (f (pcb s i)) \<noteq> Free \<Longrightarrow> pcb_index (pcb s i) = i"
    and "0 \<le> time_count (f (pcb s i))" and "time_count (f (pcb s i)) \<le> 10"
  shows "table_ok (upd_pcb i f s)"
  using assms table_okD [OF assms(1)] unfolding table_ok_def by (auto simp: pcb_upd_pcb)

section \<open>The scheduler\<close>

text \<open>The specification: the first ready entry after the current one, in circular order.\<close>

definition next_ready :: "'a kst_scheme \<Rightarrow> nat option" where
  "next_ready s = map_option (\<lambda>k. (current s + k) mod MAX_PCB)
     (find (\<lambda>k. status (pcb s ((current s + k) mod MAX_PCB)) = Ready) [1..<MAX_PCB])"

lemma rotate_stop:
  assumes "c < MAX_PCB" and "1 \<le> k" and "k < MAX_PCB"
  shows "(c + k) mod MAX_PCB \<noteq> c" and "((c + k) mod MAX_PCB + 1) mod MAX_PCB = (c + Suc k) mod MAX_PCB"
proof -
  show "(c + k) mod MAX_PCB \<noteq> c" using assms by (cases "c + k < MAX_PCB") (auto simp: mod_if)
  show "((c + k) mod MAX_PCB + 1) mod MAX_PCB = (c + Suc k) mod MAX_PCB"
    by (simp add: mod_Suc_eq)
qed

lemma sched_scan_find:
  assumes c: "c < MAX_PCB" and k: "1 \<le> k" "k \<le> m" and m: "m = MAX_PCB" and n: "m - k < n"
  shows "sched_scan n c ((c + k) mod MAX_PCB) s =
    (case find (\<lambda>k. status (pcb s ((c + k) mod MAX_PCB)) = Ready) [k..<m] of
       None \<Rightarrow> Inr (s\<lparr>current := 0\<rparr>) | Some k \<Rightarrow> Inr (dispatch ((c + k) mod MAX_PCB) s))"
  using k n
proof (induction "m - k" arbitrary: k n)
  case 0
  then have "k = m" by simp
  moreover obtain n' where "n = Suc n'" using 0 by (cases n) auto
  ultimately show ?case using m c by simp
next
  case (Suc d)
  then have k: "k < m" by simp
  obtain n' where n': "n = Suc n'" using Suc.prems by (cases n) auto
  have stop: "(c + k) mod MAX_PCB \<noteq> c"
    "((c + k) mod MAX_PCB + 1) mod MAX_PCB = (c + Suc k) mod MAX_PCB"
    using rotate_stop [OF c, of k] Suc.prems k m by auto
  have IH: "sched_scan n' c ((c + Suc k) mod MAX_PCB) s =
    (case find (\<lambda>k. status (pcb s ((c + k) mod MAX_PCB)) = Ready) [Suc k..<m] of
       None \<Rightarrow> Inr (s\<lparr>current := 0\<rparr>) | Some k \<Rightarrow> Inr (dispatch ((c + k) mod MAX_PCB) s))"
    by (rule Suc.hyps(1)) (use Suc.hyps(2) Suc.prems n' k in auto)
  have "\<not> MAX_PCB \<le> (c + k) mod MAX_PCB" by (simp add: not_le)
  then show ?case
    unfolding n' sched_scan.simps stop(2) IH upt_conv_Cons [OF k] using stop(1) by simp
qed

lemma schedule_next:
  assumes "table_ok s"
  shows "schedule s = Inr (case next_ready s of None \<Rightarrow> s\<lparr>current := 0\<rparr> | Some i \<Rightarrow> dispatch i s)"
proof -
  let ?c = "current s"
  have c: "?c < 99" and ix: "pcb_index (pcb s ?c) = ?c" using table_okD [OF assms] by auto
  obtain m where m: "m = MAX_PCB" by blast
  have "(?c + 1) mod MAX_PCB = ?c + 1" using c by simp
  then have "schedule s = sched_scan (MAX_PCB + 1) ?c ((?c + 1) mod MAX_PCB) s"
    by (simp add: schedule_def Let_def ix del: sched_scan.simps)
  also have "\<dots> = (case find (\<lambda>k. status (pcb s ((?c + k) mod MAX_PCB)) = Ready) [1..<m] of
       None \<Rightarrow> Inr (s\<lparr>current := 0\<rparr>) | Some k \<Rightarrow> Inr (dispatch ((?c + k) mod MAX_PCB) s))"
    by (rule sched_scan_find) (use c m in auto)
  finally show ?thesis
    unfolding next_ready_def m by (simp split: option.splits)
qed

lemma find_upt_Some:
  "find P [a..<b] = Some k \<Longrightarrow> a \<le> k \<and> k < b \<and> P k \<and> (\<forall>j. a \<le> j \<and> j < k \<longrightarrow> \<not> P j)"
proof (induction "b - a" arbitrary: a)
  case (Suc n)
  then have cons: "[a..<b] = a # [Suc a..<b]" by (simp add: upt_conv_Cons)
  show ?case
  proof (cases "P a")
    case False
    then have "find P [Suc a..<b] = Some k" using Suc.prems cons by simp
    moreover have "n = b - Suc a" using Suc.hyps(2) by simp
    ultimately have IH: "Suc a \<le> k \<and> k < b \<and> P k \<and> (\<forall>j. Suc a \<le> j \<and> j < k \<longrightarrow> \<not> P j)"
      using Suc.hyps(1) by blast
    have "\<not> P j" if "a \<le> j" "j < k" for j
      using that IH False by (cases "j = a") auto
    then show ?thesis using IH by auto
  qed (use Suc cons in auto)
qed simp

lemma find_upt_None: "find P [a..<b] = None \<longleftrightarrow> (\<forall>k. a \<le> k \<and> k < b \<longrightarrow> \<not> P k)"
  by (auto simp: find_None_iff)

text \<open>Circular distance, as the scheduler walks it.\<close>

definition dist :: "nat \<Rightarrow> nat \<Rightarrow> nat \<Rightarrow> nat" where
  "dist N a b = (b + N - a) mod N"

lemma dist_lt: "0 < N \<Longrightarrow> dist N a b < N"
  by (simp add: dist_def)

lemma dist_rotate: "a < N \<Longrightarrow> k < N \<Longrightarrow> dist N a ((a + k) mod N) = k"
  by (cases "a + k < N") (auto simp: dist_def mod_if not_less)

lemma rotate_dist: "a < N \<Longrightarrow> b < N \<Longrightarrow> (a + dist N a b) mod N = b"
  by (cases "a \<le> b") (auto simp: dist_def mod_if not_le)

lemma dist_less:
  assumes "a < N" "b < N" "c < N" "a \<noteq> b" "dist N a b \<le> dist N a c"
  shows "dist N b c < dist N a c"
proof -
  have d: "dist N x y = (if x \<le> y then y - x else y + N - x)" if "x < N" "y < N" for x y
    using that by (simp add: dist_def mod_if)
  show ?thesis using assms(4,5) assms(1-3) unfolding d [OF assms(1,2)] d [OF assms(1,3)] d [OF assms(2,3)]
    by (simp split: if_splits; arith)
qed

lemma next_ready_Some:
  assumes "next_ready s = Some i" and "current s < MAX_PCB"
  shows "i < MAX_PCB" and "status (pcb s i) = Ready" and "i \<noteq> current s"
    and "j < MAX_PCB \<Longrightarrow> status (pcb s j) = Ready \<Longrightarrow> j \<noteq> current s \<Longrightarrow>
      dist MAX_PCB (current s) i \<le> dist MAX_PCB (current s) j"
proof -
  let ?c = "current s"
  obtain m where m: "m = MAX_PCB" by blast
  obtain k where k: "find (\<lambda>k. status (pcb s ((?c + k) mod m)) = Ready) [1..<m] = Some k"
    and i: "i = (?c + k) mod m"
    using assms(1) unfolding next_ready_def m [symmetric] by auto
  have 1: "1 \<le> k" "k < m" and st: "status (pcb s i) = Ready"
    and before: "1 \<le> l \<Longrightarrow> l < k \<Longrightarrow> status (pcb s ((?c + l) mod m)) \<noteq> Ready" for l
    using find_upt_Some [OF k] i by auto
  show "i < MAX_PCB" using i m by simp
  show "status (pcb s i) = Ready" by (rule st)
  show "i \<noteq> ?c" using rotate_stop(1) [OF assms(2) 1(1)] 1(2) m i by simp
  assume j: "j < MAX_PCB" "status (pcb s j) = Ready" "j \<noteq> ?c"
  let ?d = "dist MAX_PCB ?c j"
  have "(?c + ?d) mod MAX_PCB = j" by (rule rotate_dist [OF assms(2) j(1)])
  moreover from this have "?d \<noteq> 0" using j(3) assms(2) by (cases "?d = 0") auto
  ultimately have "k \<le> ?d" using before [of ?d] j(2) m by (cases "?d < k") auto
  moreover have "dist MAX_PCB ?c i = k" unfolding i m using dist_rotate assms(2) 1(2) m by blast
  ultimately show "dist MAX_PCB ?c i \<le> ?d" by simp
qed

lemma next_ready_None:
  assumes "next_ready s = None" and "current s < MAX_PCB" and "j < MAX_PCB" and "j \<noteq> current s"
  shows "status (pcb s j) \<noteq> Ready"
proof
  let ?c = "current s" and ?d = "dist MAX_PCB (current s) j"
  assume r: "status (pcb s j) = Ready"
  have j: "(?c + ?d) mod MAX_PCB = j" by (rule rotate_dist [OF assms(2,3)])
  have d: "?d < MAX_PCB" by (rule dist_lt) simp
  have "?d \<noteq> 0" using j assms(2,4) by (cases "?d = 0") auto
  moreover obtain m where m: "m = MAX_PCB" by blast
  moreover have "find (\<lambda>k. status (pcb s ((?c + k) mod m)) = Ready) [1..<m] = None"
    using assms(1) unfolding next_ready_def m [symmetric] by auto
  ultimately show False
    using r j d unfolding find_upt_None by (metis One_nat_def Suc_leI neq0_conv)
qed

lemma table_ok_schedule:
  assumes "table_ok s"
  obtains s' where "schedule s = Inr s'" and "table_ok s'"
proof (cases "next_ready s")
  case None
  have "table_ok (s\<lparr>current := 0\<rparr>)" using assms by (auto simp: table_ok_def)
  then show thesis using that schedule_next [OF assms] None by simp
next
  case (Some i)
  have "current s < MAX_PCB" using table_okD(2) [OF assms] by simp
  note i = next_ready_Some(1,2) [OF Some this]
  have "i \<noteq> 99" using i(2) table_okD(3) [OF assms] by auto
  then have "table_ok (dispatch i s)"
    using i assms unfolding table_ok_def by (auto simp: pcb_dispatch)
  then show thesis using that schedule_next [OF assms] Some by simp
qed

text \<open>What a context switch leaves alone.\<close>

lemma schedule_keeps:
  assumes "table_ok s" and "schedule s = Inr s'"
  shows "mem s' = mem s" and "pcb_base s' = pcb_base s" and "table_ok s'"
    and "\<exists>b. pcb s' j = (pcb s j)\<lparr>status := b\<rparr> \<and> (b = status (pcb s j) \<or> status (pcb s j) = Ready \<and> b = Running)"
proof -
  have c: "current s < MAX_PCB" and len: "length (pcb_table s) = MAX_PCB" using table_okD [OF assms(1)] by auto
  show "table_ok s'" using table_ok_schedule [OF assms(1)] assms(2) by (metis sum.inject(2))
  have s': "s' = (case next_ready s of None \<Rightarrow> s\<lparr>current := 0\<rparr> | Some i \<Rightarrow> dispatch i s)"
    using schedule_next [OF assms(1)] assms(2) by simp
  show "mem s' = mem s" "pcb_base s' = pcb_base s" unfolding s' by (simp_all split: option.split)
  show "\<exists>b. pcb s' j = (pcb s j)\<lparr>status := b\<rparr> \<and> (b = status (pcb s j) \<or> status (pcb s j) = Ready \<and> b = Running)"
  proof (cases "next_ready s")
    case None
    then show ?thesis unfolding s' by (intro exI [of _ "status (pcb s j)"]) simp
  next
    case (Some i)
    note n = next_ready_Some(1,2) [OF Some c]
    show ?thesis
    proof (cases "j = i")
      case True
      then show ?thesis using Some n len unfolding s' by (intro exI [of _ Running]) (simp add: pcb_dispatch)
    next
      case False
      then show ?thesis using Some n len unfolding s'
        by (intro exI [of _ "status (pcb s j)"]) (simp add: pcb_dispatch)
    qed
  qed
qed

lemma schedule_pages:
  assumes "table_ok s" and "schedule s = Inr s'"
  shows "pages s' = pages s \<and> page_free_list s' = page_free_list s"
proof -
  have "s' = (case next_ready s of None \<Rightarrow> s\<lparr>current := 0\<rparr> | Some i \<Rightarrow> dispatch i s)"
    using schedule_next [OF assms(1)] assms(2) by simp
  then show ?thesis by (simp add: dispatch_def Let_def split: option.split)
qed

lemma schedule_current:
  assumes "table_ok s" and "schedule s = Inr s'"
  shows "current s' = 0 \<or> status (pcb s (current s')) = Ready"
proof -
  have "s' = (case next_ready s of None \<Rightarrow> s\<lparr>current := 0\<rparr> | Some i \<Rightarrow> dispatch i s)"
    using schedule_next [OF assms(1)] assms(2) by simp
  moreover have "current s < MAX_PCB" using table_okD(2) [OF assms(1)] by simp
  ultimately show ?thesis using next_ready_Some(2) [of s] by (auto split: option.splits)
qed

lemma table_ok_wakeup:
  assumes "table_ok s"
  shows "table_ok (wakeup s)"
proof -
  have len: "length (pcb_table s) = MAX_PCB" by (rule table_okD(1) [OF assms])
  have f: "pcb_index (wake_one b) = pcb_index b" "time_count (wake_one b) = time_count b"
    "status (wake_one b) = Free \<longleftrightarrow> status b = Free" for b
    by (simp_all add: wake_one_def Let_def)
  have "pcb (wakeup s) i = wake_one (pcb s i)" if "i < MAX_PCB" for i
    using that len by (simp add: wakeup_def)
  moreover have "current (wakeup s) = current s" "length (pcb_table (wakeup s)) = MAX_PCB"
    by (simp_all add: wakeup_def len)
  ultimately show ?thesis using assms unfolding table_ok_def by (simp add: f)
qed

lemma pcb_wakeup: "i < length (pcb_table s) \<Longrightarrow> pcb (wakeup s) i = wake_one (pcb s i)"
  by (simp add: wakeup_def)

lemma wakeup_fields [simp]:
  "current (wakeup s) = current s" "length (pcb_table (wakeup s)) = length (pcb_table s)"
  by (simp_all add: wakeup_def)

lemma table_ok_time_tick [simp]: "table_ok (s\<lparr>time_tick := t\<rparr>) = table_ok s"
  by (simp add: table_ok_def)

subsection \<open>A round-robin interface\<close>

text \<open>
  What a round-robin timer promises to the processes: a tick either continues the time slice
  or switches to the first ready process in circular order. From these laws every ready
  process runs within \<open>N * (L + 1)\<close> ticks.
\<close>

primrec iterate :: "('s \<Rightarrow> 's res) \<Rightarrow> nat \<Rightarrow> 's \<Rightarrow> 's res" where
  "iterate f 0 s = Inr s"
| "iterate f (Suc n) s = bnd (f s) (iterate f n)"

locale round_robin =
  fixes N :: nat and L :: nat and tick :: "'s \<Rightarrow> 's res" and cur :: "'s \<Rightarrow> nat"
    and ready :: "'s \<Rightarrow> nat \<Rightarrow> bool" and left :: "'s \<Rightarrow> nat" and ok :: "'s \<Rightarrow> bool"
  assumes tick_ok: "ok s \<Longrightarrow> \<exists>s'. tick s = Inr s' \<and> ok s'"
    and cur_bound: "ok s \<Longrightarrow> cur s < N"
    and left_bound: "ok s \<Longrightarrow> left s \<le> L"
    and run_on: "ok s \<Longrightarrow> tick s = Inr s' \<Longrightarrow> 0 < left s \<Longrightarrow> cur s' = cur s \<and> left s' < left s"
    and keep: "ok s \<Longrightarrow> tick s = Inr s' \<Longrightarrow> ready s j \<Longrightarrow> j < N \<Longrightarrow> j \<noteq> cur s \<Longrightarrow> cur s' = j \<or> ready s' j"
    and switch: "ok s \<Longrightarrow> tick s = Inr s' \<Longrightarrow> left s = 0 \<Longrightarrow> ready s j \<Longrightarrow> j < N \<Longrightarrow> j \<noteq> cur s \<Longrightarrow>
      cur s' \<noteq> cur s \<and> dist N (cur s) (cur s') \<le> dist N (cur s) j"
begin

lemma runs_within:
  "ok s \<Longrightarrow> ready s j \<Longrightarrow> j < N \<Longrightarrow> dist N (cur s) j * Suc L + left s \<le> m \<Longrightarrow>
     \<exists>n \<le> Suc m. \<exists>s'. iterate tick n s = Inr s' \<and> ok s' \<and> cur s' = j"
proof (induction m arbitrary: s rule: less_induct)
  case (less m)
  show ?case
  proof (cases "cur s = j")
    case True
    then show ?thesis using less.prems by (intro exI [of _ 0]) auto
  next
    case False
    obtain s1 where s1: "tick s = Inr s1" "ok s1" using tick_ok less.prems(1) by blast
    have c: "cur s < N" "cur s1 < N" using cur_bound less.prems(1) s1(2) by auto
    show ?thesis
    proof (cases "cur s1 = j")
      case True
      then show ?thesis using s1 by (intro exI [of _ 1]) auto
    next
      case not_yet: False
      have r1: "ready s1 j" using keep [OF less.prems(1) s1(1) less.prems(2,3)] False not_yet by auto
      have "dist N (cur s1) j * Suc L + left s1 < dist N (cur s) j * Suc L + left s"
      proof (cases "left s = 0")
        case True
        then have "dist N (cur s1) j < dist N (cur s) j"
          using switch [OF less.prems(1) s1(1) True less.prems(2,3)] False c less.prems(3)
          by (intro dist_less) auto
        then have "Suc (dist N (cur s1) j) * Suc L \<le> dist N (cur s) j * Suc L" by (intro mult_le_mono) auto
        moreover have "left s1 \<le> L" using left_bound s1(2) by blast
        ultimately show ?thesis by simp
      qed (use run_on [OF less.prems(1) s1(1)] in auto)
      then have lt: "dist N (cur s1) j * Suc L + left s1 < m" using less.prems(4) by simp
      obtain n s' where "n \<le> Suc (dist N (cur s1) j * Suc L + left s1)" "iterate tick n s1 = Inr s'"
        "ok s'" "cur s' = j"
        using less.IH [OF lt s1(2) r1 less.prems(3) order_refl] by blast
      then show ?thesis using s1(1) lt by (intro exI [of _ "Suc n"]) auto
    qed
  qed
qed

lemma runs_soon:
  assumes "ok s" "ready s j" "j < N"
  shows "\<exists>n \<le> N * Suc L. \<exists>s'. iterate tick n s = Inr s' \<and> ok s' \<and> cur s' = j"
proof -
  have "0 < N" using assms(3) by simp
  then have "Suc (dist N (cur s) j) * Suc L \<le> N * Suc L"
    using dist_lt [of N "cur s" j] by (intro mult_le_mono) auto
  moreover have "left s \<le> L" using left_bound assms(1) by blast
  ultimately have "Suc (dist N (cur s) j * Suc L + left s) \<le> N * Suc L" by simp
  moreover obtain n s' where "n \<le> Suc (dist N (cur s) j * Suc L + left s)"
    "iterate tick n s = Inr s'" "ok s'" "cur s' = j"
    using runs_within [OF assms order_refl] by blast
  ultimately show ?thesis by (intro exI [of _ n]) auto
qed

end

text \<open>The state at the end of a time slice, when \<open>schedule\<close> is called.\<close>

definition slice_end :: "addr \<Rightarrow> 'a kst_scheme \<Rightarrow> 'a kst_scheme" where
  "slice_end t s = upd_pcb (current s) (\<lambda>b. b\<lparr>tf := t, status := Ready, time_count := 0\<rparr>)
     (wakeup (s\<lparr>time_tick := time_tick s + 1\<rparr>))"

lemma timer_event_cases:
  assumes "table_ok s"
  shows "timer_event t s =
    (if time_count (pcb s (current s)) = 10 then schedule (slice_end t s)
     else Inr (upd_pcb (current s) (\<lambda>b. b\<lparr>tf := t, time_count := i32 (time_count b + 1)\<rparr>)
       (wakeup (s\<lparr>time_tick := time_tick s + 1\<rparr>))))"
proof -
  let ?c = "current s" and ?s1 = "wakeup (s\<lparr>time_tick := time_tick s + 1\<rparr>)"
  have c: "?c < 99" and len: "length (pcb_table s) = MAX_PCB" and ix: "pcb_index (pcb s ?c) = ?c"
    using table_okD [OF assms] by auto
  have pc: "pcb ?s1 ?c = wake_one (pcb s ?c)" using c len by (simp add: pcb_wakeup)
  have w: "time_count (wake_one b) = time_count b" "pcb_index (wake_one b) = pcb_index b" for b
    by (simp_all add: wake_one_def Let_def)
  show ?thesis
    using c len ix
    by (simp add: timer_event_def Let_def pc w at_pcb_def process_ready_def slice_end_def pcb_upd_pcb)
      (simp add: upd_pcb_def)
qed

lemma slice_end_ok:
  assumes "table_ok s"
  shows "table_ok (slice_end t s)" and "current (slice_end t s) = current s"
    and "j < MAX_PCB \<Longrightarrow> j \<noteq> current s \<Longrightarrow> pcb (slice_end t s) j = wake_one (pcb s j)"
proof -
  let ?s1 = "wakeup (s\<lparr>time_tick := time_tick s + 1\<rparr>)"
  have ok: "table_ok ?s1" by (rule table_ok_wakeup) (simp add: assms)
  have c: "current s < 99" "length (pcb_table s) = MAX_PCB" using table_okD [OF assms] by auto
  show "table_ok (slice_end t s)" unfolding slice_end_def
    by (rule table_ok_upd [OF ok]) (use c table_okD(5) [OF ok] in auto)
  show "current (slice_end t s) = current s" by (simp add: slice_end_def)
  show "j < MAX_PCB \<Longrightarrow> j \<noteq> current s \<Longrightarrow> pcb (slice_end t s) j = wake_one (pcb s j)"
    using c by (simp add: slice_end_def pcb_upd_pcb pcb_wakeup)
qed

lemma timer_event_ok:
  assumes "table_ok s"
  obtains s' where "timer_event t s = Inr s'" and "table_ok s'"
proof (cases "time_count (pcb s (current s)) = 10")
  case True
  then show thesis
    using that table_ok_schedule [OF slice_end_ok(1) [OF assms]] timer_event_cases [OF assms] by metis
next
  case False
  let ?s1 = "wakeup (s\<lparr>time_tick := time_tick s + 1\<rparr>)"
  have ok: "table_ok ?s1" by (rule table_ok_wakeup) (simp add: assms)
  have c: "current s < 99" "length (pcb_table s) = MAX_PCB" using table_okD [OF assms] by auto
  have "time_count (pcb ?s1 (current s)) = time_count (pcb s (current s))"
    using c by (simp add: pcb_wakeup wake_one_def Let_def)
  then have tc: "0 \<le> time_count (pcb ?s1 (current s))" "time_count (pcb ?s1 (current s)) < 10"
    using False table_okD(7) [OF assms, of "current s"] c by auto
  have "table_ok (upd_pcb (current s) (\<lambda>b. b\<lparr>tf := t, time_count := i32 (time_count b + 1)\<rparr>) ?s1)"
    by (rule table_ok_upd [OF ok]) (use c tc table_okD(5) [OF ok] in \<open>auto simp: i32_id\<close>)
  then show thesis using that timer_event_cases [OF assms] False by simp
qed

lemma wake_one_ready: "status b = Ready \<Longrightarrow> wake_one b = b"
  by (simp add: wake_one_def)

lemma timer_continue:
  assumes "table_ok s" and "timer_event t s = Inr s'" and "time_count (pcb s (current s)) \<noteq> 10"
  shows "current s' = current s" and "time_count (pcb s' (current s)) = time_count (pcb s (current s)) + 1"
    and "j < MAX_PCB \<Longrightarrow> j \<noteq> current s \<Longrightarrow> pcb s' j = wake_one (pcb s j)"
proof -
  have c: "current s < 99" "length (pcb_table s) = MAX_PCB" using table_okD [OF assms(1)] by auto
  have s': "s' = upd_pcb (current s) (\<lambda>b. b\<lparr>tf := t, time_count := i32 (time_count b + 1)\<rparr>)
       (wakeup (s\<lparr>time_tick := time_tick s + 1\<rparr>))"
    using assms timer_event_cases [OF assms(1)] by simp
  show "current s' = current s" by (simp add: s')
  have "0 \<le> time_count (pcb s (current s))" "time_count (pcb s (current s)) \<le> 10"
    using table_okD(7) [OF assms(1), of "current s"] c by auto
  then show "time_count (pcb s' (current s)) = time_count (pcb s (current s)) + 1"
    using c by (simp add: s' pcb_upd_pcb pcb_wakeup wake_one_def Let_def i32_id)
  show "j < MAX_PCB \<Longrightarrow> j \<noteq> current s \<Longrightarrow> pcb s' j = wake_one (pcb s j)"
    using c by (simp add: s' pcb_upd_pcb pcb_wakeup)
qed

lemma timer_switch:
  assumes "table_ok s" and "timer_event t s = Inr s'" and "time_count (pcb s (current s)) = 10"
    and j: "status (pcb s j) = Ready" "j < MAX_PCB" "j \<noteq> current s"
  shows "current s' \<noteq> current s" and "dist MAX_PCB (current s) (current s') \<le> dist MAX_PCB (current s) j"
    and "current s' = j \<or> status (pcb s' j) = Ready"
proof -
  let ?e = "slice_end t s"
  note e = slice_end_ok [OF assms(1), where t = t]
  have c: "current ?e < MAX_PCB" using e(2) table_okD(2) [OF assms(1)] by simp
  have je: "status (pcb ?e j) = Ready" using e(3) j by (simp add: wake_one_ready)
  then obtain i where i: "next_ready ?e = Some i"
    using next_ready_None [OF _ c j(2)] j(3) e(2) by (cases "next_ready ?e") auto
  have s': "s' = dispatch i ?e"
    using assms(2,3) timer_event_cases [OF assms(1)] schedule_next [OF e(1)] i by simp
  note n = next_ready_Some [OF i c]
  show "current s' \<noteq> current s" using n(3) e(2) s' by simp
  show "dist MAX_PCB (current s) (current s') \<le> dist MAX_PCB (current s) j"
    using n(4) [OF j(2) je] j(3) e(2) s' by simp
  show "current s' = j \<or> status (pcb s' j) = Ready"
    using je s' n(1) table_okD(1) [OF e(1)] by (simp add: pcb_dispatch)
qed

interpretation timer: round_robin MAX_PCB 10 "timer_event t" current
  "\<lambda>s j. status (pcb s j) = Ready" "\<lambda>s. nat (10 - time_count (pcb s (current s)))" table_ok
proof unfold_locales
  fix s s' :: "'a kst_scheme" and j
  show "table_ok s \<Longrightarrow> \<exists>s'. timer_event t s = Inr s' \<and> table_ok s'"
    using timer_event_ok by metis
  assume ok: "table_ok s"
  then have c: "current s < 99" by (rule table_okD(2))
  have tc: "0 \<le> time_count (pcb s (current s))" "time_count (pcb s (current s)) \<le> 10"
    using table_okD(7) [OF ok, of "current s"] c by auto
  show "current s < MAX_PCB" using c by simp
  show "nat (10 - time_count (pcb s (current s))) \<le> 10" using tc by simp
  assume step: "timer_event t s = Inr s'"
  show "0 < nat (10 - time_count (pcb s (current s))) \<Longrightarrow> current s' = current s \<and>
      nat (10 - time_count (pcb s' (current s'))) < nat (10 - time_count (pcb s (current s)))"
    using timer_continue(1,2) [OF ok step] tc by auto
  assume j: "status (pcb s j) = Ready" "j < MAX_PCB" "j \<noteq> current s"
  show "current s' = j \<or> status (pcb s' j) = Ready"
  proof (cases "time_count (pcb s (current s)) = 10")
    case True
    then show ?thesis using timer_switch(3) [OF ok step] j by blast
  next
    case False
    then show ?thesis using timer_continue(3) [OF ok step] j by (simp add: wake_one_ready)
  qed
  assume "nat (10 - time_count (pcb s (current s))) = 0"
  then have "time_count (pcb s (current s)) = 10" using tc by simp
  then show "current s' \<noteq> current s \<and>
      dist MAX_PCB (current s) (current s') \<le> dist MAX_PCB (current s) j"
    using timer_switch(1,2) [OF ok step _ j] by blast
qed

section \<open>Sleeping and free entries\<close>

lemma wakeup_n_status:
  assumes "i < length (pcb_table s)" and "status (pcb s i) = Blocked" and "sleep_time (pcb s i) = t"
    and "0 < t" and "t < 2 ^ 31"
  shows "int n < t \<Longrightarrow> status (pcb ((wakeup ^^ n) s) i) = Blocked \<and> sleep_time (pcb ((wakeup ^^ n) s) i) = t - int n"
    and "t \<le> int n \<Longrightarrow> status (pcb ((wakeup ^^ n) s) i) = Ready"
proof -
  have len: "length (pcb_table ((wakeup ^^ n) s)) = length (pcb_table s)" for n
    by (induction n) simp_all
  have pw: "pcb ((wakeup ^^ Suc n) s) i = wake_one (pcb ((wakeup ^^ n) s) i)" for n
    using assms(1) len by (simp add: pcb_wakeup)
  have both: "(int n < t \<longrightarrow> status (pcb ((wakeup ^^ n) s) i) = Blocked \<and>
        sleep_time (pcb ((wakeup ^^ n) s) i) = t - int n) \<and>
      (t \<le> int n \<longrightarrow> status (pcb ((wakeup ^^ n) s) i) = Ready)" for n
  proof (induction n)
    case (Suc n)
    show ?case
      unfolding pw using Suc assms(4,5) by (auto simp: wake_one_def Let_def i32_id)
  qed (use assms in simp)
  show "int n < t \<Longrightarrow> status (pcb ((wakeup ^^ n) s) i) = Blocked \<and> sleep_time (pcb ((wakeup ^^ n) s) i) = t - int n"
    and "t \<le> int n \<Longrightarrow> status (pcb ((wakeup ^^ n) s) i) = Ready"
    using both by auto
qed

lemma first_free_Some:
  "first_free ps i = Some k \<Longrightarrow> i \<le> k \<and> k < i + length ps \<and> status (ps ! (k - i)) = Free \<and>
     (\<forall>j < k - i. status (ps ! j) \<noteq> Free)"
proof (induction ps arbitrary: i)
  case (Cons p ps)
  show ?case
  proof (cases "status p = Free")
    case False
    then have IH: "i + 1 \<le> k \<and> k < i + 1 + length ps \<and> status (ps ! (k - (i + 1))) = Free \<and>
        (\<forall>j < k - (i + 1). status (ps ! j) \<noteq> Free)"
      using Cons.IH [of "i + 1"] Cons.prems by simp
    then have "k - i = Suc (k - (i + 1))" by linarith
    then show ?thesis using IH False by (auto simp: less_Suc_eq_0_disj)
  qed (use Cons.prems in auto)
qed simp

lemma first_free_None: "first_free ps i = None \<longleftrightarrow> (\<forall>p \<in> set ps. status p \<noteq> Free)"
  by (induction ps arbitrary: i) auto

text \<open>A concrete state: the idle process runs in entry 0, process 3 is ready, process 5 sleeps.\<close>

definition pcb_zero :: PCB where
  "pcb_zero = \<lparr>tf = 0, fcb = replicate NR_FILE (-1), pid = -1, ppid = 0, status = Free, time_count = 0,
     sleep_time = 0, cr3 = 0, pcb_index = 0, block_sem_index = -1\<rparr>"

definition table_demo :: "PCB list" where
  "table_demo = (replicate MAX_PCB pcb_zero)
     [0 := pcb_zero\<lparr>status := Running, pid := 1\<rparr>,
      3 := pcb_zero\<lparr>status := Ready, pid := 2, pcb_index := 3, cr3 := 0x500000\<rparr>,
      5 := pcb_zero\<lparr>status := Blocked, pid := 3, pcb_index := 5, sleep_time := 5, block_sem_index := 7\<rparr>]"

definition kst_demo :: kst where
  "kst_demo = \<lparr>pages = (\<lambda>_. \<lparr>pp_link = None, pp_ref = 0\<rparr>), page_free_list = None, mem = (\<lambda>_. 0),
     pcb_table = table_demo, pid_count = 1, current = 0, tss = \<lparr>esp0 = 0, ss0 = 16\<rparr>, cr3_reg = 0,
     IF = False, time_tick = 0, sem_count = 0, pcb_base = 0xC0200000\<rparr>"

lemma demo_nth:
  "i < MAX_PCB \<Longrightarrow> table_demo ! i =
     (if i = 0 then pcb_zero\<lparr>status := Running, pid := 1\<rparr>
      else if i = 3 then pcb_zero\<lparr>status := Ready, pid := 2, pcb_index := 3, cr3 := 0x500000\<rparr>
      else if i = 5 then pcb_zero\<lparr>status := Blocked, pid := 3, pcb_index := 5, sleep_time := 5, block_sem_index := 7\<rparr>
      else pcb_zero)"
  by (simp add: table_demo_def nth_list_update)

lemma demo_length [simp]: "length table_demo = MAX_PCB"
  by (simp add: table_demo_def)

lemma demo_split: "table_demo = (pcb_zero\<lparr>status := Running, pid := 1\<rparr>) # pcb_zero # drop 2 table_demo"
  by (rule nth_equalityI) (auto simp: demo_nth nth_Cons' numeral_2_eq_2)

lemma demo_first_free: "first_free table_demo 0 = Some 1"
proof -
  have "first_free ((pcb_zero\<lparr>status := Running, pid := 1\<rparr>) # pcb_zero # ps) 0 = Some 1" for ps
    by (simp add: pcb_zero_def)
  then show ?thesis using demo_split by metis
qed

lemma demo_ok: "table_ok kst_demo"
  by (auto simp: table_ok_def kst_demo_def demo_nth pcb_zero_def)

section \<open>Properties\<close>

text \<open>
  C4: \<open>schedule\<close> returns and hands the processor to the first ready process after the current
  one in circular order of the table: that process is running, CR3 is its page directory and
  the TSS stack is the top of its kernel stack. No other entry of the table changes. With no
  other ready process, the idle entry 0 becomes current and nothing else changes.
\<close>

theorem schedule_round_robin:
  assumes "table_ok s"
  shows "\<exists>s'. schedule s = Inr s' \<and> table_ok s' \<and>
    (if \<exists>j < MAX_PCB. j \<noteq> current s \<and> status (pcb s j) = Ready
     then status (pcb s (current s')) = Ready \<and> current s' \<noteq> current s \<and>
       (\<forall>j < MAX_PCB. j \<noteq> current s \<and> status (pcb s j) = Ready \<longrightarrow>
          dist MAX_PCB (current s) (current s') \<le> dist MAX_PCB (current s) j) \<and>
       pcb_table s' = (pcb_table s)[current s' := (pcb s (current s'))\<lparr>status := Running\<rparr>] \<and>
       cr3_reg s' = cr3 (pcb s (current s')) \<and> esp0 (tss s') = kstack s (current s') + 4096
     else s' = s\<lparr>current := 0\<rparr>)"
proof -
  obtain s' where s': "schedule s = Inr s'" "table_ok s'" by (rule table_ok_schedule [OF assms])
  have c: "current s < MAX_PCB" "length (pcb_table s) = MAX_PCB" using table_okD [OF assms] by auto
  show ?thesis
  proof (cases "next_ready s")
    case None
    then show ?thesis
      using s' schedule_next [OF assms] next_ready_None [OF None c(1)] by auto
  next
    case (Some i)
    note n = next_ready_Some [OF Some c(1)]
    have "s' = dispatch i s" using s'(1) schedule_next [OF assms] Some by simp
    moreover have "pcb_table (dispatch i s) = (pcb_table s)[i := (pcb s i)\<lparr>status := Running\<rparr>]"
      by (simp add: dispatch_def Let_def upd_pcb_def)
    ultimately show ?thesis
      using s' n(1-3) dispatch_regs [of i s] c(2)
      by (intro exI [of _ s']) (auto simp: n(4))
  qed
qed

theorem schedule_round_robin_witness:
  "\<exists>s'. schedule kst_demo = Inr s' \<and> status (pcb kst_demo (current s')) = Ready"
proof -
  have "\<exists>j < MAX_PCB. j \<noteq> current kst_demo \<and> status (pcb kst_demo j) = Ready"
    by (rule exI [of _ 3]) (simp add: kst_demo_def demo_nth pcb_zero_def)
  from schedule_round_robin [OF demo_ok, unfolded if_P [OF this]] show ?thesis by blast
qed

text \<open>
  C8: no ready process starves: under timer interrupts alone, a ready process is current after
  at most 1100 ticks, whatever the other processes of the table do with their time slices.
\<close>

theorem ready_process_runs:
  assumes "table_ok s" and "status (pcb s j) = Ready" and "j < MAX_PCB"
  shows "\<exists>n \<le> 1100. \<exists>s'. iterate (timer_event t) n s = Inr s' \<and> table_ok s' \<and> current s' = j"
  using timer.runs_soon [OF assms, of t] by simp

theorem ready_process_runs_witness:
  "\<exists>n \<le> 1100. \<exists>s'. iterate (timer_event 0xC0300000) n kst_demo = Inr s' \<and> table_ok s' \<and> current s' = 3"
  by (rule ready_process_runs [OF demo_ok]) (simp_all add: kst_demo_def demo_nth pcb_zero_def)

text \<open>
  the scheduler steps over the end of the table: called while the process in the last entry
  is current, it reads an entry that does not exist.
\<close>

theorem schedule_last_entry:
  assumes "pcb_index (pcb s (current s)) = 99"
  shows "schedule s = Inl OutOfBounds"
proof -
  obtain n where "n + 1 = Suc MAX_PCB" by (metis Suc_eq_plus1)
  then have "MAX_PCB + 1 = Suc n" by simp
  then show ?thesis by (simp only: schedule_def Let_def assms sched_scan.simps) simp
qed

theorem schedule_last_entry_witness:
  "schedule (kst_demo\<lparr>current := 99, pcb_table := table_demo[99 := pcb_zero\<lparr>pcb_index := 99\<rparr>]\<rparr>) =
     Inl OutOfBounds"
  by (rule schedule_last_entry) simp

text \<open>
  a process put to sleep for \<open>t > 0\<close> ticks stays blocked for the next \<open>t - 1\<close> calls of
  \<open>wakeup\<close>, is ready after the \<open>t\<close>-th and stays ready.
\<close>

theorem sleep_wakes_exactly:
  assumes "i < length (pcb_table s)" and "status (pcb s i) = Blocked" and "sleep_time (pcb s i) = t"
    and "0 < t" and "t < 2 ^ 31"
  shows "status (pcb ((wakeup ^^ n) s) i) = (if int n < t then Blocked else Ready)"
  using wakeup_n_status [OF assms, of n] by (cases "int n < t") auto

theorem sleep_wakes_exactly_witness:
  "status (pcb ((wakeup ^^ 4) kst_demo) 5) = Blocked \<and> status (pcb ((wakeup ^^ 5) kst_demo) 5) = Ready"
proof -
  have "status (pcb ((wakeup ^^ n) kst_demo) 5) = (if int n < 5 then Blocked else Ready)" for n
    by (rule sleep_wakes_exactly) (simp_all add: kst_demo_def demo_nth pcb_zero_def)
  then show ?thesis by simp
qed

text \<open>
  \<open>get_pcb\<close> returns the lowest free entry of the table, and an uninitialised value exactly
  when the table is full.
\<close>

theorem get_pcb_lowest:
  "case get_pcb s of
     Inr i \<Rightarrow> i < length (pcb_table s) \<and> status (pcb s i) = Free \<and> (\<forall>j \<in> {..<i}. status (pcb s j) \<noteq> Free)
   | Inl e \<Rightarrow> e = Uninit \<and> (\<forall>p \<in> set (pcb_table s). status p \<noteq> Free)"
  using first_free_Some [of "pcb_table s" 0] first_free_None [of "pcb_table s" 0]
  by (auto simp: get_pcb_def split: option.splits)

theorem get_pcb_lowest_witness:
  "get_pcb kst_demo = Inr 1 \<and> status (pcb kst_demo 1) = Free"
  using demo_first_free get_pcb_lowest [of kst_demo] by (simp add: get_pcb_def kst_demo_def)

end
