(* ===== verification/Semaphore.thy ===== *)
theory Semaphore
  imports Process
begin

text \<open>
  Semaphores: \<open>kernel/src/semaphore/semaphore.c\<close>. A \<open>sem_t\<close> lives in the memory of the calling
  program; every operation reads and writes it only while interrupts are disabled and never
  after \<open>schedule\<close>, so it is passed in and out by value. The messages of \<open>sem_init\<close> are not
  modelled.
\<close>

section \<open>State and operations\<close>

record sem_t =
  sem_value :: int
  mutex :: bool
  sem_index :: int
  block_proc_num :: int

definition enable_interrupt :: "'a kst_scheme \<Rightarrow> 'a kst_scheme" where
  "enable_interrupt s = s\<lparr>IF := True\<rparr>"

definition disable_interrupt :: "'a kst_scheme \<Rightarrow> 'a kst_scheme" where
  "disable_interrupt s = s\<lparr>IF := False\<rparr>"

definition sem_init :: "int \<Rightarrow> bool \<Rightarrow> 'a kst_scheme \<Rightarrow> sem_t \<times> 'a kst_scheme" where
  "sem_init val mtx s =
     (let s1 = disable_interrupt s;
          q = (if mtx
               then \<lparr>sem_value = 1, mutex = True, sem_index = sem_count s1, block_proc_num = 0\<rparr>
               else \<lparr>sem_value = val, mutex = False, sem_index = sem_count s1, block_proc_num = 0\<rparr>);
          s2 = s1\<lparr>sem_count := i32 (sem_count s1 + 1)\<rparr>
      in (q, enable_interrupt s2))"

text \<open>The blocking branch, which \<open>sem_wait\<close> has twice.\<close>

definition sem_block :: "sem_t \<Rightarrow> 'a kst_scheme \<Rightarrow> (sem_t \<times> 'a kst_scheme) res" where
  "sem_block q s =
     bnd (at_pcb (current s) (\<lambda>b. b\<lparr>status := Blocked, block_sem_index := sem_index q\<rparr>) s) (\<lambda>s1.
       let q1 = q\<lparr>block_proc_num := i32 (block_proc_num q + 1)\<rparr>
       in bnd (schedule (enable_interrupt s1)) (\<lambda>s2. Inr (q1, s2)))"

definition sem_wait :: "sem_t \<Rightarrow> 'a kst_scheme \<Rightarrow> (sem_t \<times> 'a kst_scheme) res" where
  "sem_wait q s =
     (let s1 = disable_interrupt s
      in bnd (if \<not> mutex q
              then let q1 = q\<lparr>sem_value := i32 (sem_value q - 1)\<rparr>
                   in if sem_value q1 < 0 then sem_block q1 s1 else Inr (q1, s1)
              else if sem_value q = 1 then Inr (q\<lparr>sem_value := 0\<rparr>, s1)
              else sem_block q s1)
           (\<lambda>(q2, s2). Inr (q2, enable_interrupt s2)))"

definition sem_post :: "sem_t \<Rightarrow> 'a kst_scheme \<Rightarrow> sem_t \<times> 'a kst_scheme" where
  "sem_post q s =
     (let s1 = disable_interrupt s;
          (q2, s2) =
            (if \<not> mutex q
             then let q1 = q\<lparr>sem_value := i32 (sem_value q + 1)\<rparr>
                  in if sem_value q1 \<le> 0
                     then (q1\<lparr>block_proc_num := i32 (block_proc_num q1 - 1)\<rparr>, release_sem (sem_index q1) s1)
                     else (q1, s1)
             else if block_proc_num q = 0 then (q\<lparr>sem_value := 1\<rparr>, s1)
             else (q\<lparr>block_proc_num := i32 (block_proc_num q - 1)\<rparr>, release_sem (sem_index q) s1))
      in (q2, enable_interrupt s2))"

definition sem_destroy :: "sem_t \<Rightarrow> 'a kst_scheme \<Rightarrow> 'a kst_scheme" where
  "sem_destroy q s = enable_interrupt (release_sem (sem_index q) (disable_interrupt s))"

definition sem_trywait :: "sem_t \<Rightarrow> 'a kst_scheme \<Rightarrow> int \<times> sem_t \<times> 'a kst_scheme" where
  "sem_trywait q s =
     (let s1 = disable_interrupt s
      in if \<not> mutex q
         then let q1 = q\<lparr>sem_value := i32 (sem_value q - 1)\<rparr>
              in if sem_value q1 < 0 then (1, q1, enable_interrupt s1) else (0, q1, enable_interrupt s1)
         else if sem_value q = 1 then (0, q\<lparr>sem_value := 0\<rparr>, enable_interrupt s1)
         else (1, q, enable_interrupt s1))"

section \<open>Waiters\<close>

lemma interrupt_fields [simp]:
  "pcb_table (enable_interrupt s) = pcb_table s" "current (enable_interrupt s) = current s"
  "pcb_table (disable_interrupt s) = pcb_table s" "current (disable_interrupt s) = current s"
  "sem_count (disable_interrupt s) = sem_count s" "IF (enable_interrupt s)"
  "mem (enable_interrupt s) = mem s" "mem (disable_interrupt s) = mem s"
  by (simp_all add: enable_interrupt_def disable_interrupt_def)

lemma table_ok_table:
  "pcb_table s' = pcb_table s \<Longrightarrow> current s' = current s \<Longrightarrow> table_ok s' = table_ok s"
  by (simp add: table_ok_def)

lemma table_ok_interrupt [simp]:
  "table_ok (enable_interrupt s) = table_ok s" "table_ok (disable_interrupt s) = table_ok s"
  "table_ok (s\<lparr>IF := b\<rparr>) = table_ok s" "table_ok (s\<lparr>sem_count := n\<rparr>) = table_ok s"
  by (simp_all add: table_ok_def)

text \<open>The processes blocked on the semaphore of index \<open>k\<close>.\<close>

definition waiters :: "int \<Rightarrow> 'a kst_scheme \<Rightarrow> nat set" where
  "waiters k s = {j. j < MAX_PCB \<and> block_sem_index (pcb s j) = k}"

lemma waiters_finite [simp]: "finite (waiters k s)"
  by (simp add: waiters_def)

lemma waiters_table: "pcb_table s' = pcb_table s \<Longrightarrow> waiters k s' = waiters k s"
  by (simp add: waiters_def)

lemma waiters_interrupt [simp]:
  "waiters k (enable_interrupt s) = waiters k s" "waiters k (disable_interrupt s) = waiters k s"
  by (simp_all add: waiters_def)

lemma card_waiters: "card (waiters k s) \<le> 100"
  using card_mono [of "{..<MAX_PCB}" "waiters k s"] by (auto simp: waiters_def)

text \<open>\<open>release_sem\<close> wakes the waiter with the lowest index, and only that one.\<close>

lemma release_first_none: "\<forall>b \<in> set bs. block_sem_index b \<noteq> k \<Longrightarrow> release_first k bs = bs"
  by (induction bs) auto

lemma release_first_lowest:
  "i < length bs \<Longrightarrow> block_sem_index (bs ! i) = k \<Longrightarrow> \<forall>j < i. block_sem_index (bs ! j) \<noteq> k \<Longrightarrow>
     release_first k bs = bs[i := (bs ! i)\<lparr>block_sem_index := -1, status := Ready, time_count := 0\<rparr>]"
proof (induction bs arbitrary: i)
  case (Cons b bs)
  show ?case
  proof (cases i)
    case (Suc i')
    then have "block_sem_index b \<noteq> k" "\<forall>j < i'. block_sem_index (bs ! j) \<noteq> k" using Cons.prems(3) by auto
    then show ?thesis using Cons.IH [of i'] Cons.prems(1,2) Suc by simp
  qed (use Cons.prems in simp)
qed simp

lemma release_sem_cases:
  assumes "length (pcb_table s) = MAX_PCB"
  shows "release_sem k s = (if waiters k s = {} then s
    else upd_pcb (Min (waiters k s)) (\<lambda>b. b\<lparr>block_sem_index := -1, status := Ready, time_count := 0\<rparr>) s)"
proof (cases "waiters k s = {}")
  case True
  then have "\<forall>b \<in> set (pcb_table s). block_sem_index b \<noteq> k"
    using assms by (auto simp: waiters_def in_set_conv_nth)
  then show ?thesis using True by (simp add: release_sem_def release_first_none)
next
  case False
  let ?i = "Min (waiters k s)"
  have i: "?i < MAX_PCB" "block_sem_index (pcb s ?i) = k" using Min_in [of "waiters k s"] False by (auto simp: waiters_def)
  have "\<forall>j < ?i. block_sem_index (pcb s j) \<noteq> k"
  proof (intro allI impI notI)
    fix j
    assume "j < ?i" "block_sem_index (pcb s j) = k"
    then have "j \<in> waiters k s" using i(1) by (simp add: waiters_def)
    then have "?i \<le> j" by (intro Min_le) simp_all
    with \<open>j < ?i\<close> show False by linarith
  qed
  then show ?thesis using release_first_lowest [of ?i "pcb_table s" k] i assms False
    by (simp add: release_sem_def upd_pcb_def)
qed

section \<open>The contract of a semaphore\<close>

text \<open>
  A semaphore with \<open>p\<close> permits left. Its waiters are blocked, none of them runs, there are as
  many as it counts, and none waits while a permit is left.
\<close>

definition sem_ok :: "int \<Rightarrow> sem_t \<Rightarrow> 'a kst_scheme \<Rightarrow> bool" where
  "sem_ok p q s \<longleftrightarrow> table_ok s \<and> 0 \<le> sem_index q \<and> 0 \<le> p \<and> p \<le> 2 ^ 30 \<and>
     (\<forall>j \<in> waiters (sem_index q) s. status (pcb s j) = Blocked) \<and> 0 \<notin> waiters (sem_index q) s \<and>
     current s \<notin> waiters (sem_index q) s \<and>
     block_proc_num q = int (card (waiters (sem_index q) s)) \<and>
     (waiters (sem_index q) s \<noteq> {} \<longrightarrow> p = 0) \<and>
     (if mutex q then sem_value q = p \<and> p \<le> 1
      else sem_value q = p - int (card (waiters (sem_index q) s)))"

lemma sem_okD:
  assumes "sem_ok p q s"
  shows "table_ok s" "0 \<le> sem_index q" "0 \<le> p" "p \<le> 2 ^ 30"
    "j \<in> waiters (sem_index q) s \<Longrightarrow> status (pcb s j) = Blocked" "0 \<notin> waiters (sem_index q) s"
    "current s \<notin> waiters (sem_index q) s" "block_proc_num q = int (card (waiters (sem_index q) s))"
    "waiters (sem_index q) s \<noteq> {} \<Longrightarrow> p = 0" "mutex q \<Longrightarrow> sem_value q = p \<and> p \<le> 1"
    "\<not> mutex q \<Longrightarrow> sem_value q = p - int (card (waiters (sem_index q) s))"
  using assms unfolding sem_ok_def by (auto split: if_splits)

text \<open>What another operation may change without touching the semaphore.\<close>

lemma sem_frame:
  assumes "sem_ok p q s" and "table_ok s'" and "waiters (sem_index q) s' = waiters (sem_index q) s"
    and "\<forall>j \<in> waiters (sem_index q) s. status (pcb s' j) = Blocked" and "current s' \<notin> waiters (sem_index q) s"
  shows "sem_ok p q s'"
  using assms unfolding sem_ok_def by metis

lemma sem_ok_same: "pcb_table s' = pcb_table s \<Longrightarrow> current s' = current s \<Longrightarrow> sem_ok p q s' = sem_ok p q s"
  unfolding sem_ok_def using waiters_table [of s' s] table_ok_table [of s' s] by simp

lemma sem_init_ok:
  assumes "table_ok s" and "0 \<le> sem_count s" and "waiters (sem_count s) s = {}" and "0 \<le> v" and "v \<le> 2 ^ 30"
    and "sem_init v mtx s = (q, s')"
  shows "sem_ok (if mtx then 1 else v) q s'" and "sem_index q = sem_count s" and "mutex q = mtx"
    and "pcb_table s' = pcb_table s" and "current s' = current s"
    and "sem_count s' = i32 (sem_count s + 1)"
proof -
  have w: "waiters k (disable_interrupt s\<lparr>sem_count := n\<rparr>) = waiters k s" for k n
    by (simp add: waiters_def)
  show "sem_ok (if mtx then 1 else v) q s'"
    using assms by (cases mtx) (auto simp: sem_init_def Let_def sem_ok_def w)
qed (use assms(6) in \<open>auto simp: sem_init_def Let_def enable_interrupt_def disable_interrupt_def split: if_splits\<close>)

text \<open>Blocking the caller.\<close>

lemma sem_block_ok:
  assumes ok: "sem_ok 0 q0 s" and c: "current s \<noteq> 0" and q: "sem_index q = sem_index q0" "block_proc_num q = block_proc_num q0"
  obtains s' where "sem_block q s = Inr (q\<lparr>block_proc_num := block_proc_num q + 1\<rparr>, s')"
    and "table_ok s'" and "waiters (sem_index q) s' = insert (current s) (waiters (sem_index q) s)"
    and "\<forall>j \<in> waiters (sem_index q) s'. status (pcb s' j) = Blocked" and "current s' \<notin> waiters (sem_index q) s'"
    and "\<forall>k. k \<noteq> sem_index q \<longrightarrow> waiters k s' = waiters k s - {current s}"
    and "\<forall>j < MAX_PCB. j \<noteq> current s \<longrightarrow> (\<exists>b. pcb s' j = (pcb s j)\<lparr>status := b\<rparr> \<and> (b = status (pcb s j) \<or> status (pcb s j) = Ready))"
    and "current s' = 0 \<or> current s' \<noteq> current s \<and> status (pcb s (current s')) = Ready"
proof -
  let ?c = "current s" and ?f = "\<lambda>b. b\<lparr>status := Blocked, block_sem_index := sem_index q\<rparr>"
  let ?s1 = "enable_interrupt (upd_pcb (current s) ?f s)"
  note t = table_okD [OF sem_okD(1) [OF ok]]
  have ok1: "table_ok ?s1"
    using table_ok_upd [OF sem_okD(1) [OF ok] t(2), of ?f] t by simp
  obtain s' where s': "schedule ?s1 = Inr s'" "table_ok s'" by (rule table_ok_schedule [OF ok1])
  have p1: "pcb ?s1 j = (if j = ?c then ?f (pcb s j) else pcb s j)" for j
    using t(1,2) by (simp add: pcb_upd_pcb)
  have ps: "\<exists>b. pcb s' j = (pcb ?s1 j)\<lparr>status := b\<rparr> \<and> (b = status (pcb ?s1 j) \<or> status (pcb ?s1 j) = Ready)" for j
    using schedule_keeps(4) [OF ok1 s'(1), of j] by blast
  have bi: "block_sem_index (pcb s' j) = (if j = ?c then sem_index q else block_sem_index (pcb s j))" for j
    using ps [of j] p1 [of j] by auto
  have w: "waiters (sem_index q) s' = insert ?c (waiters (sem_index q) s)"
    using bi t(2) by (auto simp: waiters_def split: if_splits)
  have b1: "status (pcb ?s1 j) = Blocked" if "j \<in> waiters (sem_index q) s'" for j
    using that sem_okD(5) [OF ok, of j] p1 [of j] w q by auto
  have st: "\<forall>j \<in> waiters (sem_index q) s'. status (pcb s' j) = Blocked"
  proof
    fix j
    assume "j \<in> waiters (sem_index q) s'"
    then show "status (pcb s' j) = Blocked" using b1 [of j] ps [of j] by auto
  qed
  have cur: "current s' \<notin> waiters (sem_index q) s'"
    using schedule_current [OF ok1 s'(1)] b1 [of "current s'"] sem_okD(6) [OF ok] w c q by auto
  have n: "i32 (block_proc_num q + 1) = block_proc_num q + 1"
    using sem_okD(8) [OF ok] card_waiters [of "sem_index q0" s] q by (intro i32_id) auto
  have "sem_block q s = Inr (q\<lparr>block_proc_num := block_proc_num q + 1\<rparr>, s')"
    using t(2) s'(1) by (simp add: sem_block_def at_pcb_def n Let_def)
  moreover have "\<forall>k. k \<noteq> sem_index q \<longrightarrow> waiters k s' = waiters k s - {?c}" using bi by (auto simp: waiters_def)
  moreover have "\<forall>j < MAX_PCB. j \<noteq> ?c \<longrightarrow> (\<exists>b. pcb s' j = (pcb s j)\<lparr>status := b\<rparr> \<and> (b = status (pcb s j) \<or> status (pcb s j) = Ready))"
    using ps p1 by metis
  moreover have "current s' = 0 \<or> current s' \<noteq> ?c \<and> status (pcb s (current s')) = Ready"
    using schedule_current [OF ok1 s'(1)] p1 [of "current s'"] by (auto split: if_splits)
  ultimately show thesis using that s'(2) w st cur by blast
qed

lemma sem_wait_ok:
  assumes ok: "sem_ok p q s" and c: "current s \<noteq> 0"
  obtains q' s' where "sem_wait q s = Inr (q', s')" and "sem_index q' = sem_index q" and "mutex q' = mutex q"
    and "if 0 < p then pcb_table s' = pcb_table s \<and> current s' = current s
      else waiters (sem_index q) s' = insert (current s) (waiters (sem_index q) s)"
    and "sem_ok (if 0 < p then p - 1 else 0) q' s'"
    and "\<forall>p2 q2. sem_ok p2 q2 s \<and> sem_index q2 \<noteq> sem_index q \<longrightarrow>
      sem_ok p2 q2 s' \<and> waiters (sem_index q2) s' = waiters (sem_index q2) s"
proof (cases "0 < p")
  case True
  let ?q = "q\<lparr>sem_value := (if mutex q then 0 else sem_value q - 1)\<rparr>" and ?s = "enable_interrupt (disable_interrupt s)"
  have w: "waiters (sem_index q) s = {}" using sem_okD(9) [OF ok] True by auto
  have "i32 (sem_value q - 1) = sem_value q - 1" if "\<not> mutex q"
    using sem_okD(4,11) [OF ok] that w True by (intro i32_id) auto
  then have run: "sem_wait q s = Inr (?q, ?s)"
    using sem_okD(10,11) [OF ok] w True by (cases "mutex q") (auto simp: sem_wait_def Let_def)
  have "sem_ok (p - 1) ?q ?s" using ok w True by (auto simp: sem_ok_def)
  moreover have "sem_ok p2 q2 ?s = sem_ok p2 q2 s" for p2 q2 by (rule sem_ok_same) simp_all
  moreover have "waiters k ?s = waiters k s" for k by simp
  ultimately show thesis using True that [OF run] by simp
next
  case False
  then have p0: "p = 0" using sem_okD(3) [OF ok] by simp
  let ?W = "waiters (sem_index q) s" and ?s = "disable_interrupt s"
  let ?q = "if mutex q then q else q\<lparr>sem_value := sem_value q - 1\<rparr>"
  have val: "sem_value q = (if mutex q then 0 else - int (card ?W))" using sem_okD(10,11) [OF ok] p0 by auto
  have n: "i32 (sem_value q - 1) = sem_value q - 1" using val card_waiters [of "sem_index q" s]
    by (intro i32_id) auto
  have ok1: "sem_ok 0 q ?s" using ok p0 sem_ok_same [of ?s s] by simp
  have q: "sem_index ?q = sem_index q" "block_proc_num ?q = block_proc_num q" by simp_all
  obtain s' where s': "sem_block ?q ?s = Inr (?q\<lparr>block_proc_num := block_proc_num ?q + 1\<rparr>, s')"
    "table_ok s'" "waiters (sem_index ?q) s' = insert (current ?s) (waiters (sem_index ?q) ?s)"
    "\<forall>j \<in> waiters (sem_index ?q) s'. status (pcb s' j) = Blocked" "current s' \<notin> waiters (sem_index ?q) s'"
    "\<forall>k. k \<noteq> sem_index ?q \<longrightarrow> waiters k s' = waiters k ?s - {current ?s}"
    "\<forall>j < MAX_PCB. j \<noteq> current ?s \<longrightarrow> (\<exists>b. pcb s' j = (pcb ?s j)\<lparr>status := b\<rparr> \<and> (b = status (pcb ?s j) \<or> status (pcb ?s j) = Ready))"
    "current s' = 0 \<or> current s' \<noteq> current ?s \<and> status (pcb ?s (current s')) = Ready"
    by (rule sem_block_ok [OF ok1 _ q]) (use c in simp_all)
  note s' = s' [unfolded q]
  let ?q' = "?q\<lparr>block_proc_num := block_proc_num q + 1\<rparr>"
  have "(if \<not> mutex q then let q1 = q\<lparr>sem_value := i32 (sem_value q - 1)\<rparr>
           in if sem_value q1 < 0 then sem_block q1 ?s else Inr (q1, ?s)
         else if sem_value q = 1 then Inr (q\<lparr>sem_value := 0\<rparr>, ?s) else sem_block q ?s) = Inr (?q', s')"
    using s'(1) val n by (cases "mutex q") auto
  then have run: "sem_wait q s = Inr (?q', enable_interrupt s')" by (simp add: sem_wait_def)
  have W: "waiters (sem_index q) s' = insert (current s) ?W" using s'(3) by simp
  have "card (insert (current s) ?W) = card ?W + 1" using sem_okD(7) [OF ok] by simp
  moreover have "0 \<notin> insert (current s) ?W" using sem_okD(6) [OF ok] c by simp
  ultimately have "sem_ok 0 ?q' (enable_interrupt s')"
    using s'(2,4,5) sem_okD(2,8) [OF ok] val W unfolding sem_ok_def by (cases "mutex q") simp_all
  moreover have other: "sem_ok p2 q2 (enable_interrupt s') \<and> waiters (sem_index q2) (enable_interrupt s') = waiters (sem_index q2) s"
    if 2: "sem_ok p2 q2 s" "sem_index q2 \<noteq> sem_index q" for p2 q2
  proof -
    have w2: "waiters (sem_index q2) s' = waiters (sem_index q2) s"
      using s'(6) 2(2) sem_okD(7) [OF 2(1)] by simp
    have b2: "\<forall>j \<in> waiters (sem_index q2) s. status (pcb s' j) = Blocked"
    proof
      fix j
      assume j: "j \<in> waiters (sem_index q2) s"
      then have "j < MAX_PCB" "j \<noteq> current s" "status (pcb s j) = Blocked"
        using sem_okD(5,7) [OF 2(1)] by (auto simp: waiters_def)
      then show "status (pcb s' j) = Blocked" using s'(7) by force
    qed
    have c2: "current s' \<notin> waiters (sem_index q2) s"
      using s'(8) sem_okD(5,6) [OF 2(1)] by force
    have "sem_ok p2 q2 s'" by (rule sem_frame [OF 2(1) s'(2) w2 b2 c2])
    then show ?thesis using sem_ok_same [of "enable_interrupt s'" s' p2 q2] w2 by simp
  qed
  moreover have "mutex ?q = mutex q" by simp
  ultimately show thesis using False W q(1) by (intro that [OF run]) (auto dest: other)
qed

lemma sem_post_ok:
  assumes ok: "sem_ok p q s" and m: "mutex q \<longrightarrow> p = 0" and p: "p < 2 ^ 30"
  obtains q' s' where "sem_post q s = (q', s')" and "sem_index q' = sem_index q" and "mutex q' = mutex q"
    and "current s' = current s"
    and "if waiters (sem_index q) s = {} then pcb_table s' = pcb_table s
      else waiters (sem_index q) s' = waiters (sem_index q) s - {Min (waiters (sem_index q) s)} \<and>
        status (pcb s' (Min (waiters (sem_index q) s))) = Ready"
    and "sem_ok (if waiters (sem_index q) s = {} then p + 1 else 0) q' s'"
    and "\<forall>p2 q2. sem_ok p2 q2 s \<and> sem_index q2 \<noteq> sem_index q \<longrightarrow>
      sem_ok p2 q2 s' \<and> waiters (sem_index q2) s' = waiters (sem_index q2) s"
    and "\<forall>j. status (pcb s j) \<noteq> Blocked \<longrightarrow> status (pcb s' j) = status (pcb s j)"
proof (cases "waiters (sem_index q) s = {}")
  case True
  let ?q = "q\<lparr>sem_value := p + 1\<rparr>" and ?s = "enable_interrupt (disable_interrupt s)"
  have "i32 (p + 1) = p + 1" using sem_okD(3) [OF ok] p by (intro i32_id) auto
  then have run: "sem_post q s = (?q, ?s)"
    using sem_okD(3,8,10,11) [OF ok] m True by (cases "mutex q") (auto simp: sem_post_def Let_def)
  have "sem_ok (p + 1) ?q ?s" using ok True m p by (auto simp: sem_ok_def)
  moreover have "sem_ok p2 q2 ?s = sem_ok p2 q2 s" for p2 q2 by (rule sem_ok_same) simp_all
  ultimately show thesis using True that [OF run] by simp
next
  case False
  let ?W = "waiters (sem_index q) s"
  obtain i where imin: "i = Min ?W" by blast
  let ?q = "q\<lparr>sem_value := (if mutex q then sem_value q else sem_value q + 1), block_proc_num := block_proc_num q - 1\<rparr>"
  let ?f = "\<lambda>b. b\<lparr>block_sem_index := -1, status := Ready, time_count := 0\<rparr>"
  let ?s = "enable_interrupt (upd_pcb i ?f (disable_interrupt s))"
  note t = table_okD [OF sem_okD(1) [OF ok]]
  have i: "i \<in> ?W" unfolding imin using False by (intro Min_in) simp_all
  then have "i < MAX_PCB" unfolding waiters_def by blast
  moreover have "i \<noteq> current s" "i \<noteq> 0" using i sem_okD(6,7) [OF ok] by metis+
  ultimately have im: "i < MAX_PCB" "status (pcb s i) = Blocked" "i \<noteq> current s" "i \<noteq> 0"
    using sem_okD(5) [OF ok i] by simp_all
  have p0: "p = 0" using sem_okD(9) [OF ok] False by simp
  have cw: "0 < card ?W" "card ?W \<le> 100" using False card_waiters by (auto simp: card_gt_0_iff)
  have val: "sem_value q = (if mutex q then 0 else - int (card ?W))" using sem_okD(10,11) [OF ok] p0 by auto
  have n: "i32 (block_proc_num q - 1) = block_proc_num q - 1" "i32 (sem_value q + 1) = sem_value q + 1"
    using val cw sem_okD(8) [OF ok] by (auto intro!: i32_id)
  have "release_sem (sem_index q) (disable_interrupt s) = upd_pcb i ?f (disable_interrupt s)"
    using release_sem_cases [of "disable_interrupt s" "sem_index q"] t(1) False by (simp add: imin)
  then have run: "sem_post q s = (?q, ?s)"
    using val cw n sem_okD(8) [OF ok] by (cases "mutex q") (auto simp: sem_post_def Let_def)
  have pj: "pcb ?s j = (if j = i then ?f (pcb s j) else pcb s j)" for j
    using t(1) im(1) by (simp add: pcb_upd_pcb)
  have wk: "waiters k ?s = (if k = sem_index q then ?W - {i} else waiters k s)" if "0 \<le> k" for k
    using i that unfolding waiters_def pj by (auto split: if_splits)
  have "i < 99"
  proof (rule ccontr)
    assume "\<not> i < 99"
    then have "i = 99" using im(1) by linarith
    then show False using im(2) t(3) by simp
  qed
  then have ok': "table_ok ?s"
    using table_ok_upd [of "disable_interrupt s" i ?f] sem_okD(1) [OF ok] t(4) [OF im(1)] im(2) by simp
  have "card (?W - {i}) = card ?W - 1" using i by simp
  moreover have wq: "waiters (sem_index ?q) ?s = ?W - {i}" using wk [OF sem_okD(2) [OF ok]] by simp
  ultimately have "sem_ok 0 ?q ?s"
    unfolding sem_ok_def wq using ok' sem_okD [OF ok] val cw pj by (cases "mutex q") auto
  moreover have other: "sem_ok p2 q2 ?s \<and> waiters (sem_index q2) ?s = waiters (sem_index q2) s"
    if 2: "sem_ok p2 q2 s" "sem_index q2 \<noteq> sem_index q" for p2 q2
  proof -
    have w2: "waiters (sem_index q2) ?s = waiters (sem_index q2) s" using wk 2(2) sem_okD(2) [OF 2(1)] by simp
    have "i \<notin> waiters (sem_index q2) s" using i 2(2) by (auto simp: waiters_def)
    then have "\<forall>j \<in> waiters (sem_index q2) s. status (pcb ?s j) = Blocked"
      unfolding pj using sem_okD(5) [OF 2(1)] by auto
    then have "sem_ok p2 q2 ?s" using sem_frame [OF 2(1) ok' w2] sem_okD(7) [OF 2(1)] by simp
    then show ?thesis using w2 by simp
  qed
  ultimately show thesis
    using False wk [OF sem_okD(2) [OF ok]] pj im(2)
    by (intro that [OF run]) (auto simp: imin [symmetric] dest: other)
qed

section \<open>Context switches leave a semaphore alone\<close>

lemma sem_schedule_ok:
  assumes ok: "sem_ok p q s" and sc: "schedule s = Inr s'"
  shows "sem_ok p q s'" and "waiters k s' = waiters k s"
proof -
  have tok: "table_ok s" by (rule sem_okD(1) [OF ok])
  have ps: "\<exists>b. pcb s' j = (pcb s j)\<lparr>status := b\<rparr> \<and> (b = status (pcb s j) \<or> status (pcb s j) = Ready)" for j
    using schedule_keeps(4) [OF tok sc, of j] by blast
  have "block_sem_index (pcb s' j) = block_sem_index (pcb s j)" for j using ps [of j] by auto
  then show w: "waiters k s' = waiters k s" for k by (simp add: waiters_def)
  have "status (pcb s' j) = Blocked" if "status (pcb s j) = Blocked" for j using ps [of j] that by auto
  then have "\<forall>j \<in> waiters (sem_index q) s. status (pcb s' j) = Blocked" using sem_okD(5) [OF ok] by blast
  moreover have "current s' \<notin> waiters (sem_index q) s"
    using schedule_current [OF tok sc] sem_okD(5,6) [OF ok] by auto
  ultimately show "sem_ok p q s'" by (intro sem_frame [OF ok schedule_keeps(3) [OF tok sc] w])
qed

lemma sem_sleep_ok:
  assumes ok: "sem_ok p q s" and sl: "process_sleep n s = Inr s'"
  shows "sem_ok p q s'" and "waiters k s' = waiters k s"
proof -
  let ?c = "current s"
  let ?s1 = "upd_pcb ?c (\<lambda>b. b\<lparr>status := Blocked, sleep_time := n\<rparr>) s"
  note t = table_okD [OF sem_okD(1) [OF ok]]
  have pj: "pcb ?s1 j = (if j = ?c then (pcb s j)\<lparr>status := Blocked, sleep_time := n\<rparr> else pcb s j)" for j
    using t(1,2) by (simp add: pcb_upd_pcb)
  have w: "waiters k ?s1 = waiters k s" for k unfolding waiters_def pj by auto
  have "table_ok ?s1" by (rule table_ok_upd [OF sem_okD(1) [OF ok] t(2)]) (use t in auto)
  then have ok1: "sem_ok p q ?s1"
    by (rule sem_frame [OF ok _ w]) (use sem_okD(5,7) [OF ok] pj in auto)
  have sc: "schedule ?s1 = Inr s'" using sl t(2) by (simp add: process_sleep_def at_pcb_def)
  show "sem_ok p q s'" "waiters k s' = waiters k s" using sem_schedule_ok [OF ok1 sc] w by simp_all
qed

text \<open>
  A timer tick leaves a semaphore alone if it does not end the countdown of one of its waiters:
  \<open>wakeup\<close> counts down the sleeping time of every blocked process, also of those that wait for
  a semaphore.
\<close>

definition tick_spares :: "int \<Rightarrow> 'a kst_scheme \<Rightarrow> bool" where
  "tick_spares k s \<longleftrightarrow> (\<forall>j \<in> waiters k s. i32 (sleep_time (pcb s j) - 1) \<noteq> 0)"

lemma sem_tick_ok:
  assumes ok: "sem_ok p q s" and sp: "tick_spares (sem_index q) s" and ti: "timer_event t s = Inr s'"
  shows "sem_ok p q s'" and "waiters k s' = waiters k s"
proof -
  let ?c = "current s" and ?s1 = "wakeup (s\<lparr>time_tick := time_tick s + 1\<rparr>)"
  note tok = sem_okD(1) [OF ok]
  note t = table_okD [OF tok]
  have wk: "block_sem_index (wake_one b) = block_sem_index b" for b by (simp add: wake_one_def Let_def)
  have frame: "sem_ok p q u \<and> (\<forall>k. waiters k u = waiters k s)"
    if u: "table_ok u" "current u = ?c" "\<And>j. j < MAX_PCB \<Longrightarrow> j \<noteq> ?c \<Longrightarrow> pcb u j = wake_one (pcb s j)"
      "block_sem_index (pcb u ?c) = block_sem_index (pcb s ?c)" for u :: "'a kst_scheme"
  proof -
    have "block_sem_index (pcb u j) = block_sem_index (pcb s j)" if "j < MAX_PCB" for j
      using u(3) [OF that] u(4) wk by (cases "j = ?c") auto
    then have w: "waiters k u = waiters k s" for k by (auto simp: waiters_def)
    have "status (pcb u j) = Blocked" if j: "j \<in> waiters (sem_index q) s" for j
    proof -
      have "j < MAX_PCB" "j \<noteq> ?c" using j sem_okD(7) [OF ok] by (auto simp: waiters_def)
      then show ?thesis using u(3) sem_okD(5) [OF ok j] sp j by (simp add: tick_spares_def wake_one_def Let_def)
    qed
    then show ?thesis using sem_frame [OF ok u(1) w] sem_okD(7) [OF ok] u(2) w by simp
  qed
  have "sem_ok p q s' \<and> (\<forall>k. waiters k s' = waiters k s)"
  proof (cases "time_count (pcb s ?c) = 10")
    case True
    have "block_sem_index (pcb (slice_end t s) ?c) = block_sem_index (pcb s ?c)"
      using t(1,2) by (simp add: slice_end_def pcb_upd_pcb pcb_wakeup wk)
    then have e: "sem_ok p q (slice_end t s)" "\<And>k. waiters k (slice_end t s) = waiters k s"
      using frame [OF slice_end_ok(1,2) [OF tok]] slice_end_ok(3) [OF tok] by auto
    have "schedule (slice_end t s) = Inr s'" using ti timer_event_cases [OF tok] True by simp
    from sem_schedule_ok [OF e(1) this] show ?thesis using e(2) by simp
  next
    case False
    obtain u where u: "timer_event t s = Inr u" "table_ok u" by (rule timer_event_ok [OF tok])
    have "s' = upd_pcb ?c (\<lambda>b. b\<lparr>tf := t, time_count := i32 (time_count b + 1)\<rparr>) ?s1"
      using ti timer_event_cases [OF tok] False by simp
    then have "block_sem_index (pcb s' ?c) = block_sem_index (pcb s ?c)"
      using t(1,2) by (simp add: pcb_upd_pcb pcb_wakeup wk)
    then show ?thesis
      using frame [OF _ timer_continue(1) [OF tok ti False]] timer_continue(3) [OF tok ti False] u ti by simp
  qed
  then show "sem_ok p q s'" "waiters k s' = waiters k s" by auto
qed

section \<open>Accounting\<close>

text \<open>
  The interface on which programs that use semaphores rest. \<open>ok p q s\<close> says that semaphore \<open>q\<close>
  has \<open>p\<close> permits left in state \<open>s\<close>. A waiting call takes a permit or joins the waiters; a post
  hands the permit to a waiter or returns it. Other semaphores are not affected.
\<close>

locale semaphore_contract =
  fixes ok :: "int \<Rightarrow> 'q \<Rightarrow> 's \<Rightarrow> bool" and ident :: "'q \<Rightarrow> int" and waiting :: "int \<Rightarrow> 's \<Rightarrow> nat set"
    and cur :: "'s \<Rightarrow> nat" and excl :: "'q \<Rightarrow> bool" and top :: int
    and wait :: "'q \<Rightarrow> 's \<Rightarrow> ('q \<times> 's) res" and post :: "'q \<Rightarrow> 's \<Rightarrow> 'q \<times> 's"
  assumes not_negative: "ok p q s \<Longrightarrow> 0 \<le> p"
    and waiting_empty: "ok p q s \<Longrightarrow> waiting (ident q) s \<noteq> {} \<Longrightarrow> p = 0"
    and running: "ok p q s \<Longrightarrow> cur s \<notin> waiting (ident q) s"
    and finite_waiting: "finite (waiting k s)"
    and wait_law: "ok p q s \<Longrightarrow> cur s \<noteq> 0 \<Longrightarrow> \<exists>q' s'. wait q s = Inr (q', s') \<and> ident q' = ident q \<and>
      excl q' = excl q \<and>
      (if 0 < p then waiting (ident q) s' = waiting (ident q) s \<and> ok (p - 1) q' s'
       else waiting (ident q) s' = insert (cur s) (waiting (ident q) s) \<and> ok 0 q' s') \<and>
      (\<forall>p2 q2. ok p2 q2 s \<and> ident q2 \<noteq> ident q \<longrightarrow> ok p2 q2 s' \<and> waiting (ident q2) s' = waiting (ident q2) s)"
    and post_law: "ok p q s \<Longrightarrow> (excl q \<longrightarrow> p = 0) \<Longrightarrow> p < top \<Longrightarrow> \<exists>q' s'. post q s = (q', s') \<and> ident q' = ident q \<and>
      excl q' = excl q \<and> cur s' = cur s \<and>
      (if waiting (ident q) s = {} then waiting (ident q) s' = {} \<and> ok (p + 1) q' s'
       else (\<exists>j \<in> waiting (ident q) s. waiting (ident q) s' = waiting (ident q) s - {j}) \<and> ok 0 q' s') \<and>
      (\<forall>p2 q2. ok p2 q2 s \<and> ident q2 \<noteq> ident q \<longrightarrow> ok p2 q2 s' \<and> waiting (ident q2) s' = waiting (ident q2) s)"
begin

text \<open>A call that returns takes exactly one permit, a call that blocks takes none.\<close>

lemma wait_count:
  assumes "ok p q s" and "cur s \<noteq> 0" and "wait q s = Inr (q', s')"
  shows "ok (p - (if cur s \<in> waiting (ident q) s' then 0 else 1)) q' s'"
    and "ident q' = ident q" and "excl q' = excl q"
    and "waiting (ident q) s' \<in> {waiting (ident q) s, insert (cur s) (waiting (ident q) s)}"
    and "ok p2 q2 s \<Longrightarrow> ident q2 \<noteq> ident q \<Longrightarrow> ok p2 q2 s' \<and> waiting (ident q2) s' = waiting (ident q2) s"
  using wait_law [OF assms(1,2)] assms(3) running [OF assms(1)] not_negative [OF assms(1)]
  by (auto split: if_splits)

text \<open>A post makes one permit, which goes to a waiter if there is one.\<close>

lemma post_count:
  assumes "ok p q s" and "excl q \<longrightarrow> p = 0" and "p < top" and "post q s = (q', s')"
  shows "ok (p + 1 - int (card (waiting (ident q) s - waiting (ident q) s'))) q' s'"
    and "ident q' = ident q" and "excl q' = excl q" and "cur s' = cur s"
    and "waiting (ident q) s' \<subseteq> waiting (ident q) s"
    and "card (waiting (ident q) s - waiting (ident q) s') \<le> 1"
    and "ok p2 q2 s \<Longrightarrow> ident q2 \<noteq> ident q \<Longrightarrow> ok p2 q2 s' \<and> waiting (ident q2) s' = waiting (ident q2) s"
proof -
  note law = post_law [OF assms(1-3)]
  have one: "W - (W - {j}) = {j}" if "j \<in> W" for j and W :: "nat set" using that by blast
  show "ok (p + 1 - int (card (waiting (ident q) s - waiting (ident q) s'))) q' s'"
    using law assms(4) waiting_empty [OF assms(1)] by (auto simp: one split: if_splits)
  show "card (waiting (ident q) s - waiting (ident q) s') \<le> 1"
    using law assms(4) by (auto simp: one split: if_splits)
qed (use post_law [OF assms(1-3)] assms(4) in \<open>auto split: if_splits\<close>)

end

interpretation ksem: semaphore_contract sem_ok sem_index waiters current mutex "2 ^ 30" sem_wait sem_post
proof unfold_locales
  fix p q and s :: "'a kst_scheme" and k
  show "sem_ok p q s \<Longrightarrow> 0 \<le> p" by (rule sem_okD(3))
  show "sem_ok p q s \<Longrightarrow> waiters (sem_index q) s \<noteq> {} \<Longrightarrow> p = 0" by (rule sem_okD(9))
  show "sem_ok p q s \<Longrightarrow> current s \<notin> waiters (sem_index q) s" by (rule sem_okD(7))
  show "finite (waiters k s)" by simp
  assume ok: "sem_ok p q s"
  {
    assume c: "current s \<noteq> 0"
    obtain q' s' where r: "sem_wait q s = Inr (q', s')" "sem_index q' = sem_index q" "mutex q' = mutex q"
      "if 0 < p then pcb_table s' = pcb_table s \<and> current s' = current s
      else waiters (sem_index q) s' = insert (current s) (waiters (sem_index q) s)"
      "sem_ok (if 0 < p then p - 1 else 0) q' s'"
      "\<forall>p2 q2. sem_ok p2 q2 s \<and> sem_index q2 \<noteq> sem_index q \<longrightarrow>
        sem_ok p2 q2 s' \<and> waiters (sem_index q2) s' = waiters (sem_index q2) s"
      by (rule sem_wait_ok [OF ok c])
    moreover have "0 < p \<Longrightarrow> waiters (sem_index q) s' = waiters (sem_index q) s" using r(4) waiters_table [of s' s] by simp
    ultimately show "\<exists>q' s'. sem_wait q s = Inr (q', s') \<and> sem_index q' = sem_index q \<and> mutex q' = mutex q \<and>
      (if 0 < p then waiters (sem_index q) s' = waiters (sem_index q) s \<and> sem_ok (p - 1) q' s'
       else waiters (sem_index q) s' = insert (current s) (waiters (sem_index q) s) \<and> sem_ok 0 q' s') \<and>
      (\<forall>p2 q2. sem_ok p2 q2 s \<and> sem_index q2 \<noteq> sem_index q \<longrightarrow>
        sem_ok p2 q2 s' \<and> waiters (sem_index q2) s' = waiters (sem_index q2) s)"
      by (intro exI [of _ q'] exI [of _ s']) (auto split: if_splits)
  }
  assume m: "mutex q \<longrightarrow> p = 0" and p: "p < 2 ^ 30"
  let ?W = "waiters (sem_index q) s"
  obtain q' s' where r: "sem_post q s = (q', s')" "sem_index q' = sem_index q" "mutex q' = mutex q"
    "current s' = current s"
    "if ?W = {} then pcb_table s' = pcb_table s
      else waiters (sem_index q) s' = ?W - {Min ?W} \<and> status (pcb s' (Min ?W)) = Ready"
    "sem_ok (if ?W = {} then p + 1 else 0) q' s'"
    "\<forall>p2 q2. sem_ok p2 q2 s \<and> sem_index q2 \<noteq> sem_index q \<longrightarrow>
      sem_ok p2 q2 s' \<and> waiters (sem_index q2) s' = waiters (sem_index q2) s"
    by (rule sem_post_ok [OF ok m p])
  have "waiters (sem_index q) s' = {}" if "?W = {}" using r(5) that waiters_table [of s' s] by simp
  moreover have "\<exists>j \<in> ?W. waiters (sem_index q) s' = ?W - {j}" if "?W \<noteq> {}"
    using r(5) that by (intro bexI [of _ "Min ?W"] Min_in) simp_all
  ultimately show "\<exists>q' s'. sem_post q s = (q', s') \<and> sem_index q' = sem_index q \<and> mutex q' = mutex q \<and>
      current s' = current s \<and>
      (if ?W = {} then waiters (sem_index q) s' = {} \<and> sem_ok (p + 1) q' s'
       else (\<exists>j \<in> ?W. waiters (sem_index q) s' = ?W - {j}) \<and> sem_ok 0 q' s') \<and>
      (\<forall>p2 q2. sem_ok p2 q2 s \<and> sem_index q2 \<noteq> sem_index q \<longrightarrow>
        sem_ok p2 q2 s' \<and> waiters (sem_index q2) s' = waiters (sem_index q2) s)"
    using r by (intro exI [of _ q'] exI [of _ s'] conjI) (auto split: if_splits)
qed

section \<open>Runs\<close>

text \<open>
  All that can happen to one semaphore: \<open>g\<close> counts the waiting calls that have returned and \<open>r\<close>
  the posts. A mutex is posted only by a process that holds it.
\<close>

inductive sem_step :: "sem_t \<times> 'a kst_scheme \<times> int \<times> int \<Rightarrow> sem_t \<times> 'a kst_scheme \<times> int \<times> int \<Rightarrow> bool" where
  wait: "current s \<noteq> 0 \<Longrightarrow> sem_wait q s = Inr (q', s') \<Longrightarrow>
     sem_step (q, s, g, r) (q', s', if current s \<in> waiters (sem_index q) s' then g else g + 1, r)"
| post: "(mutex q \<longrightarrow> r < g) \<Longrightarrow> sem_value q < 2 ^ 30 \<Longrightarrow> sem_post q s = (q', s') \<Longrightarrow>
     sem_step (q, s, g, r)
       (q', s', g + int (card (waiters (sem_index q) s - waiters (sem_index q) s')), r + 1)"
| trywait: "mutex q \<Longrightarrow> sem_trywait q s = (e, q', s') \<Longrightarrow>
     sem_step (q, s, g, r) (q', s', if e = 0 then g + 1 else g, r)"
| tick: "tick_spares (sem_index q) s \<Longrightarrow> timer_event t s = Inr s' \<Longrightarrow> sem_step (q, s, g, r) (q, s', g, r)"
| sleep: "process_sleep n s = Inr s' \<Longrightarrow> sem_step (q, s, g, r) (q, s', g, r)"

lemma sem_wait_caller:
  assumes ok: "sem_ok 0 q s" and w: "sem_wait q s = Inr (q', s')"
  shows "pcb s' (current s) = (pcb s (current s))\<lparr>status := Blocked, block_sem_index := sem_index q\<rparr>"
    and "block_proc_num q' = block_proc_num q + 1" and "length (pcb_table s') = MAX_PCB"
proof -
  let ?c = "current s" and ?f = "\<lambda>b. b\<lparr>status := Blocked, block_sem_index := sem_index q\<rparr>"
  let ?s1 = "enable_interrupt (upd_pcb (current s) ?f (disable_interrupt s))"
  note t = table_okD [OF sem_okD(1) [OF ok]]
  have ok1: "table_ok ?s1" using table_ok_upd [of "disable_interrupt s" ?c ?f] sem_okD(1) [OF ok] t by simp
  have "sem_value q - 1 < 0 \<or> mutex q" "\<not> mutex q \<or> sem_value q \<noteq> 1"
    using sem_okD(10,11) [OF ok] by auto
  moreover have "i32 (sem_value q - 1) = sem_value q - 1" "i32 (block_proc_num q + 1) = block_proc_num q + 1"
    using sem_okD(8,10,11) [OF ok] card_waiters [of "sem_index q" s] by (cases "mutex q"; auto intro!: i32_id)+
  ultimately obtain s2 where s2: "schedule ?s1 = Inr s2" "s' = enable_interrupt s2" "block_proc_num q' = block_proc_num q + 1"
    using w t(2) by (auto simp: sem_wait_def sem_block_def Let_def at_pcb_def bnd_Inr_iff split: if_splits)
  have "pcb ?s1 ?c = ?f (pcb s ?c)" using t(1,2) by (simp add: pcb_upd_pcb)
  then show "pcb s' ?c = ?f (pcb s ?c)" using schedule_keeps(4) [OF ok1 s2(1), of ?c] s2(2) by auto
  show "block_proc_num q' = block_proc_num q + 1" by (rule s2(3))
  show "length (pcb_table s') = MAX_PCB" using table_okD(1) [OF schedule_keeps(3) [OF ok1 s2(1)]] s2(2) by simp
qed

lemma waiters_wakeup: "length (pcb_table s) = MAX_PCB \<Longrightarrow> waiters k ((wakeup ^^ n) s) = waiters k s"
proof (induction n)
  case (Suc n)
  have "length (pcb_table ((wakeup ^^ n) s)) = MAX_PCB" using Suc.prems by (induction n) simp_all
  then have "waiters k (wakeup ((wakeup ^^ n) s)) = waiters k ((wakeup ^^ n) s)"
    by (auto simp: waiters_def pcb_wakeup wake_one_def Let_def split: if_splits)
  then show ?case using Suc by simp
qed simp

lemma sem_trywait_ok:
  assumes ok: "sem_ok p q s" and m: "mutex q" and t: "sem_trywait q s = (e, q', s')"
  shows "sem_ok (if e = 0 then p - 1 else p) q' s'" and "mutex q'" and "sem_index q' = sem_index q"
    and "e = 0 \<longleftrightarrow> 0 < p"
proof -
  have v: "sem_value q = p" "p \<le> 1" "0 \<le> p" using sem_okD(3,10) [OF ok] m by auto
  have s': "s' = enable_interrupt (disable_interrupt s)" using t m by (auto simp: sem_trywait_def Let_def split: if_splits)
  have e: "e = (if p = 1 then 0 else 1)" "q' = (if p = 1 then q\<lparr>sem_value := 0\<rparr> else q)"
    using t m v by (auto simp: sem_trywait_def Let_def split: if_splits)
  have okq: "sem_ok p q s'" using ok sem_ok_same [of s' s p q] s' by simp
  show "sem_ok (if e = 0 then p - 1 else p) q' s'" using okq e v m by (auto simp: sem_ok_def)
  show "mutex q'" "sem_index q' = sem_index q" "e = 0 \<longleftrightarrow> 0 < p" using e m v by auto
qed

lemma sem_step_inv:
  assumes "sem_step (q, s, g, r) (q', s', g', r')" and ok: "sem_ok (n - (g - r)) q s" and m: "mutex q \<longrightarrow> n = 1"
  shows "sem_ok (n - (g' - r')) q' s' \<and> (mutex q' \<longrightarrow> n = 1)"
  using assms(1)
proof cases
  case wait
  show ?thesis
    using ksem.wait_count(1) [OF ok wait(3,4)] ksem.wait_count(3) [OF ok wait(3,4)] wait(1,2) m
    by (auto simp: algebra_simps)
next
  case post
  have lt: "n - (g - r) < 2 ^ 30"
    using sem_okD(9,10,11) [OF ok] post(4) by (cases "waiters (sem_index q) s = {}"; cases "mutex q") auto
  have ex: "mutex q \<longrightarrow> n - (g - r) = 0" using post(3) m sem_okD(3) [OF ok] by auto
  show ?thesis
    using ksem.post_count(1,3) [OF ok ex lt post(5)] post(1,2) m by (simp add: algebra_simps)
next
  case (trywait e)
  show ?thesis using sem_trywait_ok(1,2) [OF ok trywait(3,4)] trywait(1,2) m \<open>mutex q\<close> by (auto simp: algebra_simps)
next
  case (tick t)
  then show ?thesis using sem_tick_ok(1) [OF ok] m by simp
next
  case (sleep n)
  then show ?thesis using sem_sleep_ok(1) [OF ok] m by simp
qed

lemma sem_run_inv:
  assumes "sem_step\<^sup>*\<^sup>* x y" and "sem_ok (n - (fst (snd (snd x)) - snd (snd (snd x)))) (fst x) (fst (snd x))"
    and "mutex (fst x) \<longrightarrow> n = 1"
  shows "sem_ok (n - (fst (snd (snd y)) - snd (snd (snd y)))) (fst y) (fst (snd y)) \<and> (mutex (fst y) \<longrightarrow> n = 1)"
  using assms
proof (induction rule: rtranclp_induct)
  case (step y z)
  obtain q s g r where y: "y = (q, s, g, r)" by (cases y)
  obtain q' s' g' r' where z: "z = (q', s', g', r')" by (cases z)
  show ?case using sem_step_inv [of q s g r q' s' g' r' n] step unfolding y z by simp
qed blast

text \<open>A concrete state: process 3 runs and has never slept.\<close>

definition sem_demo :: kst where
  "sem_demo = kst_demo\<lparr>current := 3, pcb_table := table_demo[3 := (table_demo ! 3)\<lparr>status := Running, sleep_time := 5\<rparr>]\<rparr>"

lemma sem_demo_ok:
  "table_ok sem_demo" "waiters 0 sem_demo = {}" "sem_count sem_demo = 0" "current sem_demo = 3"
  "sem_ok 0 \<lparr>sem_value = 0, mutex = True, sem_index = 0, block_proc_num = 0\<rparr> sem_demo"
proof -
  show t: "table_ok sem_demo"
    by (auto simp: sem_demo_def kst_demo_def table_ok_def nth_list_update demo_nth pcb_zero_def)
  show w: "waiters 0 sem_demo = {}"
    by (auto simp: sem_demo_def kst_demo_def waiters_def nth_list_update demo_nth pcb_zero_def split: if_splits)
  show "sem_count sem_demo = 0" "current sem_demo = 3" by (simp_all add: sem_demo_def kst_demo_def)
  show "sem_ok 0 \<lparr>sem_value = 0, mutex = True, sem_index = 0, block_proc_num = 0\<rparr> sem_demo"
    using t w by (simp add: sem_ok_def)
qed

section \<open>Properties\<close>



text \<open>
  C35: the timer breaks this: a process that blocks in \<open>sem_wait\<close> is ready again after as many
  ticks as its sleep counter holds (5 for a process that has never slept), with no post and
  no permit: the semaphore still counts it as blocked and its entry still names the semaphore.
\<close>

theorem sem_wait_woken_by_timer:
  assumes "sem_ok 0 q s" and "current s \<noteq> 0" and "sem_wait q s = Inr (q', s')"
    and "sleep_time (pcb s (current s)) = n" and "0 < n" and "n < 2 ^ 31"
  shows "status (pcb s' (current s)) = Blocked \<and>
    status (pcb ((wakeup ^^ nat n) s') (current s)) = Ready \<and>
    current s \<in> waiters (sem_index q) ((wakeup ^^ nat n) s') \<and>
    block_proc_num q' = block_proc_num q + 1"
proof -
  let ?c = "current s"
  have c: "?c < MAX_PCB" using table_okD(2) [OF sem_okD(1) [OF assms(1)]] by simp
  note w = sem_wait_caller [OF assms(1,3)]
  have "?c \<in> waiters (sem_index q) ((wakeup ^^ nat n) s')"
    unfolding waiters_wakeup [OF w(3)] using w(1) c by (simp add: waiters_def)
  moreover have "status (pcb ((wakeup ^^ nat n) s') ?c) = Ready"
    by (rule wakeup_n_status(2) [of ?c s' n]) (use w c assms(4-6) in simp_all)
  ultimately show ?thesis using w by simp
qed

theorem sem_wait_woken_by_timer_witness:
  "\<exists>q (s' :: kst). sem_wait \<lparr>sem_value = 0, mutex = True, sem_index = 0, block_proc_num = 0\<rparr> sem_demo = Inr (q, s') \<and>
     status (pcb s' 3) = Blocked \<and> status (pcb ((wakeup ^^ nat 5) s') 3) = Ready"
proof -
  have c: "current sem_demo \<noteq> 0" by (simp add: sem_demo_ok)
  obtain q and s' :: kst where
    w: "sem_wait \<lparr>sem_value = 0, mutex = True, sem_index = 0, block_proc_num = 0\<rparr> sem_demo = Inr (q, s')"
    using ksem.wait_law [OF sem_demo_ok(5) c] by blast
  have "sleep_time (pcb sem_demo (current sem_demo)) = 5" by (simp add: sem_demo_def)
  from sem_wait_woken_by_timer [OF sem_demo_ok(5) c w this] show ?thesis using w by (simp add: sem_demo_ok(4))
qed

text \<open>
  a failed \<open>sem_trywait\<close> on a counting semaphore is not undone: it reports failure but leaves
  the value decremented, so the next post does not make a permit and the one after a failed
  attempt fails as well although nobody holds the semaphore.
\<close>

theorem sem_trywait_loses_permit:
  assumes "\<not> mutex q" and "sem_value q = 0"
  shows "\<exists>q1 s1 q2 s2 q3 s3. sem_trywait q s = (1, q1, s1) \<and> sem_value q1 = -1 \<and>
    sem_post q1 s1 = (q2, s2) \<and> sem_value q2 = 0 \<and> block_proc_num q2 = i32 (block_proc_num q - 1) \<and>
    sem_trywait q2 s2 = (1, q3, s3)"
proof -
  have i: "i32 (- 1) = - 1" "i32 0 = 0" by (simp_all add: i32_id)
  show ?thesis using assms by (simp add: sem_trywait_def sem_post_def Let_def i)
qed

theorem sem_trywait_loses_permit_witness:
  "\<exists>q1 (s1 :: kst). sem_trywait \<lparr>sem_value = 0, mutex = False, sem_index = 0, block_proc_num = 0\<rparr> sem_demo = (1, q1, s1) \<and>
     sem_value q1 = -1"
  using sem_trywait_loses_permit [of "\<lparr>sem_value = 0, mutex = False, sem_index = 0, block_proc_num = 0\<rparr>" sem_demo]
  by auto

end
