(* ===== verification/Producer_Consumer.thy ===== *)
theory Producer_Consumer
  imports Semaphore
begin

text \<open>
  The producer and the consumer of \<open>game/producer_consumer/producer_consumer.c\<close> on the kernel's
  semaphores: two threads that share a buffer of ten items, interleaved at every statement by
  the scheduler. Printing is not modelled.
\<close>

section \<open>The program\<close>

abbreviation (input) item_num :: int where "item_num \<equiv> 10"

text \<open>
  The global variables, the kernel and, for each thread, the number of statements it has
  executed in its loop. A thread that blocks in \<open>sem_wait\<close> is past the call and continues once it
  is scheduled again.
\<close>

record pcs =
  kern :: kst
  in_idx :: int
  out_idx :: int
  items :: "int list"
  empty :: sem_t
  full :: sem_t
  mtx :: sem_t
  ppc :: nat
  cpc :: nat

definition item_store :: "int \<Rightarrow> int \<Rightarrow> int list \<Rightarrow> int list res" where
  "item_store i v xs = (if 0 \<le> i \<and> i < int (length xs) then Inr (xs[nat i := v]) else Inl OutOfBounds)"

definition item_load :: "int \<Rightarrow> int list \<Rightarrow> int res" where
  "item_load i xs = (if 0 \<le> i \<and> i < int (length xs) then Inr (xs ! nat i) else Inl OutOfBounds)"

definition producer :: "pcs \<Rightarrow> pcs res" where
  "producer x =
     (if ppc x = 0 then bnd (sem_wait (empty x) (kern x)) (\<lambda>(q, s). Inr (x\<lparr>empty := q, kern := s, ppc := 1\<rparr>))
      else if ppc x = 1 then bnd (sem_wait (mtx x) (kern x)) (\<lambda>(q, s). Inr (x\<lparr>mtx := q, kern := s, ppc := 2\<rparr>))
      else if ppc x = 2 then Inr (x\<lparr>in_idx := in_idx x mod item_num, ppc := 3\<rparr>)
      else if ppc x = 3 then bnd (item_store (in_idx x) 1 (items x)) (\<lambda>xs. Inr (x\<lparr>items := xs, ppc := 4\<rparr>))
      else if ppc x = 4 then Inr (x\<lparr>in_idx := i32 (in_idx x + 1), ppc := 5\<rparr>)
      else if ppc x = 5 then (let (q, s) = sem_post (mtx x) (kern x) in Inr (x\<lparr>mtx := q, kern := s, ppc := 6\<rparr>))
      else (let (q, s) = sem_post (full x) (kern x) in Inr (x\<lparr>full := q, kern := s, ppc := 0\<rparr>)))"

definition consumer :: "pcs \<Rightarrow> pcs res" where
  "consumer x =
     (if cpc x = 0 then bnd (sem_wait (full x) (kern x)) (\<lambda>(q, s). Inr (x\<lparr>full := q, kern := s, cpc := 1\<rparr>))
      else if cpc x = 1 then bnd (sem_wait (mtx x) (kern x)) (\<lambda>(q, s). Inr (x\<lparr>mtx := q, kern := s, cpc := 2\<rparr>))
      else if cpc x = 2 then Inr (x\<lparr>out_idx := out_idx x mod item_num, cpc := 3\<rparr>)
      else if cpc x = 3 then bnd (item_load (out_idx x) (items x)) (\<lambda>v.
             bnd (item_store (out_idx x) (i32 (v - 1)) (items x)) (\<lambda>xs. Inr (x\<lparr>items := xs, cpc := 4\<rparr>)))
      else if cpc x = 4 then Inr (x\<lparr>out_idx := i32 (out_idx x + 1), cpc := 5\<rparr>)
      else if cpc x = 5 then (let (q, s) = sem_post (mtx x) (kern x) in Inr (x\<lparr>mtx := q, kern := s, cpc := 6\<rparr>))
      else (let (q, s) = sem_post (empty x) (kern x) in Inr (x\<lparr>empty := q, kern := s, cpc := 0\<rparr>)))"

text \<open>\<open>pc_main\<close> up to the creation of the two threads.\<close>

definition pc_main :: "kst \<Rightarrow> pcs" where
  "pc_main s =
     (let (m, s1) = sem_init 1 True s;
          (e, s2) = sem_init item_num False s1;
          (f, s3) = sem_init 0 False s2
      in \<lparr>kern = s3, in_idx = 0, out_idx = 0, items = replicate 10 0, empty = e, full = f, mtx = m,
          ppc = 0, cpc = 0\<rparr>)"

text \<open>
  The interleavings: whichever of the threads is current executes its next statement; a timer
  tick may intervene at any time, unless it ends a waiter's countdown.
\<close>

inductive pc_step :: "nat \<Rightarrow> nat \<Rightarrow> pcs \<Rightarrow> pcs \<Rightarrow> bool" for a b where
  prod: "current (kern x) = a \<Longrightarrow> producer x = Inr y \<Longrightarrow> pc_step a b x y"
| cons: "current (kern x) = b \<Longrightarrow> consumer x = Inr y \<Longrightarrow> pc_step a b x y"
| tick: "\<forall>q \<in> {empty x, full x, mtx x}. tick_spares (sem_index q) (kern x) \<Longrightarrow>
     timer_event t (kern x) = Inr s \<Longrightarrow> pc_step a b x (x\<lparr>kern := s\<rparr>)"

section \<open>Synchronisation\<close>

abbreviation wt :: "sem_t \<Rightarrow> pcs \<Rightarrow> nat set" where
  "wt q x \<equiv> waiters (sem_index q) (kern x)"

text \<open>Tokens of the two counting semaphores that a thread holds, and the mutex.\<close>

definition tokP :: "nat \<Rightarrow> pcs \<Rightarrow> int" where
  "tokP a x = (if ppc x \<noteq> 0 \<and> a \<notin> wt (empty x) x then 1 else 0)"

definition tokC :: "nat \<Rightarrow> pcs \<Rightarrow> int" where
  "tokC b x = (if cpc x \<noteq> 0 \<and> b \<notin> wt (full x) x then 1 else 0)"

definition lockP :: "nat \<Rightarrow> pcs \<Rightarrow> int" where
  "lockP a x = (if ppc x \<in> {2..5} \<and> a \<notin> wt (mtx x) x then 1 else 0)"

definition lockC :: "nat \<Rightarrow> pcs \<Rightarrow> int" where
  "lockC b x = (if cpc x \<in> {2..5} \<and> b \<notin> wt (mtx x) x then 1 else 0)"

definition pc_sync :: "nat \<Rightarrow> nat \<Rightarrow> int \<Rightarrow> int \<Rightarrow> int \<Rightarrow> pcs \<Rightarrow> bool" where
  "pc_sync a b pe pf pm x \<longleftrightarrow> a \<noteq> b \<and> a \<noteq> 0 \<and> b \<noteq> 0 \<and> ppc x \<le> 6 \<and> cpc x \<le> 6 \<and>
     sem_ok pe (empty x) (kern x) \<and> sem_ok pf (full x) (kern x) \<and> sem_ok pm (mtx x) (kern x) \<and>
     \<not> mutex (empty x) \<and> \<not> mutex (full x) \<and> mutex (mtx x) \<and>
     distinct [sem_index (empty x), sem_index (full x), sem_index (mtx x)] \<and>
     wt (empty x) x \<subseteq> {a} \<and> (a \<in> wt (empty x) x \<longrightarrow> ppc x = 1) \<and>
     wt (full x) x \<subseteq> {b} \<and> (b \<in> wt (full x) x \<longrightarrow> cpc x = 1) \<and>
     wt (mtx x) x \<subseteq> {a, b} \<and> (a \<in> wt (mtx x) x \<longrightarrow> ppc x = 2) \<and> (b \<in> wt (mtx x) x \<longrightarrow> cpc x = 2) \<and>
     pe + pf + tokP a x + tokC b x = 10 \<and> pm + lockP a x + lockC b x = 1"

lemmas tok_defs = tokP_def tokC_def lockP_def lockC_def

lemma pc_syncD:
  assumes "pc_sync a b pe pf pm x"
  shows "a \<noteq> b" "a \<noteq> 0" "b \<noteq> 0" "sem_ok pe (empty x) (kern x)" "sem_ok pf (full x) (kern x)"
    "sem_ok pm (mtx x) (kern x)" "distinct [sem_index (empty x), sem_index (full x), sem_index (mtx x)]"
    "0 \<le> pe" "0 \<le> pf" "0 \<le> pm"
    "ppc x \<le> 6" "cpc x \<le> 6"
  using assms sem_okD(3) unfolding pc_sync_def by auto

text \<open>The two kinds of threads are symmetric in their semaphore calls.\<close>

lemma sync_wait_empty:
  assumes i: "pc_sync a b pe pf pm x" and c: "current (kern x) = a" "ppc x = 0"
    and w: "sem_wait (empty x) (kern x) = Inr (q, s)"
  obtains pe' where "pc_sync a b pe' pf pm (x\<lparr>empty := q, kern := s, ppc := 1\<rparr>)"
    and "pe' = pe - (if a \<in> waiters (sem_index q) s then 0 else 1)" and "waiters (sem_index (full x)) s = wt (full x) x"
proof -
  have c0: "current (kern x) \<noteq> 0" using c i by (simp add: pc_sync_def)
  note d = pc_syncD [OF i]
  note k = ksem.wait_count [OF d(4) c0 w]
  have o: "sem_ok pf (full x) s" "waiters (sem_index (full x)) s = wt (full x) x"
    "sem_ok pm (mtx x) s" "waiters (sem_index (mtx x)) s = wt (mtx x) x"
    using k(5) [OF d(5)] k(5) [OF d(6)] d(7) by auto
  let ?y = "x\<lparr>empty := q, kern := s, ppc := 1\<rparr>"
  have "pc_sync a b (pe - (if current (kern x) \<in> waiters (sem_index (empty x)) s then 0 else 1)) pf pm ?y"
    using i k(1-4) o c unfolding pc_sync_def by (auto simp: tok_defs)
  then show thesis using that o(2) k(2) c(1) by simp
qed
lemma sync_wait_mutex:
  assumes i: "pc_sync a b pe pf pm x" and c: "current (kern x) = a" "ppc x = 1"
    and w: "sem_wait (mtx x) (kern x) = Inr (q, s)"
  obtains pm' where "pc_sync a b pe pf pm' (x\<lparr>mtx := q, kern := s, ppc := 2\<rparr>)"
    and "waiters (sem_index (full x)) s = wt (full x) x" and "waiters (sem_index (empty x)) s = wt (empty x) x"
proof -
  have c0: "current (kern x) \<noteq> 0" using c i by (simp add: pc_sync_def)
  note d = pc_syncD [OF i]
  note k = ksem.wait_count [OF d(6) c0 w]
  have o: "sem_ok pe (empty x) s" "waiters (sem_index (empty x)) s = wt (empty x) x"
    "sem_ok pf (full x) s" "waiters (sem_index (full x)) s = wt (full x) x"
    using k(5) [OF d(4)] k(5) [OF d(5)] d(7) by auto
  have na: "a \<notin> wt (empty x) x" using sem_okD(7) [OF d(4)] c by simp
  let ?y = "x\<lparr>mtx := q, kern := s, ppc := 2\<rparr>"
  have nb: "b \<in> waiters (sem_index (mtx x)) s \<longleftrightarrow> b \<in> wt (mtx x) x" using k(4) c(1) d(1) by auto
  have sub: "waiters (sem_index (mtx x)) s \<subseteq> {a, b}" using k(4) c(1) i unfolding pc_sync_def by auto
  have "lockP a ?y = (if a \<in> waiters (sem_index (mtx x)) s then 0 else 1)" "lockP a x = 0"
    "lockC b ?y = lockC b x" "tokP a ?y = 1" "tokP a x = 1" "tokC b ?y = tokC b x"
    using k(2) nb o na c by (simp_all add: tok_defs)
  then have "pc_sync a b pe pf (pm - (if current (kern x) \<in> waiters (sem_index (mtx x)) s then 0 else 1)) ?y"
    using i k(1-3) o c na nb sub unfolding pc_sync_def by simp
  then show thesis using that o(2,4) by simp
qed

lemma sync_post_mutex:
  assumes i: "pc_sync a b pe pf pm x" and c: "current (kern x) = a" "ppc x = 5"
    and w: "sem_post (mtx x) (kern x) = (q, s)"
  obtains pm' where "pc_sync a b pe pf pm' (x\<lparr>mtx := q, kern := s, ppc := 6\<rparr>)"
    and "waiters (sem_index (full x)) s = wt (full x) x" and "waiters (sem_index (empty x)) s = wt (empty x) x"
proof -
  note d = pc_syncD [OF i]
  have na: "a \<notin> wt (empty x) x" "a \<notin> wt (mtx x) x" using sem_okD(7) [OF d(4)] sem_okD(7) [OF d(6)] c by simp_all
  then have "lockP a x = 1" using c by (simp add: lockP_def)
  moreover have "pm + lockP a x + lockC b x = 1" using i by (simp add: pc_sync_def)
  moreover have "0 \<le> lockC b x" by (simp add: lockC_def)
  ultimately have pm: "pm = 0" "lockC b x = 0" using d(10) by linarith+
  note k = ksem.post_count [OF d(6) _ _ w]
  have o: "sem_ok pe (empty x) s" "waiters (sem_index (empty x)) s = wt (empty x) x"
    "sem_ok pf (full x) s" "waiters (sem_index (full x)) s = wt (full x) x"
    using k(7) [OF _ _ d(4)] k(7) [OF _ _ d(5)] d(7) pm by auto
  have sub: "wt (mtx x) x \<subseteq> {b}" using i na unfolding pc_sync_def by auto
  let ?y = "x\<lparr>mtx := q, kern := s, ppc := 6\<rparr>"
  have s': "waiters (sem_index (mtx x)) s \<subseteq> wt (mtx x) x" using k(5) pm by simp
  let ?r = "card (wt (mtx x) x - waiters (sem_index (mtx x)) s)"
  have "int ?r = lockC b ?y"
  proof (cases "b \<in> wt (mtx x) x")
    case True
    then have "cpc x = 2" "wt (mtx x) x = {b}" using i sub unfolding pc_sync_def by auto
    then show ?thesis using k(2) pm s' by (auto simp: lockC_def subset_singleton_iff)
  next
    case False
    then have "wt (mtx x) x = {}" "\<not> (cpc x \<in> {2..5})" using sub pm(2) by (auto simp: lockC_def split: if_splits)
    then show ?thesis by (auto simp: lockC_def)
  qed
  then have "pc_sync a b pe pf (pm + 1 - int ?r) ?y"
    using i k(1-3) o c na s' sub pm unfolding pc_sync_def by (auto simp: tokP_def tokC_def lockP_def)
  then show thesis using that o(2,4) by simp
qed

lemma sync_post_full:
  assumes i: "pc_sync a b pe pf pm x" and c: "current (kern x) = a" "ppc x = 6"
    and w: "sem_post (full x) (kern x) = (q, s)"
  obtains pf' where "pc_sync a b pe pf' pm (x\<lparr>full := q, kern := s, ppc := 0\<rparr>)"
    and "pf' + (if b \<in> waiters (sem_index q) s then 0 else 1) = pf + 1 + (if b \<in> wt (full x) x then 0 else 1)"
    and "b \<in> waiters (sem_index q) s \<longrightarrow> b \<in> wt (full x) x" and "waiters (sem_index (empty x)) s = wt (empty x) x"
proof -
  note d = pc_syncD [OF i]
  have na: "a \<notin> wt (empty x) x" "a \<notin> wt (mtx x) x" using sem_okD(7) [OF d(4)] sem_okD(7) [OF d(6)] c by simp_all
  have pf: "pf < 2 ^ 30" "\<not> mutex (full x)"
    using i d(8) unfolding pc_sync_def by (auto simp: tok_defs split: if_splits)
  note k = ksem.post_count [OF d(5) _ pf(1) w]
  have o: "sem_ok pe (empty x) s" "waiters (sem_index (empty x)) s = wt (empty x) x"
    "sem_ok pm (mtx x) s" "waiters (sem_index (mtx x)) s = wt (mtx x) x"
    using k(7) [OF _ d(4)] k(7) [OF _ d(6)] d(7) pf by auto
  let ?y = "x\<lparr>full := q, kern := s, ppc := 0\<rparr>"
  let ?r = "card (wt (full x) x - waiters (sem_index (full x)) s)"
  have sub: "wt (full x) x \<subseteq> {b}" "waiters (sem_index (full x)) s \<subseteq> wt (full x) x"
    using i k(5) pf unfolding pc_sync_def by auto
  have r: "int ?r = (if b \<in> wt (full x) x then 1 else 0) - (if b \<in> waiters (sem_index (full x)) s then 1 else 0)"
    using sub by (auto simp: subset_singleton_iff)
  have bw: "b \<in> wt (full x) x \<longrightarrow> cpc x = 1" using i unfolding pc_sync_def by simp
  have "tokC b ?y = tokC b x + int ?r" unfolding r using bw sub(2) k(2) pf by (auto simp: tokC_def)
  then have "pc_sync a b pe (pf + 1 - int ?r) pm ?y"
    using i k(1-3) o c na sub pf unfolding pc_sync_def by (auto simp: tokP_def lockC_def lockP_def)
  moreover have "pf + 1 - int ?r + (if b \<in> waiters (sem_index q) s then 0 else 1) = pf + 1 + (if b \<in> wt (full x) x then 0 else 1)"
    unfolding r using k(2) pf by simp
  moreover have "b \<in> waiters (sem_index q) s \<longrightarrow> b \<in> wt (full x) x" using sub(2) k(2) pf by auto
  ultimately show thesis using o(2) by (rule that)
qed

text \<open>The consumer is the producer with the roles of the two counting semaphores exchanged.\<close>

definition mirror :: "pcs \<Rightarrow> pcs" where
  "mirror x = x\<lparr>empty := full x, full := empty x, ppc := cpc x, cpc := ppc x\<rparr>"

lemma mirror_fields [simp]:
  "kern (mirror x) = kern x" "empty (mirror x) = full x" "full (mirror x) = empty x" "mtx (mirror x) = mtx x"
  "ppc (mirror x) = cpc x" "cpc (mirror x) = ppc x"
  by (simp_all add: mirror_def)

lemma mirror_mirror [simp]: "mirror (mirror x) = x"
  by (simp add: mirror_def)

lemma mirror_tok [simp]:
  "tokP b (mirror x) = tokC b x" "tokC a (mirror x) = tokP a x"
  "lockP b (mirror x) = lockC b x" "lockC a (mirror x) = lockP a x"
  by (simp_all add: tok_defs)

lemma sync_mirror:
  assumes "pc_sync a b pe pf pm x"
  shows "pc_sync b a pf pe pm (mirror x)"
proof -
  have "distinct [sem_index (full x), sem_index (empty x), sem_index (mtx x)]" "b \<noteq> a"
    using pc_syncD(1,7) [OF assms] by auto
  moreover have "wt (mtx x) x \<subseteq> {b, a}" using assms unfolding pc_sync_def by blast
  moreover have "pf + pe + tokC b x + tokP a x = 10" "pm + lockC b x + lockP a x = 1"
    using assms unfolding pc_sync_def by linarith+
  ultimately show ?thesis using assms unfolding pc_sync_def mirror_fields mirror_tok by blast
qed

lemma pc_sync_mirror: "pc_sync b a pf pe pm (mirror x) \<longleftrightarrow> pc_sync a b pe pf pm x"
  using sync_mirror [of a b pe pf pm x] sync_mirror [of b a pf pe pm "mirror x"] by auto

lemma pc_sync_data: "pc_sync a b pe pf pm (x\<lparr>in_idx := i, out_idx := j, items := xs\<rparr>) \<longleftrightarrow> pc_sync a b pe pf pm x"
  by (simp add: pc_sync_def tok_defs)

section \<open>The buffer\<close>

text \<open>
  Position of the next item to be stored and to be taken, and the number of stored items.
\<close>

definition in_pos :: "pcs \<Rightarrow> int" where
  "in_pos x = in_idx x + (if ppc x = 4 then 1 else 0)"

definition out_pos :: "pcs \<Rightarrow> int" where
  "out_pos x = out_idx x + (if cpc x = 4 then 1 else 0)"

definition stored :: "nat \<Rightarrow> int \<Rightarrow> pcs \<Rightarrow> int" where
  "stored b pf x = pf + (if cpc x \<in> {1, 2, 3} \<and> b \<notin> wt (full x) x then 1 else 0) + (if ppc x \<in> {4, 5, 6} then 1 else 0)"

definition buffer_ok :: "int \<Rightarrow> pcs \<Rightarrow> bool" where
  "buffer_ok n x \<longleftrightarrow> length (items x) = 10 \<and> 0 \<le> in_idx x \<and> in_idx x \<le> 10 \<and> 0 \<le> out_idx x \<and> out_idx x \<le> 10 \<and>
     (ppc x \<in> {3, 4} \<longrightarrow> in_idx x < 10) \<and> (cpc x \<in> {3, 4} \<longrightarrow> out_idx x < 10) \<and>
     (in_pos x - out_pos x - n) mod 10 = 0 \<and>
     (\<forall>j < 10. items x ! j = (if (int j - out_pos x) mod 10 < n then 1 else 0))"

definition pc_inv :: "nat \<Rightarrow> nat \<Rightarrow> pcs \<Rightarrow> bool" where
  "pc_inv a b x \<longleftrightarrow> (\<exists>pe pf pm. pc_sync a b pe pf pm x \<and> buffer_ok (stored b pf x) x)"

lemma mod_10_unique:
  fixes i :: int
  assumes "(i - k) mod 10 = (j - k) mod 10" and "0 \<le> i" "i < 10" "0 \<le> j" "j < 10"
  shows "i = j"
proof -
  have "(i - k + k) mod 10 = (j - k + k) mod 10" using assms(1) by (rule mod_add_cong) simp
  then show ?thesis using assms(2-5) by simp
qed

lemma mod_10_pred:
  assumes "(m :: int) mod 10 \<noteq> 0"
  shows "(m - 1) mod 10 = m mod 10 - 1"
proof -
  have "m - 1 = (m mod 10 - 1) + (m div 10) * 10" using div_mult_mod_eq [of m 10] by simp
  then have "(m - 1) mod 10 = (m mod 10 - 1) mod 10" by (metis mod_mult_self1)
  moreover have "0 \<le> m mod 10" "m mod 10 < 10" by simp_all
  ultimately show ?thesis using assms by (simp add: mod_pos_pos_trivial)
qed

lemma mod_10_left: "(m mod 10 - k - n) mod (10 :: int) = (m - k - n) mod 10"
  unfolding diff_diff_eq by (rule mod_diff_left_eq)

lemma mod_10_right: "(m - k mod 10 - n) mod (10 :: int) = (m - k - n) mod 10"
  using mod_diff_right_eq [of "m - n" k 10] by (simp add: algebra_simps)

lemma mod_10_diff: "(m - n) mod (10 :: int) = 0 \<Longrightarrow> 0 \<le> n \<Longrightarrow> n < 10 \<Longrightarrow> m mod 10 = n"
  by (metis mod_0_imp_dvd mod_eq_dvd_iff mod_pos_pos_trivial)

text \<open>The number of stored items is within bounds, with room for the producer's and one for the consumer's.\<close>

lemma stored_bounds:
  assumes "pc_sync a b pe pf pm x"
  shows "0 \<le> stored b pf x" and "stored b pf x \<le> 10"
    and "ppc x \<in> {2, 3} \<Longrightarrow> a \<notin> wt (empty x) x \<Longrightarrow> stored b pf x < 10"
    and "cpc x = 3 \<Longrightarrow> 0 < stored b pf x"
proof -
  have sum: "pe + pf + tokP a x + tokC b x = 10" and d: "0 \<le> pe" "0 \<le> pf"
    using assms pc_syncD(8,9) [OF assms] unfolding pc_sync_def by auto
  have w: "a \<in> wt (empty x) x \<longrightarrow> ppc x = 1" "b \<in> wt (full x) x \<longrightarrow> cpc x = 1"
    using assms unfolding pc_sync_def by auto
  show "0 \<le> stored b pf x" using d by (auto simp: stored_def)
  show "stored b pf x \<le> 10" using sum d w by (auto simp: stored_def tokP_def tokC_def split: if_splits)
  show "stored b pf x < 10" if "ppc x \<in> {2, 3}" "a \<notin> wt (empty x) x"
    using sum d w that by (auto simp: stored_def tokP_def tokC_def split: if_splits)
  show "0 < stored b pf x" if "cpc x = 3" using d w that by (auto simp: stored_def)
qed

lemma buffer_put:
  assumes b: "buffer_ok n x" and c: "ppc x = 3" and n: "0 \<le> n" "n < 10"
  shows "items x ! nat (in_idx x) = 0"
    and "buffer_ok (n + 1) (x\<lparr>items := (items x)[nat (in_idx x) := 1], ppc := 4\<rparr>)"
proof -
  have i: "0 \<le> in_idx x" "in_idx x < 10" "length (items x) = 10" "(in_idx x - out_pos x - n) mod 10 = 0"
    and e: "\<forall>j < 10. items x ! j = (if (int j - out_pos x) mod 10 < n then 1 else 0)"
    using b c unfolding buffer_ok_def in_pos_def by auto
  have at: "(in_idx x - out_pos x) mod 10 = n" using mod_10_diff [OF i(4) n] .
  show "items x ! nat (in_idx x) = 0" using e i(1,2) at by simp
  have "(items x)[nat (in_idx x) := 1] ! j = (if (int j - out_pos x) mod 10 < n + 1 then 1 else 0)" if j: "j < 10" for j
  proof (cases "int j = in_idx x")
    case True
    then have "nat (in_idx x) = j" by linarith
    then show ?thesis using i(3) at True j by (simp add: nth_list_update)
  next
    case False
    then have "(int j - out_pos x) mod 10 \<noteq> n" using mod_10_unique [of "int j" "out_pos x" "in_idx x"] at i(1,2) j by auto
    moreover have "j \<noteq> nat (in_idx x)" using False i(1) by simp
    ultimately show ?thesis using e j by (simp add: nth_list_update)
  qed
  moreover have "(in_idx x + 1 - out_pos x - (n + 1)) mod 10 = 0" using i(4) by (simp add: algebra_simps)
  ultimately show "buffer_ok (n + 1) (x\<lparr>items := (items x)[nat (in_idx x) := 1], ppc := 4\<rparr>)"
    using b i c unfolding buffer_ok_def in_pos_def out_pos_def by simp
qed

lemma buffer_take:
  assumes b: "buffer_ok n x" and c: "cpc x = 3" and n: "0 < n" "n \<le> 10"
  shows "items x ! nat (out_idx x) = 1"
    and "buffer_ok (n - 1) (x\<lparr>items := (items x)[nat (out_idx x) := 0], cpc := 4\<rparr>)"
proof -
  have i: "0 \<le> out_idx x" "out_idx x < 10" "length (items x) = 10" "(in_pos x - out_idx x - n) mod 10 = 0"
    and e: "\<forall>j < 10. items x ! j = (if (int j - out_idx x) mod 10 < n then 1 else 0)"
    using b c unfolding buffer_ok_def out_pos_def by auto
  show "items x ! nat (out_idx x) = 1" using e i(1,2) n by simp
  have "(items x)[nat (out_idx x) := 0] ! j = (if (int j - (out_idx x + 1)) mod 10 < n - 1 then 1 else 0)" if j: "j < 10" for j
  proof (cases "int j = out_idx x")
    case True
    then have "(int j - (out_idx x + 1)) mod 10 = 9" by simp
    moreover have "nat (out_idx x) = j" using True by linarith
    ultimately show ?thesis using i(3) n j by (simp add: nth_list_update)
  next
    case False
    then have "(int j - out_idx x) mod 10 \<noteq> 0"
      using mod_10_unique [of "int j" "out_idx x" "out_idx x"] i(1,2) j by auto
    from mod_10_pred [OF this] have "(int j - (out_idx x + 1)) mod 10 < n - 1 \<longleftrightarrow> (int j - out_idx x) mod 10 < n"
      by (simp add: algebra_simps)
    moreover have "j \<noteq> nat (out_idx x)" using False i(1) by simp
    ultimately show ?thesis using e j by (simp add: nth_list_update)
  qed
  moreover have "(in_pos x - (out_idx x + 1) - (n - 1)) mod 10 = 0" using i(4) by (simp add: algebra_simps)
  ultimately show "buffer_ok (n - 1) (x\<lparr>items := (items x)[nat (out_idx x) := 0], cpc := 4\<rparr>)"
    using b i c unfolding buffer_ok_def in_pos_def out_pos_def by simp
qed

section \<open>Every step keeps the invariant\<close>

lemma pc_invI: "pc_sync a b pe pf pm x \<Longrightarrow> buffer_ok (stored b pf x) x \<Longrightarrow> pc_inv a b x"
  unfolding pc_inv_def by blast

lemma pc_sync_local:
  assumes "pc_sync a b pe pf pm x" and "a \<notin> wt (mtx x) x" and "ppc x \<in> {2, 3, 4}"
  shows "pc_sync a b pe pf pm (x\<lparr>in_idx := i, ppc := Suc (ppc x)\<rparr>)" "pc_sync a b pe pf pm (x\<lparr>items := xs, ppc := Suc (ppc x)\<rparr>)"
proof -
  have w: "a \<notin> wt (empty x) x" using assms(1,3) unfolding pc_sync_def by auto
  let ?y = "x\<lparr>in_idx := i, ppc := Suc (ppc x)\<rparr>" and ?z = "x\<lparr>items := xs, ppc := Suc (ppc x)\<rparr>"
  have tok: "tokP a ?y = tokP a x" "tokC b ?y = tokC b x" "lockP a ?y = lockP a x" "lockC b ?y = lockC b x"
    "tokP a ?z = tokP a x" "tokC b ?z = tokC b x" "lockP a ?z = lockP a x" "lockC b ?z = lockC b x"
    using assms(2,3) w by (auto simp: tok_defs)
  have pc: "Suc (ppc x) \<le> 6" using assms(3) by auto
  show "pc_sync a b pe pf pm ?y" "pc_sync a b pe pf pm ?z"
    using assms(1,2) w pc unfolding pc_sync_def tok by simp_all
qed

lemma stored_cong:
  "cpc y = cpc x \<Longrightarrow> waiters (sem_index (full y)) (kern y) = wt (full x) x \<Longrightarrow> (ppc y \<in> {4, 5, 6} \<longleftrightarrow> ppc x \<in> {4, 5, 6}) \<Longrightarrow>
     stored b pf y = stored b pf x"
  by (simp add: stored_def)

lemma buffer_cong:
  assumes "buffer_ok n x" and "items y = items x" "in_idx y = in_idx x" "out_idx y = out_idx x"
    and "ppc y = ppc x \<or> ppc y \<notin> {3, 4} \<and> ppc x \<noteq> 4" and "cpc y = cpc x \<or> cpc y \<notin> {3, 4} \<and> cpc x \<noteq> 4"
  shows "buffer_ok n y"
proof -
  have "in_pos y = in_pos x" "out_pos y = out_pos x" using assms(3-6) by (auto simp: in_pos_def out_pos_def)
  moreover have "ppc y \<in> {3, 4} \<longrightarrow> in_idx x < 10" "cpc y \<in> {3, 4} \<longrightarrow> out_idx x < 10"
    using assms(1,5,6) unfolding buffer_ok_def by metis+
  ultimately show ?thesis using assms(1) unfolding buffer_ok_def assms(2-4) by simp
qed

lemma producer_facts:
  assumes i: "pc_sync a b pe pf pm x" and bf: "buffer_ok (stored b pf x) x" and c: "current (kern x) = a"
  shows "a \<notin> wt (empty x) x" and "a \<notin> wt (mtx x) x" and "current (kern x) \<noteq> 0"
    and "0 \<le> in_idx x" and "in_idx x \<le> 10" and "length (items x) = 10" and "ppc x = 3 \<or> ppc x = 4 \<longrightarrow> in_idx x < 10"
  using sem_okD(7) [OF pc_syncD(4) [OF i]] sem_okD(7) [OF pc_syncD(6) [OF i]] c pc_syncD(2) [OF i] bf
  unfolding buffer_ok_def by auto

lemma producer_wait_empty:
  assumes i: "pc_sync a b pe pf pm x" and bf: "buffer_ok (stored b pf x) x" and c: "current (kern x) = a" and 1: "ppc x = 0"
  shows "\<exists>y. producer x = Inr y \<and> pc_inv a b y"
proof -
  note d = pc_syncD [OF i]
  note f = producer_facts [OF i bf c]
  note c0 = f(3)
  obtain q s where w: "sem_wait (empty x) (kern x) = Inr (q, s)" using ksem.wait_law [OF d(4) c0] by blast
  obtain pe' where p: "pc_sync a b pe' pf pm (x\<lparr>empty := q, kern := s, ppc := 1\<rparr>)"
    "waiters (sem_index (full x)) s = wt (full x) x" by (rule sync_wait_empty [OF i c 1 w])
  have "stored b pf (x\<lparr>empty := q, kern := s, ppc := 1\<rparr>) = stored b pf x" by (rule stored_cong) (use p(2) 1 in auto)
  then have "pc_inv a b (x\<lparr>empty := q, kern := s, ppc := 1\<rparr>)"
    using buffer_cong [OF bf, of "x\<lparr>empty := q, kern := s, ppc := 1\<rparr>"] 1 by (intro pc_invI [OF p(1)]) simp
  then show ?thesis using 1 w by (simp add: producer_def)
qed

lemma producer_lock:
  assumes i: "pc_sync a b pe pf pm x" and bf: "buffer_ok (stored b pf x) x" and c: "current (kern x) = a" and 2: "ppc x = 1"
  shows "\<exists>y. producer x = Inr y \<and> pc_inv a b y"
proof -
  note d = pc_syncD [OF i]
  note f = producer_facts [OF i bf c]
  note c0 = f(3)
  obtain q s where w: "sem_wait (mtx x) (kern x) = Inr (q, s)" using ksem.wait_law [OF d(6) c0] by blast
  obtain pm' where p: "pc_sync a b pe pf pm' (x\<lparr>mtx := q, kern := s, ppc := 2\<rparr>)"
    "waiters (sem_index (full x)) s = wt (full x) x" by (rule sync_wait_mutex [OF i c 2 w])
  have "stored b pf (x\<lparr>mtx := q, kern := s, ppc := 2\<rparr>) = stored b pf x" by (rule stored_cong) (use p(2) 2 in auto)
  then have "pc_inv a b (x\<lparr>mtx := q, kern := s, ppc := 2\<rparr>)"
    using buffer_cong [OF bf, of "x\<lparr>mtx := q, kern := s, ppc := 2\<rparr>"] 2 by (intro pc_invI [OF p(1)]) simp
  then show ?thesis using 2 w by (simp add: producer_def)
qed

lemma producer_reduce:
  assumes i: "pc_sync a b pe pf pm x" and bf: "buffer_ok (stored b pf x) x" and c: "current (kern x) = a" and 3: "ppc x = 2"
  shows "\<exists>y. producer x = Inr y \<and> pc_inv a b y"
proof -
  note f = producer_facts [OF i bf c]
  note na = f(1,2)
  note n = f(4-7)
  have p: "pc_sync a b pe pf pm (x\<lparr>in_idx := in_idx x mod 10, ppc := 3\<rparr>)"
    using pc_sync_local(1) [OF i na(2)] 3 by simp
  have "stored b pf (x\<lparr>in_idx := in_idx x mod 10, ppc := 3\<rparr>) = stored b pf x" by (rule stored_cong) (use 3 in auto)
  moreover have "buffer_ok (stored b pf x) (x\<lparr>in_idx := in_idx x mod 10, ppc := 3\<rparr>)"
    using bf 3 unfolding buffer_ok_def in_pos_def out_pos_def by (simp add: mod_10_left)
  ultimately have "pc_inv a b (x\<lparr>in_idx := in_idx x mod 10, ppc := 3\<rparr>)" by (intro pc_invI [OF p]) simp
  then show ?thesis using 3 n by (simp add: producer_def)
qed

lemma producer_item:
  assumes i: "pc_sync a b pe pf pm x" and bf: "buffer_ok (stored b pf x) x" and c: "current (kern x) = a" and 4: "ppc x = 3"
  shows "\<exists>y. producer x = Inr y \<and> pc_inv a b y"
proof -
  note f = producer_facts [OF i bf c]
  note na = f(1,2)
  note n = f(4-7)
  let ?y = "x\<lparr>items := (items x)[nat (in_idx x) := 1], ppc := 4\<rparr>"
  have p: "pc_sync a b pe pf pm ?y" using pc_sync_local(2) [OF i na(2)] 4 by simp
  have "stored b pf ?y = stored b pf x + 1" using 4 by (simp add: stored_def)
  moreover have "buffer_ok (stored b pf x + 1) ?y"
    by (rule buffer_put(2) [OF bf 4]) (use stored_bounds [OF i] na 4 in auto)
  ultimately have "pc_inv a b (?y)" by (intro pc_invI [OF p]) simp
  then show ?thesis using 4 n by (simp add: producer_def item_store_def)
qed

lemma producer_advance:
  assumes i: "pc_sync a b pe pf pm x" and bf: "buffer_ok (stored b pf x) x" and c: "current (kern x) = a" and 5: "ppc x = 4"
  shows "\<exists>y. producer x = Inr y \<and> pc_inv a b y"
proof -
  note f = producer_facts [OF i bf c]
  note na = f(1,2)
  note n = f(4-7)
  have i32: "i32 (in_idx x + 1) = in_idx x + 1" using n 5 by (intro i32_id) auto
  have p: "pc_sync a b pe pf pm (x\<lparr>in_idx := in_idx x + 1, ppc := 5\<rparr>)"
    using pc_sync_local(1) [OF i na(2)] 5 by simp
  have "stored b pf (x\<lparr>in_idx := in_idx x + 1, ppc := 5\<rparr>) = stored b pf x" by (rule stored_cong) (use 5 in auto)
  moreover have "buffer_ok (stored b pf x) (x\<lparr>in_idx := in_idx x + 1, ppc := 5\<rparr>)"
    using bf 5 n unfolding buffer_ok_def in_pos_def out_pos_def by auto
  ultimately have "pc_inv a b (x\<lparr>in_idx := in_idx x + 1, ppc := 5\<rparr>)" by (intro pc_invI [OF p]) simp
  then show ?thesis using 5 n by (simp add: producer_def i32)
qed

lemma producer_unlock:
  assumes i: "pc_sync a b pe pf pm x" and bf: "buffer_ok (stored b pf x) x" and c: "current (kern x) = a" and 6: "ppc x = 5"
  shows "\<exists>y. producer x = Inr y \<and> pc_inv a b y"
proof -
  obtain q s where w: "sem_post (mtx x) (kern x) = (q, s)" by (cases "sem_post (mtx x) (kern x)")
  obtain pm' where p: "pc_sync a b pe pf pm' (x\<lparr>mtx := q, kern := s, ppc := 6\<rparr>)"
    "waiters (sem_index (full x)) s = wt (full x) x" by (rule sync_post_mutex [OF i c 6 w])
  have "stored b pf (x\<lparr>mtx := q, kern := s, ppc := 6\<rparr>) = stored b pf x" by (rule stored_cong) (use p(2) 6 in auto)
  then have "pc_inv a b (x\<lparr>mtx := q, kern := s, ppc := 6\<rparr>)"
    using buffer_cong [OF bf, of "x\<lparr>mtx := q, kern := s, ppc := 6\<rparr>"] 6 by (intro pc_invI [OF p(1)]) simp
  then show ?thesis using 6 w by (simp add: producer_def)
qed

lemma producer_post_full:
  assumes i: "pc_sync a b pe pf pm x" and bf: "buffer_ok (stored b pf x) x" and c: "current (kern x) = a" and 7: "ppc x = 6"
  shows "\<exists>y. producer x = Inr y \<and> pc_inv a b y"
proof -
  obtain q s where w: "sem_post (full x) (kern x) = (q, s)" by (cases "sem_post (full x) (kern x)")
  obtain pf' where p: "pc_sync a b pe pf' pm (x\<lparr>full := q, kern := s, ppc := 0\<rparr>)"
    "pf' + (if b \<in> waiters (sem_index q) s then 0 else 1) = pf + 1 + (if b \<in> wt (full x) x then 0 else 1)"
    "b \<in> waiters (sem_index q) s \<longrightarrow> b \<in> wt (full x) x" by (rule sync_post_full [OF i c 7 w])
  have "b \<in> wt (full x) x \<longrightarrow> cpc x = 1" using i unfolding pc_sync_def by simp
  then have "stored b pf' (x\<lparr>full := q, kern := s, ppc := 0\<rparr>) = stored b pf x"
    using p(2,3) 7 by (auto simp: stored_def split: if_splits)
  then have "pc_inv a b (x\<lparr>full := q, kern := s, ppc := 0\<rparr>)"
    using buffer_cong [OF bf, of "x\<lparr>full := q, kern := s, ppc := 0\<rparr>"] 7 by (intro pc_invI [OF p(1)]) simp
  then show ?thesis using 7 w by (simp add: producer_def)
qed

lemma producer_inv:
  assumes inv: "pc_inv a b x" and c: "current (kern x) = a"
  shows "\<exists>y. producer x = Inr y \<and> pc_inv a b y"
proof -
  obtain pe pf pm where i: "pc_sync a b pe pf pm x" and bf: "buffer_ok (stored b pf x) x"
    using inv unfolding pc_inv_def by blast
  consider "ppc x = 0" | "ppc x = 1" | "ppc x = 2" | "ppc x = 3" | "ppc x = 4" | "ppc x = 5" | "ppc x = 6"
    using pc_syncD(11) [OF i] by linarith
  then show ?thesis
  proof cases
    case 1
    then show ?thesis by (rule producer_wait_empty [OF i bf c])
  next
    case 2
    then show ?thesis by (rule producer_lock [OF i bf c])
  next
    case 3
    then show ?thesis by (rule producer_reduce [OF i bf c])
  next
    case 4
    then show ?thesis by (rule producer_item [OF i bf c])
  next
    case 5
    then show ?thesis by (rule producer_advance [OF i bf c])
  next
    case 6
    then show ?thesis by (rule producer_unlock [OF i bf c])
  next
    case 7
    then show ?thesis by (rule producer_post_full [OF i bf c])
  qed
qed

lemma consumer_facts:
  assumes i: "pc_sync a b pe pf pm x" and bf: "buffer_ok (stored b pf x) x" and c: "current (kern x) = b"
  shows "b \<notin> wt (full x) x" and "b \<notin> wt (mtx x) x" and "current (kern x) \<noteq> 0"
    and "0 \<le> out_idx x" and "out_idx x \<le> 10" and "length (items x) = 10" and "cpc x = 3 \<or> cpc x = 4 \<longrightarrow> out_idx x < 10"
  using sem_okD(7) [OF pc_syncD(5) [OF i]] sem_okD(7) [OF pc_syncD(6) [OF i]] c pc_syncD(3) [OF i] bf
  unfolding buffer_ok_def by auto

lemma consumer_wait_full:
  assumes i: "pc_sync a b pe pf pm x" and bf: "buffer_ok (stored b pf x) x" and c: "current (kern x) = b" and 1: "cpc x = 0"
  shows "\<exists>y. consumer x = Inr y \<and> pc_inv a b y"
proof -
  note d = pc_syncD [OF i]
  note f = consumer_facts [OF i bf c]
  note c0 = f(3)
  have im: "pc_sync b a pf pe pm (mirror x)" by (rule sync_mirror [OF i])
  have cm: "current (kern (mirror x)) = b" using c by simp
  let ?y = "\<lambda>q s. x\<lparr>full := q, kern := s, cpc := 1\<rparr>"
  obtain q s where w: "sem_wait (full x) (kern x) = Inr (q, s)" using ksem.wait_law [OF d(5) c0] by blast
  obtain pf' where p: "pc_sync b a pf' pe pm (mirror x\<lparr>empty := q, kern := s, ppc := 1\<rparr>)"
    "pf' = pf - (if b \<in> waiters (sem_index q) s then 0 else 1)"
    by (rule sync_wait_empty [OF im cm, unfolded mirror_fields, OF 1 w])
  have "mirror x\<lparr>empty := q, kern := s, ppc := 1\<rparr> = mirror (?y q s)" by (cases x) (simp add: mirror_def)
  then have p1: "pc_sync a b pe pf' pm (?y q s)" using p(1) pc_sync_mirror [of b a pf' pe pm "?y q s"] by simp
  have "stored b pf' (?y q s) = stored b pf x" using p(2) 1 by (simp add: stored_def)
  then have "pc_inv a b (?y q s)" using buffer_cong [OF bf, of "?y q s"] 1 by (intro pc_invI [OF p1]) simp
  then show ?thesis using 1 w by (simp add: consumer_def)
qed

lemma consumer_lock:
  assumes i: "pc_sync a b pe pf pm x" and bf: "buffer_ok (stored b pf x) x" and c: "current (kern x) = b" and 2: "cpc x = 1"
  shows "\<exists>y. consumer x = Inr y \<and> pc_inv a b y"
proof -
  note d = pc_syncD [OF i]
  note f = consumer_facts [OF i bf c]
  note c0 = f(3)
  have im: "pc_sync b a pf pe pm (mirror x)" by (rule sync_mirror [OF i])
  have cm: "current (kern (mirror x)) = b" using c by simp
  let ?y = "\<lambda>q s. x\<lparr>mtx := q, kern := s, cpc := 2\<rparr>"
  obtain q s where w: "sem_wait (mtx x) (kern x) = Inr (q, s)" using ksem.wait_law [OF d(6) c0] by blast
  obtain pm' where p: "pc_sync b a pf pe pm' (mirror x\<lparr>mtx := q, kern := s, ppc := 2\<rparr>)"
    "waiters (sem_index (empty (mirror x))) s = wt (empty (mirror x)) (mirror x)"
    by (rule sync_wait_mutex [OF im cm]) (use 2 w in simp_all)
  have "mirror x\<lparr>mtx := q, kern := s, ppc := 2\<rparr> = mirror (?y q s)" by (cases x) (simp add: mirror_def)
  then have p1: "pc_sync a b pe pf pm' (?y q s)" using p(1) pc_sync_mirror [of b a pf pe pm' "?y q s"] by simp
  have "stored b pf (?y q s) = stored b pf x" using p(2) 2 by (simp add: stored_def)
  then have "pc_inv a b (?y q s)" using buffer_cong [OF bf, of "?y q s"] 2 by (intro pc_invI [OF p1]) simp
  then show ?thesis using 2 w by (simp add: consumer_def)
qed

lemma consumer_reduce:
  assumes i: "pc_sync a b pe pf pm x" and bf: "buffer_ok (stored b pf x) x" and c: "current (kern x) = b" and 3: "cpc x = 2"
  shows "\<exists>y. consumer x = Inr y \<and> pc_inv a b y"
proof -
  note f = consumer_facts [OF i bf c]
  note na = f(1,2)
  note n = f(4-7)
  have im: "pc_sync b a pf pe pm (mirror x)" by (rule sync_mirror [OF i])
  let ?y = "x\<lparr>out_idx := out_idx x mod 10, cpc := 3\<rparr>"
  have "mirror x\<lparr>in_idx := in_idx x, ppc := Suc (ppc (mirror x))\<rparr> =
      mirror ?y\<lparr>in_idx := in_idx x, out_idx := out_idx x, items := items x\<rparr>"
    using 3 by (cases x) (simp add: mirror_def)
  then have p: "pc_sync a b pe pf pm ?y"
    using pc_sync_local(1) [OF im, where i = "in_idx x"] na(2) 3 pc_sync_mirror [of b a pf pe pm ?y]
      pc_sync_data [where x = "mirror ?y" and i = "in_idx x" and j = "out_idx x" and xs = "items x"] by simp
  have "stored b pf ?y = stored b pf x" using 3 by (simp add: stored_def)
  moreover have "buffer_ok (stored b pf x) ?y"
  proof -
    have "(int j - out_idx x mod 10) mod 10 = (int j - out_idx x) mod 10" for j by (rule mod_diff_right_eq)
    then show ?thesis using bf 3 unfolding buffer_ok_def in_pos_def out_pos_def by (simp add: mod_10_right)
  qed
  ultimately have "pc_inv a b ?y" by (intro pc_invI [OF p]) simp
  then show ?thesis using 3 n by (simp add: consumer_def)
qed

lemma consumer_item:
  assumes i: "pc_sync a b pe pf pm x" and bf: "buffer_ok (stored b pf x) x" and c: "current (kern x) = b" and 4: "cpc x = 3"
  shows "\<exists>y. consumer x = Inr y \<and> pc_inv a b y"
proof -
  note f = consumer_facts [OF i bf c]
  note na = f(1,2)
  note n = f(4-7)
  have im: "pc_sync b a pf pe pm (mirror x)" by (rule sync_mirror [OF i])
  let ?y = "x\<lparr>items := (items x)[nat (out_idx x) := 0], cpc := 4\<rparr>"
  have st: "0 < stored b pf x" "stored b pf x \<le> 10" using stored_bounds [OF i] 4 by auto
  have "mirror x\<lparr>items := (items x)[nat (out_idx x) := 0], ppc := Suc (ppc (mirror x))\<rparr> = mirror ?y"
    using 4 by (cases x) (simp add: mirror_def)
  then have p: "pc_sync a b pe pf pm ?y"
    using pc_sync_local(2) [OF im, where xs = "(items x)[nat (out_idx x) := 0]"] na(2) 4 pc_sync_mirror [of b a pf pe pm ?y] by simp
  have "stored b pf ?y = stored b pf x - 1" using 4 na by (simp add: stored_def)
  moreover have "buffer_ok (stored b pf x - 1) ?y" by (rule buffer_take(2) [OF bf 4 st])
  ultimately have "pc_inv a b ?y" by (intro pc_invI [OF p]) simp
  moreover have "i32 (items x ! nat (out_idx x) - 1) = 0" using buffer_take(1) [OF bf 4 st] by (simp add: i32_id)
  ultimately show ?thesis using 4 n by (simp add: consumer_def item_load_def item_store_def)
qed

lemma consumer_advance:
  assumes i: "pc_sync a b pe pf pm x" and bf: "buffer_ok (stored b pf x) x" and c: "current (kern x) = b" and 5: "cpc x = 4"
  shows "\<exists>y. consumer x = Inr y \<and> pc_inv a b y"
proof -
  note f = consumer_facts [OF i bf c]
  note na = f(1,2)
  note n = f(4-7)
  have im: "pc_sync b a pf pe pm (mirror x)" by (rule sync_mirror [OF i])
  let ?y = "x\<lparr>out_idx := out_idx x + 1, cpc := 5\<rparr>"
  have i32: "i32 (out_idx x + 1) = out_idx x + 1" using n 5 by (intro i32_id) auto
  have "mirror x\<lparr>in_idx := in_idx x, ppc := Suc (ppc (mirror x))\<rparr> =
      mirror ?y\<lparr>in_idx := in_idx x, out_idx := out_idx x, items := items x\<rparr>"
    using 5 by (cases x) (simp add: mirror_def)
  then have p: "pc_sync a b pe pf pm ?y"
    using pc_sync_local(1) [OF im, where i = "in_idx x"] na(2) 5 pc_sync_mirror [of b a pf pe pm ?y]
      pc_sync_data [where x = "mirror ?y" and i = "in_idx x" and j = "out_idx x" and xs = "items x"] by simp
  have "stored b pf ?y = stored b pf x" using 5 by (simp add: stored_def)
  moreover have "buffer_ok (stored b pf x) ?y"
    using bf 5 n unfolding buffer_ok_def in_pos_def out_pos_def by simp
  ultimately have "pc_inv a b ?y" by (intro pc_invI [OF p]) simp
  then show ?thesis using 5 n by (simp add: consumer_def i32)
qed

lemma consumer_unlock:
  assumes i: "pc_sync a b pe pf pm x" and bf: "buffer_ok (stored b pf x) x" and c: "current (kern x) = b" and 6: "cpc x = 5"
  shows "\<exists>y. consumer x = Inr y \<and> pc_inv a b y"
proof -
  have im: "pc_sync b a pf pe pm (mirror x)" by (rule sync_mirror [OF i])
  have cm: "current (kern (mirror x)) = b" using c by simp
  let ?y = "\<lambda>q s. x\<lparr>mtx := q, kern := s, cpc := 6\<rparr>"
  obtain q s where w: "sem_post (mtx x) (kern x) = (q, s)" by (cases "sem_post (mtx x) (kern x)")
  obtain pm' where p: "pc_sync b a pf pe pm' (mirror x\<lparr>mtx := q, kern := s, ppc := 6\<rparr>)"
    "waiters (sem_index (empty (mirror x))) s = wt (empty (mirror x)) (mirror x)"
    by (rule sync_post_mutex [OF im cm]) (use 6 w in simp_all)
  have "mirror x\<lparr>mtx := q, kern := s, ppc := 6\<rparr> = mirror (?y q s)" by (cases x) (simp add: mirror_def)
  then have p1: "pc_sync a b pe pf pm' (?y q s)" using p(1) pc_sync_mirror [of b a pf pe pm' "?y q s"] by simp
  have "stored b pf (?y q s) = stored b pf x" using p(2) 6 by (simp add: stored_def)
  then have "pc_inv a b (?y q s)" using buffer_cong [OF bf, of "?y q s"] 6 by (intro pc_invI [OF p1]) simp
  then show ?thesis using 6 w by (simp add: consumer_def)
qed

lemma consumer_post_empty:
  assumes i: "pc_sync a b pe pf pm x" and bf: "buffer_ok (stored b pf x) x" and c: "current (kern x) = b" and 7: "cpc x = 6"
  shows "\<exists>y. consumer x = Inr y \<and> pc_inv a b y"
proof -
  have im: "pc_sync b a pf pe pm (mirror x)" by (rule sync_mirror [OF i])
  have cm: "current (kern (mirror x)) = b" using c by simp
  let ?y = "\<lambda>q s. x\<lparr>empty := q, kern := s, cpc := 0\<rparr>"
  obtain q s where w: "sem_post (empty x) (kern x) = (q, s)" by (cases "sem_post (empty x) (kern x)")
  obtain pe' where p: "pc_sync b a pf pe' pm (mirror x\<lparr>full := q, kern := s, ppc := 0\<rparr>)"
    "waiters (sem_index (empty (mirror x))) s = wt (empty (mirror x)) (mirror x)"
    by (rule sync_post_full [OF im cm]) (use 7 w in simp_all)
  have "mirror x\<lparr>full := q, kern := s, ppc := 0\<rparr> = mirror (?y q s)" by (cases x) (simp add: mirror_def)
  then have p1: "pc_sync a b pe' pf pm (?y q s)" using p(1) pc_sync_mirror [of b a pf pe' pm "?y q s"] by simp
  have "stored b pf (?y q s) = stored b pf x" using p(2) 7 by (simp add: stored_def)
  then have "pc_inv a b (?y q s)" using buffer_cong [OF bf, of "?y q s"] 7 by (intro pc_invI [OF p1]) simp
  then show ?thesis using 7 w by (simp add: consumer_def)
qed

lemma consumer_inv:
  assumes inv: "pc_inv a b x" and c: "current (kern x) = b"
  shows "\<exists>y. consumer x = Inr y \<and> pc_inv a b y"
proof -
  obtain pe pf pm where i: "pc_sync a b pe pf pm x" and bf: "buffer_ok (stored b pf x) x"
    using inv unfolding pc_inv_def by blast
  consider "cpc x = 0" | "cpc x = 1" | "cpc x = 2" | "cpc x = 3" | "cpc x = 4" | "cpc x = 5" | "cpc x = 6"
    using pc_syncD(12) [OF i] by linarith
  then show ?thesis
  proof cases
    case 1
    then show ?thesis by (rule consumer_wait_full [OF i bf c])
  next
    case 2
    then show ?thesis by (rule consumer_lock [OF i bf c])
  next
    case 3
    then show ?thesis by (rule consumer_reduce [OF i bf c])
  next
    case 4
    then show ?thesis by (rule consumer_item [OF i bf c])
  next
    case 5
    then show ?thesis by (rule consumer_advance [OF i bf c])
  next
    case 6
    then show ?thesis by (rule consumer_unlock [OF i bf c])
  next
    case 7
    then show ?thesis by (rule consumer_post_empty [OF i bf c])
  qed
qed

lemma tick_inv:
  assumes inv: "pc_inv a b x" and sp: "\<forall>q \<in> {empty x, full x, mtx x}. tick_spares (sem_index q) (kern x)"
    and ti: "timer_event t (kern x) = Inr s"
  shows "pc_inv a b (x\<lparr>kern := s\<rparr>)"
proof -
  obtain pe pf pm where i: "pc_sync a b pe pf pm x" and bf: "buffer_ok (stored b pf x) x"
    using inv unfolding pc_inv_def by blast
  note d = pc_syncD [OF i]
  have w: "waiters k s = waiters k (kern x)" for k by (rule sem_tick_ok(2) [OF d(4) _ ti]) (use sp in simp)
  have ok: "sem_ok pe (empty x) s" "sem_ok pf (full x) s" "sem_ok pm (mtx x) s"
    using sem_tick_ok(1) [OF d(4) _ ti] sem_tick_ok(1) [OF d(5) _ ti] sem_tick_ok(1) [OF d(6) _ ti] sp by simp_all
  have tok: "tokP a (x\<lparr>kern := s\<rparr>) = tokP a x" "tokC b (x\<lparr>kern := s\<rparr>) = tokC b x"
    "lockP a (x\<lparr>kern := s\<rparr>) = lockP a x" "lockC b (x\<lparr>kern := s\<rparr>) = lockC b x" by (simp_all add: tok_defs w)
  have i': "pc_sync a b pe pf pm (x\<lparr>kern := s\<rparr>)" using i ok unfolding pc_sync_def tok by (simp add: w)
  have "stored b pf (x\<lparr>kern := s\<rparr>) = stored b pf x" by (simp add: stored_def w)
  moreover have "buffer_ok (stored b pf x) (x\<lparr>kern := s\<rparr>)" by (rule buffer_cong [OF bf]) simp_all
  ultimately have "buffer_ok (stored b pf (x\<lparr>kern := s\<rparr>)) (x\<lparr>kern := s\<rparr>)" by metis
  then show ?thesis by (rule pc_invI [OF i'])
qed

lemma pc_step_inv: "pc_step a b x y \<Longrightarrow> pc_inv a b x \<Longrightarrow> pc_inv a b y"
proof (induction rule: pc_step.induct)
  case (prod x y)
  then show ?case using producer_inv by force
next
  case (cons x y)
  then show ?case using consumer_inv by force
next
  case (tick x t s)
  then show ?case by (intro tick_inv) simp_all
qed

lemma pc_main_inv:
  assumes t: "table_ok s" and n: "0 \<le> sem_count s" "sem_count s + 3 < 2 ^ 31"
    and w: "\<forall>k \<in> {sem_count s, sem_count s + 1, sem_count s + 2}. waiters k s = {}"
    and ab: "a \<noteq> b" "a \<noteq> 0" "b \<noteq> 0"
  shows "pc_inv a b (pc_main s)"
proof -
  obtain m s1 where m: "sem_init 1 True s = (m, s1)" by (cases "sem_init 1 True s")
  obtain e s2 where e: "sem_init item_num False s1 = (e, s2)" by (cases "sem_init item_num False s1")
  obtain f s3 where f: "sem_init 0 False s2 = (f, s3)" by (cases "sem_init 0 False s2")
  have i: "i32 (sem_count s + 1) = sem_count s + 1" "i32 (sem_count s + 1 + 1) = sem_count s + 2"
    using n by (auto simp: i32_id)
  note 1 = sem_init_ok [OF t n(1) _ _ _ m]
  have 1: "sem_ok 1 m s1" "sem_index m = sem_count s" "mutex m" "pcb_table s1 = pcb_table s" "current s1 = current s"
    "sem_count s1 = sem_count s + 1" using 1 w i by simp_all
  have t1: "table_ok s1" "waiters k s1 = waiters k s" for k using 1 t table_ok_table waiters_table by metis+
  note 2 = sem_init_ok [OF t1(1) _ _ _ _ e]
  have 2: "sem_ok 10 e s2" "sem_index e = sem_count s + 1" "\<not> mutex e" "pcb_table s2 = pcb_table s" "current s2 = current s"
    "sem_count s2 = sem_count s + 2" using 2 w i 1 t1 n(1) by simp_all
  have t2: "table_ok s2" "waiters k s2 = waiters k s" for k using 2 t table_ok_table waiters_table by metis+
  note 3 = sem_init_ok [OF t2(1) _ _ _ _ f]
  have 3: "sem_ok 0 f s3" "sem_index f = sem_count s + 2" "\<not> mutex f" "pcb_table s3 = pcb_table s" "current s3 = current s"
    using 3 w 2 t2 n(1) by simp_all
  have t3: "waiters k s3 = waiters k s" for k using 3(4) waiters_table by metis
  have ok: "sem_ok 1 m s3" "sem_ok 10 e s3"
    using 1(1,4,5) 2(1,4,5) 3(4,5) sem_ok_same [of s3 s1 1 m] sem_ok_same [of s3 s2 10 e] by simp_all
  let ?x = "\<lparr>kern = s3, in_idx = 0, out_idx = 0, items = replicate 10 0, empty = e, full = f, mtx = m, ppc = 0, cpc = 0\<rparr>"
  have x: "pc_main s = ?x" by (simp add: pc_main_def m e f)
  have "pc_sync a b 10 0 1 ?x"
    using ok 1(2,3) 2(2,3) 3(1-3) ab w t3 by (simp add: pc_sync_def tok_defs)
  moreover have "buffer_ok (stored b 0 ?x) ?x" by (simp add: buffer_ok_def stored_def in_pos_def out_pos_def)
  ultimately show ?thesis unfolding x by (rule pc_invI)
qed

section \<open>Properties\<close>



end
