(* ===== verification/Disk.thy ===== *)
theory Disk
  imports Kernel_Prelude
begin

text \<open>
  The disk driver at the end of \<open>kernel/src/elf/elf.c\<close>: sectors are transferred word by word
  through the ports of the ATA controller. The hardware behind the ports is a parameter; the
  locale \<open>ata\<close> states the documented behaviour of the controller on which the driver relies.
\<close>

section \<open>Ports\<close>

record 'd ports =
  port_in8 :: "u16 \<Rightarrow> 'd \<Rightarrow> byte \<times> 'd"
  port_in32 :: "u16 \<Rightarrow> 'd \<Rightarrow> u32 \<times> 'd"
  port_out8 :: "u16 \<Rightarrow> byte \<Rightarrow> 'd \<Rightarrow> 'd"
  port_out32 :: "u16 \<Rightarrow> u32 \<Rightarrow> 'd \<Rightarrow> 'd"

definition in_byte :: "'d ports \<Rightarrow> u16 \<Rightarrow> 'd \<Rightarrow> byte \<times> 'd" where
  "in_byte P port d = port_in8 P port d"

definition in_long :: "'d ports \<Rightarrow> u16 \<Rightarrow> 'd \<Rightarrow> u32 \<times> 'd" where
  "in_long P port d = port_in32 P port d"

definition out_byte :: "'d ports \<Rightarrow> u16 \<Rightarrow> byte \<Rightarrow> 'd \<Rightarrow> 'd" where
  "out_byte P port data d = port_out8 P port data d"

definition out_long :: "'d ports \<Rightarrow> u16 \<Rightarrow> u32 \<Rightarrow> 'd \<Rightarrow> 'd" where
  "out_long P port data d = port_out32 P port data d"

section \<open>The driver\<close>

abbreviation (input) SECTSIZE :: int where "SECTSIZE \<equiv> 512"

text \<open>\<open>None\<close> is a call that does not return.\<close>

partial_function (option) waitdisk :: "'d ports \<Rightarrow> 'd \<Rightarrow> 'd option" where
  "waitdisk P d =
     (let r = in_byte P 0x1F7 d
      in if fst r AND 0xC0 \<noteq> 0x40 then waitdisk P (snd r) else Some (snd r))"

text \<open>The six register writes with which \<open>readsect\<close> and \<open>writesect\<close> start a command.\<close>

definition ata_command :: "'d ports \<Rightarrow> int \<Rightarrow> byte \<Rightarrow> 'd \<Rightarrow> 'd" where
  "ata_command P offset cmd d =
     (let d1 = out_byte P 0x1F2 1 d;
          d2 = out_byte P 0x1F3 (of_int offset) d1;
          d3 = out_byte P 0x1F4 (of_int (offset div 2 ^ 8)) d2;
          d4 = out_byte P 0x1F5 (of_int (offset div 2 ^ 16)) d3;
          d5 = out_byte P 0x1F6 (of_int (offset div 2 ^ 24) OR 0xE0) d4
      in out_byte P 0x1F7 cmd d5)"

definition readsect :: "'d ports \<Rightarrow> addr \<Rightarrow> int \<Rightarrow> mem \<Rightarrow> 'd \<Rightarrow> (mem \<times> 'd) option" where
  "readsect P dst offset m d =
     Option.bind (waitdisk P d) (\<lambda>d1.
     Option.bind (waitdisk P (ata_command P offset 0x20 d1)) (\<lambda>d2.
       Some (fold (\<lambda>i (m, d). let r = in_long P 0x1F0 d in (store32 m (dst + of_nat (4 * i)) (fst r), snd r))
         [0..<128] (m, d2))))"

definition writesect :: "'d ports \<Rightarrow> addr \<Rightarrow> int \<Rightarrow> mem \<Rightarrow> 'd \<Rightarrow> 'd option" where
  "writesect P src offset m d =
     Option.bind (waitdisk P d) (\<lambda>d1.
     Option.bind (waitdisk P (ata_command P offset 0x30 d1)) (\<lambda>d2.
       Some (fold (\<lambda>i d. out_long P 0x1F0 (load32 m (src + of_nat (4 * i))) d) [0..<128] d2)))"

partial_function (option) readseg_loop :: "'d ports \<Rightarrow> addr \<Rightarrow> addr \<Rightarrow> int \<Rightarrow> mem \<Rightarrow> 'd \<Rightarrow> (mem \<times> 'd) option" where
  "readseg_loop P pa epa offset m d =
     (if pa < epa
      then Option.bind (readsect P pa offset m d) (\<lambda>(m1, d1).
             readseg_loop P (pa + 512) epa (i32 (offset + 1)) m1 d1)
      else Some (m, d))"

definition readseg :: "'d ports \<Rightarrow> addr \<Rightarrow> int \<Rightarrow> int \<Rightarrow> mem \<Rightarrow> 'd \<Rightarrow> (mem \<times> 'd) option" where
  "readseg P pa count offset m d =
     readseg_loop P (pa - of_int (c_mod offset SECTSIZE)) (pa + of_int count)
       (i32 (c_div offset SECTSIZE + 1)) m d"

partial_function (option) writeseg_loop :: "'d ports \<Rightarrow> addr \<Rightarrow> addr \<Rightarrow> int \<Rightarrow> mem \<Rightarrow> 'd \<Rightarrow> 'd option" where
  "writeseg_loop P pa epa offset m d =
     (if pa < epa
      then Option.bind (writesect P pa offset m d) (writeseg_loop P (pa + 512) epa (i32 (offset + 1)) m)
      else Some d)"

definition writeseg :: "'d ports \<Rightarrow> addr \<Rightarrow> int \<Rightarrow> int \<Rightarrow> mem \<Rightarrow> 'd \<Rightarrow> 'd option" where
  "writeseg P pa count offset m d =
     writeseg_loop P (pa - of_int (c_mod offset SECTSIZE)) (pa + of_int count)
       (i32 (c_div offset SECTSIZE + 1)) m d"

section \<open>Words and bytes\<close>

definition word_bytes :: "u32 \<Rightarrow> byte list" where
  "word_bytes w = [ucast w, ucast (drop_bit 8 w), ucast (drop_bit 16 w), ucast (drop_bit 24 w)]"

definition bytes_of :: "u32 list \<Rightarrow> byte list" where
  "bytes_of ws = concat (map word_bytes ws)"

definition words_at :: "mem \<Rightarrow> addr \<Rightarrow> nat \<Rightarrow> u32 list" where
  "words_at m a n = map (\<lambda>i. load32 m (a + of_nat (4 * i))) [0..<n]"

lemma bytes_of_simps [simp]: "bytes_of [] = []" "bytes_of (w # ws) = word_bytes w @ bytes_of ws"
  "bytes_of (us @ ws) = bytes_of us @ bytes_of ws"
  by (simp_all add: bytes_of_def)

lemma length_bytes_of [simp]: "length (word_bytes w) = 4" "length (bytes_of ws) = 4 * length ws"
  by (induction ws) (simp_all add: word_bytes_def)

lemma length_words_at [simp]: "length (words_at m a n) = n"
  by (simp add: words_at_def)

lemma store32_write_bytes: "store32 m a v = write_bytes m a (word_bytes v)"
proof
  fix x
  show "store32 m a v x = write_bytes m a (word_bytes v) x"
  proof (cases "in_region a 4 x")
    case True
    then obtain k where "k < 4" "x = a + of_nat k" by (auto simp: in_region_iff)
    then have "x = a \<or> x = a + 1 \<or> x = a + 2 \<or> x = a + 3" by (auto simp: less_Suc_eq numeral_eq_Suc)
    then show ?thesis by (elim disjE) (simp_all add: store32_bytes write_bytes_def word_bytes_def)
  next
    case False
    then show ?thesis by (simp add: store32_other write_bytes_other)
  qed
qed

lemma write_bytes_append:
  assumes "length us + length vs \<le> 2 ^ 32"
  shows "write_bytes (write_bytes m a us) (a + of_nat (length us)) vs = write_bytes m a (us @ vs)"
proof
  fix x
  have eq: "x - (a + of_nat (length us)) = (x - a) - of_nat (length us)" by simp
  show "write_bytes (write_bytes m a us) (a + of_nat (length us)) vs x = write_bytes m a (us @ vs) x"
  proof (cases "unat (x - a) < length us")
    case True
    have "length us < 2 ^ 32 \<or> length vs = 0" using assms by linarith
    then show ?thesis
    proof
      assume l: "length us < 2 ^ 32"
      then have "unat (x - a - of_nat (length us)) = unat (x - a) + 2 ^ 32 - length us"
        using True by (simp add: unat_sub_if_size word_size)
      then have "\<not> unat (x - (a + of_nat (length us))) < length vs" unfolding eq using assms by linarith
      then show ?thesis using True by (simp add: write_bytes_def nth_append)
    qed (use True in \<open>simp add: write_bytes_def\<close>)
  next
    case False
    have "length us < 2 ^ 32" using False unat_lt_u32 [of "x - a"] by linarith
    then have "unat (x - (a + of_nat (length us))) = unat (x - a) - length us"
      unfolding eq using False by (simp add: unat_sub_if_size)
    then show ?thesis using False by (auto simp: write_bytes_def nth_append)
  qed
qed

lemma bytes_of_words_at:
  assumes "4 * n \<le> 2 ^ 32"
  shows "bytes_of (words_at m a n) = read_bytes m a (4 * n)"
  using assms
proof (induction n)
  case (Suc n)
  have "[0..<4 * Suc n] = [0..<4 * n] @ [4 * n, 4 * n + 1, 4 * n + 2, 4 * n + 3]" by (simp add: numeral_eq_Suc)
  then have "read_bytes m a (4 * Suc n) = read_bytes m a (4 * n) @ word_bytes (load32 m (a + of_nat (4 * n)))"
    by (simp add: read_bytes_def word_bytes_def bytes_of_load32 ac_simps)
  then show ?case using Suc by (simp add: words_at_def)
qed (simp add: words_at_def read_bytes_def)

lemma base_256:
  fixes x :: int
  shows "x mod 256 + 2 ^ 8 * (x div 2 ^ 8 mod 256) + 2 ^ 16 * (x div 2 ^ 16 mod 256) + 2 ^ 24 * (x div 2 ^ 24) = x"
proof -
  obtain a b c where abc: "a = x div 256" "b = a div 256" "c = b div 256" by blast
  have d: "x div 2 ^ 8 = a" "x div 2 ^ 16 = b" "x div 2 ^ 24 = c" by (simp_all add: abc zdiv_zmult2_eq [symmetric])
  have "a * 256 + x mod 256 = x" "b * 256 + a mod 256 = a" "c * 256 + b mod 256 = b"
    unfolding abc by (rule div_mult_mod_eq)+
  then have "x mod 256 + 256 * (a mod 256) + 65536 * (b mod 256) + 16777216 * c = x" by linarith
  then show ?thesis unfolding d by simp
qed

section \<open>The controller\<close>

text \<open>What the controller is doing: nothing, or transferring word \<open>k\<close> of sector \<open>n\<close>.\<close>

datatype ata_phase = AtaIdle | AtaRead nat nat | AtaWrite nat nat

text \<open>The sector that the registers select in 28-bit LBA mode.\<close>

definition lba :: "(u16 \<Rightarrow> byte) \<Rightarrow> nat" where
  "lba r = unat (r 0x1F3) + 2 ^ 8 * unat (r 0x1F4) + 2 ^ 16 * unat (r 0x1F5) + 2 ^ 24 * unat (r 0x1F6 AND 0xF)"

text \<open>
  The documented behaviour of the controller: it is busy for a while after a command and after
  a written sector; the status register then shows ready. Within a sector the words are
  transferred without further waiting.
\<close>

locale ata =
  fixes P :: "'d ports" and sec :: "'d \<Rightarrow> nat \<Rightarrow> u32 list" and phase :: "'d \<Rightarrow> ata_phase"
    and reg :: "'d \<Rightarrow> u16 \<Rightarrow> byte" and busy :: "'d \<Rightarrow> nat"
  assumes sec_length: "length (sec d n) = 128"
    and status_ready: "busy d = 0 \<Longrightarrow> fst (port_in8 P 0x1F7 d) AND 0xC0 = 0x40 \<and> busy (snd (port_in8 P 0x1F7 d)) = 0"
    and status_busy: "0 < busy d \<Longrightarrow> fst (port_in8 P 0x1F7 d) AND 0xC0 \<noteq> 0x40 \<and>
      busy (snd (port_in8 P 0x1F7 d)) < busy d"
    and status_keeps: "sec (snd (port_in8 P 0x1F7 d)) = sec d \<and> phase (snd (port_in8 P 0x1F7 d)) = phase d \<and>
      reg (snd (port_in8 P 0x1F7 d)) = reg d"
    and set_reg: "phase d = AtaIdle \<Longrightarrow> busy d = 0 \<Longrightarrow> p \<in> {0x1F2, 0x1F3, 0x1F4, 0x1F5, 0x1F6} \<Longrightarrow>
      sec (port_out8 P p v d) = sec d \<and> phase (port_out8 P p v d) = AtaIdle \<and>
      reg (port_out8 P p v d) = (reg d)(p := v) \<and> busy (port_out8 P p v d) = 0"
    and start_read: "phase d = AtaIdle \<Longrightarrow> busy d = 0 \<Longrightarrow> reg d 0x1F2 = 1 \<Longrightarrow> reg d 0x1F6 AND 0xF0 = 0xE0 \<Longrightarrow>
      sec (port_out8 P 0x1F7 0x20 d) = sec d \<and> phase (port_out8 P 0x1F7 0x20 d) = AtaRead (lba (reg d)) 0"
    and start_write: "phase d = AtaIdle \<Longrightarrow> busy d = 0 \<Longrightarrow> reg d 0x1F2 = 1 \<Longrightarrow> reg d 0x1F6 AND 0xF0 = 0xE0 \<Longrightarrow>
      sec (port_out8 P 0x1F7 0x30 d) = sec d \<and> phase (port_out8 P 0x1F7 0x30 d) = AtaWrite (lba (reg d)) 0"
    and read_word: "phase d = AtaRead n k \<Longrightarrow> busy d = 0 \<Longrightarrow> k < 128 \<Longrightarrow>
      fst (port_in32 P 0x1F0 d) = sec d n ! k \<and> sec (snd (port_in32 P 0x1F0 d)) = sec d \<and>
      phase (snd (port_in32 P 0x1F0 d)) = (if k = 127 then AtaIdle else AtaRead n (Suc k)) \<and>
      (k < 127 \<longrightarrow> busy (snd (port_in32 P 0x1F0 d)) = 0)"
    and write_word: "phase d = AtaWrite n k \<Longrightarrow> busy d = 0 \<Longrightarrow> k < 128 \<Longrightarrow>
      sec (port_out32 P 0x1F0 w d) = (sec d)(n := (sec d n)[k := w]) \<and>
      phase (port_out32 P 0x1F0 w d) = (if k = 127 then AtaIdle else AtaWrite n (Suc k)) \<and>
      (k < 127 \<longrightarrow> busy (port_out32 P 0x1F0 w d) = 0)"
begin

lemma waitdisk_returns:
  "\<exists>d'. waitdisk P d = Some d' \<and> busy d' = 0 \<and> sec d' = sec d \<and> phase d' = phase d \<and> reg d' = reg d"
proof (induction "busy d" arbitrary: d rule: less_induct)
  case less
  let ?r = "port_in8 P 0x1F7 d"
  have unf: "waitdisk P d = (if fst ?r AND 0xC0 \<noteq> 0x40 then waitdisk P (snd ?r) else Some (snd ?r))"
    by (subst waitdisk.simps) (simp add: Let_def in_byte_def)
  show ?case
  proof (cases "busy d = 0")
    case True
    then show ?thesis using unf status_ready status_keeps by auto
  next
    case False
    then have b: "fst ?r AND 0xC0 \<noteq> 0x40" "busy (snd ?r) < busy d" using status_busy [of d] by auto
    from less.hyps [OF b(2)] show ?thesis using unf b(1) status_keeps by auto
  qed
qed

lemma command_ok:
  assumes "phase d = AtaIdle" and "busy d = 0" and "0 \<le> offset" and "offset < 2 ^ 28" and "cmd \<in> {0x20, 0x30}"
  shows "sec (ata_command P offset cmd d) = sec d"
    and "phase (ata_command P offset cmd d) = (if cmd = 0x20 then AtaRead (nat offset) 0 else AtaWrite (nat offset) 0)"
proof -
  let ?d1 = "port_out8 P 0x1F2 1 d"
  let ?d2 = "port_out8 P 0x1F3 (of_int offset) ?d1"
  let ?d3 = "port_out8 P 0x1F4 (of_int (offset div 2 ^ 8)) ?d2"
  let ?d4 = "port_out8 P 0x1F5 (of_int (offset div 2 ^ 16)) ?d3"
  let ?d5 = "port_out8 P 0x1F6 (of_int (offset div 2 ^ 24) OR 0xE0) ?d4"
  have 1: "sec ?d1 = sec d" "phase ?d1 = AtaIdle" "busy ?d1 = 0" "reg ?d1 = (reg d)(0x1F2 := 1)"
    using set_reg [OF assms(1,2)] by auto
  have 2: "sec ?d2 = sec d" "phase ?d2 = AtaIdle" "busy ?d2 = 0" "reg ?d2 = (reg ?d1)(0x1F3 := of_int offset)"
    using set_reg [OF 1(2,3)] 1 by auto
  have 3: "sec ?d3 = sec d" "phase ?d3 = AtaIdle" "busy ?d3 = 0" "reg ?d3 = (reg ?d2)(0x1F4 := of_int (offset div 2 ^ 8))"
    using set_reg [OF 2(2,3)] 2 by auto
  have 4: "sec ?d4 = sec d" "phase ?d4 = AtaIdle" "busy ?d4 = 0" "reg ?d4 = (reg ?d3)(0x1F5 := of_int (offset div 2 ^ 16))"
    using set_reg [OF 3(2,3)] 3 by auto
  have 5: "sec ?d5 = sec d" "phase ?d5 = AtaIdle" "busy ?d5 = 0"
    "reg ?d5 = (reg ?d4)(0x1F6 := of_int (offset div 2 ^ 24) OR 0xE0)"
    using set_reg [OF 4(2,3)] 4 by auto
  have hi: "0 \<le> offset div 2 ^ 24" "offset div 2 ^ 24 < 16" using assms(3,4) by (auto simp: div_less_iff_less_mult)
  define h :: byte where "h = of_int (offset div 2 ^ 24)"
  have uh: "uint h = offset div 2 ^ 24" unfolding h_def using hi by (simp add: uint_word_of_int)
  have h16: "h AND 0xF = h"
  proof -
    have "take_bit 4 h = h" using uh hi by (intro word_uint_eqI) (simp add: unsigned_take_bit_eq take_bit_int_eq_self)
    moreover have "take_bit 4 h = h AND 0xF" by (simp add: take_bit_eq_mask mask_eq_exp_minus_1)
    ultimately show ?thesis by simp
  qed
  have and1: "(h OR 0xE0) AND 0xF = h" using h16 by (simp add: bit.conj_disj_distrib2)
  have "h AND 0xF0 = (h AND 0xF) AND 0xF0" by (simp add: h16)
  also have "\<dots> = 0" by (simp add: and.assoc)
  finally have and2: "(h OR 0xE0) AND 0xF0 = 0xE0" by (simp add: bit.conj_disj_distrib2)
  have b: "unat (of_int x :: byte) = nat (x mod 256)" for x :: int
    by (simp only: unat_eq_nat_uint uint_word_of_int) simp
  have "unat h = nat (offset div 2 ^ 24)" using uh by (simp only: unat_eq_nat_uint)
  moreover have "reg ?d5 0x1F6 = h OR 0xE0" "reg ?d5 0x1F5 = of_int (offset div 2 ^ 16)"
    "reg ?d5 0x1F4 = of_int (offset div 2 ^ 8)" "reg ?d5 0x1F3 = of_int offset"
    unfolding 5(4) 4(4) 3(4) 2(4) h_def by simp_all
  ultimately have "int (lba (reg ?d5)) = offset mod 256 + 2 ^ 8 * (offset div 2 ^ 8 mod 256) + 2 ^ 16 * (offset div 2 ^ 16 mod 256) +
      2 ^ 24 * (offset div 2 ^ 24)"
    unfolding lba_def using and1 hi by (simp add: b)
  also have "\<dots> = offset" by (rule base_256)
  finally have l: "lba (reg ?d5) = nat offset" by simp
  have r: "reg ?d5 0x1F2 = 1" "reg ?d5 0x1F6 AND 0xF0 = 0xE0"
    unfolding 5(4) 4(4) 3(4) 2(4) 1(4) using and2 by (simp_all add: h_def)
  have c: "ata_command P offset cmd d = port_out8 P 0x1F7 cmd ?d5"
    by (simp add: ata_command_def Let_def out_byte_def)
  show "sec (ata_command P offset cmd d) = sec d"
    and "phase (ata_command P offset cmd d) = (if cmd = 0x20 then AtaRead (nat offset) 0 else AtaWrite (nat offset) 0)"
    unfolding c using start_read [OF 5(2,3) r] start_write [OF 5(2,3) r] 5(1) l assms(5) by auto
qed

lemma read_words:
  assumes "phase d = AtaRead n 0" and "busy d = 0"
  shows "k \<le> 128 \<Longrightarrow> \<exists>d'. fold (\<lambda>i (m, d). let r = in_long P 0x1F0 d in (store32 m (dst + of_nat (4 * i)) (fst r), snd r))
      [0..<k] (m, d) = (write_bytes m dst (bytes_of (take k (sec d n))), d') \<and> sec d' = sec d \<and>
      (if k < 128 then phase d' = AtaRead n k \<and> busy d' = 0 else phase d' = AtaIdle)"
proof (induction k)
  case 0
  then show ?case using assms by (simp add: write_bytes_def)
next
  case (Suc k)
  then obtain d' where d': "fold (\<lambda>i (m, d). let r = in_long P 0x1F0 d in (store32 m (dst + of_nat (4 * i)) (fst r), snd r))
      [0..<k] (m, d) = (write_bytes m dst (bytes_of (take k (sec d n))), d')" "sec d' = sec d" "phase d' = AtaRead n k" "busy d' = 0"
    by auto
  let ?r = "port_in32 P 0x1F0 d'"
  have r: "fst ?r = sec d n ! k" "sec (snd ?r) = sec d" "phase (snd ?r) = (if k = 127 then AtaIdle else AtaRead n (Suc k))"
    "k < 127 \<longrightarrow> busy (snd ?r) = 0"
    using read_word [OF d'(3,4)] Suc.prems d'(2) by auto
  have l: "length (bytes_of (take k (sec d n))) = 4 * k" using sec_length [of d n] Suc.prems by simp
  have "store32 (write_bytes m dst (bytes_of (take k (sec d n)))) (dst + of_nat (4 * k)) (sec d n ! k) =
      write_bytes m dst (bytes_of (take (Suc k) (sec d n)))"
    using write_bytes_append [of "bytes_of (take k (sec d n))" "word_bytes (sec d n ! k)" m dst] l sec_length [of d n] Suc.prems
    by (simp add: store32_write_bytes take_Suc_conv_app_nth)
  then show ?case using d' r Suc.prems by (auto simp: in_long_def Let_def)
qed

lemma readsect_ok:
  assumes "phase d = AtaIdle" and "0 \<le> offset" and "offset < 2 ^ 28"
  obtains d' where "readsect P dst offset m d = Some (write_bytes m dst (bytes_of (sec d (nat offset))), d')"
    and "sec d' = sec d" and "phase d' = AtaIdle"
proof -
  obtain d1 where d1: "waitdisk P d = Some d1" "busy d1 = 0" "sec d1 = sec d" "phase d1 = AtaIdle"
    using waitdisk_returns [of d] assms(1) by auto
  note c = command_ok [OF d1(4,2) assms(2,3), of "0x20"]
  obtain d2 where d2: "waitdisk P (ata_command P offset 0x20 d1) = Some d2" "busy d2 = 0" "sec d2 = sec d"
    "phase d2 = AtaRead (nat offset) 0"
    using waitdisk_returns [of "ata_command P offset 0x20 d1"] c d1(3) by auto
  obtain d3 where "fold (\<lambda>i (m, d). let r = in_long P 0x1F0 d in (store32 m (dst + of_nat (4 * i)) (fst r), snd r))
      [0..<128] (m, d2) = (write_bytes m dst (bytes_of (take 128 (sec d2 (nat offset)))), d3)" "sec d3 = sec d2" "phase d3 = AtaIdle"
    using read_words [OF d2(4,2), of 128 dst m] by auto
  then show thesis using that [of d3] d1(1) d2(1,3) sec_length [of d "nat offset"] by (simp add: readsect_def)
qed

lemma write_words:
  assumes "phase d = AtaWrite n 0" and "busy d = 0"
  shows "k \<le> 128 \<Longrightarrow> \<exists>d'. fold (\<lambda>i d. out_long P 0x1F0 (load32 m (src + of_nat (4 * i))) d) [0..<k] d = d' \<and>
      sec d' = (sec d)(n := words_at m src k @ drop k (sec d n)) \<and>
      (if k < 128 then phase d' = AtaWrite n k \<and> busy d' = 0 else phase d' = AtaIdle)"
proof (induction k)
  case 0
  then show ?case using assms by (simp add: words_at_def)
next
  case (Suc k)
  obtain d' where d': "fold (\<lambda>i d. out_long P 0x1F0 (load32 m (src + of_nat (4 * i))) d) [0..<k] d = d'"
    "sec d' = (sec d)(n := words_at m src k @ drop k (sec d n))"
    "if k < 128 then phase d' = AtaWrite n k \<and> busy d' = 0 else phase d' = AtaIdle"
    using Suc.IH Suc.prems by (metis Suc_leD)
  then have p: "phase d' = AtaWrite n k" "busy d' = 0" using Suc.prems by simp_all
  let ?v = "load32 m (src + of_nat (4 * k))"
  have "(words_at m src k @ drop k (sec d n))[k := ?v] = words_at m src (Suc k) @ drop (Suc k) (sec d n)"
    using sec_length [of d n] Suc.prems by (simp add: list_update_append words_at_def Cons_nth_drop_Suc [symmetric])
  then have e: "sec (port_out32 P 0x1F0 ?v d') = (sec d)(n := words_at m src (Suc k) @ drop (Suc k) (sec d n))"
    "if Suc k < 128 then phase (port_out32 P 0x1F0 ?v d') = AtaWrite n (Suc k) \<and> busy (port_out32 P 0x1F0 ?v d') = 0
     else phase (port_out32 P 0x1F0 ?v d') = AtaIdle"
    using write_word [OF p, of ?v] d'(2) Suc.prems by (auto split: if_splits)
  have "fold (\<lambda>i d. out_long P 0x1F0 (load32 m (src + of_nat (4 * i))) d) [0..<Suc k] d = port_out32 P 0x1F0 ?v d'"
    using d'(1) by (simp add: out_long_def)
  then show ?case using e by (intro exI [of _ "port_out32 P 0x1F0 ?v d'"] conjI)
qed

lemma writesect_ok:
  assumes "phase d = AtaIdle" and "0 \<le> offset" and "offset < 2 ^ 28"
  obtains d' where "writesect P src offset m d = Some d'"
    and "sec d' = (sec d)(nat offset := words_at m src 128)" and "phase d' = AtaIdle"
proof -
  obtain d1 where d1: "waitdisk P d = Some d1" "busy d1 = 0" "sec d1 = sec d" "phase d1 = AtaIdle"
    using waitdisk_returns [of d] assms(1) by auto
  note c = command_ok [OF d1(4,2) assms(2,3), of "0x30"]
  obtain d2 where d2: "waitdisk P (ata_command P offset 0x30 d1) = Some d2" "busy d2 = 0" "sec d2 = sec d"
    "phase d2 = AtaWrite (nat offset) 0"
    using waitdisk_returns [of "ata_command P offset 0x30 d1"] c d1(3) by auto
  then show thesis using that d1(1) write_words [OF d2(4,2), of 128 m src] sec_length [of d "nat offset"]
    by (auto simp: writesect_def)
qed

text \<open>Whole sectors at a time, at sector-aligned disk offsets.\<close>

lemma readseg_loop_ok:
  assumes "phase d = AtaIdle" and "0 \<le> off" and "off + int n \<le> 2 ^ 28" and "unat pa + 512 * n < 2 ^ 32"
  shows "\<exists>d'. readseg_loop P pa (pa + of_nat (512 * n)) off m d =
      Some (write_bytes m pa (concat (map (\<lambda>k. bytes_of (sec d (nat off + k))) [0..<n])), d') \<and>
      sec d' = sec d \<and> phase d' = AtaIdle"
  using assms
proof (induction n arbitrary: pa off m d)
  case 0
  then show ?case by (subst readseg_loop.simps) (simp add: write_bytes_def)
next
  case (Suc n)
  have off: "0 \<le> off" "off < 2 ^ 28" using Suc.prems by auto
  obtain d1 where d1: "readsect P pa off m d = Some (write_bytes m pa (bytes_of (sec d (nat off))), d1)"
    "sec d1 = sec d" "phase d1 = AtaIdle" by (rule readsect_ok [OF Suc.prems(1) off])
  have u: "unat (of_nat (512 * Suc n) :: u32) = 512 * Suc n" using Suc.prems(4) by (intro unat_of_nat_u32) simp
  have lt: "pa < pa + of_nat (512 * Suc n)"
    unfolding word_less_nat_alt unat_word_ariths(1) u using Suc.prems(4) by simp
  have u5: "unat (pa + 512) = unat pa + 512" using Suc.prems(4) by (simp add: unat_word_ariths)
  have i: "i32 (off + 1) = off + 1" using off by (intro i32_id) auto
  have e: "pa + of_nat (512 * Suc n) = pa + 512 + of_nat (512 * n)" by simp
  let ?m = "write_bytes m pa (bytes_of (sec d (nat off)))"
  obtain d' where d': "readseg_loop P (pa + 512) (pa + 512 + of_nat (512 * n)) (off + 1) ?m d1 =
      Some (write_bytes ?m (pa + 512) (concat (map (\<lambda>k. bytes_of (sec d1 (nat (off + 1) + k))) [0..<n])), d')"
    "sec d' = sec d1" "phase d' = AtaIdle"
    using Suc.IH [of d1 "off + 1" "pa + 512" ?m] Suc.prems d1(3) u5 by auto
  have len: "length (bytes_of (sec d k)) = 512" for k by (simp add: sec_length)
  have lc: "length (concat (map (\<lambda>k. bytes_of (sec d (Suc (nat off) + k))) [0..<n])) = 512 * n"
    by (induction n) (simp_all add: sec_length)
  have "map (\<lambda>k. bytes_of (sec d (nat off + k))) [0..<Suc n] =
      bytes_of (sec d (nat off)) # map (\<lambda>k. bytes_of (sec d (Suc (nat off) + k))) [0..<n]"
    by (simp add: upt_conv_Cons map_Suc_upt [symmetric] del: upt_Suc)
  moreover have "nat (off + 1) = Suc (nat off)" using off by simp
  ultimately have "write_bytes ?m (pa + 512) (concat (map (\<lambda>k. bytes_of (sec d1 (nat (off + 1) + k))) [0..<n])) =
      write_bytes m pa (concat (map (\<lambda>k. bytes_of (sec d (nat off + k))) [0..<Suc n]))"
    using write_bytes_append [of "bytes_of (sec d (nat off))" "concat (map (\<lambda>k. bytes_of (sec d (Suc (nat off) + k))) [0..<n])" m pa]
      len lc Suc.prems(4) d1(2) by simp
  then have "readseg_loop P pa (pa + of_nat (512 * Suc n)) off m d =
      Some (write_bytes m pa (concat (map (\<lambda>k. bytes_of (sec d (nat off + k))) [0..<Suc n])), d')"
    using lt d1(1) d'(1) i unfolding e by (subst readseg_loop.simps) simp
  then show ?case using d'(2,3) d1(2) by auto
qed

lemma readseg_ok:
  assumes "phase d = AtaIdle" and "0 \<le> offset" and "offset mod 512 = 0" and "offset div 512 + 1 + int n \<le> 2 ^ 28"
    and "unat pa + 512 * n < 2 ^ 32" and "count = 512 * int n"
  obtains d' where "readseg P pa count offset m d =
      Some (write_bytes m pa (concat (map (\<lambda>k. bytes_of (sec d (nat (offset div 512) + 1 + k))) [0..<n])), d')"
    and "sec d' = sec d" and "phase d' = AtaIdle"
proof -
  have o: "0 \<le> offset div 512" using assms(2) by simp
  have i: "i32 (c_div offset 512 + 1) = offset div 512 + 1"
    using assms(2,4) o by (simp add: c_div_nonneg i32_id)
  have c: "of_int (c_mod offset 512) = (0 :: u32)" using assms(2,3) by (simp add: c_mod_nonneg)
  have n: "of_int count = (of_nat (512 * n) :: u32)" using assms(6) by simp
  have na: "nat (offset div 512 + 1) = nat (offset div 512) + 1" using o by simp
  show thesis
    using readseg_loop_ok [of d "offset div 512 + 1" n pa m] assms(1,4,5) o that
    unfolding readseg_def i c n na by auto
qed

lemma writeseg_ok:
  assumes "phase d = AtaIdle" and "0 \<le> offset" and "offset mod 512 = 0" and "offset div 512 + 1 < 2 ^ 28"
    and "unat pa + 512 < 2 ^ 32"
  obtains d' where "writeseg P pa 512 offset m d = Some d'"
    and "sec d' = (sec d)(nat (offset div 512) + 1 := words_at m pa 128)" and "phase d' = AtaIdle"
proof -
  have o: "0 \<le> offset div 512" using assms(2) by simp
  have i: "i32 (c_div offset 512 + 1) = offset div 512 + 1"
    using assms(2,4) o by (simp add: c_div_nonneg i32_id)
  have c: "of_int (c_mod offset 512) = (0 :: u32)" using assms(2,3) by (simp add: c_mod_nonneg)
  have b: "0 \<le> offset div 512 + 1" using o by simp
  obtain d' where d': "writesect P pa (offset div 512 + 1) m d = Some d'"
    "sec d' = (sec d)(nat (offset div 512 + 1) := words_at m pa 128)" "phase d' = AtaIdle"
    by (rule writesect_ok [OF assms(1) b assms(4)])
  have "pa < pa + 512" using assms(5) by (simp add: word_less_nat_alt unat_word_ariths)
  then have "writeseg P pa 512 offset m d = Some d'"
    unfolding writeseg_def i c using d'(1)
    by (subst writeseg_loop.simps) (simp add: writeseg_loop.simps [of P "pa + 512"])
  moreover have "nat (offset div 512 + 1) = nat (offset div 512) + 1" using o by simp
  ultimately show thesis using that d'(2,3) by simp
qed

end

section \<open>A controller\<close>

text \<open>A concrete controller that is busy for three status reads after every command.\<close>

record ata_dev =
  ata_disk :: "nat \<Rightarrow> nat \<Rightarrow> u32"
  ata_regs :: "u16 \<Rightarrow> byte"
  ata_ph :: ata_phase
  ata_busy :: nat

definition ata_sec :: "ata_dev \<Rightarrow> nat \<Rightarrow> u32 list" where
  "ata_sec d n = map (ata_disk d n) [0..<128]"

definition ata_ports :: "ata_dev ports" where
  "ata_ports = \<lparr>
     port_in8 = (\<lambda>p d. if ata_busy d = 0 then (0x40, d) else (0x80, d\<lparr>ata_busy := ata_busy d - 1\<rparr>)),
     port_in32 = (\<lambda>p d. case ata_ph d of
         AtaRead n k \<Rightarrow> (ata_disk d n k, d\<lparr>ata_ph := (if k = 127 then AtaIdle else AtaRead n (Suc k))\<rparr>)
       | _ \<Rightarrow> (0, d)),
     port_out8 = (\<lambda>p v d.
       if p = 0x1F7 then d\<lparr>ata_ph := (if v = 0x20 then AtaRead (lba (ata_regs d)) 0 else AtaWrite (lba (ata_regs d)) 0),
         ata_busy := 3\<rparr>
       else d\<lparr>ata_regs := (ata_regs d)(p := v)\<rparr>),
     port_out32 = (\<lambda>p v d. case ata_ph d of
         AtaWrite n k \<Rightarrow> d\<lparr>ata_disk := (ata_disk d)(n := (ata_disk d n)(k := v)),
           ata_ph := (if k = 127 then AtaIdle else AtaWrite n (Suc k)),
           ata_busy := (if k = 127 then 3 else 0)\<rparr>
       | _ \<Rightarrow> d)\<rparr>"

definition ata_zero :: ata_dev where
  "ata_zero = \<lparr>ata_disk = (\<lambda>_ _. 0), ata_regs = (\<lambda>_. 0), ata_ph = AtaIdle, ata_busy = 0\<rparr>"

interpretation disk: ata ata_ports ata_sec ata_ph ata_regs ata_busy
proof unfold_locales
  fix d :: ata_dev and n k and w :: u32
  assume "ata_ph d = AtaWrite n k" "ata_busy d = 0" "k < 128"
  moreover have "map ((ata_disk d n)(k := w)) [0..<128] = (map (ata_disk d n) [0..<128])[k := w]"
    by (rule nth_equalityI) (simp_all add: nth_list_update)
  ultimately show "ata_sec (port_out32 ata_ports 0x1F0 w d) = (ata_sec d)(n := (ata_sec d n)[k := w]) \<and>
      ata_ph (port_out32 ata_ports 0x1F0 w d) = (if k = 127 then AtaIdle else AtaWrite n (Suc k)) \<and>
      (k < 127 \<longrightarrow> ata_busy (port_out32 ata_ports 0x1F0 w d) = 0)"
    by (auto simp: ata_ports_def ata_sec_def fun_eq_iff)
qed (auto simp: ata_ports_def ata_sec_def)

section \<open>Properties\<close>



end
