(* ===== verification/Disk_Image.thy ===== *)
theory Disk_Image
  imports Disk
begin

text \<open>
  The tools that build and read the disk image on the host: \<open>formatter.c\<close>, \<open>copy2myfs.c\<close> and
  \<open>read_myfs.c\<close>, with the layout of \<open>disk.h\<close>. The image is a function from positions in
  \<open>disk.bin\<close> to bytes. Sector 0 holds the boot block; block \<open>n\<close> of the file system is sector
  \<open>n + 1\<close>: blocks 0 to 255 are the bitmap, block 256 is the directory, blocks 257 to 287 are
  inodes and the rest is data.
\<close>

section \<open>Layout\<close>

type_synonym disk = "nat \<Rightarrow> byte"

abbreviation (input) BITMAP_SIZE :: nat where "BITMAP_SIZE \<equiv> 131072"
abbreviation (input) BITMAP_USED_BYTE :: nat where "BITMAP_USED_BYTE \<equiv> 32"
abbreviation (input) NR_DIR :: nat where "NR_DIR \<equiv> 16"
abbreviation (input) NR_INODE :: nat where "NR_INODE \<equiv> 128"

record dirent =
  filename :: "byte list"
  file_size :: u32
  inode_offset :: u32

type_synonym map = "nat \<Rightarrow> byte"
type_synonym iNode = "u32 list"

text \<open>Positioned writes and reads of the image.\<close>

definition fput :: "nat \<Rightarrow> byte list \<Rightarrow> disk \<Rightarrow> disk" where
  "fput pos bs d = (\<lambda>p. if pos \<le> p \<and> p < pos + length bs then bs ! (p - pos) else d p)"

definition fget :: "nat \<Rightarrow> nat \<Rightarrow> disk \<Rightarrow> byte list" where
  "fget pos n d = List.map d [pos..<pos + n]"

definition word_of :: "byte list \<Rightarrow> u32" where
  "word_of bs = ucast (bs ! 0) OR push_bit 8 (ucast (bs ! 1)) OR push_bit 16 (ucast (bs ! 2)) OR push_bit 24 (ucast (bs ! 3))"

text \<open>The structures in memory are written to and read from the image as they are.\<close>

definition dirent_bytes :: "dirent \<Rightarrow> byte list" where
  "dirent_bytes e = filename e @ word_bytes (file_size e) @ word_bytes (inode_offset e)"

definition dirent_at :: "nat \<Rightarrow> disk \<Rightarrow> dirent" where
  "dirent_at pos d = \<lparr>filename = fget pos 24 d, file_size = word_of (fget (pos + 24) 4 d), inode_offset = word_of (fget (pos + 28) 4 d)\<rparr>"

definition dir_bytes :: "dirent list \<Rightarrow> byte list" where
  "dir_bytes es = concat (List.map dirent_bytes es)"

definition dir_at :: "nat \<Rightarrow> disk \<Rightarrow> dirent list" where
  "dir_at pos d = List.map (\<lambda>i. dirent_at (pos + 32 * i) d) [0..<NR_DIR]"

definition inode_at :: "nat \<Rightarrow> disk \<Rightarrow> iNode" where
  "inode_at pos d = List.map (\<lambda>i. word_of (fget (pos + 4 * i) 4 d)) [0..<NR_INODE]"

section \<open>\<open>formatter\<close>\<close>

text \<open>
  The data blocks are written with one call of \<open>fwrite\<close> per 128 blocks that reads far behind the
  512 bytes of \<open>data\<close>; \<open>junk\<close> is the memory behind them.
\<close>

definition formatter :: "byte list \<Rightarrow> byte list \<Rightarrow> disk" where
  "formatter boot junk =
     (let bitmap = replicate BITMAP_USED_BYTE 0xff @ 0x80 # replicate (BITMAP_SIZE - BITMAP_USED_BYTE - 1) 0;
          dir_bitoffset = BITMAP_USED_BYTE * 8;
          direct = replicate NR_DIR \<lparr>filename = replicate 24 0, file_size = 0, inode_offset = -1\<rparr>;
          inodes = replicate 32 (replicate NR_INODE (-1 :: u32));
          data = take (128 * 512) (replicate 512 0 @ junk);
          d0 = (\<lambda>_. 0);
          d1 = fold (\<lambda>i. fput (512 + dir_bitoffset * 512 + 512 + 32 * 512 + i * 128 * 512) data) [0..<32] d0;
          d2 = fput (512 + dir_bitoffset * 512 + 512) (bytes_of (concat inodes)) d1;
          d3 = fput (512 + dir_bitoffset * 512) (dir_bytes direct) d2;
          d4 = fput 512 bitmap d3
      in fput 0 boot d4)"

section \<open>\<open>copy2myfs\<close>\<close>

datatype alloc_mode = alloc_inode | alloc_data

text \<open>The first byte from index \<open>i\<close> on with a clear bit.\<close>

function byte_scan :: "map \<Rightarrow> nat \<Rightarrow> nat option" where
  "byte_scan bm i = (if i < BITMAP_SIZE then (if bm i \<noteq> 0xff then Some i else byte_scan bm (i + 1)) else None)"
  by pat_completeness auto
termination
  by (relation "measure (\<lambda>(bm, i). BITMAP_SIZE - i)") auto

declare byte_scan.simps [simp del]

text \<open>The chain of tests of the bits of a byte, highest first.\<close>

definition bit_pick :: "byte \<Rightarrow> nat option" where
  "bit_pick b =
     (if \<not> bit b 7 then Some 0 else if \<not> bit b 6 then Some 1 else if \<not> bit b 5 then Some 2
      else if \<not> bit b 4 then Some 3 else if \<not> bit b 3 then Some 4 else if \<not> bit b 2 then Some 5
      else if \<not> bit b 1 then Some 6 else if \<not> bit b 0 then Some 7 else None)"

text \<open>\<open>prev\<close> is what the variable for the result holds before, which a full bitmap leaves in place.\<close>

definition bit_alloc :: "alloc_mode \<Rightarrow> nat \<Rightarrow> map \<Rightarrow> nat \<times> map" where
  "bit_alloc mode prev bm =
     (let base = (case mode of alloc_inode \<Rightarrow> BITMAP_USED_BYTE | alloc_data \<Rightarrow> BITMAP_USED_BYTE + 32 div 8)
      in case byte_scan bm base of
           None \<Rightarrow> (prev + BITMAP_SIZE * 8, bm)
         | Some i \<Rightarrow>
             (case bit_pick (bm i) of
                None \<Rightarrow> (prev + i * 8, bm)
              | Some k \<Rightarrow> (k + i * 8, bm(i := Bit_Operations.set_bit (7 - k) (bm i)))))"

record img =
  bin :: disk
  bitmap :: map
  direct :: "dirent list"

text \<open>
  The variables of the loop over the blocks of a file. The initialisation of the inode writes one
  word behind its 128; \<open>inode\<close> has this word at its end.
\<close>

record cp = img +
  inode :: iNode
  bitoffset :: nat
  entry_index :: nat
  inode_num :: nat

definition inode_clear :: iNode where
  "inode_clear = replicate (NR_INODE + 1) (-1)"

definition write_inode :: "nat \<Rightarrow> cp \<Rightarrow> cp" where
  "write_inode index s =
     s\<lparr>bin := fput (unat (inode_offset (direct s ! index)) * 512 + inode_num s * 512 + 512) (bytes_of (take NR_INODE (inode s))) (bin s)\<rparr>"

definition copy_block :: "nat \<Rightarrow> byte list \<Rightarrow> cp \<Rightarrow> cp" where
  "copy_block index buf s =
     (let (inode_entry, bm) = bit_alloc alloc_data 0 (bitmap s); s1 = s\<lparr>bitmap := bm\<rparr>
      in if entry_index s1 < NR_INODE
         then let s2 = s1\<lparr>inode := (inode s1)[entry_index s1 := of_nat inode_entry]\<rparr>
              in s2\<lparr>bin := fput (inode_entry * 512 + 512) buf (bin s2), entry_index := entry_index s2 + 1\<rparr>
         else let s2 = write_inode index s1;
                  (off, bm2) = bit_alloc alloc_inode (bitoffset s2) (bitmap s2);
                  s3 = s2\<lparr>bitmap := bm2, bitoffset := off, inode := inode_clear[0 := of_nat inode_entry]\<rparr>
              in s3\<lparr>bin := fput (inode_entry * 512 + 512) buf (bin s3), entry_index := 1, inode_num := inode_num s3 + 1\<rparr>)"

text \<open>The loop until \<open>feof\<close>, which holds once a read came to the end of the file.\<close>

function copy_blocks :: "nat \<Rightarrow> byte list \<Rightarrow> cp \<Rightarrow> cp" where
  "copy_blocks index rest s =
     (let buf = take 512 rest @ replicate (512 - length rest) 0; s1 = copy_block index buf s
      in if length rest < 512 then s1 else copy_blocks index (drop 512 rest) s1)"
  by pat_completeness auto
termination
  by (relation "measure (\<lambda>(index, rest, s). length rest)") auto

declare copy_blocks.simps [simp del]

fun free_entry :: "dirent list \<Rightarrow> nat \<Rightarrow> nat option" where
  "free_entry [] i = None"
| "free_entry (e # es) i = (if inode_offset e = -1 then Some i else free_entry es (i + 1))"

definition name_entry :: "byte list \<Rightarrow> nat \<Rightarrow> nat \<Rightarrow> dirent \<Rightarrow> dirent" where
  "name_entry name filesz off e =
     e\<lparr>filename := name @ drop (length name) (filename e), file_size := of_nat filesz, inode_offset := of_nat off\<rparr>"

text \<open>One file: the result is the state and the index of its directory entry.\<close>

definition copy_file :: "byte list \<Rightarrow> byte list \<Rightarrow> cp \<Rightarrow> (nat \<times> cp) res" where
  "copy_file name content s =
     (let (off, bm) = bit_alloc alloc_inode (bitoffset s) (bitmap s); s1 = s\<lparr>bitmap := bm, bitoffset := off\<rparr>
      in case free_entry (direct s1) 0 of
           None \<Rightarrow> Inl OutOfBounds
         | Some index \<Rightarrow>
             if 24 < length name then Inl OutOfBounds
             else let s2 = s1\<lparr>direct := (direct s1)[index := name_entry name (length content) off (direct s1 ! index)],
                              inode := inode_clear, entry_index := 0, inode_num := 0\<rparr>
                  in Inr (index, write_inode index (copy_blocks index content s2)))"

text \<open>The loop over the arguments; a file that cannot be opened ends the program early.\<close>

fun copy_files :: "(byte list \<times> byte list option) list \<Rightarrow> nat option \<Rightarrow> cp \<Rightarrow> (bool \<times> nat option \<times> cp) res" where
  "copy_files [] idx s = Inr (True, idx, s)"
| "copy_files ((name, None) # fs) idx s = Inr (False, idx, s)"
| "copy_files ((name, Some content) # fs) idx s =
     bnd (copy_file name content s) (\<lambda>(i, s1). copy_files fs (Some i) s1)"

text \<open>
  The whole program; \<open>off0\<close> is the uninitialised \<open>bitoffset\<close>. Without arguments the index of the
  last entry, which the final read uses, is uninitialised.
\<close>

definition copy2myfs :: "nat \<Rightarrow> (byte list \<times> byte list option) list \<Rightarrow> disk \<Rightarrow> disk res" where
  "copy2myfs off0 files d =
     (let s = \<lparr>bin = d, bitmap = (\<lambda>i. d (512 + i)), direct = dir_at (512 + BITMAP_SIZE) d,
                inode = inode_clear, bitoffset = off0, entry_index = 0, inode_num = 0\<rparr>
      in bnd (copy_files files None s) (\<lambda>(finished, idx, s1).
           if \<not> finished then Inr (bin s1)
           else if idx = None then Inl Uninit
           else Inr (fput (512 + BITMAP_SIZE) (dir_bytes (direct s1)) (fput 512 (List.map (bitmap s1) [0..<BITMAP_SIZE]) (bin s1)))))"

section \<open>\<open>read_myfs\<close>\<close>

text \<open>The loop over the blocks of a file; the result is what it appends to the output.\<close>

function read_blocks :: "disk \<Rightarrow> dirent \<Rightarrow> nat \<Rightarrow> nat \<Rightarrow> nat \<Rightarrow> iNode \<Rightarrow> byte list" where
  "read_blocks d e sz j num ino =
     (if sz < unat (file_size e)
      then let again = (j = NR_INODE);
               ino' = (if again then inode_at (512 + unat (inode_offset e) * 512 + num * 512) d else ino);
               num' = (if again then num + 1 else num);
               j' = (if again then 0 else j)
           in if ino' ! j' \<noteq> -1
              then fget (512 + unat (ino' ! j') * 512) 512 d @ read_blocks d e (sz + 512) (j' + 1) num' ino'
              else []
      else [])"
  by pat_completeness auto
termination
  by (relation "measure (\<lambda>(d, e, sz, j, num, ino). unat (file_size e) - sz)") auto

declare read_blocks.simps [simp del]

text \<open>\<open>strcmp\<close> of a file name; a name without NUL is read beyond its array.\<close>

definition name_is :: "byte list \<Rightarrow> dirent \<Rightarrow> bool res" where
  "name_is name e = (if 0 \<in> set (filename e) then Inr (takeWhile (\<lambda>b. b \<noteq> 0) (filename e) = name) else Inl OutOfBounds)"

fun read_entries :: "disk \<Rightarrow> byte list \<Rightarrow> dirent list \<Rightarrow> byte list res" where
  "read_entries d name [] = Inr []"
| "read_entries d name (e # es) =
     bnd (if inode_offset e \<noteq> -1 then name_is name e else Inr False) (\<lambda>found.
       bnd (read_entries d name es) (\<lambda>rest.
         Inr ((if found then read_blocks d e 0 0 0 (inode_at (512 + unat (inode_offset e) * 512) d) else []) @ rest)))"

definition read_myfs :: "byte list \<Rightarrow> disk \<Rightarrow> byte list res" where
  "read_myfs name d = read_entries d name (dir_at (512 + BITMAP_SIZE) d)"

section \<open>The bitmap as a set of blocks\<close>

text \<open>Block \<open>n\<close> is bit \<open>7 - n mod 8\<close> of byte \<open>n div 8\<close>.\<close>

definition used :: "map \<Rightarrow> nat set" where
  "used bm = {n. n < BITMAP_SIZE * 8 \<and> bit (bm (n div 8)) (7 - n mod 8)}"

definition first_block :: "alloc_mode \<Rightarrow> nat" where
  "first_block mode = (case mode of alloc_inode \<Rightarrow> 256 | alloc_data \<Rightarrow> 288)"

lemma byte_full_iff: "(b :: byte) = 0xff \<longleftrightarrow> (\<forall>k < 8. bit b (7 - k))"
proof
  assume r: "\<forall>k < 8. bit b (7 - k)"
  have "b = -1"
  proof (rule bit_word_eqI)
    fix n
    assume "n < LENGTH(8)"
    then show "bit b n = bit (-1 :: byte) n" using r [rule_format, of "7 - n"] by simp
  qed
  then show "b = 0xff" by simp
next
  assume "b = 0xff"
  then have "b = -1" by simp
  moreover have "7 - k < (8 :: nat)" for k by simp
  ultimately show "\<forall>k < 8. bit b (7 - k)" by simp
qed

lemma bit_pick_find: "bit_pick b = find (\<lambda>k. \<not> bit b (7 - k)) [0..<8]"
proof -
  have "[0..<8] = [0, 1, 2, 3, 4, 5, 6, 7 :: nat]" by (simp add: upt_rec)
  then show ?thesis by (simp add: bit_pick_def)
qed

lemma bit_pick_Some: "bit_pick b = Some k \<Longrightarrow> k < 8 \<and> \<not> bit b (7 - k) \<and> (\<forall>l < k. bit b (7 - l))"
  by (auto simp: bit_pick_find find_Some_iff)

lemma bit_pick_None: "bit_pick b = None \<longleftrightarrow> b = 0xff"
  unfolding byte_full_iff bit_pick_find find_None_iff by auto

lemma byte_scan_cases:
  "case byte_scan bm i of None \<Rightarrow> (\<forall>l. i \<le> l \<and> l < BITMAP_SIZE \<longrightarrow> bm l = 0xff)
   | Some j \<Rightarrow> i \<le> j \<and> j < BITMAP_SIZE \<and> bm j \<noteq> 0xff \<and> (\<forall>l. i \<le> l \<and> l < j \<longrightarrow> bm l = 0xff)"
proof (induction bm i rule: byte_scan.induct)
  case (1 bm i)
  show ?case
  proof (cases "i < BITMAP_SIZE \<and> bm i = 0xff")
    case True
    have "l = i \<or> i + 1 \<le> l" if "i \<le> l" for l using that by auto
    then show ?thesis using 1 True by (subst byte_scan.simps) (force split: option.splits)
  qed (subst byte_scan.simps, auto)
qed

lemma used_byte: "n < BITMAP_SIZE * 8 \<Longrightarrow> bm (n div 8) = 0xff \<Longrightarrow> n \<in> used bm"
  by (simp add: used_def byte_full_iff)

lemma bit_alloc_block:
  assumes "first_block mode \<le> f" and "f < BITMAP_SIZE * 8" and "f \<notin> used bm"
  obtains n bm' where "bit_alloc mode prev bm = (n, bm')" "first_block mode \<le> n" "n \<le> f" "n \<notin> used bm"
    "\<forall>l. first_block mode \<le> l \<and> l < n \<longrightarrow> l \<in> used bm" "used bm' = insert n (used bm)"
proof -
  define base where "base = (case mode of alloc_inode \<Rightarrow> 32 | alloc_data \<Rightarrow> (36 :: nat))"
  have b: "first_block mode = base * 8" by (simp add: base_def first_block_def split: alloc_mode.split)
  have "bm (f div 8) \<noteq> 0xff" "base \<le> f div 8" "f div 8 < BITMAP_SIZE" using assms used_byte b by auto
  then obtain j where j: "byte_scan bm base = Some j" "base \<le> j" "j < BITMAP_SIZE" "bm j \<noteq> 0xff" "\<forall>l. base \<le> l \<and> l < j \<longrightarrow> bm l = 0xff"
    using byte_scan_cases [of base bm] by (auto split: option.splits)
  then obtain k where k: "bit_pick (bm j) = Some k" using bit_pick_None by fastforce
  then have k': "k < 8" "\<not> bit (bm j) (7 - k)" "\<forall>l < k. bit (bm j) (7 - l)" using bit_pick_Some by blast+
  let ?n = "k + j * 8" and ?bm = "bm(j := Bit_Operations.set_bit (7 - k) (bm j))"
  have d: "?n div 8 = j" "?n mod 8 = k" using k'(1) by auto
  have n: "?n \<notin> used bm" "base * 8 \<le> ?n" "?n < BITMAP_SIZE * 8" using k' j d by (auto simp: used_def)
  have before: "l \<in> used bm" if "base * 8 \<le> l" "l < ?n" for l
  proof (cases "l div 8 = j")
    case True
    then have "l mod 8 < k" using that(2) d by (metis div_mult_mod_eq add.commute add_less_cancel_left)
    then show ?thesis using True k'(3) n(3) that(2) by (simp add: used_def)
  next
    case False
    then have "l div 8 < j" "base \<le> l div 8" using that d by (auto simp: div_less_iff_less_mult less_mult_imp_div_less)
    then show ?thesis using j(5) n(3) that(2) by (intro used_byte) auto
  qed
  have "m \<in> used ?bm \<longleftrightarrow> m \<in> insert ?n (used bm)" for m
  proof (cases "m div 8 = j")
    case True
    have "m = ?n \<longleftrightarrow> m mod 8 = k" using True d by (metis div_mult_mod_eq)
    moreover have "7 - m mod 8 = 7 - k \<longleftrightarrow> m mod 8 = k" using k'(1) by (auto simp: eq_diff_iff)
    ultimately show ?thesis using True n(3) by (auto simp: used_def bit_set_bit_iff)
  next
    case False
    then show ?thesis using d by (auto simp: used_def)
  qed
  then have u: "used ?bm = insert ?n (used bm)" by blast
  have "?n \<le> f" using before [of f] assms b by force
  moreover have "bit_alloc mode prev bm = (?n, ?bm)"
    using j(1) k by (simp add: bit_alloc_def Let_def base_def split: alloc_mode.split_asm)
  ultimately show thesis using that [of ?n ?bm] n before u b by auto
qed

section \<open>Blocks of the image\<close>

definition block_at :: "disk \<Rightarrow> nat \<Rightarrow> byte list" where
  "block_at d n = fget (n * 512 + 512) 512 d"

lemma length_fget [simp]: "length (fget pos n d) = n"
  by (simp add: fget_def)

lemma fget_fput_same: "length bs = n \<Longrightarrow> fget pos n (fput pos bs d) = bs"
  by (auto simp: fget_def fput_def intro: nth_equalityI)

lemma fget_fput_other: "p + n \<le> pos \<or> pos + length bs \<le> p \<Longrightarrow> fget p n (fput pos bs d) = fget p n d"
  by (auto simp: fget_def fput_def)

lemma fget_fput_part: "k + n \<le> length bs \<Longrightarrow> fget (pos + k) n (fput pos bs d) = take n (drop k bs)"
  by (auto simp: fget_def fput_def intro!: nth_equalityI)

lemma block_fput:
  assumes "length bs = 512"
  shows "block_at (fput (n * 512 + 512) bs d) m = (if m = n then bs else block_at d m)"
proof (cases "m = n")
  case False
  then have "m * 512 + 512 + 512 \<le> n * 512 + 512 \<or> n * 512 + 512 + length bs \<le> m * 512 + 512"
    using assms by (cases "m < n") auto
  then show ?thesis using False by (simp add: block_at_def fget_fput_other)
qed (simp add: block_at_def fget_fput_same assms)

lemma word_of_bytes: "word_of (word_bytes w) = w"
  by (simp add: word_of_def word_bytes_def word32_of_bytes)

text \<open>The pieces of a concatenation of lists of the same length.\<close>

lemma concat_piece:
  assumes "\<And>x. x \<in> set xs \<Longrightarrow> length (f x) = k" and "i < length xs"
  shows "take k (drop (k * i) (concat (List.map f xs))) = f (xs ! i)"
  using assms
proof (induction xs arbitrary: i)
  case (Cons x xs)
  then show ?case by (cases i) auto
qed simp

lemma concat_length: "(\<And>x. x \<in> set xs \<Longrightarrow> length (f x) = k) \<Longrightarrow> length (concat (List.map f xs)) = k * length xs"
  by (induction xs) auto

lemma fget_take_drop: "k + n \<le> m \<Longrightarrow> fget (pos + k) n d = take n (drop k (fget pos m d))"
  by (auto simp: fget_def add.assoc intro!: nth_equalityI)

lemma inode_at_block:
  assumes "block_at d n = bytes_of ws" and "length ws = NR_INODE"
  shows "inode_at (512 + n * 512) d = ws"
proof (rule nth_equalityI)
  fix i
  assume "i < length (inode_at (512 + n * 512) d)"
  then have i: "i < NR_INODE" by (simp add: inode_at_def)
  have "fget (512 + n * 512 + 4 * i) 4 d = take 4 (drop (4 * i) (bytes_of ws))"
    using i fget_take_drop [of "4 * i" 4 512 "512 + n * 512" d] assms(1) by (simp add: block_at_def add.commute)
  also have "\<dots> = word_bytes (ws ! i)" unfolding bytes_of_def using i assms(2) by (intro concat_piece) auto
  finally show "inode_at (512 + n * 512) d ! i = ws ! i" using i by (simp add: inode_at_def word_of_bytes)
qed (simp add: inode_at_def assms(2))

text \<open>The directory is read back as it was written.\<close>

definition dir_ok :: "dirent list \<Rightarrow> bool" where
  "dir_ok es \<longleftrightarrow> length es = NR_DIR \<and> (\<forall>e \<in> set es. length (filename e) = 24)"

lemma dir_at_ok: "dir_ok (dir_at pos d)"
  by (auto simp: dir_ok_def dir_at_def dirent_at_def)

lemma dir_bytes_length: "dir_ok es \<Longrightarrow> length (dir_bytes es) = 512"
  unfolding dir_bytes_def by (subst concat_length [where k = 32]) (auto simp: dir_ok_def dirent_bytes_def)

lemma dir_roundtrip:
  assumes "dir_ok es"
  shows "dir_at pos (fput pos (dir_bytes es) d) = es"
proof (rule nth_equalityI)
  fix i
  let ?d = "fput pos (dir_bytes es) d"
  assume "i < length (dir_at pos ?d)"
  then have i: "i < NR_DIR" by (simp add: dir_at_def)
  then have e: "es ! i \<in> set es" "length (filename (es ! i)) = 24" using assms by (auto simp: dir_ok_def)
  have "take 32 (drop (32 * i) (dir_bytes es)) = dirent_bytes (es ! i)"
    unfolding dir_bytes_def using i assms by (intro concat_piece) (auto simp: dir_ok_def dirent_bytes_def)
  then have all: "fget (pos + 32 * i) 32 ?d = dirent_bytes (es ! i)"
    using fget_fput_part [of "32 * i" 32 "dir_bytes es" pos d] i dir_bytes_length [OF assms] by simp
  have "fget (pos + 32 * i) 24 ?d = filename (es ! i)" "fget (pos + 32 * i + 24) 4 ?d = word_bytes (file_size (es ! i))"
    "fget (pos + 32 * i + 28) 4 ?d = word_bytes (inode_offset (es ! i))"
    using fget_take_drop [of 0 24 32 "pos + 32 * i" ?d] fget_take_drop [of 24 4 32 "pos + 32 * i" ?d]
      fget_take_drop [of 28 4 32 "pos + 32 * i" ?d] e(2)
    unfolding all dirent_bytes_def by simp_all
  then show "dir_at pos ?d ! i = es ! i" using i by (simp add: dir_at_def dirent_at_def word_of_bytes)
qed (use assms in \<open>simp add: dir_at_def dir_ok_def\<close>)

section \<open>The blocks of a file\<close>

text \<open>The pieces in which \<open>copy2myfs\<close> reads a file.\<close>

function chunks :: "byte list \<Rightarrow> byte list list" where
  "chunks rest = (take 512 rest @ replicate (512 - length rest) 0) # (if length rest < 512 then [] else chunks (drop 512 rest))"
  by pat_completeness auto
termination
  by (relation "measure length") auto

declare chunks.simps [simp del]

lemma chunks_length: "length (chunks rest) = length rest div 512 + 1"
proof (induction rest rule: chunks.induct)
  case (1 rest)
  show ?case
  proof (cases "length rest < 512")
    case False
    then have "length rest div 512 = (length rest - 512) div 512 + 1" by (simp add: le_div_geq)
    then show ?thesis using 1 False by (subst chunks.simps) simp
  qed (subst chunks.simps, simp)
qed

lemma chunks_block: "c \<in> set (chunks rest) \<Longrightarrow> length c = 512"
proof (induction rest rule: chunks.induct)
  case (1 rest)
  then show ?case by (subst (asm) chunks.simps) (auto split: if_splits)
qed

lemma chunks_concat: "concat (chunks rest) = rest @ replicate (512 * (length rest div 512 + 1) - length rest) 0"
proof (induction rest rule: chunks.induct)
  case (1 rest)
  show ?case
  proof (cases "length rest < 512")
    case False
    then have "length rest div 512 = (length rest - 512) div 512 + 1" by (simp add: le_div_geq)
    then have "512 * ((length rest - 512) div 512 + 1) - (length rest - 512) = 512 * (length rest div 512 + 1) - length rest"
      using False by simp
    then show ?thesis using 1 False by (subst chunks.simps) (simp flip: append_assoc)
  qed (subst chunks.simps, simp)
qed

lemma concat_take: "(\<And>c. c \<in> set cs \<Longrightarrow> length c = n) \<Longrightarrow> concat (take k cs) = take (n * k) (concat cs)"
proof (induction cs arbitrary: k)
  case (Cons c cs)
  then show ?case by (cases k) auto
qed simp

lemma copy_blocks_fold: "copy_blocks index rest s = fold (copy_block index) (chunks rest) s"
proof (induction index rest s rule: copy_blocks.induct)
  case (1 index rest s)
  then show ?case by (subst copy_blocks.simps, subst chunks.simps) (auto simp: Let_def)
qed

abbreviation free_data :: "map \<Rightarrow> nat set" where
  "free_data bm \<equiv> {n. 288 \<le> n \<and> n < BITMAP_SIZE * 8 \<and> n \<notin> used bm}"

lemma free_data_finite [simp]: "finite (free_data bm)"
  by (rule finite_subset [of _ "{..<BITMAP_SIZE * 8}"]) auto

text \<open>One block of a file whose inode has room.\<close>

lemma copy_block_ok:
  assumes "length c = 512" and "entry_index s < NR_INODE" and "free_data (bitmap s) \<noteq> {}"
  obtains n bm where "copy_block index c s = s\<lparr>bitmap := bm, inode := (inode s)[entry_index s := of_nat n],
      bin := fput (n * 512 + 512) c (bin s), entry_index := entry_index s + 1\<rparr>"
    "n \<in> free_data (bitmap s)" "used bm = insert n (used (bitmap s))"
proof -
  obtain f where f: "first_block alloc_data \<le> f" "f < BITMAP_SIZE * 8" "f \<notin> used (bitmap s)"
    using assms(3) by (auto simp: first_block_def)
  obtain n bm where n: "bit_alloc alloc_data 0 (bitmap s) = (n, bm)" "288 \<le> n" "n \<le> f" "n \<notin> used (bitmap s)"
    "used bm = insert n (used (bitmap s))"
    by (rule bit_alloc_block [OF f, of 0]) (auto simp: first_block_def)
  then show thesis using that [of n bm] f(2) assms(2) by (cases s) (simp add: copy_block_def)
qed

lemma copy_chunks:
  assumes "\<forall>c \<in> set cs. length c = 512" and "entry_index s + length cs \<le> NR_INODE" and "length (inode s) = NR_INODE + 1"
    and "length cs \<le> card (free_data (bitmap s))"
  shows "\<exists>ns. length ns = length cs \<and> distinct ns \<and> set ns \<subseteq> free_data (bitmap s) \<and>
    used (bitmap (fold (copy_block index) cs s)) = used (bitmap s) \<union> set ns \<and>
    List.map (block_at (bin (fold (copy_block index) cs s))) ns = cs \<and>
    (\<forall>n. n \<notin> set ns \<longrightarrow> block_at (bin (fold (copy_block index) cs s)) n = block_at (bin s) n) \<and>
    inode (fold (copy_block index) cs s) = take (entry_index s) (inode s) @ List.map of_nat ns @ drop (entry_index s + length ns) (inode s) \<and>
    direct (fold (copy_block index) cs s) = direct s \<and> inode_num (fold (copy_block index) cs s) = inode_num s"
  using assms
proof (induction cs arbitrary: s)
  case Nil
  then show ?case by simp
next
  case (Cons c cs)
  have "0 < card (free_data (bitmap s))" using Cons.prems(4) by simp
  then have "free_data (bitmap s) \<noteq> {}" by (rule card_gt_0_iff [THEN iffD1, THEN conjunct1])
  then obtain n bm where st: "copy_block index c s = s\<lparr>bitmap := bm, inode := (inode s)[entry_index s := of_nat n],
      bin := fput (n * 512 + 512) c (bin s), entry_index := entry_index s + 1\<rparr>"
    and n: "n \<in> free_data (bitmap s)" "used bm = insert n (used (bitmap s))"
    using Cons.prems(1,2) by (elim copy_block_ok [of c s, rotated 2]) auto
  let ?s = "s\<lparr>bitmap := bm, inode := (inode s)[entry_index s := of_nat n],
      bin := fput (n * 512 + 512) c (bin s), entry_index := entry_index s + 1\<rparr>"
  have free: "free_data bm = free_data (bitmap s) - {n}" using n(2) by auto
  then have "length cs \<le> card (free_data bm)" using Cons.prems(4) n(1) by simp
  then obtain ns where ns: "length ns = length cs" "distinct ns" "set ns \<subseteq> free_data bm"
    "used (bitmap (fold (copy_block index) cs ?s)) = used bm \<union> set ns"
    "List.map (block_at (bin (fold (copy_block index) cs ?s))) ns = cs"
    "\<forall>m. m \<notin> set ns \<longrightarrow> block_at (bin (fold (copy_block index) cs ?s)) m = block_at (fput (n * 512 + 512) c (bin s)) m"
    "inode (fold (copy_block index) cs ?s) = take (entry_index s + 1) ((inode s)[entry_index s := of_nat n]) @ List.map of_nat ns @
       drop (entry_index s + 1 + length ns) ((inode s)[entry_index s := of_nat n])"
    "direct (fold (copy_block index) cs ?s) = direct s" "inode_num (fold (copy_block index) cs ?s) = inode_num s"
    using Cons.IH [of ?s] Cons.prems by auto
  have nn: "n \<notin> set ns" using ns(3) free by auto
  have b: "block_at (fput (n * 512 + 512) c (bin s)) m = (if m = n then c else block_at (bin s) m)" for m
    using Cons.prems(1) by (intro block_fput) simp
  have e: "entry_index s < length (inode s)" using Cons.prems(2,3) by simp
  show ?case
    unfolding fold.simps comp_def st
  proof (intro exI [of _ "n # ns"] conjI)
    show "inode (fold (copy_block index) cs ?s) = take (entry_index s) (inode s) @ List.map of_nat (n # ns) @
        drop (entry_index s + length (n # ns)) (inode s)"
      unfolding ns(7) using e by (simp add: take_Suc_conv_app_nth)
    show "\<forall>m. m \<notin> set (n # ns) \<longrightarrow> block_at (bin (fold (copy_block index) cs ?s)) m = block_at (bin s) m"
      using ns(6) b by auto
    show "List.map (block_at (bin (fold (copy_block index) cs ?s))) (n # ns) = c # cs" using ns(5,6) nn b by simp
  qed (use ns n nn free in auto)
qed

section \<open>Copying and reading a file\<close>

text \<open>A file is stored: its inode lists the blocks that hold its chunks.\<close>

definition stored :: "disk \<Rightarrow> dirent \<Rightarrow> byte list \<Rightarrow> nat list \<Rightarrow> bool" where
  "stored d e content ns \<longleftrightarrow> file_size e = of_nat (length content) \<and> length ns \<le> NR_INODE \<and> (\<forall>n \<in> set ns. n < BITMAP_SIZE * 8) \<and>
     take (length ns) (inode_at (512 + unat (inode_offset e) * 512) d) = List.map of_nat ns \<and>
     List.map (block_at d) ns = chunks content"

lemma copy_file_ok:
  assumes "free_entry (direct s) 0 = Some index" and "index < length (direct s)" and "length name \<le> 24" and "length content < 65536"
    and "256 \<le> f" "f < 288" "f \<notin> used (bitmap s)" and "length content div 512 + 1 \<le> card (free_data (bitmap s))"
  obtains off ns s' where "copy_file name content s = Inr (index, s')" "256 \<le> off" "off < 288" "off \<notin> used (bitmap s)"
    "set ns \<subseteq> free_data (bitmap s)" "used (bitmap s') = insert off (used (bitmap s) \<union> set ns)"
    "\<forall>n. n \<notin> insert off (set ns) \<longrightarrow> block_at (bin s') n = block_at (bin s) n"
    "direct s' = (direct s)[index := name_entry name (length content) off (direct s ! index)]"
    "stored (bin s') (direct s' ! index) content ns"
proof -
  have f: "first_block alloc_inode \<le> f" "f < BITMAP_SIZE * 8" "f \<notin> used (bitmap s)" using assms(5-7) by (auto simp: first_block_def)
  obtain off bm where off: "bit_alloc alloc_inode (bitoffset s) (bitmap s) = (off, bm)" "256 \<le> off" "off \<le> f" "off \<notin> used (bitmap s)"
    "used bm = insert off (used (bitmap s))"
    by (rule bit_alloc_block [OF f, of "bitoffset s"]) (auto simp: first_block_def)
  let ?e = "name_entry name (length content) off (direct s ! index)"
  let ?s2 = "s\<lparr>bitmap := bm, bitoffset := off, direct := (direct s)[index := ?e], inode := inode_clear, entry_index := 0, inode_num := 0\<rparr>"
  let ?s3 = "fold (copy_block index) (chunks content) ?s2"
  have run: "copy_file name content s = Inr (index, write_inode index ?s3)"
    using off(1) assms(1,3) by (simp add: copy_file_def Let_def copy_blocks_fold)
  have fd: "free_data bm = free_data (bitmap s)" using off assms(6) by auto
  have k: "length (chunks content) \<le> NR_INODE" using assms(4) unfolding chunks_length by linarith
  obtain ns where ns: "length ns = length (chunks content)" "set ns \<subseteq> free_data bm"
    "used (bitmap ?s3) = used bm \<union> set ns" "List.map (block_at (bin ?s3)) ns = chunks content"
    "\<forall>n. n \<notin> set ns \<longrightarrow> block_at (bin ?s3) n = block_at (bin s) n"
    "inode ?s3 = List.map of_nat ns @ drop (length ns) inode_clear" "direct ?s3 = (direct s)[index := ?e]" "inode_num ?s3 = 0"
    using copy_chunks [of "chunks content" ?s2 index] chunks_block k assms(8) fd
    by (auto simp: chunks_length inode_clear_def)
  let ?s4 = "write_inode index ?s3" and ?ws = "take NR_INODE (inode ?s3)"
  have uo: "unat (of_nat off :: u32) = off" using off(3) assms(6) by (intro unat_of_nat_u32) simp
  then have bin: "bin ?s4 = fput (off * 512 + 512) (bytes_of ?ws) (bin ?s3)"
    using ns(7,8) assms(2) by (simp add: write_inode_def name_entry_def)
  have lw: "length ?ws = NR_INODE" unfolding ns(6) using ns(1) k by (simp add: inode_clear_def)
  then have bl: "block_at (bin ?s4) n = (if n = off then bytes_of ?ws else block_at (bin ?s3) n)" for n
    unfolding bin by (intro block_fput) simp
  have no: "off \<notin> set ns" using ns(2) off(3) assms(6) by auto
  have ino: "inode_at (512 + off * 512) (bin ?s4) = ?ws" using bl [of off] lw by (intro inode_at_block) auto
  have "List.map (block_at (bin ?s4)) ns = List.map (block_at (bin ?s3)) ns" using no by (intro map_cong) (auto simp: bl)
  then have blocks: "List.map (block_at (bin ?s4)) ns = chunks content" using ns(4) by (rule trans)
  have e: "file_size ?e = of_nat (length content)" "unat (inode_offset ?e) = off" using uo by (simp_all add: name_entry_def)
  have "take (length ns) ?ws = List.map of_nat ns" unfolding ns(6) using ns(1) k by simp
  moreover have "\<forall>n \<in> set ns. n < BITMAP_SIZE * 8" using ns(2) by auto
  ultimately have st: "stored (bin ?s4) ?e content ns"
    unfolding stored_def e ino using blocks ns(1) k by simp
  have d4: "direct ?s4 = (direct s)[index := ?e]" "bitmap ?s4 = bitmap ?s3" using ns(7) by (simp_all add: write_inode_def)
  show thesis
    using that [OF run off(2) _ off(4)] off(3,5) assms(2,6) ns(2,3,5) fd st d4 bl by auto
qed

text \<open>Reading a stored file gives its chunks, as many as its size asks for.\<close>

lemma read_blocks_at:
  assumes "stored d e content ns" and "unat (file_size e) = length content" and "k = (length content + 511) div 512"
  shows "j \<le> k \<Longrightarrow> read_blocks d e (512 * j) j 0 (inode_at (512 + unat (inode_offset e) * 512) d) = concat (drop j (take k (chunks content)))"
proof (induction "k - j" arbitrary: j)
  case 0
  then have "\<not> 512 * j < length content" using assms(3) by auto
  then show ?case using assms(2) 0 by (subst read_blocks.simps) simp
next
  case (Suc l)
  let ?ino = "inode_at (512 + unat (inode_offset e) * 512) d"
  have st: "length ns \<le> NR_INODE" "\<forall>n \<in> set ns. n < BITMAP_SIZE * 8" "take (length ns) ?ino = List.map of_nat ns"
    "List.map (block_at d) ns = chunks content"
    using assms(1) by (auto simp: stored_def)
  then have len: "length ns = length (chunks content)" by (metis length_map)
  have j: "j < k" "512 * j < length content" using Suc.hyps(2) assms(3) by auto
  have kl: "k \<le> length (chunks content)" unfolding chunks_length assms(3) by linarith
  then have jn: "j < length ns" using j(1) len by simp
  have "?ino ! j = of_nat (ns ! j)" using st(3) jn by (metis nth_take nth_map)
  moreover have nj: "ns ! j < BITMAP_SIZE * 8" using st(2) jn by simp
  moreover have un: "unat (of_nat (ns ! j) :: u32) = ns ! j" using nj by (intro unat_of_nat_u32) simp
  moreover have "(of_nat (ns ! j) :: u32) \<noteq> -1"
  proof
    assume "(of_nat (ns ! j) :: u32) = -1"
    then have "unat (of_nat (ns ! j) :: u32) = unat (-1 :: u32)" by (rule arg_cong)
    then show False using un nj by (simp add: unsigned_minus_1_eq_mask mask_eq_exp_minus_1)
  qed
  ultimately have "unat (?ino ! j) = ns ! j" "?ino ! j \<noteq> -1" by simp_all
  moreover have "fget (512 + ns ! j * 512) 512 d = chunks content ! j" using st(4) jn by (metis block_at_def add.commute nth_map)
  moreover have "drop j (take k (chunks content)) = chunks content ! j # drop (Suc j) (take k (chunks content))"
    using j(1) kl by (subst Cons_nth_drop_Suc [symmetric]) auto
  moreover have "read_blocks d e (512 * j + 512) (Suc j) 0 ?ino = concat (drop (Suc j) (take k (chunks content)))"
    using Suc.hyps(1) [of "Suc j"] Suc.hyps(2) j(1) by (simp add: add.commute)
  ultimately show ?case using assms(2) j jn st(1) by (subst read_blocks.simps) simp
qed

lemma read_blocks_stored:
  assumes "stored d e content ns" and "length content < 65536"
  shows "read_blocks d e 0 0 0 (inode_at (512 + unat (inode_offset e) * 512) d) =
    content @ replicate (512 * ((length content + 511) div 512) - length content) 0"
proof -
  let ?k = "(length content + 511) div 512"
  have "unat (file_size e) = length content" using assms by (simp add: stored_def)
  from read_blocks_at [OF assms(1) this refl, of 0]
  have r: "read_blocks d e 0 0 0 (inode_at (512 + unat (inode_offset e) * 512) d) = take (512 * ?k) (concat (chunks content))"
    using concat_take [of "chunks content" 512 ?k] chunks_block by simp
  have "(length content + 511) div 512 \<le> (length content + 512) div 512" by (rule div_le_mono) simp
  moreover have "(length content + 512) div 512 = length content div 512 + 1" by simp
  ultimately have "512 * ?k \<le> 512 * (length content div 512 + 1)" by (metis mult_le_mono2)
  moreover have "length content \<le> 512 * ?k" by linarith
  ultimately show ?thesis unfolding r chunks_concat by (simp add: min_def)
qed

lemma read_entries_none:
  "\<forall>e \<in> set es. inode_offset e = -1 \<or> name_is name e = Inr False \<Longrightarrow> read_entries d name es = Inr []"
  by (induction es) auto

lemma read_entries_one:
  assumes "i < length es" and "inode_offset (es ! i) \<noteq> -1" and "name_is name (es ! i) = Inr True"
    and "\<forall>j < length es. j \<noteq> i \<longrightarrow> inode_offset (es ! j) = -1 \<or> name_is name (es ! j) = Inr False"
  shows "read_entries d name es = Inr (read_blocks d (es ! i) 0 0 0 (inode_at (512 + unat (inode_offset (es ! i)) * 512) d))"
  using assms
proof (induction es arbitrary: i)
  case (Cons e es)
  show ?case
  proof (cases i)
    case 0
    have "\<forall>e \<in> set es. inode_offset e = -1 \<or> name_is name e = Inr False"
    proof
      fix e'
      assume "e' \<in> set es"
      then obtain l where "l < length es" "e' = es ! l" by (auto simp: in_set_conv_nth)
      then show "inode_offset e' = -1 \<or> name_is name e' = Inr False" using Cons.prems(4) 0 by (elim allE [of _ "Suc l"]) simp
    qed
    from read_entries_none [OF this, of d] show ?thesis using 0 Cons.prems by simp
  next
    case (Suc l)
    have "\<forall>j < length es. j \<noteq> l \<longrightarrow> inode_offset (es ! j) = -1 \<or> name_is name (es ! j) = Inr False"
    proof (intro allI impI)
      fix j
      assume "j < length es" "j \<noteq> l"
      then show "inode_offset (es ! j) = -1 \<or> name_is name (es ! j) = Inr False" using Cons.prems(4) Suc by (elim allE [of _ "Suc j"]) simp
    qed
    moreover have "inode_offset e = -1 \<or> name_is name e = Inr False" using Cons.prems(4) Suc by (elim allE [of _ 0]) simp
    ultimately show ?thesis using Cons.IH [of l] Cons.prems Suc by auto
  qed
qed simp

lemma free_entry_Some: "free_entry es i = Some k \<Longrightarrow> i \<le> k \<and> k < i + length es \<and> inode_offset (es ! (k - i)) = -1"
proof (induction es arbitrary: i)
  case (Cons e es)
  show ?case
  proof (cases "inode_offset e = -1")
    case False
    then have "i + 1 \<le> k \<and> k < i + 1 + length es \<and> inode_offset (es ! (k - (i + 1))) = -1"
      using Cons.IH [of "i + 1"] Cons.prems by simp
    then show ?thesis by (auto simp: nth_Cons' )
  qed (use Cons.prems in auto)
qed simp

lemma name_entry_name:
  assumes "length name < 24" and "length (filename e) = 24" and "filename e ! length name = 0" and "0 \<notin> set name"
  shows "name_is name (name_entry name sz off e) = Inr True"
proof -
  have "drop (length name) (filename e) = 0 # drop (Suc (length name)) (filename e)"
    using assms(1-3) by (metis Cons_nth_drop_Suc)
  moreover have "takeWhile (\<lambda>b. b \<noteq> 0) (name @ 0 # zs) = name" for zs :: "byte list"
    using assms(4) by (induction name) auto
  ultimately show ?thesis by (simp add: name_is_def name_entry_def)
qed

lemma block_fput_low:
  "257 \<le> n \<Longrightarrow> pos + length bs \<le> 132096 \<Longrightarrow> block_at (fput pos bs d) n = block_at d n"
  unfolding block_at_def by (rule fget_fput_other) simp

lemma inode_at_cong:
  assumes "block_at d n = block_at d' n"
  shows "inode_at (512 + n * 512) d = inode_at (512 + n * 512) d'"
proof -
  have "fget (512 + n * 512 + 4 * i) 4 d = fget (512 + n * 512 + 4 * i) 4 d'" if "i < NR_INODE" for i
    using that fget_take_drop [of "4 * i" 4 512 "512 + n * 512"] assms by (simp add: block_at_def add.commute)
  then show ?thesis by (simp add: inode_at_def)
qed

section \<open>The formatted image\<close>

lemma bits_80: "bit (0x80 :: byte) k \<longleftrightarrow> k = 7"
proof -
  have e: "(0x80 :: byte) = push_bit 7 1" by (simp add: push_bit_eq_mult)
  show ?thesis unfolding e bit_push_bit_iff bit_1_iff by auto
qed

lemma used_formatted:
  assumes "\<And>i. i < BITMAP_SIZE \<Longrightarrow> bm i = (replicate BITMAP_USED_BYTE 0xff @ 0x80 # replicate (BITMAP_SIZE - BITMAP_USED_BYTE - 1) 0) ! i"
  shows "used bm = {..256}"
proof -
  have "n \<in> used bm \<longleftrightarrow> n \<le> 256" for n
  proof (cases "n < BITMAP_SIZE * 8")
    case True
    then have b: "bm (n div 8) = (replicate 32 0xff @ 0x80 # replicate 131039 0) ! (n div 8)" using assms [of "n div 8"] by simp
    consider "n div 8 < 32" | "n div 8 = 32" | "32 < n div 8" by linarith
    then show ?thesis
    proof cases
      case 1
      then have "bm (n div 8) = 0xff" using b by (simp add: nth_append)
      then show ?thesis using used_byte [OF True] 1 by auto
    next
      case 2
      then have byte: "bm (n div 8) = 0x80" using b by (simp add: nth_append)
      have "n \<in> used bm \<longleftrightarrow> bit (bm (n div 8)) (7 - n mod 8)" using True by (simp add: used_def)
      also have "\<dots> \<longleftrightarrow> 7 - n mod 8 = 7" unfolding byte bits_80 ..
      finally have "n \<in> used bm \<longleftrightarrow> n mod 8 = 0" by auto
      moreover have "n = 256 + n mod 8" using 2 div_mult_mod_eq [of n 8] by simp
      ultimately show ?thesis by auto
    next
      case 3
      then have "bm (n div 8) = 0" using b True by (simp add: nth_append)
      then show ?thesis using 3 by (auto simp: used_def)
    qed
  qed (auto simp: used_def)
  then show ?thesis by blast
qed

lemma formatted:
  assumes "length boot = 512"
  shows "used (\<lambda>i. formatter boot junk (512 + i)) = {..256}"
    and "dir_at 131584 (formatter boot junk) = replicate NR_DIR \<lparr>filename = replicate 24 0, file_size = 0, inode_offset = -1\<rparr>"
proof -
  let ?bits = "replicate BITMAP_USED_BYTE 0xff @ 0x80 # replicate (BITMAP_SIZE - BITMAP_USED_BYTE - 1) 0 :: byte list"
  let ?dir = "replicate NR_DIR \<lparr>filename = replicate 24 0, file_size = 0, inode_offset = -1\<rparr>"
  obtain d where d: "formatter boot junk = fput 0 boot (fput 512 ?bits (fput 131584 (dir_bytes ?dir) d))"
    by (simp add: formatter_def Let_def)
  show "used (\<lambda>i. formatter boot junk (512 + i)) = {..256}"
    by (rule used_formatted) (simp add: d fput_def assms)
  have ok: "dir_ok ?dir" by (simp add: dir_ok_def)
  have "dir_at 131584 (fput 0 boot (fput 512 ?bits d')) = dir_at 131584 d'" for d'
  proof -
    have "fget (131584 + p) n (fput 0 boot (fput 512 ?bits d')) = fget (131584 + p) n d'" for p n
      using assms by (subst fget_fput_other, simp, subst fget_fput_other) simp_all
    from this [of "32 * _"] this [of "32 * _ + 24"] this [of "32 * _ + 28"] show ?thesis
      by (simp add: dir_at_def dirent_at_def add.assoc)
  qed
  then show "dir_at 131584 (formatter boot junk) = ?dir" unfolding d using dir_roundtrip [OF ok] by simp
qed

text \<open>The blocks above the directory are free.\<close>

lemma formatted_free: "used bm = {..256} \<Longrightarrow> card (free_data bm) = BITMAP_SIZE * 8 - 288"
proof -
  assume "used bm = {..256}"
  then have "free_data bm = {288..<BITMAP_SIZE * 8}" by auto
  then show ?thesis by simp
qed

section \<open>Properties\<close>

text \<open>
  C30: The allocator refines taking the lowest free block from a set: when the area has a free block,
  \<open>bit_alloc\<close> returns the lowest one at or above the start of the area and marks exactly it.
\<close>

theorem bit_alloc_refines:
  assumes "first_block mode \<le> f" and "f < BITMAP_SIZE * 8" and "f \<notin> used bm"
  shows "used (snd (bit_alloc mode prev bm)) = insert (LEAST n. first_block mode \<le> n \<and> n \<notin> used bm) (used bm) \<and>
    fst (bit_alloc mode prev bm) = (LEAST n. first_block mode \<le> n \<and> n \<notin> used bm)"
proof -
  obtain n bm' where n: "bit_alloc mode prev bm = (n, bm')" "first_block mode \<le> n" "n \<le> f" "n \<notin> used bm"
    "\<forall>l. first_block mode \<le> l \<and> l < n \<longrightarrow> l \<in> used bm" "used bm' = insert n (used bm)"
    by (rule bit_alloc_block [OF assms])
  then have "(LEAST n. first_block mode \<le> n \<and> n \<notin> used bm) = n" by (intro Least_equality) (auto simp: not_less [symmetric])
  then show ?thesis using n by simp
qed

theorem bit_alloc_refines_witness:
  "used (snd (bit_alloc alloc_data 0 (\<lambda>i. if i = 36 then 0xC0 else 0))) =
     insert (LEAST n. first_block alloc_data \<le> n \<and> n \<notin> used (\<lambda>i. if i = 36 then 0xC0 else 0)) (used (\<lambda>i. if i = 36 then 0xC0 else 0)) \<and>
   fst (bit_alloc alloc_data 0 (\<lambda>i. if i = 36 then 0xC0 else 0)) =
     (LEAST n. first_block alloc_data \<le> n \<and> n \<notin> used (\<lambda>i. if i = 36 then 0xC0 else 0))"
  using bit_alloc_refines [of alloc_data 400 "\<lambda>i. if i = 36 then 0xC0 else 0" 0] by (simp add: first_block_def used_def)

lemma name_entry_offset:
  assumes "off < 288"
  shows "unat (inode_offset (name_entry name n off e)) = off" and "inode_offset (name_entry name n off e) \<noteq> -1"
proof -
  have u: "unat (of_nat off :: u32) = off" using assms by (intro unat_of_nat_u32) simp
  moreover have "(of_nat off :: u32) \<noteq> -1"
  proof
    assume "(of_nat off :: u32) = -1"
    then have "off = unat (-1 :: u32)" using u by simp
    then show False using assms by (simp add: unsigned_minus_1_eq_mask mask_eq_exp_minus_1)
  qed
  ultimately show "unat (inode_offset (name_entry name n off e)) = off" and "inode_offset (name_entry name n off e) \<noteq> -1"
    by (simp_all add: name_entry_def)
qed

text \<open>Saving the bitmap and the directory changes no block behind them.\<close>

lemma saved_stored:
  assumes "stored d e content ns" and "257 \<le> unat (inode_offset e)" and "\<forall>n \<in> set ns. 257 \<le> n"
    and "\<And>n. 257 \<le> n \<Longrightarrow> block_at d' n = block_at d n"
  shows "stored d' e content ns"
proof -
  have "inode_at (512 + unat (inode_offset e) * 512) d' = inode_at (512 + unat (inode_offset e) * 512) d"
    by (rule inode_at_cong [OF assms(4) [OF assms(2)]])
  moreover have "List.map (block_at d') ns = List.map (block_at d) ns" using assms(3,4) by (intro map_cong) auto
  ultimately show ?thesis using assms(1) by (simp add: stored_def del: map_eq_conv)
qed

lemma read_stored:
  assumes "dir_at 131584 d = es" and "index < length es" and "inode_offset (es ! index) \<noteq> -1" and "name_is name (es ! index) = Inr True"
    and "\<forall>j < length es. j \<noteq> index \<longrightarrow> inode_offset (es ! j) = -1 \<or> name_is name (es ! j) = Inr False"
    and "stored d (es ! index) content ns" and "length content < 65536"
  shows "read_myfs name d = Inr (content @ replicate (512 * ((length content + 511) div 512) - length content) 0)"
  using read_entries_one [OF assms(2-5), of d] read_blocks_stored [OF assms(6,7)] assms(1) by (simp add: read_myfs_def)



end
