(* ===== verification/Address_Space.thy ===== *)
theory Address_Space
  imports Process
begin

text \<open>
  Copying and releasing address spaces: \<open>copy\<close>, \<open>thread_copy\<close> and \<open>release\<close> of
  \<open>kernel/src/memory/pmap.c\<close>, on which \<open>fork\<close>, thread creation and \<open>exit\<close> rest. The loops
  over directory and table entries carry invariants over the slots done so far; the results are
  stated for the translations the processor makes.
\<close>

section \<open>Operations\<close>

text \<open>One entry of the inner loop of \<open>copy\<close>.\<close>

definition copy_leaf :: "addr \<Rightarrow> addr \<Rightarrow> nat \<Rightarrow> 'a kst_scheme \<Rightarrow> 'a kst_scheme res" where
  "copy_leaf child_t father_t j s =
     (if load32 (mem s) (father_t + of_nat j * 4) AND PTE_P \<noteq> 0
      then bnd (page_alloc_ref s) (\<lambda>(pp, s1).
        let m1 = store32 (mem s1) (child_t + of_nat j * 4) (page2pa pp OR 0x7)
        in Inr (s1\<lparr>mem := memcpy m1 (PTE_ADDR (load32 m1 (child_t + of_nat j * 4)) + KOFFSET)
             (PTE_ADDR (load32 m1 (father_t + of_nat j * 4)) + KOFFSET) PGSIZE\<rparr>))
      else Inr s)"

definition copy_table :: "addr \<Rightarrow> addr \<Rightarrow> nat \<Rightarrow> 'a kst_scheme \<Rightarrow> 'a kst_scheme res" where
  "copy_table child father i s =
     (if load32 (mem s) (father + of_nat i * 4) AND PTE_P \<noteq> 0
      then bnd (page_alloc_ref s) (\<lambda>(pte, s1).
        let s2 = s1\<lparr>mem := store32 (mem s1) (child + of_nat i * 4) (page2pa pte OR 0x7)\<rparr>;
            child_t = PTE_ADDR (load32 (mem s2) (child + of_nat i * 4)) + KOFFSET;
            father_t = PTE_ADDR (load32 (mem s2) (father + of_nat i * 4)) + KOFFSET
        in for_res (copy_leaf child_t father_t) [0..<NR_PTE] s2)
      else Inr s)"

definition copy :: "nat \<Rightarrow> 'a kst_scheme \<Rightarrow> 'a kst_scheme res" where
  "copy i s =
     bnd (page_alloc_ref s) (\<lambda>(pgdir, s1).
     bnd (pcb_cr3write i (cr3_with_base (drop_bit 12 (page2pa pgdir))) s1) (\<lambda>s2.
       let child = page2kva pgdir; father = cr3 (pcb s2 (current s2)) + KOFFSET;
           s3 = s2\<lparr>mem := memcpy (mem s2) (child + 768 * 4) (father + 768 * 4) (32 * 4)\<rparr>
       in for_res (copy_table child father) [0..<USER_PDES] s3))"

definition thread_leaf :: "addr \<Rightarrow> nat \<Rightarrow> 'a kst_scheme \<Rightarrow> 'a kst_scheme res" where
  "thread_leaf child_t j s =
     bnd (page_alloc_ref s) (\<lambda>(pp, s1).
       Inr (s1\<lparr>mem := store32 (mem s1) (child_t + of_nat j * 4) (page2pa pp OR 0x7)\<rparr>))"

definition thread_copy :: "nat \<Rightarrow> 'a kst_scheme \<Rightarrow> 'a kst_scheme res" where
  "thread_copy i s =
     bnd (page_alloc_ref s) (\<lambda>(pgdir, s1).
     bnd (pcb_cr3write i (cr3_with_base (drop_bit 12 (page2pa pgdir))) s1) (\<lambda>s2.
       let child = page2kva pgdir; father = cr3 (pcb s2 (current s2)) + KOFFSET;
           s3 = s2\<lparr>mem := memcpy (mem s2) child father (4 * 1024)\<rparr>
       in bnd (page_alloc_ref s3) (\<lambda>(pte, s4).
            let s5 = s4\<lparr>mem := store32 (mem s4) (child + 767 * 4) (page2pa pte OR 0x7)\<rparr>;
                child_t = PTE_ADDR (load32 (mem s5) (child + 767 * 4)) + KOFFSET
            in for_res (thread_leaf child_t) [0..<NR_PTE] s5)))"

text \<open>\<open>pa2page\<close> of an entry outside the page array is an out-of-bounds access.\<close>

definition release_page :: "u32 \<Rightarrow> 'a kst_scheme \<Rightarrow> 'a kst_scheme res" where
  "release_page e s =
     (if pa2page e < npages
      then Inr (page_free (pa2page e)
             (s\<lparr>pages := (pages s)(pa2page e := (pages s (pa2page e))\<lparr>pp_ref := 0\<rparr>)\<rparr>))
      else Inl OutOfBounds)"

definition release_leaf :: "addr \<Rightarrow> nat \<Rightarrow> 'a kst_scheme \<Rightarrow> 'a kst_scheme res" where
  "release_leaf pte j s =
     (if load32 (mem s) (pte + of_nat j * 4) AND PTE_P \<noteq> 0
      then release_page (load32 (mem s) (pte + of_nat j * 4)) s else Inr s)"

definition release_table :: "addr \<Rightarrow> nat \<Rightarrow> 'a kst_scheme \<Rightarrow> 'a kst_scheme res" where
  "release_table pgdir i s =
     (if load32 (mem s) (pgdir + of_nat i * 4) AND PTE_P \<noteq> 0
      then bnd (for_res (release_leaf (PTE_ADDR (load32 (mem s) (pgdir + of_nat i * 4)) + KOFFSET))
             [0..<NR_PTE] s)
           (\<lambda>s1. release_page (load32 (mem s1) (pgdir + of_nat i * 4)) s1)
      else Inr s)"

definition release :: "'a kst_scheme \<Rightarrow> 'a kst_scheme res" where
  "release s =
     bnd (for_res (release_table (cr3 (pcb s (current s)) + KOFFSET)) [0..<USER_PDES] s) (\<lambda>s1.
       release_page (push_bit 12 (cr3_base (cr3 (pcb s1 (current s1))))) s1)"

section \<open>Frames and page contents\<close>

definition same_page :: "mem \<Rightarrow> nat \<Rightarrow> mem \<Rightarrow> nat \<Rightarrow> bool" where
  "same_page m f m' g \<longleftrightarrow> (\<forall>k < 4096. m (page2kva f + of_nat k) = m' (page2kva g + of_nat k))"

lemma memcpy_page:
  assumes "f < npages" and "x < npages"
  shows "memcpy m (page2kva x) (page2kva f) PGSIZE =
    (\<lambda>a. if frame a = x then m (page2kva f + (a - page2kva x)) else m a)"
proof -
  have "unat (page2kva g) + unat PGSIZE \<le> 2 ^ 32" if "g < npages" for g
    using unat_page2kva [OF that] npages_less [OF that] by simp
  then have "memcpy m (page2kva x) (page2kva f) PGSIZE = moved m (page2kva x) (page2kva f) (unat PGSIZE)"
    using assms by (intro memcpy_eq) auto
  then show ?thesis by (auto simp: moved_def fun_eq_iff frame_region [OF assms(2)])
qed

lemma same_page_memcpy:
  assumes "f < npages" and "x < npages"
  shows "same_page m f (memcpy m (page2kva x) (page2kva f) PGSIZE) x"
  unfolding same_page_def memcpy_page [OF assms] using frame_addr [OF assms(2)] by simp

lemma same_page_cong:
  assumes "same_page m f m1 g" and "f < npages" and "g < npages"
    and "\<And>a. frame a = f \<Longrightarrow> m' a = m a" and "\<And>a. frame a = g \<Longrightarrow> m1' a = m1 a"
  shows "same_page m' f m1' g"
  using assms frame_addr unfolding same_page_def by auto

lemma load_entry_cong:
  assumes "f < npages" and "k < 1024" and "\<And>a. frame a = f \<Longrightarrow> m' a = m a"
  shows "load32 m' (entry f k) = load32 m (entry f k)"
  by (rule load32_cong) (use assms entry_frame in blast)

lemma tab_entry_cong:
  "f < npages \<Longrightarrow> k < 1024 \<Longrightarrow> (\<And>a. frame a = f \<Longrightarrow> m' a = m a) \<Longrightarrow> tab_entry m' f k = tab_entry m f k"
  unfolding tab_entry_def using load_entry_cong by metis

lemma slot_frame_cong:
  assumes "d < npages" and "\<And>a. frame a = d \<Longrightarrow> m' a = m a"
    and "\<And>i t a. slot_frame m d (Tab i) = Some t \<Longrightarrow> t < npages \<and> (frame a = t \<longrightarrow> m' a = m a)"
  shows "slot_frame m' d = slot_frame m d"
proof
  fix sl
  have dir: "tab_entry m' d i = tab_entry m d i" if "i < 1024" for i
    using tab_entry_cong [OF assms(1) that] assms(2) by blast
  have "tab_entry m' t j = tab_entry m t j" if "tab_entry m d i = Some t" "i < USER_PDES" "j < NR_PTE" for i j t
  proof -
    have "slot_frame m d (Tab i) = Some t" using that by simp
    then show ?thesis using tab_entry_cong [of t j m' m] assms(3) that(3) by blast
  qed
  then show "slot_frame m' d sl = slot_frame m d sl"
    by (cases sl) (use dir in \<open>auto split: option.splits\<close>)
qed

lemma finite_slots: "finite (dom (slot_frame m d))"
proof (rule finite_subset)
  show "dom (slot_frame m d) \<subseteq> insert Dir (Tab ` {..<768} \<union> (\<lambda>(i, j). Leaf i j) ` ({..<768} \<times> {..<1024}))"
  proof
    fix sl
    assume "sl \<in> dom (slot_frame m d)"
    then show "sl \<in> insert Dir (Tab ` {..<768} \<union> (\<lambda>(i, j). Leaf i j) ` ({..<768} \<times> {..<1024}))"
      by (cases sl) (auto split: if_splits)
  qed
qed auto

lemma store_entry_other:
  assumes "f < npages" and "k < 1024" and "frame a \<noteq> f"
  shows "store32 m (entry f k) v a = m a"
  by (rule store32_other) (use assms entry_frame in blast)

lemma filled_other:
  assumes "g < npages" "l < 1024" "x < npages" "frame a \<noteq> g" "frame a \<noteq> x"
  shows "filled m g l x a = m a"
  using assms by (simp add: filled_def store_entry_other memset_page)

lemma page_alloc_ref_Cons:
  assumes "free_list s (x # xs)"
  obtains s1 where "page_alloc_ref s = Inr (x, s1)" and "free_list s1 xs"
    and "mem s1 = memset (mem s) (page2kva x) 0 PGSIZE"
    and "pcb_table s1 = pcb_table (s :: 'a kst_scheme)" and "current s1 = current s"
    and "pcb_base s1 = pcb_base s"
proof -
  obtain s1 where s1: "page_alloc ALLOC_ZERO s = (Some x, s1)" and fl: "free_list s1 xs"
    and m: "mem s1 = memset (mem s) (page2kva x) 0 PGSIZE"
    using page_alloc_Cons [OF assms, of ALLOC_ZERO] by (metis and.idem one_neq_zero prod.collapse)
  have keep: "pcb_table s1 = pcb_table s \<and> current s1 = current s \<and> pcb_base s1 = pcb_base s"
    using s1 by (auto simp: page_alloc_def Let_def split: option.splits)
  have "x \<notin> set xs" using assms by (simp add: free_list_def)
  let ?s = "s1\<lparr>pages := (pages s1)(x := (pages s1 x)\<lparr>pp_ref := pp_ref (pages s1 x) + 1\<rparr>)\<rparr>"
  have "page_alloc_ref s = Inr (x, ?s)" using s1 by (simp add: page_alloc_ref_def)
  moreover have "free_list ?s xs" using fl \<open>x \<notin> set xs\<close> by (simp add: free_list_def)
  ultimately show thesis using that [of ?s] m keep by simp
qed

lemma page_alloc_ref_Nil: "free_list s [] \<Longrightarrow> page_alloc_ref s = Inl NullDeref"
  by (simp add: page_alloc_ref_def page_alloc_Nil)

lemma PTE_ADDR_KOFFSET: "PTE_ADDR e + KOFFSET = page2kva (fr e)"
  by (simp add: PTE_ADDR_fr page2kva_def)

lemma entry_addr: "page2kva f + of_nat k * 4 = entry f k"
  by (simp add: entry_def)

section \<open>Copying an address space\<close>

text \<open>
  \<open>copied s0 d xs c P s\<close>: starting from \<open>s0\<close>, where the father's directory is frame \<open>d\<close> and the
  free pages are \<open>xs\<close>, the child's directory \<open>c\<close> has been given the slots of the set \<open>P\<close>. A
  prefix of the free pages has been used, nothing outside it was written, and every copied
  page has the father's contents.
\<close>

definition copied :: "'a kst_scheme \<Rightarrow> nat \<Rightarrow> nat list \<Rightarrow> nat \<Rightarrow> slot set \<Rightarrow> 'a kst_scheme \<Rightarrow> bool" where
  "copied s0 d xs c P s \<longleftrightarrow>
     (\<exists>used ys. xs = used @ ys \<and> space_ok s c ys \<and> length used = card (dom (slot_frame (mem s) c)) \<and>
        (\<forall>a. frame a \<notin> set used \<longrightarrow> mem s a = mem s0 a) \<and> ran (slot_frame (mem s) c) \<subseteq> set used) \<and>
     dom (slot_frame (mem s) c) = insert Dir (P \<inter> dom (slot_frame (mem s0) d)) \<and>
     (\<forall>i j f g. slot_frame (mem s0) d (Leaf i j) = Some f \<and> slot_frame (mem s) c (Leaf i j) = Some g \<longrightarrow>
        same_page (mem s0) f (mem s) g) \<and>
     (\<forall>k. 768 \<le> k \<and> k < 800 \<longrightarrow> load32 (mem s) (entry c k) = load32 (mem s0) (entry d k))"

lemma copied_cong:
  "P \<inter> dom (slot_frame (mem s0) d) = Q \<inter> dom (slot_frame (mem s0) d) \<Longrightarrow>
     copied s0 d xs c P s \<Longrightarrow> copied s0 d xs c Q s"
  unfolding copied_def by (elim conjE; intro conjI; (assumption | simp only:))

text \<open>The next free page, and what is known about the frames before a page is added.\<close>

lemma copied_next:
  assumes inv: "copied s0 d xs c P s" and ok0: "space_ok s0 d xs"
    and sl: "sl \<in> dom (slot_frame (mem s0) d)" "sl \<notin> P" "sl \<noteq> Dir"
    and enough: "card (dom (slot_frame (mem s0) d)) \<le> length xs"
  obtains used x ys where "xs = used @ x # ys" and "space_ok s c (x # ys)"
    and "length used = card (dom (slot_frame (mem s) c))"
    and "\<And>a. frame a \<notin> set used \<Longrightarrow> mem s a = mem s0 a" and "ran (slot_frame (mem s) c) \<subseteq> set used"
    and "c \<in> set used" and "x \<notin> set used" and "x < npages"
    and "slot_frame (mem s) c sl = None"
proof -
  obtain used ys where u: "xs = used @ ys" "space_ok s c ys"
    "length used = card (dom (slot_frame (mem s) c))"
    "\<forall>a. frame a \<notin> set used \<longrightarrow> mem s a = mem s0 a" "ran (slot_frame (mem s) c) \<subseteq> set used"
    and dom: "dom (slot_frame (mem s) c) = insert Dir (P \<inter> dom (slot_frame (mem s0) d))"
    using inv unfolding copied_def by blast
  have new: "sl \<notin> dom (slot_frame (mem s) c)" using dom sl(2,3) by blast
  have "Dir \<in> dom (slot_frame (mem s0) d)" by auto
  then have "dom (slot_frame (mem s) c) \<subseteq> dom (slot_frame (mem s0) d)" unfolding dom by blast
  then have "dom (slot_frame (mem s) c) \<subset> dom (slot_frame (mem s0) d)" using sl(1) new by (metis psubsetI)
  then have "card (dom (slot_frame (mem s) c)) < card (dom (slot_frame (mem s0) d))"
    by (rule psubset_card_mono [OF finite_slots])
  then have "length used < length xs" using enough u(3) by linarith
  then obtain x zs where ys: "ys = x # zs" using u(1) by (cases ys) auto
  have "slot_frame (mem s) c Dir = Some c" by simp
  then have "c \<in> set used" using u(5) ranI by fast
  moreover have "distinct xs" using space_okD(1) [OF ok0] by (simp add: free_list_def)
  then have "x \<notin> set used" using u(1) ys by auto
  moreover have "x < npages" using space_okD(1) [OF u(2)] ys by (simp add: free_list_def)
  ultimately show thesis using that [OF u(1) [unfolded ys] u(2) [unfolded ys] u(3) _ u(5)] u(4) new by blast
qed

lemma card_dom_upd:
  "finite (dom M) \<Longrightarrow> M sl = None \<Longrightarrow> card (dom (M(sl \<mapsto> x))) = Suc (card (dom M))"
  by (simp add: domIff)

lemma ran_upd: "M sl = None \<Longrightarrow> ran (M(sl \<mapsto> x)) = insert x (ran M)"
  by (simp add: ran_map_upd)

text \<open>Extending the child by one slot, for both kinds of slots.\<close>

lemma copied_extend:
  assumes inv: "copied s0 d xs c P s"
    and u: "xs = used @ x # ys" "length used = card (dom (slot_frame (mem s) c))"
      "\<And>a. frame a \<notin> set used \<Longrightarrow> mem s a = mem s0 a" "ran (slot_frame (mem s) c) \<subseteq> set used"
    and ok: "space_ok s c (x # ys)" and sl: "sl \<in> dom (slot_frame (mem s0) d)"
      "slot_frame (mem s) c sl = None"
    and fl: "free_list s' ys" and M: "slot_frame (mem s') c = (slot_frame (mem s) c)(sl \<mapsto> x)"
    and wr: "\<And>a. frame a \<noteq> x \<Longrightarrow> frame a \<noteq> g \<Longrightarrow> mem s' a = mem s a"
    and g: "g = c \<or> (\<exists>i. slot_frame (mem s) c (Tab i) = Some g)"
    and leaf: "\<And>i j f. sl = Leaf i j \<Longrightarrow> slot_frame (mem s0) d sl = Some f \<Longrightarrow> same_page (mem s0) f (mem s') x"
    and kern: "\<And>k. 768 \<le> k \<Longrightarrow> k < 800 \<Longrightarrow> load32 (mem s') (entry c k) = load32 (mem s) (entry c k)"
    and ok0: "space_ok s0 d xs"
  shows "copied s0 d xs c (insert sl P) s'"
proof -
  have gu: "g \<in> set used" using g u(4) ranI by (metis slot_frame.simps(1) subsetD)
  have dom: "dom (slot_frame (mem s) c) = insert Dir (P \<inter> dom (slot_frame (mem s0) d))"
    using inv unfolding copied_def by blast
  have 1: "space_ok s' c ys" by (rule space_ok_extend [OF ok fl M])
  have 2: "length (used @ [x]) = card (dom (slot_frame (mem s') c))"
    unfolding M using card_dom_upd [of "slot_frame (mem s) c" sl x] finite_slots sl(2) u(2)
    by (simp del: slot_frame.simps)
  have 3: "mem s' a = mem s0 a" if "frame a \<notin> set (used @ [x])" for a
    using that wr [of a] u(3) [of a] gu by auto
  have 4: "ran (slot_frame (mem s') c) \<subseteq> set (used @ [x])"
    using ran_upd [of "slot_frame (mem s) c" sl x] sl(2) u(4) unfolding M by auto
  have 5: "dom (slot_frame (mem s') c) = insert Dir (insert sl P \<inter> dom (slot_frame (mem s0) d))"
    unfolding M using dom sl(1) by (auto simp del: slot_frame.simps)
  have 6: "same_page (mem s0) f (mem s') h"
    if f: "slot_frame (mem s0) d (Leaf i j) = Some f" and h: "slot_frame (mem s') c (Leaf i j) = Some h" for i j f h
  proof (cases "sl = Leaf i j")
    case True
    then show ?thesis using leaf f h unfolding M by simp
  next
    case False
    then have h': "slot_frame (mem s) c (Leaf i j) = Some h" using h unfolding M by simp
    then have sp: "same_page (mem s0) f (mem s) h" using inv f unfolding copied_def by blast
    have h: "h < npages" "h \<noteq> x" using space_okD(3,4) [OF ok h'] by auto
    have "h \<noteq> g"
    proof
      assume "h = g"
      then obtain b where "b = Dir \<or> (\<exists>i. b = Tab i)" "slot_frame (mem s) c b = Some h"
        using g slot_frame.simps(1) by metis
      then show False using space_okD(2) [OF ok h'] by blast
    qed
    then have "frame a = h \<Longrightarrow> mem s' a = mem s a" for a using wr h(2) by blast
    then show ?thesis by (rule same_page_cong [OF sp space_okD(3) [OF ok0 f] h(1) refl])
  qed
  have 7: "load32 (mem s') (entry c k) = load32 (mem s0) (entry d k)" if "768 \<le> k" "k < 800" for k
    using kern [OF that] inv that unfolding copied_def by auto
  have 8: "xs = (used @ [x]) @ ys" using u(1) by simp
  have 9: "\<exists>used ys. xs = used @ ys \<and> space_ok s' c ys \<and>
      length used = card (dom (slot_frame (mem s') c)) \<and>
      (\<forall>a. frame a \<notin> set used \<longrightarrow> mem s' a = mem s0 a) \<and> ran (slot_frame (mem s') c) \<subseteq> set used"
    using 1 2 3 4 8 by (intro exI [of _ "used @ [x]"] exI [of _ ys] conjI) simp_all
  show ?thesis unfolding copied_def
    by (intro conjI allI impI; (rule 9 | rule 5 | elim conjE, rule 6, assumption+ | elim conjE, rule 7, assumption+))
qed

lemma copied_tab:
  assumes inv: "copied s0 d xs c P s" and ok0: "space_ok s0 d xs"
    and i: "i < USER_PDES" "Tab i \<in> dom (slot_frame (mem s0) d)" "Tab i \<notin> P"
    and enough: "card (dom (slot_frame (mem s0) d)) \<le> length xs"
  obtains x s1 where "page_alloc_ref s = Inr (x, s1)" and "x < npages"
    and "copied s0 d xs c (insert (Tab i) P) (s1\<lparr>mem := store32 (mem s1) (entry c i) (page2pa x OR 7)\<rparr>)"
    and "load32 (store32 (mem s1) (entry c i) (page2pa x OR 7)) (entry c i) = page2pa x OR 7"
    and "pcb_table s1 = pcb_table s" and "current s1 = current s" and "pcb_base s1 = pcb_base s"
proof -
  obtain used x ys where u: "xs = used @ x # ys" "length used = card (dom (slot_frame (mem s) c))"
      "\<And>a. frame a \<notin> set used \<Longrightarrow> mem s a = mem s0 a" "ran (slot_frame (mem s) c) \<subseteq> set used"
    and ok: "space_ok s c (x # ys)" and x: "c \<in> set used" "x \<notin> set used" "x < npages"
    and new: "slot_frame (mem s) c (Tab i) = None"
    by (rule copied_next [OF inv ok0 i(2,3) _ enough]) auto
  obtain s1 where s1: "page_alloc_ref s = Inr (x, s1)" "free_list s1 ys"
    "mem s1 = memset (mem s) (page2kva x) 0 PGSIZE" "pcb_table s1 = pcb_table s" "current s1 = current s"
    "pcb_base s1 = pcb_base s"
    using page_alloc_ref_Cons space_okD(1) [OF ok] by metis
  let ?s' = "s1\<lparr>mem := store32 (mem s1) (entry c i) (page2pa x OR 7)\<rparr>"
  have m: "mem ?s' = filled (mem s) c i x" using s1(3) by (simp add: filled_def)
  have c: "c < npages" "c \<noteq> x" using space_ok_dir [OF ok] by auto
  have "copied s0 d xs c (insert (Tab i) P) ?s'"
  proof (rule copied_extend [OF inv u ok i(2) new _ _ _ _ _ _ ok0])
    show "free_list ?s' ys" using s1(2) by simp
    show "slot_frame (mem ?s') c = (slot_frame (mem s) c)(Tab i \<mapsto> x)"
      unfolding m using new i(1) by (intro slot_frame_fill_tab [OF ok i(1)]) simp
    show "frame a \<noteq> x \<Longrightarrow> frame a \<noteq> c \<Longrightarrow> mem ?s' a = mem s a" for a
      unfolding m using filled_other [of c i x a "mem s"] c x i(1) by simp
    show "768 \<le> k \<Longrightarrow> k < 800 \<Longrightarrow> load32 (mem ?s') (entry c k) = load32 (mem s) (entry c k)" for k
      unfolding m filled_def using c x i(1) by (simp add: load_entry_store load_entry_memset)
  qed auto
  then show thesis using that s1 x by simp
qed

lemma copied_leaf:
  assumes inv: "copied s0 d xs c P s" and ok0: "space_ok s0 d xs"
    and f: "slot_frame (mem s0) d (Leaf i j) = Some f" "Leaf i j \<notin> P"
    and t: "slot_frame (mem s) c (Tab i) = Some t"
    and enough: "card (dom (slot_frame (mem s0) d)) \<le> length xs"
  obtains x s1 where "page_alloc_ref s = Inr (x, s1)" and "x < npages"
    and "copied s0 d xs c (insert (Leaf i j) P) (s1\<lparr>mem :=
      memcpy (store32 (mem s1) (entry t j) (page2pa x OR 7)) (page2kva x) (page2kva f) PGSIZE\<rparr>)"
    and "slot_frame (memcpy (store32 (mem s1) (entry t j) (page2pa x OR 7)) (page2kva x) (page2kva f) PGSIZE) c =
      (slot_frame (mem s) c)(Leaf i j \<mapsto> x)"
    and "load32 (store32 (mem s1) (entry t j) (page2pa x OR 7)) (entry t j) = page2pa x OR 7"
    and "\<And>a. frame a \<notin> set xs \<Longrightarrow> store32 (mem s1) (entry t j) (page2pa x OR 7) a = mem s0 a"
    and "pcb_table s1 = pcb_table s" and "current s1 = current s" and "pcb_base s1 = pcb_base s"
proof -
  have dom: "Leaf i j \<in> dom (slot_frame (mem s0) d)" using f(1) by (rule domI)
  obtain used x ys where u: "xs = used @ x # ys" "length used = card (dom (slot_frame (mem s) c))"
      "\<And>a. frame a \<notin> set used \<Longrightarrow> mem s a = mem s0 a" "ran (slot_frame (mem s) c) \<subseteq> set used"
    and ok: "space_ok s c (x # ys)" and x: "c \<in> set used" "x \<notin> set used" "x < npages"
    and new: "slot_frame (mem s) c (Leaf i j) = None"
    by (rule copied_next [OF inv ok0 dom f(2) _ enough]) (auto simp del: slot_frame.simps)
  obtain s1 where s1: "page_alloc_ref s = Inr (x, s1)" "free_list s1 ys"
    "mem s1 = memset (mem s) (page2kva x) 0 PGSIZE" "pcb_table s1 = pcb_table s" "current s1 = current s"
    "pcb_base s1 = pcb_base s"
    using page_alloc_ref_Cons space_okD(1) [OF ok] by metis
  let ?m1 = "store32 (mem s1) (entry t j) (page2pa x OR 7)"
  let ?s' = "s1\<lparr>mem := memcpy ?m1 (page2kva x) (page2kva f) PGSIZE\<rparr>"
  have m1: "?m1 = filled (mem s) t j x" using s1(3) by (simp add: filled_def)
  have ij: "i < USER_PDES" "j < NR_PTE" using f(1) by (auto split: if_splits)
  have c: "c < npages" "c \<noteq> x" using space_ok_dir [OF ok] by auto
  have tn: "t < npages" "t \<noteq> x" using space_okD(3,4) [OF ok t] by auto
  have tu: "t \<in> set used" using t u(4) ranI by fast
  have fn: "f < npages" "f \<notin> set xs" using space_okD(3,4) [OF ok0 f(1)] by auto
  then have fu: "f \<noteq> x" "f \<noteq> t" using u(1) tu by auto
  have wr1: "filled (mem s) t j x a = mem s a" if "frame a \<noteq> x" "frame a \<noteq> t" for a
    using filled_other [OF tn(1) ij(2) x(3)] that by blast
  have m': "mem ?s' a = (if frame a = x then filled (mem s) t j x (page2kva f + (a - page2kva x))
      else filled (mem s) t j x a)" for a
    unfolding m1 by (simp add: memcpy_page [OF fn(1) x(3)])
  have te: "tab_entry (mem s) c i = Some t" using t ij(1) by simp
  have fill: "slot_frame (filled (mem s) t j x) c = (slot_frame (mem s) c)(Leaf i j \<mapsto> x)"
    using new te ij by (intro slot_frame_fill_leaf [OF ok ij te]) simp
  have M: "slot_frame (mem ?s') c = (slot_frame (mem s) c)(Leaf i j \<mapsto> x)"
    unfolding fill [symmetric]
  proof (rule slot_frame_cong [OF c(1)])
    show "frame a = c \<Longrightarrow> mem ?s' a = filled (mem s) t j x a" for a using m' c by simp
    show "h < npages \<and> (frame a = h \<longrightarrow> mem ?s' a = filled (mem s) t j x a)"
      if "slot_frame (filled (mem s) t j x) c (Tab k) = Some h" for k h a
    proof -
      have k: "slot_frame (mem s) c (Tab k) = Some h" using that unfolding fill by simp
      have "h < npages" "h \<noteq> x" using space_okD(3,4) [OF ok k] by auto
      then show ?thesis using m' by simp
    qed
  qed
  have A: "copied s0 d xs c (insert (Leaf i j) P) ?s'"
  proof (rule copied_extend [OF inv u ok dom new _ M _ _ _ _ ok0])
    show "free_list ?s' ys" using s1(2) by simp
    show "frame a \<noteq> x \<Longrightarrow> frame a \<noteq> t \<Longrightarrow> mem ?s' a = mem s a" for a using m' wr1 by simp
    show "t = c \<or> (\<exists>i. slot_frame (mem s) c (Tab i) = Some t)" using t by blast
    show "same_page (mem s0) g (mem ?s') x" if "slot_frame (mem s0) d (Leaf i j) = Some g" for g
    proof -
      have "g = f" using that f(1) by simp
      have "same_page ?m1 f (mem ?s') x" using same_page_memcpy [OF fn(1) x(3)] by simp
      moreover have "mem s0 a = ?m1 a" if "frame a = f" for a
        unfolding m1 using wr1 [of a] u(3) [of a] that fu fn(2) u(1) by auto
      ultimately show ?thesis unfolding \<open>g = f\<close>
        by (rule same_page_cong [OF _ fn(1) x(3) _ refl])
    qed
    show "load32 (mem ?s') (entry c k) = load32 (mem s) (entry c k)" if "768 \<le> k" "k < 800" for k
    proof (rule load_entry_cong [OF c(1)])
      have "t \<noteq> c" using space_okD(2) [OF ok t, of Dir] by auto
      then show "frame a = c \<Longrightarrow> mem ?s' a = mem s a" for a using m' wr1 c(2) by simp
    qed (use that in simp)
  qed
  have C: "?m1 a = mem s0 a" if "frame a \<notin> set xs" for a
    unfolding m1 using wr1 [of a] u(3) [of a] that u(1) tu by auto
  have B: "slot_frame (memcpy ?m1 (page2kva x) (page2kva f) PGSIZE) c =
      (slot_frame (mem s) c)(Leaf i j \<mapsto> x)"
    using M by (simp del: slot_frame.simps)
  show thesis by (rule that [OF s1(1) x(3) A B load32_store32 C s1(4-6)])
qed

lemma copied_old:
  "copied s0 d xs c P s \<Longrightarrow> frame a \<notin> set xs \<Longrightarrow> mem s a = mem s0 a"
  unfolding copied_def by (elim conjE exE) simp

lemma old_entry:
  assumes "copied s0 d xs c P s" and "f < npages" and "f \<notin> set xs" and "k < 1024"
  shows "load32 (mem s) (entry f k) = load32 (mem s0) (entry f k)"
  by (rule load_entry_cong [OF assms(2,4)]) (use copied_old [OF assms(1)] assms(3) in blast)

lemma tab_entry_load: "tab_entry m f k = Some g \<longleftrightarrow> load32 m (entry f k) AND PTE_P \<noteq> 0 \<and> g = fr (load32 m (entry f k))"
  by (auto simp: tab_entry_def Let_def)

text \<open>The slots done after \<open>i\<close> directory entries and \<open>j\<close> entries of the next table.\<close>

definition tabs_done :: "nat \<Rightarrow> slot set" where
  "tabs_done i = {sl. case sl of Dir \<Rightarrow> False | Tab k \<Rightarrow> k < i | Leaf k l \<Rightarrow> k < i}"

definition slots_done :: "nat \<Rightarrow> nat \<Rightarrow> slot set" where
  "slots_done i j = tabs_done i \<union> {Tab i} \<union> Leaf i ` {..<j}"

lemma done_in_Suc: "slots_done i (Suc j) = insert (Leaf i j) (slots_done i j)"
  by (auto simp: slots_done_def lessThan_Suc)

lemma Leaf_not_done: "Leaf i j \<notin> slots_done i j"
  by (auto simp: slots_done_def tabs_done_def)

lemma Tab_not_done: "Tab i \<notin> tabs_done i"
  by (simp add: tabs_done_def)

lemma done_in_end: "slots_done i NR_PTE \<inter> dom (slot_frame m d) = tabs_done (Suc i) \<inter> dom (slot_frame m d)"
proof -
  have "sl \<in> slots_done i NR_PTE \<longleftrightarrow> sl \<in> tabs_done (Suc i)" if "slot_frame m d sl = Some f" for sl f
    using that by (cases sl) (auto simp: slots_done_def tabs_done_def split: if_splits)
  then show ?thesis by blast
qed

lemma done_absent:
  assumes "tab_entry m d i = None"
  shows "tabs_done i \<inter> dom (slot_frame m d) = tabs_done (Suc i) \<inter> dom (slot_frame m d)"
proof -
  have "sl \<in> tabs_done i \<longleftrightarrow> sl \<in> tabs_done (Suc i)" if "slot_frame m d sl = Some f" for sl f
    using that assms by (cases sl) (auto simp: tabs_done_def less_Suc_eq split: if_splits)
  then show ?thesis by blast
qed

definition copied_st :: "'a kst_scheme \<Rightarrow> nat \<Rightarrow> nat list \<Rightarrow> nat \<Rightarrow> slot set \<Rightarrow> PCB list \<Rightarrow> 'a kst_scheme \<Rightarrow> bool" where
  "copied_st s0 d xs c P pt s \<longleftrightarrow> copied s0 d xs c P s \<and> pcb_table s = pt \<and> current s = current s0 \<and>
     pcb_base s = pcb_base s0"

lemma copy_leaf_step:
  assumes inv: "copied_st s0 d xs c (slots_done i j) pt s" and ok0: "space_ok s0 d xs"
    and enough: "card (dom (slot_frame (mem s0) d)) \<le> length xs"
    and ij: "i < USER_PDES" "j < NR_PTE"
    and ft: "tab_entry (mem s0) d i = Some ft" and t: "slot_frame (mem s) c (Tab i) = Some t"
  shows "\<exists>s'. copy_leaf (page2kva t) (page2kva ft) j s = Inr s' \<and>
    copied_st s0 d xs c (slots_done i (Suc j)) pt s' \<and> slot_frame (mem s') c (Tab i) = Some t"
proof -
  have cp: "copied s0 d xs c (slots_done i j) s" using inv by (simp add: copied_st_def)
  have "slot_frame (mem s0) d (Tab i) = Some ft" using ft ij by simp
  then have ftn: "ft < npages" "ft \<notin> set xs" using space_okD(3,4) [OF ok0] by blast+
  let ?e = "load32 (mem s0) (entry ft j)"
  have e: "load32 (mem s) (entry ft j) = ?e" by (rule old_entry [OF cp ftn ij(2)])
  show ?thesis
  proof (cases "?e AND PTE_P = 0")
    case True
    then have "slot_frame (mem s0) d (Leaf i j) = None" using ft ij by (simp add: tab_entry_def)
    then have "copied s0 d xs c (slots_done i (Suc j)) s"
      by (intro copied_cong [OF _ cp]) (auto simp: done_in_Suc simp del: slot_frame.simps)
    then show ?thesis using True e inv t by (simp add: copy_leaf_def entry_addr copied_st_def)
  next
    case False
    then have f: "slot_frame (mem s0) d (Leaf i j) = Some (fr ?e)" using ft ij by (simp add: tab_entry_def)
    obtain x s1 where s1: "page_alloc_ref s = Inr (x, s1)" "x < npages"
      "copied s0 d xs c (insert (Leaf i j) (slots_done i j)) (s1\<lparr>mem :=
        memcpy (store32 (mem s1) (entry t j) (page2pa x OR 7)) (page2kva x) (page2kva (fr ?e)) PGSIZE\<rparr>)"
      "slot_frame (memcpy (store32 (mem s1) (entry t j) (page2pa x OR 7)) (page2kva x) (page2kva (fr ?e)) PGSIZE) c =
        (slot_frame (mem s) c)(Leaf i j \<mapsto> x)"
      "load32 (store32 (mem s1) (entry t j) (page2pa x OR 7)) (entry t j) = page2pa x OR 7"
      "\<And>a. frame a \<notin> set xs \<Longrightarrow> store32 (mem s1) (entry t j) (page2pa x OR 7) a = mem s0 a"
      "pcb_table s1 = pcb_table s" "current s1 = current s" "pcb_base s1 = pcb_base s"
      using copied_leaf [OF cp ok0 f Leaf_not_done t enough] by metis
    let ?m1 = "store32 (mem s1) (entry t j) (page2pa x OR 7)"
    have e1: "load32 ?m1 (entry ft j) = ?e"
      by (rule load_entry_cong [OF ftn(1) ij(2)]) (use s1(6) ftn(2) in blast)
    let ?s' = "s1\<lparr>mem := memcpy ?m1 (page2kva x) (page2kva (fr ?e)) PGSIZE\<rparr>"
    have run: "copy_leaf (page2kva t) (page2kva ft) j s = Inr ?s'"
      using False e s1(1) by (simp add: copy_leaf_def entry_addr Let_def s1(5) e1 PTE_ADDR_KOFFSET fr_page2pa(1) [OF s1(2)])
    have cp': "copied s0 d xs c (slots_done i (Suc j)) ?s'" using s1(3) by (simp add: done_in_Suc)
    have "slot_frame (mem ?s') c (Tab i) = Some t"
      using t s1(4) by (simp del: slot_frame.simps)
    then show ?thesis using run cp' inv s1(7-9)
      by (intro exI [of _ ?s']) (simp add: copied_st_def del: slot_frame.simps)
  qed
qed

lemma copy_table_step:
  assumes inv: "copied_st s0 d xs c (tabs_done i) pt s" and ok0: "space_ok s0 d xs"
    and enough: "card (dom (slot_frame (mem s0) d)) \<le> length xs" and i: "i < USER_PDES"
  shows "\<exists>s'. copy_table (page2kva c) (page2kva d) i s = Inr s' \<and>
    copied_st s0 d xs c (tabs_done (Suc i)) pt s'"
proof -
  have cp: "copied s0 d xs c (tabs_done i) s" using inv by (simp add: copied_st_def)
  have dn: "d < npages" "d \<notin> set xs" using space_ok_dir [OF ok0] by auto
  let ?e = "load32 (mem s0) (entry d i)"
  have e: "load32 (mem s) (entry d i) = ?e" by (rule old_entry [OF cp dn]) (use i in simp)
  show ?thesis
  proof (cases "tab_entry (mem s0) d i")
    case None
    then have "copied s0 d xs c (tabs_done (Suc i)) s"
      using copied_cong [OF done_absent cp] by blast
    moreover have "?e AND PTE_P = 0" using None by (simp add: entry_absent)
    ultimately show ?thesis using e inv by (simp add: copy_table_def entry_addr copied_st_def)
  next
    case (Some ft)
    then have p: "?e AND PTE_P \<noteq> 0" and ft: "ft = fr ?e" by (auto simp: tab_entry_load)
    have dom: "Tab i \<in> dom (slot_frame (mem s0) d)" using Some i by auto
    obtain x s1 where s1: "page_alloc_ref s = Inr (x, s1)" "x < npages"
      "copied s0 d xs c (insert (Tab i) (tabs_done i)) (s1\<lparr>mem := store32 (mem s1) (entry c i) (page2pa x OR 7)\<rparr>)"
      "pcb_table s1 = pcb_table s" "current s1 = current s" "pcb_base s1 = pcb_base s"
      using copied_tab [OF cp ok0 i dom Tab_not_done enough] by metis
    let ?s2 = "s1\<lparr>mem := store32 (mem s1) (entry c i) (page2pa x OR 7)\<rparr>"
    have e2: "load32 (mem ?s2) (entry d i) = ?e" by (rule old_entry [OF s1(3) dn]) (use i in simp)
    have "slots_done i 0 = insert (Tab i) (tabs_done i)" by (auto simp: slots_done_def)
    then have inv2: "copied_st s0 d xs c (slots_done i 0) pt ?s2"
      using s1(3-6) inv by (simp add: copied_st_def)
    have x2: "slot_frame (mem ?s2) c (Tab i) = Some x"
      using i fr_page2pa [OF s1(2)] by (simp add: tab_entry_load)
    have run: "copy_table (page2kva c) (page2kva d) i s =
        for_res (copy_leaf (page2kva x) (page2kva ft)) [0..<NR_PTE] ?s2"
      using p e s1(1) e2 ft
      by (simp add: copy_table_def entry_addr PTE_ADDR_KOFFSET Let_def fr_page2pa(1) [OF s1(2)])
    obtain n where n: "n = NR_PTE" by blast
    have "\<exists>u. for_res (copy_leaf (page2kva x) (page2kva ft)) [0..<n] ?s2 = Inr u \<and>
        copied_st s0 d xs c (slots_done i n) pt u \<and> slot_frame (mem u) c (Tab i) = Some x"
    proof (rule for_upt_invariant)
      show "copied_st s0 d xs c (slots_done i 0) pt ?s2 \<and> slot_frame (mem ?s2) c (Tab i) = Some x"
        using inv2 x2 by blast
    next
      fix j u
      assume "j < n" and I: "copied_st s0 d xs c (slots_done i j) pt u \<and> slot_frame (mem u) c (Tab i) = Some x"
      then show "\<exists>u'. copy_leaf (page2kva x) (page2kva ft) j u = Inr u' \<and>
          copied_st s0 d xs c (slots_done i (Suc j)) pt u' \<and> slot_frame (mem u') c (Tab i) = Some x"
        using copy_leaf_step [OF _ ok0 enough i _ Some] n by blast
    qed
    then obtain u where "for_res (copy_leaf (page2kva x) (page2kva ft)) [0..<n] ?s2 = Inr u"
      "copied_st s0 d xs c (slots_done i n) pt u" by blast
    moreover from this(2) have "copied_st s0 d xs c (tabs_done (Suc i)) pt u"
      unfolding copied_st_def n using copied_cong [OF done_in_end] by blast
    ultimately show ?thesis using run n by auto
  qed
qed

text \<open>
  The whole of \<open>copy\<close>: it returns, gives the new process a page directory of its own, and the
  \<open>copied\<close> relation holds for all slots.
\<close>

lemma copy_start:
  assumes ok0: "space_ok s0 d (c # ys)" and "length (pcb_table s0) = MAX_PCB" and i: "i < MAX_PCB"
    and m: "mem s = memcpy (memset (mem s0) (page2kva c) 0 PGSIZE) (page2kva c + 768 * 4) (page2kva d + 768 * 4) (32 * 4)"
    and fl: "free_list s ys"
  shows "copied s0 d (c # ys) c (tabs_done 0) s"
proof -
  have dn: "d < npages" "d \<noteq> c" using space_ok_dir [OF ok0] by auto
  have c: "c < npages" "c \<notin> set ys" using space_okD(1) [OF ok0] by (auto simp: free_list_def)
  note k = kernel_entries [OF c(1) dn(1) dn(2) [symmetric] m]
  have "tab_entry (mem s) c k = None" if "k < 768" for k
    using k(2) [OF that] load_entry_memset [OF c(1) c(1)] that by (simp add: tab_entry_def)
  then have sf: "slot_frame (mem s) c sl = (if sl = Dir then Some c else None)" for sl
    by (cases sl) auto
  have "space_ok s c ys" using fl c by (auto simp: space_ok_def sf split: if_splits)
  moreover have dom: "dom (slot_frame (mem s) c) = {Dir}" by (auto simp: dom_def sf)
  moreover have "mem s a = mem s0 a" if "frame a \<notin> set [c]" for a
    using k(3) [of a] that by (simp add: memset_page [OF c(1)])
  moreover have "ran (slot_frame (mem s) c) \<subseteq> set [c]" by (auto simp: ran_def sf split: if_splits)
  ultimately have ex: "\<exists>used zs. c # ys = used @ zs \<and> space_ok s c zs \<and>
      length used = card (dom (slot_frame (mem s) c)) \<and>
      (\<forall>a. frame a \<notin> set used \<longrightarrow> mem s a = mem s0 a) \<and> ran (slot_frame (mem s) c) \<subseteq> set used"
    by (intro exI [of _ "[c]"] exI [of _ ys]) simp
  have kern: "load32 (mem s) (entry c k) = load32 (mem s0) (entry d k)" if "768 \<le> k" "k < 800" for k
    using k(1) [OF that] load_entry_memset [OF c(1) dn(1), of k "mem s0"] dn(2) that by simp
  have "tabs_done 0 = {}" by (auto simp: tabs_done_def split: slot.splits)
  then show ?thesis unfolding copied_def
    using ex dom kern by (simp add: sf del: slot_frame.simps)
qed

lemma copy_copied:
  assumes ok0: "space_ok s d xs" and cr: "cr3 (pcb s (current s)) = page2pa d"
    and len: "length (pcb_table s) = MAX_PCB" and i: "i < MAX_PCB" "i \<noteq> current s"
    and enough: "card (dom (slot_frame (mem s) d)) \<le> length xs"
  obtains s' where "copy i s = Inr s'" and "copied s d xs (hd xs) (tabs_done USER_PDES) s'"
    and "pcb_table s' = (pcb_table s)[i := (pcb s i)\<lparr>cr3 := page2pa (hd xs)\<rparr>]"
    and "current s' = current s" and "pcb_base s' = pcb_base s"
proof -
  have "Dir \<in> dom (slot_frame (mem s) d)" by auto
  then have "0 < card (dom (slot_frame (mem s) d))" using finite_slots by (auto simp: card_gt_0_iff)
  then obtain c ys where xs: "xs = c # ys" using enough by (cases xs) auto
  have c: "c < npages" using space_okD(1) [OF ok0] xs by (auto simp: free_list_def)
  obtain s1 where s1: "page_alloc_ref s = Inr (c, s1)" "free_list s1 ys"
    "mem s1 = memset (mem s) (page2kva c) 0 PGSIZE" "pcb_table s1 = pcb_table s" "current s1 = current s"
    "pcb_base s1 = pcb_base s"
    using page_alloc_ref_Cons space_okD(1) [OF ok0] xs by metis
  let ?pt = "(pcb_table s)[i := (pcb s i)\<lparr>cr3 := page2pa c\<rparr>]"
  let ?s2 = "upd_pcb i (\<lambda>b. b\<lparr>cr3 := page2pa c\<rparr>) s1"
  let ?m = "memcpy (mem s1) (page2kva c + 768 * 4) (page2kva d + 768 * 4) (32 * 4)"
  have cr2: "cr3 (pcb ?s2 (current ?s2)) + KOFFSET = page2kva d"
    using s1(4,5) i len cr by (simp add: pcb_upd_pcb page2kva_def)
  have run: "copy i s = for_res (copy_table (page2kva c) (page2kva d)) [0..<USER_PDES] (?s2\<lparr>mem := ?m\<rparr>)"
  proof -
    have "pcb_cr3write i (cr3_with_base (drop_bit 12 (page2pa c))) s1 = Inr ?s2"
      using i by (simp add: pcb_cr3write_def at_pcb_def cr3_page [OF c])
    then show ?thesis unfolding copy_def s1(1) by (simp only: bnd_simps prod.case Let_def cr2) simp
  qed
  have "copied s d xs c (tabs_done 0) (?s2\<lparr>mem := ?m\<rparr>)"
    unfolding xs by (rule copy_start [OF ok0 [unfolded xs] len i(1)])
      (use s1(2,3) in \<open>simp_all add: free_list_cong [of ?s2 s1]\<close>)
  then have st: "copied_st s d xs c (tabs_done 0) ?pt (?s2\<lparr>mem := ?m\<rparr>)"
    using s1(4-6) by (simp add: copied_st_def upd_pcb_def)
  obtain n where n: "n = USER_PDES" by blast
  have "\<exists>u. for_res (copy_table (page2kva c) (page2kva d)) [0..<n] (?s2\<lparr>mem := ?m\<rparr>) = Inr u \<and>
      copied_st s d xs c (tabs_done n) ?pt u"
    by (rule for_upt_invariant) (use st copy_table_step [OF _ ok0 enough] n in blast)+
  then show thesis using that run n xs by (auto simp: copied_st_def)
qed

lemma lin_page:
  assumes "f < npages"
  shows "lin (page2pa f + PGOFF va) = page2kva f + of_nat (unat (PGOFF va))"
  by (simp add: lin_def page2kva_def)

text \<open>What a finished copy means for translations and contents.\<close>

lemma copied_translation:
  assumes cp: "copied s d xs c (tabs_done USER_PDES) s'" and ok0: "space_ok s d xs" and va: "va < KOFFSET"
  shows "case page_walk (mem s) (page2pa d) va of
      None \<Rightarrow> page_walk (mem s') (page2pa c) va = None
    | Some p \<Rightarrow> \<exists>p'. page_walk (mem s') (page2pa c) va = Some p' \<and> mem s' (lin p') = mem s (lin p)"
proof -
  let ?l = "Leaf (unat (PDX va)) (unat (PTX va))"
  obtain ys where ok: "space_ok s' c ys" using cp unfolding copied_def by blast
  have dom: "dom (slot_frame (mem s') c) = insert Dir (tabs_done USER_PDES \<inter> dom (slot_frame (mem s) d))"
    and same: "slot_frame (mem s) d ?l = Some f \<Longrightarrow> slot_frame (mem s') c ?l = Some g \<Longrightarrow>
      same_page (mem s) f (mem s') g" for f g
    using cp unfolding copied_def by blast+
  have "?l \<in> tabs_done USER_PDES" using user_PDX [OF va] by (simp add: tabs_done_def)
  then have iff: "?l \<in> dom (slot_frame (mem s') c) \<longleftrightarrow> ?l \<in> dom (slot_frame (mem s) d)"
    unfolding dom by blast
  have dn: "d < npages" "c < npages" using space_ok_dir [OF ok0] space_ok_dir [OF ok] by auto
  note walk = page_walk_slot [OF dn(1) va] page_walk_slot [OF dn(2) va]
  show ?thesis
  proof (cases "slot_frame (mem s) d ?l")
    case None
    then have "slot_frame (mem s') c ?l = None" using iff by blast
    then show ?thesis unfolding walk None by (simp del: slot_frame.simps)
  next
    case (Some f)
    then obtain g where g: "slot_frame (mem s') c ?l = Some g" using iff by blast
    have fg: "f < npages" "g < npages" using space_okD(3) [OF ok0 Some] space_okD(3) [OF ok g] by auto
    have "mem s (page2kva f + of_nat (unat (PGOFF va))) = mem s' (page2kva g + of_nat (unat (PGOFF va)))"
      using same [OF Some g] PGOFF_lt [of va] unfolding same_page_def by blast
    then show ?thesis unfolding walk Some g using lin_page fg by (simp del: slot_frame.simps)
  qed
qed

lemma copied_separate:
  assumes cp: "copied s d xs c P s'" and ok0: "space_ok s d xs"
  obtains ys where "space_ok s' c ys" and "space_ok s' d ys" and "slot_frame (mem s') d = slot_frame (mem s) d"
    and "ran (slot_frame (mem s') c) \<inter> ran (slot_frame (mem s') d) = {}"
    and "\<And>f a. f \<in> ran (slot_frame (mem s) d) \<Longrightarrow> frame a = f \<Longrightarrow> mem s' a = mem s a"
proof -
  obtain used ys where u: "xs = used @ ys" "space_ok s' c ys" "ran (slot_frame (mem s') c) \<subseteq> set used"
    using cp unfolding copied_def by blast
  have old: "f < npages \<and> f \<notin> set xs" if "f \<in> ran (slot_frame (mem s) d)" for f
    using that space_okD(3,4) [OF ok0] unfolding ran_def by blast
  have keep: "mem s' a = mem s a" if "f \<in> ran (slot_frame (mem s) d)" "frame a = f" for f a
    using copied_old [OF cp] old [OF that(1)] that(2) by blast
  have "d \<in> ran (slot_frame (mem s) d)" by (rule ranI [of _ Dir]) simp
  then have sf: "slot_frame (mem s') d = slot_frame (mem s) d"
    using keep old by (intro slot_frame_cong) (blast intro: ranI)+
  moreover have "space_ok s' d ys"
    using ok0 space_okD(1) [OF u(2)] unfolding space_ok_def sf u(1) by auto
  moreover have "ran (slot_frame (mem s') c) \<inter> ran (slot_frame (mem s') d) = {}"
    unfolding sf using u(1,3) old by auto
  ultimately show thesis using that u(2) keep by blast
qed

section \<open>Releasing an address space\<close>

text \<open>\<open>freed s d xs P t zs\<close>: the frames of the slots \<open>P\<close> have been given back.\<close>

definition freed :: "'a kst_scheme \<Rightarrow> nat \<Rightarrow> nat list \<Rightarrow> slot set \<Rightarrow> 'a kst_scheme \<Rightarrow> bool" where
  "freed s d xs P t \<longleftrightarrow>
     (\<exists>zs. free_list t zs \<and> set zs = set xs \<union> {f. \<exists>sl \<in> P. slot_frame (mem s) d sl = Some f}) \<and>
     mem t = mem s \<and> pcb_table t = pcb_table s \<and> current t = current s \<and> cr3_reg t = cr3_reg s \<and>
     pcb_base t = pcb_base s"

lemma freed_cong:
  "P \<inter> dom (slot_frame (mem s) d) = Q \<inter> dom (slot_frame (mem s) d) \<Longrightarrow> freed s d xs P t \<Longrightarrow> freed s d xs Q t"
proof -
  assume eq: "P \<inter> dom (slot_frame (mem s) d) = Q \<inter> dom (slot_frame (mem s) d)" and f: "freed s d xs P t"
  have "(sl \<in> P \<longleftrightarrow> sl \<in> Q)" if "slot_frame (mem s) d sl = Some f" for sl f using eq that by blast
  then have "{f. \<exists>sl \<in> P. slot_frame (mem s) d sl = Some f} = {f. \<exists>sl \<in> Q. slot_frame (mem s) d sl = Some f}"
    by blast
  then show ?thesis using f unfolding freed_def by (simp only:)
qed

lemma pa2page_fr: "pa2page e = fr e"
  by (simp add: pa2page_def fr_def PGNUM_def)

lemma release_page_step:
  assumes ok: "space_ok s d xs" and high: "\<And>f. f \<in> ran (slot_frame (mem s) d) \<Longrightarrow> 1024 < f"
    and fr: "freed s d xs P t" and sl: "slot_frame (mem s) d sl = Some (fr e)" "sl \<notin> P"
  shows "\<exists>t'. release_page e t = Inr t' \<and> freed s d xs (insert sl P) t'"
proof -
  let ?f = "fr e"
  obtain zs where zs: "free_list t zs" "set zs = set xs \<union> {f. \<exists>sl \<in> P. slot_frame (mem s) d sl = Some f}"
    and keep: "mem t = mem s" "pcb_table t = pcb_table s" "current t = current s" "cr3_reg t = cr3_reg s"
      "pcb_base t = pcb_base s"
    using fr unfolding freed_def by blast
  have f: "?f < npages" "?f \<notin> set xs" using space_okD(3,4) [OF ok sl(1)] by auto
  have "?f \<notin> set zs"
  proof
    assume "?f \<in> set zs"
    then obtain b where "b \<in> P" "slot_frame (mem s) d b = Some ?f" using zs(2) f(2) by blast
    then show False using space_okD(2) [OF ok sl(1)] sl(2) by blast
  qed
  moreover have "1024 < ?f" using high sl(1) by (blast intro: ranI)
  moreover have "free_list (t\<lparr>pages := (pages t)(?f := (pages t ?f)\<lparr>pp_ref := 0\<rparr>)\<rparr>) zs"
    using zs(1) \<open>?f \<notin> set zs\<close> by (simp add: free_list_def)
  ultimately have "free_list (page_free ?f (t\<lparr>pages := (pages t)(?f := (pages t ?f)\<lparr>pp_ref := 0\<rparr>)\<rparr>)) (?f # zs)"
    using f(1) by (intro page_free_list_push)
  moreover have "set (?f # zs) = set xs \<union> {f. \<exists>b \<in> insert sl P. slot_frame (mem s) d b = Some f}"
    using zs(2) sl(1) by auto
  ultimately have "freed s d xs (insert sl P)
      (page_free ?f (t\<lparr>pages := (pages t)(?f := (pages t ?f)\<lparr>pp_ref := 0\<rparr>)\<rparr>))"
    unfolding freed_def using keep
    by (intro conjI exI [of _ "?f # zs"]) (simp_all add: page_free_def)
  then show ?thesis using f(1) by (simp add: release_page_def pa2page_fr)
qed

lemma release_table_step:
  assumes ok: "space_ok s d xs" and high: "\<And>f. f \<in> ran (slot_frame (mem s) d) \<Longrightarrow> 1024 < f"
    and inv: "freed s d xs (tabs_done i) t" and i: "i < USER_PDES"
  shows "\<exists>t'. release_table (page2kva d) i t = Inr t' \<and> freed s d xs (tabs_done (Suc i)) t'"
proof -
  have m: "mem t = mem s" using inv by (simp add: freed_def)
  let ?e = "load32 (mem s) (entry d i)"
  show ?thesis
  proof (cases "tab_entry (mem s) d i")
    case None
    then have "freed s d xs (tabs_done (Suc i)) t" using freed_cong [OF done_absent inv] by blast
    moreover have "?e AND PTE_P = 0" using None by (simp add: entry_absent)
    ultimately show ?thesis using m by (simp add: release_table_def entry_addr)
  next
    case (Some ft)
    then have p: "?e AND PTE_P \<noteq> 0" and ft: "ft = fr ?e" by (auto simp: tab_entry_load)
    define Q where "Q j = tabs_done i \<union> Leaf i ` {..<j}" for j
    obtain n where n: "n = NR_PTE" by blast
    have "\<exists>u. for_res (release_leaf (page2kva ft)) [0..<n] t = Inr u \<and> freed s d xs (Q n) u"
    proof (rule for_upt_invariant)
      show "freed s d xs (Q 0) t" using inv by (simp add: Q_def)
    next
      fix j u
      assume j: "j < n" and I: "freed s d xs (Q j) u"
      have mu: "mem u = mem s" using I by (simp add: freed_def)
      have Q: "Q (Suc j) = insert (Leaf i j) (Q j)" by (auto simp: Q_def lessThan_Suc)
      let ?l = "load32 (mem s) (entry ft j)"
      show "\<exists>u'. release_leaf (page2kva ft) j u = Inr u' \<and> freed s d xs (Q (Suc j)) u'"
      proof (cases "?l AND PTE_P = 0")
        case True
        then have "slot_frame (mem s) d (Leaf i j) = None" using Some by (simp add: tab_entry_def)
        then have "freed s d xs (Q (Suc j)) u"
          by (intro freed_cong [OF _ I]) (auto simp: Q simp del: slot_frame.simps)
        then show ?thesis using True mu by (simp add: release_leaf_def entry_addr)
      next
        case False
        then have "slot_frame (mem s) d (Leaf i j) = Some (fr ?l)" using Some i j n by (simp add: tab_entry_def)
        moreover have "Leaf i j \<notin> Q j" by (auto simp: Q_def tabs_done_def)
        ultimately show ?thesis
          using release_page_step [OF ok high I] False mu by (simp add: release_leaf_def entry_addr Q)
      qed
    qed
    then obtain u where u: "for_res (release_leaf (page2kva ft)) [0..<n] t = Inr u" "freed s d xs (Q n) u" by blast
    have mu: "mem u = mem s" using u(2) by (simp add: freed_def)
    have "slot_frame (mem s) d (Tab i) = Some (fr ?e)" using Some i ft by simp
    moreover have "Tab i \<notin> Q n" by (auto simp: Q_def tabs_done_def)
    ultimately obtain t' where t': "release_page ?e u = Inr t'" "freed s d xs (insert (Tab i) (Q n)) t'"
      using release_page_step [OF ok high u(2)] by blast
    have "insert (Tab i) (Q n) = slots_done i n" by (auto simp: Q_def slots_done_def)
    then have "freed s d xs (tabs_done (Suc i)) t'"
      using t'(2) freed_cong [OF done_in_end] n by metis
    then show ?thesis
      using p m mu u(1) t'(1) n ft by (simp add: release_table_def entry_addr PTE_ADDR_KOFFSET)
  qed
qed

lemma release_freed:
  assumes ok: "space_ok s d xs" and high: "\<And>f. f \<in> ran (slot_frame (mem s) d) \<Longrightarrow> 1024 < f"
    and cr: "cr3 (pcb s (current s)) = page2pa d"
  obtains t where "release s = Inr t" and "freed s d xs UNIV t"
proof -
  have "tabs_done 0 = {}" by (auto simp: tabs_done_def split: slot.splits)
  then have st: "freed s d xs (tabs_done 0) s" using space_okD(1) [OF ok] by (auto simp: freed_def)
  obtain n where n: "n = USER_PDES" by blast
  have "\<exists>u. for_res (release_table (page2kva d)) [0..<n] s = Inr u \<and> freed s d xs (tabs_done n) u"
    by (rule for_upt_invariant) (use st release_table_step [OF ok high] n in blast)+
  then obtain u where u: "for_res (release_table (page2kva d)) [0..<n] s = Inr u" "freed s d xs (tabs_done n) u"
    by blast
  have d: "d < npages" using space_ok_dir [OF ok] by simp
  have "cr3_base (page2pa d) = of_nat d"
    using PGNUM_page2pa [OF d, of 0] by (simp add: PGNUM_def PGOFF_def cr3_base_def)
  then have "push_bit 12 (cr3_base (page2pa d)) = page2pa d" by (simp add: page2pa_def)
  moreover have "pcb_table u = pcb_table s" "current u = current s" using u(2) by (simp_all add: freed_def)
  ultimately have run: "release s = release_page (page2pa d) u"
    using u(1) n cr by (simp add: release_def page2kva_def)
  have "fr (page2pa d) = d"
    using PGNUM_page2pa [OF d, of 0] npages_less [OF d] by (simp add: PGNUM_def PGOFF_def fr_def)
  then have "slot_frame (mem s) d Dir = Some (fr (page2pa d))" by simp
  moreover have "Dir \<notin> tabs_done n" by (simp add: tabs_done_def)
  ultimately obtain t where t: "release_page (page2pa d) u = Inr t" "freed s d xs (insert Dir (tabs_done n)) t"
    using release_page_step [OF ok high u(2)] by blast
  have "insert Dir (tabs_done n) \<inter> dom (slot_frame (mem s) d) = UNIV \<inter> dom (slot_frame (mem s) d)"
  proof -
    have "sl \<in> insert Dir (tabs_done n)" if "slot_frame (mem s) d sl = Some f" for sl f
      using that n by (cases sl) (auto simp: tabs_done_def split: if_splits)
    then show ?thesis by blast
  qed
  then have "freed s d xs UNIV t" by (rule freed_cong [OF _ t(2)])
  then show thesis using that run t(1) by simp
qed

text \<open>The frames of an address space are not free, so there are few of them.\<close>

lemma space_card:
  assumes "space_ok s d xs"
  shows "card (dom (slot_frame (mem s) d)) \<le> npages - length xs"
proof -
  let ?M = "slot_frame (mem s) d"
  have fl: "distinct xs" "set xs \<subseteq> {..<npages}" using space_okD(1) [OF assms] by (auto simp: free_list_def)
  have "inj_on ?M (dom ?M)" using space_okD(2) [OF assms] by (intro inj_onI) (metis domD)
  then have "inj_on (\<lambda>sl. the (?M sl)) (dom ?M)" unfolding inj_on_def by (metis domD option.sel)
  moreover have "(\<lambda>sl. the (?M sl)) ` dom ?M \<subseteq> {..<npages} - set xs"
    using space_okD(3,4) [OF assms] by (auto simp del: slot_frame.simps)
  ultimately have "card (dom ?M) \<le> card ({..<npages} - set xs)"
    by (intro card_inj_on_le) auto
  also have "\<dots> = npages - length xs" using fl by (simp add: card_Diff_subset distinct_card)
  finally show ?thesis .
qed

lemma copied_all_pages:
  assumes "copied s d xs c P s'" and ok0: "space_ok s d xs"
  obtains ys where "space_ok s' c ys" and "set ys \<union> ran (slot_frame (mem s') c) = set xs"
    and "\<forall>f \<in> ran (slot_frame (mem s') c). 1024 < f"
proof -
  let ?M = "slot_frame (mem s') c"
  obtain used ys where u: "xs = used @ ys" "space_ok s' c ys" "length used = card (dom ?M)" "ran ?M \<subseteq> set used"
    using assms(1) unfolding copied_def by blast
  have xs: "distinct xs" "\<forall>x \<in> set xs. 1024 < x" using space_okD(1) [OF ok0] by (auto simp: free_list_def)
  have "inj_on ?M (dom ?M)" using space_okD(2) [OF u(2)] by (intro inj_onI) (metis domD)
  then have "inj_on (\<lambda>sl. the (?M sl)) (dom ?M)" unfolding inj_on_def by (metis domD option.sel)
  moreover have "ran ?M = (\<lambda>sl. the (?M sl)) ` dom ?M" by (force simp: ran_def dom_def simp del: slot_frame.simps)
  ultimately have "card (ran ?M) = length used" using u(3) by (simp add: card_image del: slot_frame.simps)
  then have "card (ran ?M) = card (set used)" using xs(1) u(1) by (simp add: distinct_card)
  then have "ran ?M = set used" using u(4) by (intro card_subset_eq) auto
  then show thesis using that [OF u(2)] xs(2) u(1) by auto
qed

text \<open>A concrete process with two mapped pages, its directory in frame 256.\<close>

lemma mm_malloc_keeps:
  "mm_malloc u va s = Inr (p, s') \<Longrightarrow> pcb_table s' = pcb_table s \<and> current s' = current (s :: 'a kst_scheme) \<and>
     pcb_base s' = pcb_base s"
  by (auto simp: mm_malloc_def pgdir_walk_def fill_entry_def page_alloc_ref_def page_alloc_def Let_def bnd_Inr_iff
      split: if_splits option.splits)

lemma demo_space:
  obtains s xs p where "space_ok (s :: kst) 256 xs" and "cr3 (pcb s (current s)) = page2pa 256"
    and "length (pcb_table s) = MAX_PCB" and "current s = 0"
    and "card (dom (slot_frame (mem s) 256)) \<le> length xs" and "1026 \<le> length xs"
    and "page_walk (mem s) (page2pa 256) 0x8048000 = Some p"
    and "\<forall>f \<in> ran (slot_frame (mem s) 256) - {256}. 1024 < f" and "pcb_base s = 0xC0200000"
    and "pcb_table s = table_demo[0 := (table_demo ! 0)\<lparr>cr3 := page2pa 256\<rparr>]"
proof -
  let ?k = "kst_demo\<lparr>pcb_table := table_demo[0 := (table_demo ! 0)\<lparr>cr3 := page2pa 256\<rparr>]\<rparr>"
  let ?s = "page_init (?k\<lparr>mem := (\<lambda>_. 0)\<rparr>)"
  have ok: "space_ok ?s 256 (rev [1025..<npages])"
    by (rule space_ok_fresh(1)) (simp_all add: kst_demo_def)
  have np: "npages = 32768" by (simp add: npages_def)
  then have len: "length (rev [1025..<npages]) = 31743" by simp
  obtain p s1 xs1 where s1: "mm_malloc (page2kva 256) 0x8048000 ?s = Inr (p, s1)"
    "space_ok s1 256 xs1" "page_walk (mem s1) (page2pa 256) 0x8048000 = Some p"
    "length (rev [1025..<npages]) \<le> length xs1 + 2"
    by (rule mm_malloc_maps_lemma [where va = "0x8048000", OF ok]) (use len in simp_all)
  have step: "pcb_table (page_init_step i u) = pcb_table u \<and> current (page_init_step i u) = current u \<and>
      pcb_base (page_init_step i u) = pcb_base u"
    for i and u :: kst by (simp add: page_init_step_def)
  have "pcb_table (fold page_init_step is u) = pcb_table u \<and> current (fold page_init_step is u) = current u \<and>
      pcb_base (fold page_init_step is u) = pcb_base u"
    for "is" and u :: kst by (induction "is" arbitrary: u) (simp_all add: step)
  then have "pcb_table ?s = pcb_table ?k \<and> current ?s = current ?k \<and> pcb_base ?s = pcb_base ?k" by (simp add: page_init_def)
  then have "pcb_table s1 = pcb_table ?k" "current s1 = 0" "pcb_base s1 = 0xC0200000"
    using mm_malloc_keeps [OF s1(1)] by (auto simp: kst_demo_def)
  moreover have "card (dom (slot_frame (mem s1) 256)) \<le> length xs1"
    using space_card [OF s1(2)] s1(4) len np by linarith
  moreover have "1026 \<le> length xs1" using s1(4) len by linarith
  moreover have "\<forall>f \<in> ran (slot_frame (mem s1) 256) - {256}. 1024 < f"
  proof -
    have "page_free_list ?k = None" by (simp add: kst_demo_def)
    then have "ran (slot_frame (mem ?s) 256) = {256}" by (rule space_ok_fresh(2)) simp
    then have "ran (slot_frame (mem s1) 256) \<subseteq> {256} \<union> set (rev [1025..<npages])"
      using mm_malloc_ran [OF ok _ s1(1)] by simp
    then show ?thesis by auto
  qed
  ultimately show thesis using that [OF s1(2) _ _ _ _ _ s1(3)] by simp
qed

section \<open>Threads\<close>

text \<open>
  The address space \<open>thread_copy\<close> builds: a directory of its own, a table and 1024 pages of its
  own for the stack region (directory entry 767), everything else shared with the father.
\<close>

abbreviation (input) STACK_PDE :: nat where "STACK_PDE \<equiv> 767"

definition thread_space :: "nat list \<Rightarrow> (slot \<rightharpoonup> nat) \<Rightarrow> slot \<rightharpoonup> nat" where
  "thread_space xs M sl =
     (case sl of
        Dir \<Rightarrow> Some (xs ! 0)
      | Tab i \<Rightarrow> if i = STACK_PDE then Some (xs ! 1) else M sl
      | Leaf i j \<Rightarrow> if i = STACK_PDE then (if j < NR_PTE then Some (xs ! (2 + j)) else None) else M sl)"

definition threaded :: "'a kst_scheme \<Rightarrow> nat \<Rightarrow> nat list \<Rightarrow> nat \<Rightarrow> 'a kst_scheme \<Rightarrow> bool" where
  "threaded s d xs j t \<longleftrightarrow>
     free_list t (drop (2 + j) xs) \<and> (\<forall>a. frame a \<notin> set (take (2 + j) xs) \<longrightarrow> mem t a = mem s a) \<and>
     (\<forall>k < 1024. load32 (mem t) (entry (xs ! 0) k) =
        (if k = STACK_PDE then page2pa (xs ! 1) OR 7 else load32 (mem s) (entry d k))) \<and>
     (\<forall>l < j. load32 (mem t) (entry (xs ! 1) l) = page2pa (xs ! (2 + l)) OR 7)"

lemma threaded_step:
  assumes xs: "free_list s xs" and n: "1026 \<le> length xs" and j: "j < 1024" and inv: "threaded s d xs j t"
  obtains t' where "thread_leaf (page2kva (xs ! 1)) j t = Inr t'" and "threaded s d xs (Suc j) t'"
    and "pcb_table t' = pcb_table t" and "current t' = current t" and "pcb_base t' = pcb_base t"
proof -
  have len: "2 + j < length xs" using n j by simp
  let ?x = "xs ! (2 + j)"
  have drop: "drop (2 + j) xs = ?x # drop (Suc (2 + j)) xs" by (rule Cons_nth_drop_Suc [OF len, symmetric])
  have dist: "distinct xs" and np: "\<forall>x \<in> set xs. x < npages" using xs by (auto simp: free_list_def)
  have in_np: "k < length xs \<Longrightarrow> xs ! k < npages" for k using np by simp
  have ne: "xs ! 0 \<noteq> ?x" "xs ! 1 \<noteq> ?x" "xs ! 0 \<noteq> xs ! 1"
    using nth_eq_iff_index_eq [OF dist, of 0 "2 + j"] nth_eq_iff_index_eq [OF dist, of 1 "2 + j"]
      nth_eq_iff_index_eq [OF dist, of 0 1] len by (cases "xs = []"; simp)+
  obtain t1 where t1: "page_alloc_ref t = Inr (?x, t1)" "free_list t1 (drop (Suc (2 + j)) xs)"
    "mem t1 = memset (mem t) (page2kva ?x) 0 PGSIZE" "pcb_table t1 = pcb_table t" "current t1 = current t"
    "pcb_base t1 = pcb_base t"
    using page_alloc_ref_Cons inv drop unfolding threaded_def by metis
  let ?t' = "t1\<lparr>mem := store32 (mem t1) (entry (xs ! 1) j) (page2pa ?x OR 7)\<rparr>"
  have x: "?x < npages" "xs ! 1 < npages" "xs ! 0 < npages"
    using in_np [of "2 + j"] in_np [of 1] in_np [of 0] len by (cases "xs = []"; simp)+
  have m: "mem ?t' = filled (mem t) (xs ! 1) j ?x" using t1(3) by (simp add: filled_def)
  have run: "thread_leaf (page2kva (xs ! 1)) j t = Inr ?t'" using t1(1) by (simp add: thread_leaf_def entry_addr)
  have take: "take (2 + Suc j) xs = take (2 + j) xs @ [?x]" using len by (simp add: take_Suc_conv_app_nth)
  have one: "xs ! 1 \<in> set (take (2 + j) xs)" using len by (auto simp: in_set_conv_nth)
  have "threaded s d xs (Suc j) ?t'"
    unfolding threaded_def
  proof (intro conjI allI impI)
    show "free_list ?t' (drop (2 + Suc j) xs)" using t1(2) by simp
    fix a
    assume "frame a \<notin> set (take (2 + Suc j) xs)"
    then have "frame a \<notin> set (take (2 + j) xs)" "frame a \<noteq> ?x" "frame a \<noteq> xs ! 1" using take one by auto
    then show "mem ?t' a = mem s a" unfolding m using filled_other [OF x(2) j x(1)] inv by (auto simp: threaded_def)
  next
    fix k :: nat
    assume "k < 1024"
    then show "load32 (mem ?t') (entry (xs ! 0) k) =
        (if k = STACK_PDE then page2pa (xs ! 1) OR 7 else load32 (mem s) (entry d k))"
      unfolding m filled_def using x ne j inv by (simp add: load_entry_store load_entry_memset threaded_def)
  next
    fix l
    assume "l < Suc j"
    then show "load32 (mem ?t') (entry (xs ! 1) l) = page2pa (xs ! (2 + l)) OR 7"
      unfolding m filled_def using x ne j inv
      by (auto simp: load_entry_store load_entry_memset threaded_def less_Suc_eq)
  qed
  then show thesis using that run t1(4-6) by simp
qed

lemma thread_copy_threaded:
  assumes ok: "space_ok s d xs" and cr: "cr3 (pcb s (current s)) = page2pa d"
    and len: "length (pcb_table s) = MAX_PCB" and i: "i < MAX_PCB" "i \<noteq> current s" and n: "1026 \<le> length xs"
  obtains t where "thread_copy i s = Inr t" and "threaded s d xs 1024 t"
    and "pcb_table t = (pcb_table s)[i := (pcb s i)\<lparr>cr3 := page2pa (xs ! 0)\<rparr>]" and "current t = current s"
    and "pcb_base t = pcb_base s"
proof -
  obtain c x ys where xs: "xs = c # x # ys" using n by (cases xs; cases "tl xs") auto
  have fl: "free_list s xs" by (rule space_okD(1) [OF ok])
  have c: "c < npages" "x < npages" "c \<noteq> x" using fl xs by (auto simp: free_list_def)
  have d: "d < npages" "d \<noteq> c" "d \<noteq> x" using space_ok_dir [OF ok] xs by auto
  obtain s1 where s1: "page_alloc_ref s = Inr (c, s1)" "free_list s1 (x # ys)"
    "mem s1 = memset (mem s) (page2kva c) 0 PGSIZE" "pcb_table s1 = pcb_table s" "current s1 = current s"
    "pcb_base s1 = pcb_base s"
    using page_alloc_ref_Cons fl xs by metis
  let ?s2 = "upd_pcb i (\<lambda>b. b\<lparr>cr3 := page2pa c\<rparr>) s1"
  let ?s3 = "?s2\<lparr>mem := memcpy (mem s1) (page2kva c) (page2kva d) PGSIZE\<rparr>"
  have cr2: "cr3 (pcb ?s2 (current ?s2)) + KOFFSET = page2kva d"
    using s1(4,5) i len cr by (simp add: pcb_upd_pcb page2kva_def)
  have "free_list ?s3 (x # ys)" using s1(2) by (simp add: free_list_cong [of ?s2 s1])
  then obtain s4 where s4: "page_alloc_ref ?s3 = Inr (x, s4)" "free_list s4 ys"
    "mem s4 = memset (mem ?s3) (page2kva x) 0 PGSIZE" "pcb_table s4 = pcb_table ?s3" "current s4 = current ?s3"
    "pcb_base s4 = pcb_base ?s3"
    by (rule page_alloc_ref_Cons)
  let ?s5 = "s4\<lparr>mem := store32 (mem s4) (entry c STACK_PDE) (page2pa x OR 7)\<rparr>"
  have wr: "pcb_cr3write i (cr3_with_base (drop_bit 12 (page2pa c))) s1 = Inr ?s2"
    using i by (simp add: pcb_cr3write_def at_pcb_def cr3_page [OF c(1)])
  have e767: "page2kva c + 767 * 4 = entry c STACK_PDE" by (simp add: entry_def)
  have run: "thread_copy i s = for_res (thread_leaf (page2kva x)) [0..<NR_PTE] ?s5"
  proof -
    have l5: "load32 (mem ?s5) (entry c STACK_PDE) = page2pa x OR 7" by simp
    have p: "(4 * 1024 :: u32) = PGSIZE" by simp
    show ?thesis
      unfolding thread_copy_def s1(1) bnd_simps prod.case wr Let_def cr2 upd_pcb_fields(5) p s4(1) e767 l5
        PTE_ADDR_KOFFSET fr_page2pa(1) [OF c(2)] by (rule refl)
  qed
  have "\<exists>t. for_res (thread_leaf (page2kva x)) [0..<n] ?s5 = Inr t \<and> threaded s d xs n t \<and>
      pcb_table t = pcb_table s4 \<and> current t = current s4 \<and> pcb_base t = pcb_base s4" if "n \<le> 1024" for n
  proof (rule for_upt_invariant)
    have m5: "mem ?s5 = filled (memcpy (mem s1) (page2kva c) (page2kva d) PGSIZE) c STACK_PDE x"
      using s4(3) by (simp add: filled_def)
    have cp: "memcpy (mem s1) (page2kva c) (page2kva d) PGSIZE a =
        (if frame a = c then mem s (page2kva d + (a - page2kva c)) else mem s a)" for a
    proof -
      have "frame (page2kva d + (a - page2kva c)) = d" if "frame a = c"
      proof -
        have "unat (a - page2kva c) < 4096" using that frame_region [OF c(1)] by simp
        then have "frame (page2kva d + of_nat (unat (a - page2kva c))) = d" by (rule frame_addr [OF d(1)])
        then show ?thesis by simp
      qed
      then show ?thesis using s1(3) d by (simp add: memcpy_page [OF d(1) c(1)] memset_page [OF c(1)])
    qed
    have le: "load32 (memcpy (mem s1) (page2kva c) (page2kva d) PGSIZE) (entry c k) = load32 (mem s) (entry d k)"
      if "k < 1024" for k
    proof -
      have "memcpy (mem s1) (page2kva c) (page2kva d) PGSIZE (entry c k + of_nat r) = mem s (entry d k + of_nat r)"
        if "r < 4" for r
      proof -
        have "frame (entry c k + of_nat r) = c"
          using entry_frame [OF c(1) \<open>k < 1024\<close>] that by (simp add: in_region_offset)
        then show ?thesis unfolding cp by (simp add: entry_def add.assoc)
      qed
      from this [of 0] this [of 1] this [of 2] this [of 3] show ?thesis by (simp add: load32_def)
    qed
    have "threaded s d xs 0 ?s5"
      unfolding threaded_def
    proof (intro conjI allI impI)
      show "free_list ?s5 (drop (2 + 0) xs)" using s4(2) xs by (simp add: numeral_2_eq_2)
      show "mem ?s5 a = mem s a" if "frame a \<notin> set (take (2 + 0) xs)" for a
        unfolding m5 using that xs filled_other [OF c(1) _ c(2), of STACK_PDE a] cp by (simp add: numeral_2_eq_2)
      show "load32 (mem ?s5) (entry (xs ! 0) k) =
          (if k = STACK_PDE then page2pa (xs ! 1) OR 7 else load32 (mem s) (entry d k))" if "k < 1024" for k
        unfolding m5 filled_def using that xs c le by (simp add: load_entry_store load_entry_memset)
    qed simp
    then show "threaded s d xs 0 ?s5 \<and> pcb_table ?s5 = pcb_table s4 \<and> current ?s5 = current s4 \<and>
        pcb_base ?s5 = pcb_base s4" by simp
  next
    fix j t
    assume "j < n" and I: "threaded s d xs j t \<and> pcb_table t = pcb_table s4 \<and> current t = current s4 \<and>
        pcb_base t = pcb_base s4"
    then have "j < 1024" "page2kva x = page2kva (xs ! 1)" using that xs by auto
    then show "\<exists>t'. thread_leaf (page2kva x) j t = Inr t' \<and> threaded s d xs (Suc j) t' \<and>
        pcb_table t' = pcb_table s4 \<and> current t' = current s4 \<and> pcb_base t' = pcb_base s4"
      using threaded_step [OF fl n, of j d t] I by metis
  qed
  from this [of 1024] obtain t where "for_res (thread_leaf (page2kva x)) [0..<1024] ?s5 = Inr t"
    "threaded s d xs 1024 t" "pcb_table t = pcb_table s4" "current t = current s4" "pcb_base t = pcb_base s4"
    by auto
  then show thesis using that run s4(4-6) s1(4-6) xs by (auto simp: upd_pcb_def)
qed

lemma threaded_slots:
  assumes ok: "space_ok s d xs" and n: "1026 \<le> length xs" and t: "threaded s d xs 1024 t"
  shows "slot_frame (mem t) (xs ! 0) = thread_space xs (slot_frame (mem s) d)"
proof
  fix sl
  have np: "k < length xs \<Longrightarrow> xs ! k < npages" for k
    using space_okD(1) [OF ok] by (simp add: free_list_def)
  have dir: "tab_entry (mem t) (xs ! 0) k = (if k = STACK_PDE then Some (xs ! 1) else tab_entry (mem s) d k)"
    if "k < 1024" for k
    using that t np [of 1] n fr_page2pa [of "xs ! 1"] by (simp add: tab_entry_def threaded_def Let_def)
  have tab: "tab_entry (mem t) (xs ! 1) l = Some (xs ! (2 + l))" if "l < 1024" for l
    using that t np [of "2 + l"] n fr_page2pa [of "xs ! (2 + l)"] by (simp add: tab_entry_def threaded_def Let_def)
  have old: "tab_entry (mem t) f l = tab_entry (mem s) f l"
    if "tab_entry (mem s) d k = Some f" "k < USER_PDES" "l < 1024" for k f l
  proof -
    have "slot_frame (mem s) d (Tab k) = Some f" using that by simp
    then have "f < npages" "f \<notin> set xs" using space_okD(3,4) [OF ok] by blast+
    then have "f \<notin> set (take (2 + 1024) xs)" using in_set_takeD by fast
    then show ?thesis using t unfolding threaded_def by (intro tab_entry_cong [OF \<open>f < npages\<close> that(3)]) blast
  qed
  show "slot_frame (mem t) (xs ! 0) sl = thread_space xs (slot_frame (mem s) d) sl"
    by (cases sl) (use dir tab old in \<open>auto simp: thread_space_def split: option.splits\<close>)
qed

lemma thread_space_new:
  assumes "thread_space xs M sl = Some f"
  shows "(\<exists>k < 1026. f = xs ! k \<and> (k = 0 \<and> sl = Dir \<or> k = 1 \<and> sl = Tab STACK_PDE \<or> 2 \<le> k \<and> sl = Leaf STACK_PDE (k - 2))) \<or>
    M sl = Some f \<and> sl \<noteq> Dir"
proof (cases sl)
  case (Leaf i j)
  then show ?thesis
  proof (cases "i = STACK_PDE")
    case True
    then have "j < 1024" "f = xs ! (2 + j)" using assms Leaf by (auto simp: thread_space_def split: if_splits)
    then show ?thesis using True Leaf by (intro disjI1 exI [of _ "2 + j"]) auto
  qed (use assms in \<open>auto simp: thread_space_def\<close>)
qed (use assms in \<open>auto simp: thread_space_def split: if_splits intro!: exI [of _ 0] exI [of _ 1]\<close>)

lemma threaded_ok:
  assumes ok: "space_ok s d xs" and n: "1026 \<le> length xs" and t: "threaded s d xs 1024 t"
  shows "space_ok t (xs ! 0) (drop 1026 xs)"
proof -
  let ?M = "slot_frame (mem s) d"
  note sf = threaded_slots [OF ok n t]
  have dist: "distinct xs" using space_okD(1) [OF ok] by (simp add: free_list_def)
  have new: "xs ! k \<in> set xs" "xs ! k < npages" "xs ! k \<notin> set (drop 1026 xs)" if "k < 1026" for k
  proof -
    show "xs ! k \<in> set xs" using that n by simp
    then show "xs ! k < npages" using space_okD(1) [OF ok] by (simp add: free_list_def)
    have "xs ! k \<in> set (take 1026 xs)" using that n by (auto simp: in_set_conv_nth)
    then show "xs ! k \<notin> set (drop 1026 xs)" using set_take_disj_set_drop_if_distinct [OF dist] by fastforce
  qed
  show ?thesis unfolding space_ok_def sf
  proof (intro conjI allI impI)
    show "free_list t (drop 1026 xs)" using t by (simp add: threaded_def)
    fix a f
    assume "thread_space xs ?M a = Some f"
    from thread_space_new [OF this] consider k where "k < 1026" "f = xs ! k" | "?M a = Some f" by blast
    then have "f < npages \<and> f \<notin> set (drop 1026 xs)"
    proof cases
      case 1
      then show ?thesis using new by simp
    next
      case 2
      then show ?thesis using space_okD(3,4) [OF ok 2] in_set_dropD by fast
    qed
    then show "f < npages" and "f \<notin> set (drop 1026 xs)" by simp_all
  next
    fix a b f
    assume ab: "thread_space xs ?M a = Some f \<and> thread_space xs ?M b = Some f"
    have inj: "k = l" if "xs ! k = xs ! l" "k < 1026" "l < 1026" for k l
      using that nth_eq_iff_index_eq [OF dist, of k l] n by simp
    have old: "?M sl \<noteq> Some (xs ! k)" if "k < 1026" for sl k
      using space_okD(4) [OF ok, of sl "xs ! k"] new(1) [OF that] by blast
    let ?at = "\<lambda>k sl. k = 0 \<and> sl = Dir \<or> k = 1 \<and> sl = Tab STACK_PDE \<or> 2 \<le> k \<and> sl = Leaf STACK_PDE (k - 2)"
    have a: "(\<exists>k < 1026. f = xs ! k \<and> ?at k a) \<or> ?M a = Some f"
      and b: "(\<exists>k < 1026. f = xs ! k \<and> ?at k b) \<or> ?M b = Some f"
      using ab thread_space_new [of xs ?M a f] thread_space_new [of xs ?M b f] by blast+
    show "a = b"
    proof (cases "?M a = Some f")
      case True
      then have "?M b = Some f" using b old by blast
      then show ?thesis using True space_okD(2) [OF ok] by blast
    next
      case False
      then obtain k where k: "k < 1026" "f = xs ! k" "?at k a" using a by blast
      then have "?M b \<noteq> Some f" using old by blast
      then obtain l where l: "l < 1026" "f = xs ! l" "?at l b" using b by blast
      have "k = l" using inj k l by metis
      then show ?thesis using k(3) l(3) by auto
    qed
  qed
qed

section \<open>Properties\<close>

text \<open>
  \<open>copy\<close>, the address-space part of \<open>fork\<close>, is correct: with a free page for every page of
  the father (tables and directory included) it returns, and the child has a page directory of
  its own in which exactly the father's user addresses are mapped, to pages with the same
  contents; father and child share no page, both address spaces are well-formed, the father's
  translations are unchanged, and the 32 directory entries of the kernel are those of the
  father.
\<close>

theorem copy_correct:
  assumes "space_ok s d xs" and "cr3 (pcb s (current s)) = page2pa d"
    and "length (pcb_table s) = MAX_PCB" and "i < MAX_PCB" and "i \<noteq> current s"
    and "card (dom (slot_frame (mem s) d)) \<le> length xs"
  shows "\<exists>s' c ys. copy i s = Inr s' \<and> cr3 (pcb s' i) = page2pa c \<and>
    space_ok s' c ys \<and> space_ok s' d ys \<and>
    ran (slot_frame (mem s') c) \<inter> ran (slot_frame (mem s') d) = {} \<and>
    slot_frame (mem s') d = slot_frame (mem s) d \<and>
    (\<forall>va < KOFFSET. case page_walk (mem s) (page2pa d) va of
        None \<Rightarrow> page_walk (mem s') (page2pa c) va = None
      | Some p \<Rightarrow> \<exists>p'. page_walk (mem s') (page2pa c) va = Some p' \<and> mem s' (lin p') = mem s (lin p)) \<and>
    (\<forall>k. 768 \<le> k \<and> k < 800 \<longrightarrow> load32 (mem s') (entry c k) = load32 (mem s) (entry d k))"
proof -
  obtain s' where s': "copy i s = Inr s'" "copied s d xs (hd xs) (tabs_done USER_PDES) s'"
    "pcb_table s' = (pcb_table s)[i := (pcb s i)\<lparr>cr3 := page2pa (hd xs)\<rparr>]"
    by (rule copy_copied [OF assms])
  obtain ys where ys: "space_ok s' (hd xs) ys" "space_ok s' d ys" "slot_frame (mem s') d = slot_frame (mem s) d"
    "ran (slot_frame (mem s') (hd xs)) \<inter> ran (slot_frame (mem s') d) = {}"
    by (rule copied_separate [OF s'(2) assms(1)])
  have cr: "cr3 (pcb s' i) = page2pa (hd xs)" using s'(3) assms(3,4) by simp
  have kern: "\<forall>k. 768 \<le> k \<and> k < 800 \<longrightarrow> load32 (mem s') (entry (hd xs) k) = load32 (mem s) (entry d k)"
    using s'(2) unfolding copied_def by blast
  show ?thesis
    by (intro exI [of _ s'] exI [of _ "hd xs"] exI [of _ ys] conjI allI impI s'(1) cr ys kern [rule_format])
      (use copied_translation [OF s'(2) assms(1)] in blast)+
qed


theorem copy_correct_witness:
  "\<exists>(s :: kst) s' c p p'. copy 1 s = Inr s' \<and> cr3 (pcb s' 1) = page2pa c \<and>
     page_walk (mem s) (page2pa 256) 0x8048000 = Some p \<and>
     page_walk (mem s') (page2pa c) 0x8048000 = Some p' \<and> mem s' (lin p') = mem s (lin p)"
proof -
  obtain s :: kst and xs p where s: "space_ok s 256 xs" "cr3 (pcb s (current s)) = page2pa 256"
    "length (pcb_table s) = MAX_PCB" "current s = 0" "card (dom (slot_frame (mem s) 256)) \<le> length xs"
    "page_walk (mem s) (page2pa 256) 0x8048000 = Some p" by (rule demo_space)
  obtain s' c where r: "copy 1 s = Inr s'" "cr3 (pcb s' 1) = page2pa c"
    and w: "\<forall>va < KOFFSET. case page_walk (mem s) (page2pa 256) va of
        None \<Rightarrow> page_walk (mem s') (page2pa c) va = None
      | Some p \<Rightarrow> \<exists>p'. page_walk (mem s') (page2pa c) va = Some p' \<and> mem s' (lin p') = mem s (lin p)"
    using copy_correct [OF s(1-3) _ _ s(5), of 1] s(4) by auto
  from w [rule_format, of "0x8048000"] s(6) obtain p' where
    "page_walk (mem s') (page2pa c) 0x8048000 = Some p' \<and> mem s' (lin p') = mem s (lin p)" by auto
  then show ?thesis using r s(6) by blast
qed

text \<open>
  \<open>release\<close>, which \<open>exit\<close> calls, gives back exactly the pages of the address space:
  afterwards the free pages are those free before and every frame the process used (pages,
  tables and directory), each once; memory, the table and CR3 are unchanged. In particular the
  processor still runs on the freed page directory.
\<close>

theorem release_correct:
  assumes "space_ok s d xs" and "cr3 (pcb s (current s)) = page2pa d"
    and "\<forall>f \<in> ran (slot_frame (mem s) d). 1024 < f"
  shows "\<exists>s' zs. release s = Inr s' \<and> free_list s' zs \<and> set zs = set xs \<union> ran (slot_frame (mem s) d) \<and>
    d \<in> set zs \<and> mem s' = mem s \<and> pcb_table s' = pcb_table s \<and> cr3_reg s' = cr3_reg s"
proof -
  obtain t where t: "release s = Inr t" "freed s d xs UNIV t"
    by (rule release_freed [OF assms(1) _ assms(2)]) (use assms(3) in blast)+
  obtain zs where zs: "free_list t zs" "set zs = set xs \<union> {f. \<exists>sl \<in> UNIV. slot_frame (mem s) d sl = Some f}"
    and keep: "mem t = mem s" "pcb_table t = pcb_table s" "cr3_reg t = cr3_reg s"
    using t(2) unfolding freed_def by blast
  have ran: "set zs = set xs \<union> ran (slot_frame (mem s) d)" unfolding zs(2) ran_def by blast
  moreover have "d \<in> ran (slot_frame (mem s) d)" by (rule ranI [of _ Dir]) simp
  ultimately show ?thesis using t(1) zs(1) keep by blast
qed

theorem release_correct_witness:
  "\<exists>(s :: kst) c s' zs. release s = Inr s' \<and> cr3 (pcb s (current s)) = page2pa c \<and> free_list s' zs \<and> c \<in> set zs"
proof -
  obtain s :: kst and xs p where s: "space_ok s 256 xs" "cr3 (pcb s (current s)) = page2pa 256"
    "length (pcb_table s) = MAX_PCB" "current s = 0" "card (dom (slot_frame (mem s) 256)) \<le> length xs"
    by (rule demo_space)
  obtain t where t: "copied s 256 xs (hd xs) (tabs_done USER_PDES) t"
    "pcb_table t = (pcb_table s)[1 := (pcb s 1)\<lparr>cr3 := page2pa (hd xs)\<rparr>]"
    by (rule copy_copied [OF s(1-3) _ _ s(5), of 1]) (use s(4) in auto)
  obtain ys where ys: "space_ok t (hd xs) ys" "\<forall>f \<in> ran (slot_frame (mem t) (hd xs)). 1024 < f"
    by (rule copied_all_pages [OF t(1) s(1)])
  let ?t = "t\<lparr>current := 1\<rparr>"
  have ok: "space_ok ?t (hd xs) ys" using ys(1) by (simp add: space_ok_def free_list_def)
  have cr: "cr3 (pcb ?t (current ?t)) = page2pa (hd xs)" using t(2) s(3) by simp
  have "\<forall>f \<in> ran (slot_frame (mem ?t) (hd xs)). 1024 < f" using ys(2) by simp
  from release_correct [OF ok cr this] show ?thesis using cr by blast
qed

text \<open>
  C20: forking leaks nothing: when the child of a \<open>copy\<close> releases its address space, the free
  pages are again exactly those before, and the father's address space is untouched.
\<close>

theorem copy_release_roundtrip:
  assumes "space_ok s d xs" and "cr3 (pcb s (current s)) = page2pa d"
    and "length (pcb_table s) = MAX_PCB" and "i < MAX_PCB" and "i \<noteq> current s"
    and "card (dom (slot_frame (mem s) d)) \<le> length xs"
  shows "\<exists>s' t zs. copy i s = Inr s' \<and> release (s'\<lparr>current := i\<rparr>) = Inr t \<and> free_list t zs \<and>
    set zs = set xs \<and> space_ok t d zs \<and> slot_frame (mem t) d = slot_frame (mem s) d"
proof -
  obtain s' where s': "copy i s = Inr s'" "copied s d xs (hd xs) (tabs_done USER_PDES) s'"
    "pcb_table s' = (pcb_table s)[i := (pcb s i)\<lparr>cr3 := page2pa (hd xs)\<rparr>]"
    by (rule copy_copied [OF assms])
  obtain ys where ys: "space_ok s' (hd xs) ys" "set ys \<union> ran (slot_frame (mem s') (hd xs)) = set xs"
    "\<forall>f \<in> ran (slot_frame (mem s') (hd xs)). 1024 < f"
    by (rule copied_all_pages [OF s'(2) assms(1)])
  obtain us where sf: "slot_frame (mem s') d = slot_frame (mem s) d" by (rule copied_separate [OF s'(2) assms(1)])
  let ?s = "s'\<lparr>current := i\<rparr>"
  have ok: "space_ok ?s (hd xs) ys" using ys(1) by (simp add: space_ok_def free_list_def)
  have cr: "cr3 (pcb ?s (current ?s)) = page2pa (hd xs)" using s'(3) assms(3,4) by simp
  obtain t where t: "release ?s = Inr t" "freed ?s (hd xs) ys UNIV t"
    by (rule release_freed [OF ok _ cr]) (use ys(3) in auto)
  obtain zs where zs: "free_list t zs"
    "set zs = set ys \<union> {f. \<exists>sl \<in> UNIV. slot_frame (mem ?s) (hd xs) sl = Some f}" and m: "mem t = mem ?s"
    using t(2) unfolding freed_def by blast
  have set: "set zs = set xs" unfolding zs(2) using ys(2) by (auto simp: ran_def simp del: slot_frame.simps)
  have sft: "slot_frame (mem t) d = slot_frame (mem s) d" using m sf by simp
  have "space_ok t d zs"
    using assms(1) zs(1) unfolding space_ok_def sft set by blast
  then show ?thesis using s'(1) t(1) zs(1) set sft by blast
qed

theorem copy_release_roundtrip_witness:
  "\<exists>(s :: kst) s' t. copy 1 s = Inr s' \<and> release (s'\<lparr>current := 1\<rparr>) = Inr t"
proof -
  obtain s :: kst and xs p where s: "space_ok s 256 xs" "cr3 (pcb s (current s)) = page2pa 256"
    "length (pcb_table s) = MAX_PCB" "current s = 0" "card (dom (slot_frame (mem s) 256)) \<le> length xs"
    by (rule demo_space)
  show ?thesis using copy_release_roundtrip [OF s(1-3) _ _ s(5), of 1] s(4) by auto
qed

text \<open>
  C21: \<open>thread_copy\<close> gives a thread its own page directory and a stack region of 1024 fresh pages
  (the top 4 MB of user space); every user address below the stack region translates to the
  father's page, so the two share their data.
\<close>

theorem thread_copy_correct:
  assumes "space_ok s d xs" and "cr3 (pcb s (current s)) = page2pa d"
    and "length (pcb_table s) = MAX_PCB" and "i < MAX_PCB" and "i \<noteq> current s" and "1026 \<le> length xs"
  shows "\<exists>t c. thread_copy i s = Inr t \<and> cr3 (pcb t i) = page2pa c \<and> space_ok t c (drop 1026 xs) \<and>
    (\<forall>va < KOFFSET. page_walk (mem t) (page2pa c) va =
       (if unat (PDX va) = STACK_PDE then Some (page2pa (xs ! (2 + unat (PTX va))) + PGOFF va)
        else page_walk (mem s) (page2pa d) va))"
proof -
  obtain t where t: "thread_copy i s = Inr t" "threaded s d xs 1024 t"
    "pcb_table t = (pcb_table s)[i := (pcb s i)\<lparr>cr3 := page2pa (xs ! 0)\<rparr>]"
    by (rule thread_copy_threaded [OF assms])
  note ok = threaded_ok [OF assms(1,6) t(2)]
  note sf = threaded_slots [OF assms(1,6) t(2)]
  have c: "xs ! 0 < npages" "d < npages" using space_ok_dir [OF ok] space_ok_dir [OF assms(1)] by auto
  have "page_walk (mem t) (page2pa (xs ! 0)) va =
      (if unat (PDX va) = STACK_PDE then Some (page2pa (xs ! (2 + unat (PTX va))) + PGOFF va)
       else page_walk (mem s) (page2pa d) va)" if "va < KOFFSET" for va
    unfolding page_walk_slot [OF c(1) that] page_walk_slot [OF c(2) that] sf
    by (simp add: thread_space_def del: slot_frame.simps)
  then show ?thesis using t(1,3) ok assms(3,4) by (intro exI [of _ t] exI [of _ "xs ! 0"]) simp
qed

theorem thread_copy_correct_witness:
  "\<exists>(s :: kst) t c. thread_copy 1 s = Inr t \<and> cr3 (pcb t 1) = page2pa c \<and>
     page_walk (mem t) (page2pa c) 0x8048000 = page_walk (mem s) (page2pa 256) 0x8048000 \<and>
     page_walk (mem t) (page2pa c) 0xBFFFFFFC \<noteq> None"
proof -
  obtain s :: kst and xs p where s: "space_ok s 256 xs" "cr3 (pcb s (current s)) = page2pa 256"
    "length (pcb_table s) = MAX_PCB" "current s = 0" "1026 \<le> length xs" by (rule demo_space)
  obtain t c where t: "thread_copy 1 s = Inr t" "cr3 (pcb t 1) = page2pa c"
    and w: "\<forall>va < KOFFSET. page_walk (mem t) (page2pa c) va =
       (if unat (PDX va) = STACK_PDE then Some (page2pa (xs ! (2 + unat (PTX va))) + PGOFF va)
        else page_walk (mem s) (page2pa 256) va)"
    using thread_copy_correct [OF s(1-3) _ _ s(5), of 1] s(4) by auto
  have "unat (PDX 0x8048000) = 32" "unat (PDX 0xBFFFFFFC) = 767" by (simp_all add: PDX_def)
  then have "page_walk (mem t) (page2pa c) 0x8048000 = page_walk (mem s) (page2pa 256) 0x8048000"
    "page_walk (mem t) (page2pa c) 0xBFFFFFFC \<noteq> None"
    using w by simp_all
  then show ?thesis using t by blast
qed

lemma thread_frames_high:
  assumes "space_ok s d xs" and "threaded s d xs 1024 t" and "1026 \<le> length xs"
    and "\<forall>f \<in> ran (slot_frame (mem s) d) - {d}. 1024 < f" and "f \<in> ran (slot_frame (mem t) (xs ! 0))"
  shows "1024 < f"
proof -
  let ?M = "slot_frame (mem s) d"
  obtain sl where sl: "thread_space xs ?M sl = Some f"
    using assms(5) unfolding ran_def threaded_slots [OF assms(1,3,2)] by blast
  have xs: "\<forall>x \<in> set xs. 1024 < x" using space_okD(1) [OF assms(1)] by (auto simp: free_list_def)
  from thread_space_new [OF sl] consider k where "k < 1026" "f = xs ! k" | "?M sl = Some f" "sl \<noteq> Dir" by blast
  then show ?thesis
  proof cases
    case 1
    then show ?thesis using xs assms(3) by simp
  next
    case 2
    then have "f \<noteq> d" using space_okD(2) [OF assms(1) 2(1), of Dir] by auto
    then show ?thesis using assms(4) 2(1) ranI by fast
  qed
qed

lemma thread_keeps_father:
  assumes "space_ok s d xs" and "threaded s d xs 1024 t"
  shows "slot_frame (mem t) d = slot_frame (mem s) d"
proof (rule slot_frame_cong)
  have old: "mem t a = mem s a" if "f \<in> ran (slot_frame (mem s) d)" "frame a = f" for f a
  proof -
    have "f \<notin> set xs" using that(1) space_okD(4) [OF assms(1)] unfolding ran_def by blast
    then have "frame a \<notin> set (take (2 + 1024) xs)" using that(2) in_set_takeD by fast
    then show ?thesis using assms(2) by (simp add: threaded_def)
  qed
  show "d < npages" using space_ok_dir [OF assms(1)] by blast
  show "frame a = d \<Longrightarrow> mem t a = mem s a" for a using old ranI [of "slot_frame (mem s) d" Dir d] by simp
  show "f < npages \<and> (frame a = f \<longrightarrow> mem t a = mem s a)" if "slot_frame (mem s) d (Tab k) = Some f" for k f a
    using old [OF ranI [of "slot_frame (mem s) d", OF that]] space_okD(3) [OF assms(1) that] by blast
qed

text \<open>
  C22: when a thread exits, \<open>release\<close> frees the pages it shares with its father: every page the
  father has mapped below the stack region is on the free list, although the father's tables
  still map it, so the next allocation may hand it out a second time.
\<close>

theorem thread_exit_frees_shared:
  assumes "space_ok s d xs" and "cr3 (pcb s (current s)) = page2pa d"
    and "length (pcb_table s) = MAX_PCB" and "i < MAX_PCB" and "i \<noteq> current s" and "1026 \<le> length xs"
    and "\<forall>f \<in> ran (slot_frame (mem s) d) - {d}. 1024 < f"
  shows "\<exists>t u zs. thread_copy i s = Inr t \<and> release (t\<lparr>current := i\<rparr>) = Inr u \<and> free_list u zs \<and>
    (\<forall>va p. va < KOFFSET \<and> unat (PDX va) \<noteq> STACK_PDE \<and> page_walk (mem s) (page2pa d) va = Some p \<longrightarrow>
       page_walk (mem u) (page2pa d) va = Some p \<and> pa2page p \<in> set zs)"
proof -
  obtain t where t: "thread_copy i s = Inr t" "threaded s d xs 1024 t"
    "pcb_table t = (pcb_table s)[i := (pcb s i)\<lparr>cr3 := page2pa (xs ! 0)\<rparr>]"
    by (rule thread_copy_threaded [OF assms(1-6)])
  let ?t = "t\<lparr>current := i\<rparr>" and ?M = "slot_frame (mem s) d" and ?N = "slot_frame (mem t) (xs ! 0)"
  have ok: "space_ok ?t (xs ! 0) (drop 1026 xs)"
    using threaded_ok [OF assms(1,6) t(2)] by (simp add: space_ok_def free_list_def)
  have cr: "cr3 (pcb ?t (current ?t)) = page2pa (xs ! 0)" using t(3) assms(3,4) by simp
  obtain u where u: "release ?t = Inr u" "freed ?t (xs ! 0) (drop 1026 xs) UNIV u"
    by (rule release_freed [OF ok _ cr]) (use thread_frames_high [OF assms(1) t(2) assms(6,7)] in auto)
  obtain zs where zs: "free_list u zs" "\<And>f sl. ?N sl = Some f \<Longrightarrow> f \<in> set zs" and m: "mem u = mem t"
    using u(2) unfolding freed_def by auto
  have d: "d < npages" using space_ok_dir [OF assms(1)] by blast
  have "page_walk (mem u) (page2pa d) va = Some p \<and> pa2page p \<in> set zs"
    if va: "va < KOFFSET" "unat (PDX va) \<noteq> STACK_PDE" "page_walk (mem s) (page2pa d) va = Some p" for va p
  proof -
    obtain f where f: "?M (Leaf (unat (PDX va)) (unat (PTX va))) = Some f" "PGNUM p = of_nat f" "f < npages"
      by (rule walk_frame [OF assms(1) va(1,3)])
    have "?N (Leaf (unat (PDX va)) (unat (PTX va))) = Some f"
      unfolding threaded_slots [OF assms(1,6) t(2)] using f(1) va(2) by (simp add: thread_space_def del: slot_frame.simps)
    then have "f \<in> set zs" by (rule zs(2))
    moreover have "pa2page p = f" using f(2) npages_less [OF f(3)] by (simp add: pa2page_def)
    ultimately show ?thesis
      using va(3) unfolding page_walk_slot [OF d va(1)] m thread_keeps_father [OF assms(1) t(2)] by simp
  qed
  then show ?thesis using t(1) u(1) zs(1) by blast
qed

theorem thread_exit_frees_shared_witness:
  "\<exists>(s :: kst) t u zs p. thread_copy 1 s = Inr t \<and> release (t\<lparr>current := 1\<rparr>) = Inr u \<and> free_list u zs \<and>
     page_walk (mem u) (page2pa 256) 0x8048000 = Some p \<and> pa2page p \<in> set zs"
proof -
  obtain s :: kst and xs p where s: "space_ok s 256 xs" "cr3 (pcb s (current s)) = page2pa 256"
    "length (pcb_table s) = MAX_PCB" "current s = 0" "1026 \<le> length xs"
    "page_walk (mem s) (page2pa 256) 0x8048000 = Some p"
    "\<forall>f \<in> ran (slot_frame (mem s) 256) - {256}. 1024 < f" by (rule demo_space)
  obtain t u zs where "thread_copy 1 s = Inr t" "release (t\<lparr>current := 1\<rparr>) = Inr u" "free_list u zs"
    and w: "\<forall>va p. va < KOFFSET \<and> unat (PDX va) \<noteq> STACK_PDE \<and> page_walk (mem s) (page2pa 256) va = Some p \<longrightarrow>
       page_walk (mem u) (page2pa 256) va = Some p \<and> pa2page p \<in> set zs"
    using thread_exit_frees_shared [OF s(1-3) _ _ s(5) s(7), of 1] s(4) by auto
  moreover have "unat (PDX 0x8048000) = 32" by (simp add: PDX_def)
  then have "page_walk (mem u) (page2pa 256) 0x8048000 = Some p \<and> pa2page p \<in> set zs"
    using w [rule_format, of "0x8048000" p] s(6) by simp
  ultimately show ?thesis by blast
qed

end
