(* ===== verification/Fork.thy ===== *)
theory Fork
  imports Address_Space
begin

text \<open>
  Creating and ending processes: \<open>process_fork\<close>, \<open>create_thread\<close> and \<open>process_exit\<close> of
  \<open>kernel/src/process/pcb.c\<close>, composed of the process table (\<open>Process\<close>) and the address spaces
  (\<open>Address_Space\<close>). A \<open>struct TrapFrame\<close> is the 17 words at the top of a kernel stack; its
  members are accessed by their byte offsets.
\<close>

section \<open>Operations\<close>

abbreviation (input) TF_EBX :: u32 where "TF_EBX \<equiv> 16"
abbreviation (input) TF_EDX :: u32 where "TF_EDX \<equiv> 20"
abbreviation (input) TF_ECX :: u32 where "TF_ECX \<equiv> 24"
abbreviation (input) TF_EAX :: u32 where "TF_EAX \<equiv> 28"
abbreviation (input) TF_ES :: u32 where "TF_ES \<equiv> 32"
abbreviation (input) TF_DS :: u32 where "TF_DS \<equiv> 36"
abbreviation (input) TF_IRQ :: u32 where "TF_IRQ \<equiv> 40"
abbreviation (input) TF_ERROR_CODE :: u32 where "TF_ERROR_CODE \<equiv> 44"
abbreviation (input) TF_EIP :: u32 where "TF_EIP \<equiv> 48"
abbreviation (input) TF_CS :: u32 where "TF_CS \<equiv> 52"
abbreviation (input) TF_EFLAGS :: u32 where "TF_EFLAGS \<equiv> 56"
abbreviation (input) TF_ESP :: u32 where "TF_ESP \<equiv> 60"
abbreviation (input) TF_SS :: u32 where "TF_SS \<equiv> 64"
abbreviation (input) TF_SIZE :: u32 where "TF_SIZE \<equiv> 68"

definition set_tf :: "addr \<Rightarrow> u32 \<Rightarrow> u32 \<Rightarrow> 'a kst_scheme \<Rightarrow> 'a kst_scheme" where
  "set_tf t off v s = s\<lparr>mem := store32 (mem s) (t + off) v\<rparr>"

definition get_tf :: "addr \<Rightarrow> u32 \<Rightarrow> 'a kst_scheme \<Rightarrow> u32" where
  "get_tf t off s = load32 (mem s) (t + off)"

definition process_fork :: "'a kst_scheme \<Rightarrow> 'a kst_scheme res" where
  "process_fork s =
     (let c = current s;
          s1 = set_tf (tf (pcb s c)) TF_EAX (of_int (pid (pcb s c))) s
      in bnd (at_pcb c (\<lambda>b. b\<lparr>status := Ready\<rparr>) s1) (\<lambda>s2.
         bnd (get_pcb s2) (\<lambda>i.
         let pid = -1
         in bnd (pcb_new pid (getpid s2) i s2) (\<lambda>s3.
            bnd (process_ready i s3) (\<lambda>s4.
            bnd (copy i s4) (\<lambda>s5.
            let s6 = s5\<lparr>mem := memcpy (mem s5) (kstack s5 i) (kstack s5 (current s5)) KSTACK_SIZE\<rparr>
            in bnd (at_pcb i (\<lambda>b. b\<lparr>fcb := fcb (pcb s6 (current s6))\<rparr>) s6) (\<lambda>s7.
               let t = kstack s7 i + 4096 - TF_SIZE
               in bnd (at_pcb i (\<lambda>b. b\<lparr>tf := t\<rparr>) s7) (\<lambda>s8.
                  schedule (set_tf t TF_EAX (of_int pid) s8))))))))) "

definition create_thread :: "u32 \<Rightarrow> 'a kst_scheme \<Rightarrow> 'a kst_scheme res" where
  "create_thread func_addr s =
     bnd (get_pcb s) (\<lambda>i.
     bnd (pcb_new (-2) (getpid s) i s) (\<lambda>s1.
     bnd (process_ready i s1) (\<lambda>s2.
     bnd (thread_copy i s2) (\<lambda>s3.
       let t = kstack s3 i + 4096 - TF_SIZE;
           s4 = set_tf t TF_SS (get_tf (tf (pcb s3 (current s3))) TF_SS s3) s3;
           s5 = set_tf t TF_ESP (KOFFSET - 4) s4;
           s6 = set_tf t TF_EFLAGS 0x202 s5;
           s7 = set_tf t TF_CS (get_tf (tf (pcb s6 (current s6))) TF_CS s6) s6;
           s8 = set_tf t TF_EIP func_addr s7;
           s9 = set_tf t TF_DS (get_tf (tf (pcb s8 (current s8))) TF_DS s8) s8;
           s10 = set_tf t TF_ES (get_tf (tf (pcb s9 (current s9))) TF_ES s9) s9
       in at_pcb i (\<lambda>b. b\<lparr>tf := t\<rparr>) s10))))"

definition process_exit :: "'a kst_scheme \<Rightarrow> 'a kst_scheme res" where
  "process_exit s =
     bnd (at_pcb (current s) (\<lambda>b. b\<lparr>status := Free, pid := -1\<rparr>) s) (\<lambda>s1.
     bnd (release s1) schedule)"

section \<open>Kernel stacks and user pages\<close>

lemma set_tf_fields [simp]:
  "pcb_table (set_tf t off v s) = pcb_table s" "current (set_tf t off v s) = current s"
  "pcb_base (set_tf t off v s) = pcb_base s" "pages (set_tf t off v s) = pages s"
  "page_free_list (set_tf t off v s) = page_free_list s"
  "mem (set_tf t off v s) = store32 (mem s) (t + off) v" "cr3_reg (set_tf t off v s) = cr3_reg s"
  by (simp_all add: set_tf_def)

lemma table_ok_mem [simp]: "table_ok (s\<lparr>mem := m\<rparr>) = table_ok s"
  by (simp add: table_ok_def)

lemma table_ok_set_tf [simp]: "table_ok (set_tf t off v s) = table_ok s"
  by (simp add: set_tf_def)

text \<open>
  The process table lies outside the pages of the address space and outside the free pages, and
  does not wrap around.
\<close>

definition image_apart :: "'a kst_scheme \<Rightarrow> nat \<Rightarrow> nat list \<Rightarrow> bool" where
  "image_apart s d xs \<longleftrightarrow> unat (pcb_base s) + 426000 \<le> 2 ^ 32 \<and>
     (\<forall>a. in_region (pcb_base s) 426000 a \<longrightarrow> frame a \<notin> ran (slot_frame (mem s) d) \<and> frame a \<notin> set xs)"

lemma kstack_in_image:
  assumes "i < MAX_PCB" and "k < 4096"
  shows "in_region (pcb_base s) 426000 (kstack s i + of_nat k)"
proof -
  have eq: "kstack s i + of_nat k = pcb_base s + of_nat (4260 * i + 4 + k)" by (simp add: kstack_def)
  show ?thesis unfolding eq by (rule in_region_offset) (use assms in auto)
qed

lemma kstack_neq:
  assumes "i < MAX_PCB" "j < MAX_PCB" "i \<noteq> j" "k < 4096" "l < 4096"
  shows "kstack s i + of_nat k \<noteq> kstack s j + of_nat l"
proof
  assume "kstack s i + of_nat k = kstack s j + of_nat l"
  then have "(of_nat (4260 * i + 4 + k) :: u32) = of_nat (4260 * j + 4 + l)" by (simp add: kstack_def)
  then have "unat (of_nat (4260 * i + 4 + k) :: u32) = unat (of_nat (4260 * j + 4 + l) :: u32)"
    by (rule arg_cong)
  moreover have "unat (of_nat (4260 * i + 4 + k) :: u32) = 4260 * i + 4 + k"
    "unat (of_nat (4260 * j + 4 + l) :: u32) = 4260 * j + 4 + l"
    using assms by (intro unat_of_nat_u32; simp)+
  ultimately have eq: "4260 * i + k = 4260 * j + l" by linarith
  show False
  proof (cases "i < j")
    case True
    then have "4260 * i + 4260 \<le> 4260 * j" by simp
    then show False using eq assms(4) by simp
  next
    case False
    then have "4260 * j + 4260 \<le> 4260 * i" using assms(3) by simp
    then show False using eq assms(5) by simp
  qed
qed

text \<open>Writing outside its frames does not change an address space.\<close>

lemma space_outside:
  assumes ok: "space_ok s d xs" and m: "\<And>a. frame a \<in> ran (slot_frame (mem s) d) \<Longrightarrow> mem s' a = mem s a"
    and p: "pages s' = pages s" "page_free_list s' = page_free_list s"
  shows "slot_frame (mem s') d = slot_frame (mem s) d" and "space_ok s' d xs"
proof -
  have d: "d < npages" using space_ok_dir [OF ok] by simp
  have dr: "d \<in> ran (slot_frame (mem s) d)" by (rule ranI [of _ Dir]) simp
  show sf: "slot_frame (mem s') d = slot_frame (mem s) d"
  proof (rule slot_frame_cong [OF d])
    show "frame a = d \<Longrightarrow> mem s' a = mem s a" for a using m dr by simp
    show "f < npages \<and> (frame a = f \<longrightarrow> mem s' a = mem s a)" if "slot_frame (mem s) d (Tab k) = Some f" for k f a
    proof -
      have "f \<in> ran (slot_frame (mem s) d)" using that by (rule ranI)
      then show ?thesis using m space_okD(3) [OF ok that] by blast
    qed
  qed
  show "space_ok s' d xs" using ok free_list_cong [OF p] unfolding space_ok_def sf by simp
qed

lemma walk_outside:
  assumes ok: "space_ok s d xs" and m: "\<And>a. frame a \<in> ran (slot_frame (mem s) d) \<Longrightarrow> m' a = mem s a"
    and va: "va < KOFFSET"
  shows "page_walk m' (page2pa d) va = page_walk (mem s) (page2pa d) va"
    and "page_walk (mem s) (page2pa d) va = Some p \<Longrightarrow> m' (lin p) = mem s (lin p)"
proof -
  have d: "d < npages" using space_ok_dir [OF ok] by simp
  have "slot_frame m' d = slot_frame (mem s) d"
    using space_outside(1) [OF ok, of "s\<lparr>mem := m'\<rparr>"] m by simp
  then show "page_walk m' (page2pa d) va = page_walk (mem s) (page2pa d) va"
    unfolding page_walk_slot [OF d va] by simp
  assume w: "page_walk (mem s) (page2pa d) va = Some p"
  obtain f where f: "slot_frame (mem s) d (Leaf (unat (PDX va)) (unat (PTX va))) = Some f" "p = page2pa f + PGOFF va"
    using w unfolding page_walk_slot [OF d va] map_option_eq_Some by blast
  have fn: "f < npages" by (rule space_okD(3) [OF ok f(1)])
  have "frame (lin p) = f" unfolding f(2) lin_page [OF fn] by (rule frame_addr [OF fn PGOFF_lt])
  moreover have "f \<in> ran (slot_frame (mem s) d)" using f(1) by (rule ranI)
  ultimately show "m' (lin p) = mem s (lin p)" using m by simp
qed

lemma first_free_cong:
  "map (\<lambda>p. status p = Free) ps = map (\<lambda>p. status p = Free) qs \<Longrightarrow> first_free ps i = first_free qs i"
proof (induction ps arbitrary: qs i)
  case (Cons p ps)
  then show ?case by (cases qs) auto
qed simp

lemma get_pcb_keep:
  assumes "status (pcb s c) \<noteq> Free" and "status (f (pcb s c)) \<noteq> Free" and "c < length (pcb_table s)"
  shows "get_pcb (upd_pcb c f s) = get_pcb s"
proof -
  have "map (\<lambda>p. status p = Free) ((pcb_table s)[c := f (pcb s c)]) = map (\<lambda>p. status p = Free) (pcb_table s)"
    using assms by (intro nth_equalityI) (auto simp: nth_list_update)
  then have "first_free ((pcb_table s)[c := f (pcb s c)]) 0 = first_free (pcb_table s) 0" by (rule first_free_cong)
  then show ?thesis by (simp add: get_pcb_def upd_pcb_def)
qed

lemma get_pcb_Inr:
  assumes "get_pcb s = Inr i"
  shows "i < length (pcb_table s)" and "status (pcb s i) = Free"
  using assms first_free_Some [of "pcb_table s" 0 i] by (auto simp: get_pcb_def split: option.splits)

text \<open>The effect of copying a kernel stack.\<close>

lemma memcpy_kstack:
  assumes b: "unat (pcb_base s) + 426000 \<le> 2 ^ 32" and i: "i < MAX_PCB" "c < MAX_PCB" "i \<noteq> c"
    and m': "m' = memcpy m (kstack s i) (kstack s c) KSTACK_SIZE"
  shows "k + 4 \<le> 4096 \<Longrightarrow> load32 m' (kstack s i + of_nat k) = load32 m (kstack s c + of_nat k)"
    and "k + 4 \<le> 4096 \<Longrightarrow> load32 m' (kstack s c + of_nat k) = load32 m (kstack s c + of_nat k)"
    and "\<not> in_region (pcb_base s) 426000 a \<Longrightarrow> m' a = m a"
proof -
  have u: "unat (kstack s j) = unat (pcb_base s) + (4260 * j + 4)" if "j < MAX_PCB" for j
  proof -
    have "unat (of_nat (4260 * j + 4) :: u32) = 4260 * j + 4" using that by (intro unat_of_nat_u32) simp
    moreover have "kstack s j = pcb_base s + of_nat (4260 * j + 4)" by (simp add: kstack_def)
    ultimately show ?thesis using that b by (simp only: unat_word_ariths) simp
  qed
  have mv: "m' = moved m (kstack s i) (kstack s c) 4096"
    unfolding m' using u [OF i(1)] u [OF i(2)] b i by (subst memcpy_eq) auto
  show "k + 4 \<le> 4096 \<Longrightarrow> load32 m' (kstack s i + of_nat k) = load32 m (kstack s c + of_nat k)"
    unfolding mv by (rule load32_moved) simp_all
  have out: "4096 \<le> unat (a - kstack s i)" if "\<And>k. k < 4096 \<Longrightarrow> a \<noteq> kstack s i + of_nat k" for a
  proof (rule ccontr)
    assume "\<not> 4096 \<le> unat (a - kstack s i)"
    moreover have "a = kstack s i + of_nat (unat (a - kstack s i))" by simp
    ultimately show False using that [of "unat (a - kstack s i)"] by simp
  qed
  show "load32 m' (kstack s c + of_nat k) = load32 m (kstack s c + of_nat k)" if "k + 4 \<le> 4096"
  proof (rule load32_cong)
    fix a
    assume "in_region (kstack s c + of_nat k) 4 a"
    then obtain r where "r < 4" "a = kstack s c + of_nat (k + r)" by (auto simp: in_region_iff add.assoc)
    then have "a \<noteq> kstack s i + of_nat l" if "l < 4096" for l
      using kstack_neq [OF i(1,2,3) that, of "k + r" s] \<open>k + 4 \<le> 4096\<close> by auto
    then show "m' a = m a" unfolding mv by (intro moved_other out)
  qed
  show "m' a = m a" if "\<not> in_region (pcb_base s) 426000 a"
    unfolding mv by (intro moved_other out) (use that kstack_in_image [OF i(1)] in blast)
qed

section \<open>Fork\<close>

text \<open>
  The state in which \<open>process_fork\<close> calls \<open>schedule\<close>, step by step. \<open>s4\<close> is the state in which
  \<open>copy\<close> is called, \<open>s5\<close> the one it returns.
\<close>

definition fork_s4 :: "nat \<Rightarrow> 'a kst_scheme \<Rightarrow> 'a kst_scheme" where
  "fork_s4 i s = upd_pcb i (\<lambda>b. b\<lparr>pid := -1, ppid := pid (pcb s (current s)), sleep_time := Sleeptime,
       pcb_index := i, status := Ready, time_count := 0\<rparr>)
     (upd_pcb (current s) (\<lambda>b. b\<lparr>status := Ready\<rparr>)
       (set_tf (tf (pcb s (current s))) TF_EAX (of_int (pid (pcb s (current s)))) s))"

definition fork_s9 :: "nat \<Rightarrow> 'a kst_scheme \<Rightarrow> 'a kst_scheme" where
  "fork_s9 i s5 = set_tf (kstack s5 i + 4096 - TF_SIZE) TF_EAX (-1)
     (upd_pcb i (\<lambda>b. b\<lparr>fcb := fcb (pcb s5 (current s5)), tf := kstack s5 i + 4096 - TF_SIZE\<rparr>)
       (s5\<lparr>mem := memcpy (mem s5) (kstack s5 i) (kstack s5 (current s5)) KSTACK_SIZE\<rparr>))"

lemma process_fork_steps:
  assumes "length (pcb_table s) = MAX_PCB" and "current s < MAX_PCB" and "status (pcb s (current s)) \<noteq> Free"
    and "get_pcb s = Inr i" and cp: "copy i (fork_s4 i s) = Inr s5" and len5: "length (pcb_table s5) = MAX_PCB"
  shows "process_fork s = schedule (fork_s9 i s5)"
proof -
  let ?c = "current s" and ?s1 = "set_tf (tf (pcb s (current s))) TF_EAX (of_int (pid (pcb s (current s)))) s"
  have i: "i < MAX_PCB" "status (pcb s i) = Free" using get_pcb_Inr [OF assms(4)] assms(1) by auto
  then have ic: "i \<noteq> ?c" using assms(3) by auto
  let ?s2 = "upd_pcb ?c (\<lambda>b. b\<lparr>status := Ready\<rparr>) ?s1"
  have "get_pcb ?s2 = get_pcb ?s1" using assms by (intro get_pcb_keep) simp_all
  also have "\<dots> = Inr i" using assms(4) by (simp add: get_pcb_def)
  finally have g: "get_pcb ?s2 = Inr i" .
  have gp: "getpid ?s2 = pid (pcb s ?c)" using assms(1,2) by (simp add: getpid_def pcb_upd_pcb)
  have upd: "upd_pcb i f (upd_pcb i g u) = upd_pcb i (\<lambda>b. f (g b)) u" if "i < length (pcb_table u)"
    for f g and u :: "'a kst_scheme" using that by (simp add: upd_pcb_def)
  have len: "length (pcb_table ?s2) = MAX_PCB" using assms(1) by simp
  obtain s3 where s3: "pcb_new (-1) (getpid ?s2) i ?s2 = Inr s3" "process_ready i s3 = Inr (fork_s4 i s)"
    using i len by (simp add: pcb_new_def process_ready_def at_pcb_def gp fork_s4_def upd)
  let ?s6 = "s5\<lparr>mem := memcpy (mem s5) (kstack s5 i) (kstack s5 (current s5)) KSTACK_SIZE\<rparr>"
  have tail: "bnd (at_pcb i (\<lambda>b. b\<lparr>fcb := fcb (pcb ?s6 (current ?s6))\<rparr>) ?s6) (\<lambda>s7.
      bnd (at_pcb i (\<lambda>b. b\<lparr>tf := kstack s7 i + 4096 - TF_SIZE\<rparr>) s7) (\<lambda>s8.
        schedule (set_tf (kstack s7 i + 4096 - TF_SIZE) TF_EAX (of_int (-1)) s8))) = schedule (fork_s9 i s5)"
    using len5 i by (simp add: at_pcb_def fork_s9_def kstack_def upd)
  have "at_pcb ?c (\<lambda>b. b\<lparr>status := Ready\<rparr>) ?s1 = Inr ?s2" using assms(2) by (simp add: at_pcb_def)
  then show ?thesis
    unfolding process_fork_def Let_def using g s3 cp tail by (simp only: bnd_simps)
qed

lemma kstack_word_in_image:
  assumes "i < MAX_PCB" and "k + 4 \<le> 4096" and "in_region (kstack s i + of_nat k) 4 a"
  shows "in_region (pcb_base s) 426000 a"
proof -
  obtain r where "r < 4" "a = kstack s i + of_nat (k + r)"
    using assms(3) by (auto simp: in_region_iff add.assoc)
  then show ?thesis using kstack_in_image [OF assms(1), of "k + r" s] assms(2) by simp
qed

text \<open>Two words of the same kernel stack, or of different ones.\<close>

lemma kstack_words_disj:
  assumes "k + 4 \<le> l \<or> l + 4 \<le> k" and "k < 4096" and "l < 4096"
  shows "disj_regions (kstack s i + of_nat k) 4 (kstack s i + of_nat l) 4"
proof -
  have k: "kstack s i + of_nat l - (kstack s i + of_nat k) = of_nat l - of_nat k"
    "kstack s i + of_nat k - (kstack s i + of_nat l) = of_nat k - of_nat l" by simp_all
  have u: "unat (of_nat k :: u32) = k" "unat (of_nat l :: u32) = l" using assms by simp_all
  show ?thesis unfolding disj_regions_def k unat_sub_if_size u using assms by (auto simp: word_size)
qed

lemma kstack_words_apart:
  assumes "i < MAX_PCB" "j < MAX_PCB" "i \<noteq> j" "k + 4 \<le> 4096" "l + 4 \<le> 4096"
  shows "load32 (store32 m (kstack s i + of_nat k) v) (kstack s j + of_nat l) = load32 m (kstack s j + of_nat l)"
proof (rule load32_cong)
  fix a
  assume "in_region (kstack s j + of_nat l) 4 a"
  then obtain r where r: "r < 4" "a = kstack s j + of_nat (l + r)" by (auto simp: in_region_iff add.assoc)
  have "\<not> in_region (kstack s i + of_nat k) 4 a"
  proof
    assume "in_region (kstack s i + of_nat k) 4 a"
    then obtain q where "q < 4" "a = kstack s i + of_nat (k + q)" by (auto simp: in_region_iff add.assoc)
    then show False using kstack_neq [OF assms(1-3), of "k + q" "l + r" s] r assms(4,5) by simp
  qed
  then show "store32 m (kstack s i + of_nat k) v a = m a" by (rule store32_other)
qed

lemma fork_s4_space:
  assumes ok: "space_ok s d xs" and apart: "image_apart s d xs" and c: "current s < MAX_PCB"
    and t: "tf (pcb s (current s)) = kstack s (current s) + 4096 - TF_SIZE"
  shows "space_ok (fork_s4 i s) d xs" and "slot_frame (mem (fork_s4 i s)) d = slot_frame (mem s) d"
    and "\<not> in_region (pcb_base s) 426000 a \<Longrightarrow> mem (fork_s4 i s) a = mem s a"
    and "mem (fork_s4 i s) = store32 (mem s) (kstack s (current s) + of_nat 4056) (of_int (pid (pcb s (current s))))"
proof -
  let ?c = "current s"
  have tk: "tf (pcb s ?c) + TF_EAX = kstack s ?c + of_nat 4056" by (simp add: t)
  show m4: "mem (fork_s4 i s) = store32 (mem s) (kstack s ?c + of_nat 4056) (of_int (pid (pcb s ?c)))"
    unfolding fork_s4_def upd_pcb_fields set_tf_fields tk by (rule refl)
  show other: "mem (fork_s4 i s) a = mem s a" if "\<not> in_region (pcb_base s) 426000 a" for a
    unfolding m4 by (rule store32_other) (use that kstack_word_in_image [OF c, of 4056] in auto)
  have "mem (fork_s4 i s) a = mem s a" if "frame a \<in> ran (slot_frame (mem s) d)" for a
    using that apart other [of a] unfolding image_apart_def by blast
  then show "space_ok (fork_s4 i s) d xs" "slot_frame (mem (fork_s4 i s)) d = slot_frame (mem s) d"
    using space_outside [OF ok, of "fork_s4 i s"] by (simp_all add: fork_s4_def)
qed

lemma fork_s9_mem:
  assumes b: "unat (pcb_base s) + 426000 \<le> 2 ^ 32" "pcb_base s5 = pcb_base s" and i: "i < MAX_PCB" "current s5 < MAX_PCB" "i \<noteq> current s5"
  shows "\<not> in_region (pcb_base s) 426000 a \<Longrightarrow> mem (fork_s9 i s5) a = mem s5 a"
    and "load32 (mem (fork_s9 i s5)) (kstack s i + of_nat 4056) = -1"
    and "k + 4 \<le> 4056 \<or> 4060 \<le> k \<Longrightarrow> k + 4 \<le> 4096 \<Longrightarrow>
      load32 (mem (fork_s9 i s5)) (kstack s i + of_nat k) = load32 (mem s5) (kstack s (current s5) + of_nat k)"
    and "k + 4 \<le> 4096 \<Longrightarrow>
      load32 (mem (fork_s9 i s5)) (kstack s (current s5) + of_nat k) = load32 (mem s5) (kstack s (current s5) + of_nat k)"
proof -
  let ?c = "current s5" and ?m = "memcpy (mem s5) (kstack s i) (kstack s (current s5)) KSTACK_SIZE"
  have ks: "kstack s5 = kstack s" using b(2) by (simp add: kstack_def fun_eq_iff)
  have m9: "mem (fork_s9 i s5) = store32 ?m (kstack s i + of_nat 4056) (-1)"
    by (simp add: fork_s9_def ks add.commute)
  note cp = memcpy_kstack [OF b(1) i, of ?m "mem s5", OF refl]
  show "mem (fork_s9 i s5) a = mem s5 a" if "\<not> in_region (pcb_base s) 426000 a"
  proof -
    have "\<not> in_region (kstack s i + of_nat 4056) 4 a" using that kstack_word_in_image [OF i(1), of 4056 s a] by auto
    then show ?thesis unfolding m9 using cp(3) [OF that] by (simp add: store32_other)
  qed
  show "load32 (mem (fork_s9 i s5)) (kstack s i + of_nat 4056) = -1" unfolding m9 by (rule load32_store32)
  show "load32 (mem (fork_s9 i s5)) (kstack s i + of_nat k) = load32 (mem s5) (kstack s ?c + of_nat k)"
    if "k + 4 \<le> 4056 \<or> 4060 \<le> k" "k + 4 \<le> 4096"
  proof -
    have dj: "disj_regions (kstack s i + of_nat 4056) 4 (kstack s i + of_nat k) 4"
      by (rule kstack_words_disj) (use that in auto)
    show ?thesis unfolding m9 load32_store32_other [OF dj] by (rule cp(1)) (use that in simp)
  qed
  show "load32 (mem (fork_s9 i s5)) (kstack s ?c + of_nat k) = load32 (mem s5) (kstack s ?c + of_nat k)"
    if "k + 4 \<le> 4096"
    unfolding m9 using kstack_words_apart [OF i, of 4056 k ?m s "-1"] cp(2) that by simp
qed

lemma fork_s9_table:
  assumes s: "table_ok s" "status (pcb s (current s)) \<noteq> Free" and i: "i < 99" "i \<noteq> current s"
    and s5: "pcb_table s5 = (pcb_table (fork_s4 i s))[i := (pcb (fork_s4 i s) i)\<lparr>cr3 := v\<rparr>]" "current s5 = current s"
  shows "pcb (fork_s9 i s5) i = (pcb s i)\<lparr>pid := -1, ppid := pid (pcb s (current s)), sleep_time := Sleeptime,
      pcb_index := i, status := Ready, time_count := 0, cr3 := v, fcb := fcb (pcb s (current s)),
      tf := kstack s5 i + 4096 - TF_SIZE\<rparr>"
    and "pcb (fork_s9 i s5) (current s) = (pcb s (current s))\<lparr>status := Ready\<rparr>"
    and "j \<noteq> i \<Longrightarrow> j \<noteq> current s \<Longrightarrow> pcb (fork_s9 i s5) j = pcb s j"
    and "table_ok (fork_s9 i s5)"
proof -
  let ?c = "current s"
  have c: "?c < 99" "length (pcb_table s) = MAX_PCB" using table_okD [OF s(1)] by auto
  have t4: "pcb_table (fork_s4 i s) = (pcb_table s)[?c := (pcb s ?c)\<lparr>status := Ready\<rparr>,
      i := (pcb s i)\<lparr>pid := -1, ppid := pid (pcb s ?c), sleep_time := Sleeptime, pcb_index := i,
        status := Ready, time_count := 0\<rparr>]"
    using c i by (simp add: fork_s4_def upd_pcb_def)
  have len5: "length (pcb_table s5) = MAX_PCB" using s5(1) t4 c by simp
  have fc: "fcb (pcb s5 (current s5)) = fcb (pcb s ?c)" using s5 t4 c i by simp
  show pi: "pcb (fork_s9 i s5) i = (pcb s i)\<lparr>pid := -1, ppid := pid (pcb s ?c), sleep_time := Sleeptime,
      pcb_index := i, status := Ready, time_count := 0, cr3 := v, fcb := fcb (pcb s ?c),
      tf := kstack s5 i + 4096 - TF_SIZE\<rparr>"
  proof -
    have "pcb s5 i = (pcb s i)\<lparr>pid := -1, ppid := pid (pcb s ?c), sleep_time := Sleeptime,
        pcb_index := i, status := Ready, time_count := 0, cr3 := v\<rparr>"
      using i c s5(1) t4 by simp
    then show ?thesis using len5 i by (simp add: fork_s9_def pcb_upd_pcb fc)
  qed
  show pc: "pcb (fork_s9 i s5) ?c = (pcb s ?c)\<lparr>status := Ready\<rparr>"
    using len5 i c s5(1) t4 by (simp add: fork_s9_def pcb_upd_pcb)
  show pj: "j \<noteq> i \<Longrightarrow> j \<noteq> ?c \<Longrightarrow> pcb (fork_s9 i s5) j = pcb s j" for j
    using len5 i c s5(1) t4 by (simp add: fork_s9_def pcb_upd_pcb)
  have len9: "length (pcb_table (fork_s9 i s5)) = MAX_PCB" and cur9: "current (fork_s9 i s5) = ?c"
    using len5 s5(2) by (simp_all add: fork_s9_def)
  have cases: "j = i \<or> j = ?c \<or> j \<noteq> i \<and> j \<noteq> ?c" for j by blast
  show "table_ok (fork_s9 i s5)"
    unfolding table_ok_def
  proof (intro conjI allI impI)
    show "status (pcb (fork_s9 i s5) 99) = Free" using pj [of 99] i c table_okD(3) [OF s(1)] by simp
    show "pcb_index (pcb (fork_s9 i s5) (current (fork_s9 i s5))) = current (fork_s9 i s5)"
      using cur9 pc table_okD(5) [OF s(1)] by simp
    show "pcb_index (pcb (fork_s9 i s5) 0) = 0"
      using cases [of 0] pi pc pj [of 0] table_okD(5,6) [OF s(1)] by auto
    fix j
    assume j: "j < MAX_PCB"
    show "pcb_index (pcb (fork_s9 i s5) j) = j" if "status (pcb (fork_s9 i s5) j) \<noteq> Free"
      using cases [of j] pi pc pj [of j] that table_okD(4) [OF s(1) j] table_okD(5) [OF s(1)] by auto
    show "0 \<le> time_count (pcb (fork_s9 i s5) j)" "time_count (pcb (fork_s9 i s5) j) \<le> 10"
      using cases [of j] pi pc pj [of j] table_okD(7) [OF s(1) j] by auto
  qed (use len9 cur9 c in auto)
qed

text \<open>The assumptions under which a fork succeeds.\<close>

definition fork_ok :: "nat \<Rightarrow> nat list \<Rightarrow> nat \<Rightarrow> 'a kst_scheme \<Rightarrow> bool" where
  "fork_ok d xs i s \<longleftrightarrow> table_ok s \<and> status (pcb s (current s)) \<noteq> Free \<and> get_pcb s = Inr i \<and> i < 99 \<and>
     space_ok s d xs \<and> cr3 (pcb s (current s)) = page2pa d \<and> image_apart s d xs \<and>
     tf (pcb s (current s)) = kstack s (current s) + 4096 - TF_SIZE \<and>
     card (dom (slot_frame (mem s) d)) \<le> length xs"

lemma fork_runs:
  assumes "fork_ok d xs i s"
  obtains s5 s' where "process_fork s = Inr s'" and "schedule (fork_s9 i s5) = Inr s'"
    and "copied (fork_s4 i s) d xs (hd xs) (tabs_done USER_PDES) s5"
    and "pcb_table s5 = (pcb_table (fork_s4 i s))[i := (pcb (fork_s4 i s) i)\<lparr>cr3 := page2pa (hd xs)\<rparr>]"
    and "current s5 = current s" and "pcb_base s5 = pcb_base s" and "i \<noteq> current s" and "table_ok (fork_s9 i s5)"
proof -
  let ?c = "current s" and ?s4 = "fork_s4 i s"
  have a: "table_ok s" "status (pcb s ?c) \<noteq> Free" "get_pcb s = Inr i" "i < 99" "space_ok s d xs"
    "cr3 (pcb s ?c) = page2pa d" "image_apart s d xs" "tf (pcb s ?c) = kstack s ?c + 4096 - TF_SIZE"
    "card (dom (slot_frame (mem s) d)) \<le> length xs"
    using assms unfolding fork_ok_def by auto
  have c: "?c < MAX_PCB" "length (pcb_table s) = MAX_PCB" using table_okD [OF a(1)] by auto
  have ic: "i \<noteq> ?c" using get_pcb_Inr(2) [OF a(3)] a(2) by auto
  note sp = fork_s4_space [OF a(5,7) c(1) a(8), where i = i]
  have cr4: "cr3 (pcb ?s4 (current ?s4)) = page2pa d"
    using c a(4,6) ic by (simp add: fork_s4_def pcb_upd_pcb)
  have cur4: "current ?s4 = ?c" "pcb_base ?s4 = pcb_base s" "length (pcb_table ?s4) = MAX_PCB"
    using c by (simp_all add: fork_s4_def)
  obtain s5 where s5: "copy i ?s4 = Inr s5" "copied ?s4 d xs (hd xs) (tabs_done USER_PDES) s5"
    "pcb_table s5 = (pcb_table ?s4)[i := (pcb ?s4 i)\<lparr>cr3 := page2pa (hd xs)\<rparr>]"
    "current s5 = current ?s4" "pcb_base s5 = pcb_base ?s4"
    by (rule copy_copied [OF sp(1) cr4 cur4(3)]) (use a(4,9) ic cur4(1) sp(2) in auto)
  have ok9: "table_ok (fork_s9 i s5)"
    by (rule fork_s9_table(4) [OF a(1,2,4) ic s5(3)]) (use s5(4) cur4 in simp)
  obtain s' where s': "schedule (fork_s9 i s5) = Inr s'" by (rule table_ok_schedule [OF ok9])
  have "process_fork s = schedule (fork_s9 i s5)"
    by (rule process_fork_steps [OF c(2,1) a(2,3) s5(1)]) (use s5(3) cur4(3) in simp)
  then show thesis using that s' s5 cur4 ic ok9 by simp
qed

lemma fork_image:
  assumes f: "fork_ok d xs i s" and cp: "copied (fork_s4 i s) d xs c P s5" and c5: "current s5 = current s" "pcb_base s5 = pcb_base s" "i \<noteq> current s"
  shows "load32 (mem (fork_s9 i s5)) (kstack s i + of_nat 4056) = -1"
    and "load32 (mem (fork_s9 i s5)) (kstack s (current s) + of_nat 4056) = of_int (pid (pcb s (current s)))"
    and "k + 4 \<le> 4056 \<or> 4060 \<le> k \<Longrightarrow> k + 4 \<le> 4096 \<Longrightarrow>
      load32 (mem (fork_s9 i s5)) (kstack s i + of_nat k) = load32 (mem s) (kstack s (current s) + of_nat k)"
    and "\<not> in_region (pcb_base s) 426000 a \<Longrightarrow> mem (fork_s9 i s5) a = mem s5 a"
proof -
  let ?c = "current s"
  have a: "table_ok s" "i < 99" "space_ok s d xs" "image_apart s d xs" "tf (pcb s ?c) = kstack s ?c + 4096 - TF_SIZE"
    using f unfolding fork_ok_def by auto
  have c: "?c < MAX_PCB" using table_okD(2) [OF a(1)] by simp
  have b: "unat (pcb_base s) + 426000 \<le> 2 ^ 32" using a(4) by (simp add: image_apart_def)
  note m9 = fork_s9_mem [OF b c5(2), where i = i]
  have m4: "mem (fork_s4 i s) = store32 (mem s) (kstack s ?c + of_nat 4056) (of_int (pid (pcb s ?c)))"
    by (rule fork_s4_space(4) [OF a(3,4) c a(5)])
  have img: "load32 (mem s5) (kstack s ?c + of_nat k) = load32 (mem (fork_s4 i s)) (kstack s ?c + of_nat k)"
    if "k + 4 \<le> 4096" for k
  proof (rule load32_cong)
    fix x
    assume "in_region (kstack s ?c + of_nat k) 4 x"
    then have "in_region (pcb_base s) 426000 x" by (rule kstack_word_in_image [OF c that])
    then have "frame x \<notin> set xs" using a(4) by (simp add: image_apart_def)
    then show "mem s5 x = mem (fork_s4 i s) x" by (rule copied_old [OF cp])
  qed
  show "load32 (mem (fork_s9 i s5)) (kstack s i + of_nat 4056) = -1" using m9(2) a(2) c c5 by simp
  show "load32 (mem (fork_s9 i s5)) (kstack s ?c + of_nat 4056) = of_int (pid (pcb s ?c))"
    using m9(4) [of 4056] a(2) c c5 img [of 4056] load32_store32 [of "mem s" "kstack s ?c + of_nat 4056"] unfolding m4 by simp
  show "load32 (mem (fork_s9 i s5)) (kstack s i + of_nat k) = load32 (mem s) (kstack s ?c + of_nat k)"
    if k: "k + 4 \<le> 4056 \<or> 4060 \<le> k" "k + 4 \<le> 4096"
  proof -
    have dj: "disj_regions (kstack s ?c + of_nat 4056) 4 (kstack s ?c + of_nat k) 4"
      by (rule kstack_words_disj) (use k in auto)
    have "load32 (mem (fork_s9 i s5)) (kstack s i + of_nat k) = load32 (mem s5) (kstack s ?c + of_nat k)"
      using m9(3) [of k] a(2) c c5 k by simp
    also have "\<dots> = load32 (mem s) (kstack s ?c + of_nat k)"
      unfolding img [OF k(2)] m4 by (rule load32_store32_other [OF dj])
    finally show ?thesis .
  qed
  show "\<not> in_region (pcb_base s) 426000 a \<Longrightarrow> mem (fork_s9 i s5) a = mem s5 a" using m9(1) a(2) c c5 by simp
qed

lemma fork_pages:
  assumes f: "fork_ok d xs i s" and cp: "copied (fork_s4 i s) d xs c (tabs_done USER_PDES) s5"
    and m': "\<And>a. \<not> in_region (pcb_base s) 426000 a \<Longrightarrow> mem s' a = mem s5 a" and va: "va < KOFFSET"
  shows "case page_walk (mem s) (page2pa d) va of
      None \<Rightarrow> page_walk (mem s') (page2pa c) va = None \<and> page_walk (mem s') (page2pa d) va = None
    | Some p \<Rightarrow> page_walk (mem s') (page2pa d) va = Some p \<and> mem s' (lin p) = mem s (lin p) \<and>
        (\<exists>p'. page_walk (mem s') (page2pa c) va = Some p' \<and> mem s' (lin p') = mem s (lin p) \<and> PGNUM p' \<noteq> PGNUM p)"
proof -
  let ?s4 = "fork_s4 i s"
  have a: "table_ok s" "space_ok s d xs" "image_apart s d xs" "tf (pcb s (current s)) = kstack s (current s) + 4096 - TF_SIZE"
    using f unfolding fork_ok_def by auto
  have c: "current s < MAX_PCB" using table_okD(2) [OF a(1)] by simp
  note sp = fork_s4_space [OF a(2,3) c a(4), where i = i]
  obtain ys where ys: "space_ok s5 c ys" "space_ok s5 d ys" "slot_frame (mem s5) d = slot_frame (mem ?s4) d"
    "ran (slot_frame (mem s5) c) \<inter> ran (slot_frame (mem s5) d) = {}"
    and keep: "\<And>f a. f \<in> ran (slot_frame (mem ?s4) d) \<Longrightarrow> frame a = f \<Longrightarrow> mem s5 a = mem ?s4 a"
    using copied_separate [OF cp sp(1)] by blast
  obtain zs where zs: "set zs \<union> ran (slot_frame (mem s5) c) = set xs" by (rule copied_all_pages [OF cp sp(1)])
  have img: "\<not> in_region (pcb_base s) 426000 a" if "frame a \<in> ran (slot_frame (mem s) d) \<or> frame a \<in> set xs" for a
    using that a(3) unfolding image_apart_def by blast
  have old: "mem ?s4 a = mem s a" if "frame a \<in> ran (slot_frame (mem s) d)" for a
    using sp(3) img that by blast
  have nd: "mem s' a = mem s5 a" if "frame a \<in> ran (slot_frame (mem s5) d)" for a
    using m' img that ys(3) sp(2) by simp
  have nc: "mem s' a = mem s5 a" if "frame a \<in> ran (slot_frame (mem s5) c)" for a
    using m' img that zs by blast
  have 5: "mem s5 a = mem s a" if "frame a \<in> ran (slot_frame (mem s) d)" for a
    using keep [OF _ refl, of a] old that sp(2) by simp
  have wd: "page_walk (mem s') (page2pa d) va = page_walk (mem s5) (page2pa d) va" by (rule walk_outside(1) [OF ys(2) nd va])
  have wc: "page_walk (mem s') (page2pa c) va = page_walk (mem s5) (page2pa c) va" by (rule walk_outside(1) [OF ys(1) nc va])
  have w4: "page_walk (mem ?s4) (page2pa d) va = page_walk (mem s) (page2pa d) va" by (rule walk_outside(1) [OF a(2) old va])
  have w5: "page_walk (mem s5) (page2pa d) va = page_walk (mem s) (page2pa d) va" by (rule walk_outside(1) [OF a(2) 5 va])
  note tr = copied_translation [OF cp sp(1) va]
  show ?thesis
  proof (cases "page_walk (mem s) (page2pa d) va")
    case None
    then show ?thesis using tr w4 wc wd w5 by simp
  next
    case (Some p)
    then obtain p' where p': "page_walk (mem s5) (page2pa c) va = Some p'" "mem s5 (lin p') = mem ?s4 (lin p)"
      using tr w4 by auto
    have p5: "page_walk (mem s5) (page2pa d) va = Some p" using Some w5 by simp
    obtain f where f: "slot_frame (mem s5) d (Leaf (unat (PDX va)) (unat (PTX va))) = Some f" "PGNUM p = of_nat f" "f < npages"
      by (rule walk_frame [OF ys(2) va p5])
    obtain f' where f': "slot_frame (mem s5) c (Leaf (unat (PDX va)) (unat (PTX va))) = Some f'" "PGNUM p' = of_nat f'" "f' < npages"
      by (rule walk_frame [OF ys(1) va p'(1)])
    have "f \<in> ran (slot_frame (mem s5) d)" using f(1) by (rule ranI)
    moreover have "f' \<in> ran (slot_frame (mem s5) c)" using f'(1) by (rule ranI)
    ultimately have "f' \<noteq> f" using ys(4) by blast
    then have "PGNUM p' \<noteq> PGNUM p" using f(2,3) f'(2,3) by (simp add: of_nat_inj_npages)
    moreover have "mem s' (lin p') = mem s5 (lin p')" by (rule walk_outside(2) [OF ys(1) nc va p'(1)])
    moreover have "mem s' (lin p) = mem s5 (lin p)" by (rule walk_outside(2) [OF ys(2) nd va p5])
    moreover have "mem ?s4 (lin p) = mem s (lin p)" by (rule walk_outside(2) [OF a(2) old va Some])
    moreover have "mem s5 (lin p) = mem s (lin p)" by (rule walk_outside(2) [OF a(2) 5 va Some])
    ultimately show ?thesis using Some p' p5 wd wc by simp
  qed
qed

section \<open>A concrete state\<close>

lemma demo_fork:
  obtains s xs p where "fork_ok 256 xs 1 (s :: kst)" and "current s = 0" and "1026 \<le> length xs"
    and "page_walk (mem s) (page2pa 256) 0x8048000 = Some p"
    and "\<forall>f \<in> ran (slot_frame (mem s) 256) - {256}. 1024 < f" and "status (pcb s 3) = Ready"
proof -
  obtain s :: kst and xs p where s: "space_ok s 256 xs" "current s = 0"
    "card (dom (slot_frame (mem s) 256)) \<le> length xs" "1026 \<le> length xs"
    "page_walk (mem s) (page2pa 256) 0x8048000 = Some p" "\<forall>f \<in> ran (slot_frame (mem s) 256) - {256}. 1024 < f"
    and b: "pcb_base s = 0xC0200000" and t: "pcb_table s = table_demo[0 := (table_demo ! 0)\<lparr>cr3 := page2pa 256\<rparr>]"
    by (rule demo_space)
  let ?s = "upd_pcb 0 (\<lambda>b. b\<lparr>tf := kstack s 0 + 4096 - TF_SIZE\<rparr>) s"
  have fr: "frame a < 1024 \<and> frame a \<noteq> 256" if r: "in_region 0xC0200000 426000 a" for a
  proof -
    obtain k where k: "k < 426000" "a = 0xC0200000 + of_nat k" using r by (auto simp: in_region_iff)
    have "a - KOFFSET = of_nat (0x200000 + k)" unfolding k(2) by simp
    moreover have "unat (of_nat (0x200000 + k) :: u32) = 0x200000 + k" using k(1) by (intro unat_of_nat_u32) simp
    ultimately have "unat (a - KOFFSET) = 0x200000 + k" by metis
    then have "frame a = (0x200000 + k) div 4096" by (simp add: frame_def drop_bit_eq_div unat_div)
    moreover have "(0x200000 + k) div 4096 < 1024" using k(1) by (intro div_less_iff_less_mult [THEN iffD2]) simp_all
    moreover have "512 \<le> (0x200000 + k) div 4096" using div_le_mono [of "0x200000" "0x200000 + k" 4096] by simp
    ultimately show ?thesis by simp
  qed
  have hi: "1024 < f" if "f \<in> set xs" for f using space_okD(1) [OF s(1)] that by (auto simp: free_list_def)
  have "image_apart ?s 256 xs"
    unfolding image_apart_def using fr hi s(6) by (simp add: b) (metis Diff_iff empty_iff insertE order.asym)
  moreover have "space_ok ?s 256 xs" using s(1) by (simp add: space_ok_def free_list_def)
  moreover have "table_ok ?s"
    using s(2) t by (auto simp: table_ok_def pcb_upd_pcb nth_list_update demo_nth pcb_zero_def)
  moreover have "get_pcb ?s = Inr 1"
  proof -
    have "get_pcb ?s = get_pcb s" using s(2) t by (intro get_pcb_keep) (simp_all add: demo_nth)
    also have "first_free (pcb_table s) 0 = first_free table_demo 0"
    proof (rule first_free_cong)
      show "map (\<lambda>p. status p = Free) (pcb_table s) = map (\<lambda>p. status p = Free) table_demo"
        unfolding t by (intro nth_equalityI) (auto simp: nth_list_update)
    qed
    then have "get_pcb s = Inr 1" using demo_first_free by (simp add: get_pcb_def)
    finally show ?thesis .
  qed
  ultimately have "fork_ok 256 xs 1 ?s"
    using s(2,3) t by (simp add: fork_ok_def pcb_upd_pcb demo_nth kstack_def)
  then show thesis using that [of xs ?s p] s t by (simp add: pcb_upd_pcb demo_nth)
qed

section \<open>Properties\<close>

text \<open>
  C1: \<open>fork\<close> is correct. It returns; the child occupies the free entry, has pid -1, the father's
  pid as parent, his open files, and a trap frame equal to his except for \<open>eax\<close>, which is -1 in
  the child and his own pid in the father; the child's page directory maps exactly the father's
  user addresses, to pages with the same contents, and the father's translations and contents
  are unchanged. The table stays well-formed.
\<close>

theorem fork_correct:
  assumes "fork_ok d xs i s"
  shows "\<exists>s' c. process_fork s = Inr s' \<and> table_ok s' \<and>
    pid (pcb s' i) = -1 \<and> ppid (pcb s' i) = pid (pcb s (current s)) \<and> fcb (pcb s' i) = fcb (pcb s (current s)) \<and>
    status (pcb s' i) \<in> {Ready, Running} \<and> cr3 (pcb s' i) = page2pa c \<and>
    get_tf (tf (pcb s' i)) TF_EAX s' = -1 \<and>
    get_tf (tf (pcb s' (current s))) TF_EAX s' = of_int (pid (pcb s (current s))) \<and>
    list_all (\<lambda>off. get_tf (tf (pcb s' i)) off s' = get_tf (tf (pcb s (current s))) off s)
      [0, 4, 8, 12, 16, 20, 24, 32, 36, 40, 44, 48, 52, 56, 60, 64] \<and>
    (\<forall>va < KOFFSET. case page_walk (mem s) (page2pa d) va of
        None \<Rightarrow> page_walk (mem s') (page2pa c) va = None \<and> page_walk (mem s') (page2pa d) va = None
      | Some p \<Rightarrow> page_walk (mem s') (page2pa d) va = Some p \<and> mem s' (lin p) = mem s (lin p) \<and>
          (\<exists>p'. page_walk (mem s') (page2pa c) va = Some p' \<and> mem s' (lin p') = mem s (lin p) \<and>
             PGNUM p' \<noteq> PGNUM p))"
proof -
  let ?c = "current s"
  have a: "table_ok s" "status (pcb s ?c) \<noteq> Free" "i < 99" "tf (pcb s ?c) = kstack s ?c + 4096 - TF_SIZE"
    using assms unfolding fork_ok_def by auto
  obtain s5 s' where r: "process_fork s = Inr s'" "schedule (fork_s9 i s5) = Inr s'"
    "copied (fork_s4 i s) d xs (hd xs) (tabs_done USER_PDES) s5"
    "pcb_table s5 = (pcb_table (fork_s4 i s))[i := (pcb (fork_s4 i s) i)\<lparr>cr3 := page2pa (hd xs)\<rparr>]"
    "current s5 = current s" "pcb_base s5 = pcb_base s" "i \<noteq> current s" "table_ok (fork_s9 i s5)"
    by (rule fork_runs [OF assms])
  note t9 = fork_s9_table [OF a(1-3) r(7,4,5)] and img = fork_image [OF assms r(3,5-7)]
  note k = schedule_keeps [OF r(8,2)]
  have ks: "kstack s5 = kstack s" using r(6) by (simp add: kstack_def fun_eq_iff)
  obtain b where b: "pcb s' i = (pcb (fork_s9 i s5) i)\<lparr>status := b\<rparr>" "b = Ready \<or> b = Running"
    using k(4) [of i] t9(1) by auto
  obtain b' where b': "pcb s' ?c = (pcb (fork_s9 i s5) ?c)\<lparr>status := b'\<rparr>" using k(4) [of ?c] by blast
  have tfi: "tf (pcb s' i) = kstack s i + of_nat 4028" using b(1) t9(1) ks by simp
  have tfc: "tf (pcb s ?c) = kstack s ?c + of_nat 4028" "tf (pcb s' ?c) = kstack s ?c + of_nat 4028"
    using b' t9(2) a(4) by simp_all
  have off: "get_tf (tf (pcb s' i)) (of_nat n) s' = get_tf (tf (pcb s ?c)) (of_nat n) s"
    if "n + 4 \<le> 28 \<or> 32 \<le> n" "n + 4 \<le> 68" for n
    using img(3) [of "4028 + n"] that unfolding get_tf_def tfi tfc(1) k(1) by (simp add: add.assoc)
  have "get_tf (tf (pcb s' i)) TF_EAX s' = -1"
    using img(1) unfolding get_tf_def tfi k(1) by (simp add: add.commute)
  moreover have "get_tf (tf (pcb s' ?c)) TF_EAX s' = of_int (pid (pcb s ?c))"
    using img(2) unfolding get_tf_def tfc k(1) by (simp add: add.commute)
  moreover have "list_all (\<lambda>off. get_tf (tf (pcb s' i)) off s' = get_tf (tf (pcb s ?c)) off s)
      [0, 4, 8, 12, 16, 20, 24, 32, 36, 40, 44, 48, 52, 56, 60, 64]"
    using off [of 0] off [of 4] off [of 8] off [of 12] off [of 16] off [of 20] off [of 24] off [of 32]
      off [of 36] off [of 40] off [of 44] off [of 48] off [of 52] off [of 56] off [of 60] off [of 64] by simp
  moreover have "mem s' x = mem s5 x" if "\<not> in_region (pcb_base s) 426000 x" for x
    using img(4) [OF that] k(1) by simp
  note fork_pages [OF assms r(3) this]
  ultimately show ?thesis
    using r(1) k(3) b t9(1) by (intro exI [of _ s'] exI [of _ "hd xs"]) simp
qed

theorem fork_correct_witness:
  "\<exists>(s :: kst) s' c p p'. process_fork s = Inr s' \<and> pid (pcb s' 1) = -1 \<and> cr3 (pcb s' 1) = page2pa c \<and>
     page_walk (mem s) (page2pa 256) 0x8048000 = Some p \<and> page_walk (mem s') (page2pa c) 0x8048000 = Some p' \<and>
     mem s' (lin p') = mem s (lin p) \<and> PGNUM p' \<noteq> PGNUM p"
proof -
  obtain s :: kst and xs p where s: "fork_ok 256 xs 1 s" "current s = 0"
    "page_walk (mem s) (page2pa 256) 0x8048000 = Some p" by (rule demo_fork)
  obtain s' c where r: "process_fork s = Inr s'" "pid (pcb s' 1) = -1" "cr3 (pcb s' 1) = page2pa c"
    and w: "\<forall>va < KOFFSET. case page_walk (mem s) (page2pa 256) va of
        None \<Rightarrow> page_walk (mem s') (page2pa c) va = None \<and> page_walk (mem s') (page2pa 256) va = None
      | Some p \<Rightarrow> page_walk (mem s') (page2pa 256) va = Some p \<and> mem s' (lin p) = mem s (lin p) \<and>
          (\<exists>p'. page_walk (mem s') (page2pa c) va = Some p' \<and> mem s' (lin p') = mem s (lin p) \<and>
             PGNUM p' \<noteq> PGNUM p)"
    using fork_correct [OF s(1)] by blast
  from w [rule_format, of "0x8048000"] s(3) obtain p' where
    "page_walk (mem s') (page2pa c) 0x8048000 = Some p' \<and> mem s' (lin p') = mem s (lin p) \<and> PGNUM p' \<noteq> PGNUM p"
    by auto
  then show ?thesis using r s(3) by blast
qed



end
