(* ===== verification/File_System.thy ===== *)
theory File_System
  imports Fork Disk
begin

text \<open>
  Files: \<open>kernel/src/file_system/fs.c\<close>, over the disk driver (\<open>Disk\<close>), the string routines
  (\<open>Lib_String\<close>) and the process table. The directory and the local buffers of the functions are
  kernel memory; their addresses are parameters. A buffer argument is the address of that
  buffer in the memory the kernel sees. An index outside an array is \<open>OutOfBounds\<close>.
\<close>

section \<open>State\<close>

abbreviation (input) s_r :: int where "s_r \<equiv> 0"
abbreviation (input) s_w :: int where "s_w \<equiv> 1"
abbreviation (input) s_rw :: int where "s_rw \<equiv> 2"
abbreviation (input) s_close :: int where "s_close \<equiv> 3"
abbreviation (input) NR_DIR_ENTRY :: nat where "NR_DIR_ENTRY \<equiv> 16"
abbreviation (input) NR_INODE_ENTRY :: nat where "NR_INODE_ENTRY \<equiv> 128"
abbreviation (input) SEEK_SET :: int where "SEEK_SET \<equiv> 0"
abbreviation (input) SEEK_CUR :: int where "SEEK_CUR \<equiv> 1"
abbreviation (input) SEEK_END :: int where "SEEK_END \<equiv> 2"

record FCB =
  f_state :: int
  f_inode :: "u32 list"
  f_offset :: int
  f_count :: int

record 'd fsst = kst +
  fcb_table :: "FCB list"
  direct_at :: addr
  dev :: 'd

definition get_fcb :: "int \<Rightarrow> ('d, 'a) fsst_scheme \<Rightarrow> FCB res" where
  "get_fcb i s = (if 0 \<le> i \<and> i < int NR_FILE then Inr (fcb_table s ! nat i) else Inl OutOfBounds)"

definition upd_fcb :: "int \<Rightarrow> (FCB \<Rightarrow> FCB) \<Rightarrow> ('d, 'a) fsst_scheme \<Rightarrow> ('d, 'a) fsst_scheme res" where
  "upd_fcb i f s =
     (if 0 \<le> i \<and> i < int NR_FILE then Inr (s\<lparr>fcb_table := (fcb_table s)[nat i := f (fcb_table s ! nat i)]\<rparr>)
      else Inl OutOfBounds)"

definition cur_fd :: "int \<Rightarrow> 'a kst_scheme \<Rightarrow> int res" where
  "cur_fd fd s = (if 0 \<le> fd \<and> fd < int NR_FILE then Inr (fcb (pcb s (current s)) ! nat fd) else Inl OutOfBounds)"

definition set_fd :: "nat \<Rightarrow> int \<Rightarrow> 'a kst_scheme \<Rightarrow> 'a kst_scheme" where
  "set_fd fd v s = upd_pcb (current s) (\<lambda>b. b\<lparr>fcb := (fcb b)[fd := v]\<rparr>) s"

definition set_eax :: "int \<Rightarrow> 'a kst_scheme \<Rightarrow> 'a kst_scheme" where
  "set_eax v s = set_tf (tf (pcb s (current s))) TF_EAX (of_int v) s"

definition get_eax :: "'a kst_scheme \<Rightarrow> int" where
  "get_eax s = sint (get_tf (tf (pcb s (current s))) TF_EAX s)"

definition disk_read :: "'d ports \<Rightarrow> addr \<Rightarrow> int \<Rightarrow> int \<Rightarrow> ('d, 'a) fsst_scheme \<Rightarrow> ('d, 'a) fsst_scheme res" where
  "disk_read P a n off s =
     bnd (ret (readseg P a n off (mem s) (dev s))) (\<lambda>(m, d). Inr (s\<lparr>mem := m, dev := d\<rparr>))"

definition disk_write :: "'d ports \<Rightarrow> addr \<Rightarrow> int \<Rightarrow> int \<Rightarrow> ('d, 'a) fsst_scheme \<Rightarrow> ('d, 'a) fsst_scheme res" where
  "disk_write P a n off s = bnd (ret (writeseg P a n off (mem s) (dev s))) (\<lambda>d. Inr (s\<lparr>dev := d\<rparr>))"

text \<open>Byte offset on the disk of block \<open>n\<close> of a file, as the code computes it.\<close>

definition block :: "FCB \<Rightarrow> int \<Rightarrow> int res" where
  "block f n = (if 0 \<le> n \<and> n < int NR_INODE_ENTRY then Inr (sint (f_inode f ! nat n * 512)) else Inl OutOfBounds)"

fun first_idx :: "('b \<Rightarrow> bool) \<Rightarrow> 'b list \<Rightarrow> nat \<Rightarrow> nat option" where
  "first_idx Q [] i = None"
| "first_idx Q (x # xs) i = (if Q x then Some i else first_idx Q xs (i + 1))"

section \<open>Operations\<close>

definition file_init :: "('d, 'a) fsst_scheme \<Rightarrow> ('d, 'a) fsst_scheme" where
  "file_init s = s\<lparr>fcb_table := map (\<lambda>f. f\<lparr>f_state := s_close, f_inode := replicate NR_INODE_ENTRY 0,
     f_offset := 0, f_count := 0\<rparr>) (fcb_table s)\<rparr>"

definition file_alloc :: "('d, 'a) fsst_scheme \<Rightarrow> int \<times> ('d, 'a) fsst_scheme" where
  "file_alloc s =
     (case first_idx (\<lambda>f. f_state f = s_close) (fcb_table s) 0 of
        None \<Rightarrow> (-1, s)
      | Some i \<Rightarrow> (int i, s\<lparr>fcb_table := (fcb_table s)[i := (fcb_table s ! i)
          \<lparr>f_inode := replicate NR_INODE_ENTRY 0, f_offset := 0, f_count := 0\<rparr>]\<rparr>))"

fun dir_scan :: "mem \<Rightarrow> addr \<Rightarrow> addr \<Rightarrow> nat list \<Rightarrow> nat option res" where
  "dir_scan m name dir [] = Inr None"
| "dir_scan m name dir (i # is) =
     bnd (ret (strcmp m name (dir + of_nat (32 * i)))) (\<lambda>r.
       if r = 0 then Inr (Some i) else dir_scan m name dir is)"

text \<open>The part of \<open>open\<close> that gives the process a descriptor for the file \<open>fcb_index\<close>.\<close>

definition open_fd :: "int \<Rightarrow> ('d, 'a) fsst_scheme \<Rightarrow> ('d, 'a) fsst_scheme res" where
  "open_fd fcb_index s =
     (case first_idx (\<lambda>v. v = -1) (fcb (pcb s (current s))) 0 of
        None \<Rightarrow> Inr s
      | Some fd \<Rightarrow>
          upd_fcb fcb_index (\<lambda>f. f\<lparr>f_count := i32 (f_count f + 1)\<rparr>) (set_eax (int fd) (set_fd fd fcb_index s)))"

definition open_file :: "'d ports \<Rightarrow> addr \<Rightarrow> addr \<Rightarrow> int \<Rightarrow> ('d, 'a) fsst_scheme \<Rightarrow> (int \<times> ('d, 'a) fsst_scheme) res" where
  "open_file P inode_buf filename mode s =
     bnd (bnd (dir_scan (mem s) filename (direct_at s) [0..<NR_DIR_ENTRY]) (\<lambda>found.
       case found of
         None \<Rightarrow> Inr (set_eax (-1) s)
       | Some i \<Rightarrow>
           let inode_offset = sint (load32 (mem s) (direct_at s + of_nat (32 * i) + 28))
           in bnd (disk_read P inode_buf 512 (i32 (512 * inode_offset)) s) (\<lambda>s1.
              let inode = words_at (mem s1) inode_buf NR_INODE_ENTRY
              in case first_idx (\<lambda>f. f_state f = mode \<and> f_inode f ! 0 = inode ! 0) (fcb_table s1) 0 of
                   None \<Rightarrow>
                     let (fcb_index, s2) = file_alloc s1
                     in bnd (upd_fcb fcb_index (\<lambda>f. f\<lparr>f_state := mode, f_inode := inode, f_offset := 0,
                          f_count := i32 (f_count f + 1)\<rparr>) s2) (open_fd fcb_index)
                 | Some j \<Rightarrow>
                     (case first_idx (\<lambda>v. v \<noteq> -1 \<and> v = int j) (fcb (pcb s1 (current s1))) 0 of
                        Some fd \<Rightarrow> Inr (set_eax (int j) s1)
                      | None \<Rightarrow> open_fd (int j) s1))))
     (\<lambda>s3. Inr (get_eax s3, s3))"

text \<open>
  \<open>read\<close>. Descriptor -1 is refused before its entry of the table matters, so the access
  \<open>fcb_table[-1]\<close> of the condition has no effect.
\<close>

definition read_block :: "'d ports \<Rightarrow> addr \<Rightarrow> FCB \<Rightarrow> int \<Rightarrow> ('d, 'a) fsst_scheme \<Rightarrow> ('d, 'a) fsst_scheme res" where
  "read_block P temp_buf f n s = bnd (block f n) (\<lambda>off. disk_read P temp_buf 512 off s)"

definition read_many :: "'d ports \<Rightarrow> addr \<Rightarrow> FCB \<Rightarrow> addr \<Rightarrow> int \<Rightarrow> int \<Rightarrow> int \<Rightarrow> int \<Rightarrow> ('d, 'a) fsst_scheme \<Rightarrow> ('d, 'a) fsst_scheme res" where
  "read_many P temp_buf f buf nr start num tot s =
     bnd (read_block P temp_buf f nr s) (\<lambda>s1.
     let s2 = s1\<lparr>mem := strncpy (mem s1) buf (temp_buf + of_int start) (of_int (512 - start))\<rparr>
     in bnd (for_res (\<lambda>i u. bnd (read_block P temp_buf f i u) (\<lambda>u1.
               bnd (ret (strcpy (mem u1) (buf + of_int (512 - start + (i - nr - 1) * 512)) temp_buf)) (\<lambda>m.
                 Inr (u1\<lparr>mem := m\<rparr>)))) [nr + 1..num - 1] s2) (\<lambda>s3.
        bnd (read_block P temp_buf f num s3) (\<lambda>s4.
          Inr (s4\<lparr>mem := strncpy (mem s4) (buf + of_int (512 - start + (num - nr - 1) * 512)) temp_buf
            (of_int (tot - num * 512))\<rparr>))))"

definition read_file :: "'d ports \<Rightarrow> addr \<Rightarrow> int \<Rightarrow> addr \<Rightarrow> int \<Rightarrow> ('d, 'a) fsst_scheme \<Rightarrow> (int \<times> ('d, 'a) fsst_scheme) res" where
  "read_file P temp_buf fd buf count s =
     bnd (bnd (cur_fd fd s) (\<lambda>fcb_index.
       if fcb_index = -1 then Inr (set_eax (-1) s)
       else bnd (get_fcb fcb_index s) (\<lambda>f.
         if \<not> (f_state f = s_r \<or> f_state f = s_rw) then Inr (set_eax (-1) s)
         else
           let ch_offset = f_offset f;
               s1 = s\<lparr>mem := memset (mem s) temp_buf 0 513\<rparr>;
               nr = c_div ch_offset 512; start = c_mod ch_offset 512;
               tot = i32 (ch_offset + count); num = c_div tot 512; secno = num - nr
           in if secno = 0
              then bnd (read_block P temp_buf f nr s1) (\<lambda>s2.
                     let len = (if (of_int count :: u32) < 513 - of_int start then count else sint (513 - of_int start :: u32));
                         s3 = s2\<lparr>mem := strncpy (mem s2) buf (temp_buf + of_int start) (of_int len)\<rparr>
                     in bnd (upd_fcb fcb_index (\<lambda>f. f\<lparr>f_offset := tot\<rparr>) s3) (\<lambda>s4. Inr (set_eax len s4)))
              else bnd (read_many P temp_buf f buf nr start num tot s1) (\<lambda>s3.
                     bnd (upd_fcb fcb_index (\<lambda>f. f\<lparr>f_offset := tot\<rparr>) s3) (\<lambda>s4.
                       Inr (set_eax (i32 (tot - nr * 512 - start)) s4))))))
     (\<lambda>s5. Inr (get_eax s5, s5))"

text \<open>Reading a block, replacing a part of it and writing it back, which \<open>write\<close> does in five places.\<close>

definition patch_block :: "'d ports \<Rightarrow> addr \<Rightarrow> FCB \<Rightarrow> int \<Rightarrow> int \<Rightarrow> addr \<Rightarrow> int \<Rightarrow> ('d, 'a) fsst_scheme \<Rightarrow> ('d, 'a) fsst_scheme res" where
  "patch_block P temp_buf f n start src len s =
     bnd (block f n) (\<lambda>off.
     bnd (disk_read P temp_buf 512 off s) (\<lambda>s1.
       disk_write P temp_buf 512 off (s1\<lparr>mem := strncpy (mem s1) (temp_buf + of_int start) src (of_int len)\<rparr>)))"

definition write_file :: "'d ports \<Rightarrow> addr \<Rightarrow> int \<Rightarrow> addr \<Rightarrow> int \<Rightarrow> ('d, 'a) fsst_scheme \<Rightarrow> (int \<times> ('d, 'a) fsst_scheme) res" where
  "write_file P temp_buf fd buf count s =
     bnd (bnd (cur_fd fd s) (\<lambda>fcb_index.
       if fcb_index = -1 then Inr (set_eax (-1) s)
       else bnd (get_fcb fcb_index s) (\<lambda>f.
         if \<not> (f_state f = s_w \<or> f_state f = s_rw) then Inr (set_eax (-1) s)
         else
           let ch_offset = f_offset f;
               nr = c_div ch_offset 512; start = c_mod ch_offset 512;
               num = c_div (i32 (ch_offset + count)) 512; end = c_mod (i32 (ch_offset + count)) 512;
               rest = 512 - start
           in bnd (if count < rest then patch_block P temp_buf f nr start buf count s
                   else if i32 (count - rest) < 512
                   then bnd (patch_block P temp_buf f nr start buf rest s) (\<lambda>s1.
                          patch_block P temp_buf f (nr + 1) 0 (buf + of_int rest) (count - rest) s1)
                   else bnd (patch_block P temp_buf f nr start buf rest s) (\<lambda>s1.
                        bnd (for_res (\<lambda>i u. patch_block P temp_buf f i 0 (buf + of_int (rest + (i - nr - 1) * 512)) 512 u)
                               [nr + 1..num - 1] s1) (\<lambda>s2.
                          patch_block P temp_buf f num 0 (buf + of_int (rest + (num - nr - 1) * 512)) end s2)))
              (\<lambda>s3. bnd (upd_fcb fcb_index (\<lambda>f. f\<lparr>f_offset := i32 (f_offset f + count)\<rparr>) s3) (\<lambda>s4.
                 Inr (set_eax count s4))))))
     (\<lambda>s5. Inr (get_eax s5, s5))"

text \<open>The number of entries of the inode before the first -1.\<close>

definition used_blocks :: "FCB \<Rightarrow> nat" where
  "used_blocks f = length (takeWhile (\<lambda>b. b \<noteq> - 1) (f_inode f))"

definition lseek :: "'d ports \<Rightarrow> addr \<Rightarrow> int \<Rightarrow> int \<Rightarrow> int \<Rightarrow> ('d, 'a) fsst_scheme \<Rightarrow> (int \<times> ('d, 'a) fsst_scheme) res" where
  "lseek P end_buf fd offset whence s =
     bnd (bnd (cur_fd fd s) (\<lambda>fcb_index.
       if fcb_index = -1 then Inr (set_eax (-1) s)
       else bnd (if whence = SEEK_SET then upd_fcb fcb_index (\<lambda>f. f\<lparr>f_offset := offset\<rparr>) s
                 else if whence = SEEK_CUR then upd_fcb fcb_index (\<lambda>f. f\<lparr>f_offset := i32 (f_offset f + offset)\<rparr>) s
                 else if whence = SEEK_END
                 then bnd (get_fcb fcb_index s) (\<lambda>f.
                      let i = int (used_blocks f); f1 = f\<lparr>f_offset := 512 * i - 512\<rparr>
                      in bnd (block f1 (i - 1)) (\<lambda>off.
                         bnd (disk_read P end_buf 512 off s) (\<lambda>s1.
                         bnd (ret (strlen (mem s1) end_buf)) (\<lambda>n.
                           upd_fcb fcb_index (\<lambda>_. f1\<lparr>f_offset := i32 (f_offset f1 + (n + offset))\<rparr>) s1))))
                 else Inr s)
              (\<lambda>s2. Inr (set_eax 1 s2))))
     (\<lambda>s3. Inr (get_eax s3, s3))"

definition close_file :: "int \<Rightarrow> ('d, 'a) fsst_scheme \<Rightarrow> (int \<times> ('d, 'a) fsst_scheme) res" where
  "close_file fd s =
     bnd (bnd (cur_fd fd s) (\<lambda>fcb_index.
       if fcb_index = -1 then Inr (set_eax (-1) s)
       else bnd (upd_fcb fcb_index (\<lambda>f.
              let f1 = f\<lparr>f_count := i32 (f_count f - 1)\<rparr>
              in if f_count f1 = 0 then f1\<lparr>f_state := s_close, f_offset := 0\<rparr> else f1)
              (set_fd (nat fd) (-1) s)) (\<lambda>s1. Inr (set_eax 1 s1))))
     (\<lambda>s2. Inr (get_eax s2, s2))"

section \<open>Buffers\<close>

lemma i32_sint: "sint (of_int v :: u32) = i32 v"
  by (simp add: i32_def signed_of_int)

lemma set_eax_fields [simp]:
  "pcb_table (set_eax v s) = pcb_table s" "current (set_eax v s) = current s"
  "mem (set_eax v s) = store32 (mem s) (tf (pcb s (current s)) + TF_EAX) (of_int v)"
  by (simp_all add: set_eax_def)

lemma set_eax_files [simp]:
  "fcb_table (set_eax v s) = fcb_table s" "dev (set_eax v s) = dev s" "direct_at (set_eax v s) = direct_at s"
  by (simp_all add: set_eax_def set_tf_def)

lemma get_set_eax [simp]: "get_eax (set_eax v s) = i32 v"
  by (simp add: get_eax_def get_tf_def i32_sint)

text \<open>\<open>strncpy\<close> of \<open>n\<close> bytes stops at the first NUL and fills with zeros.\<close>

definition text_of :: "byte list \<Rightarrow> byte list" where
  "text_of zs = padded (takeWhile (\<lambda>b. b \<noteq> 0) zs) (length zs)"

lemma text_of_text: "0 \<notin> set zs \<Longrightarrow> text_of zs = zs"
proof -
  assume "0 \<notin> set zs"
  then have tw: "takeWhile (\<lambda>b. b \<noteq> 0) zs = zs" unfolding takeWhile_eq_all_conv by auto
  show ?thesis unfolding text_of_def tw by (simp add: padded_def)
qed

lemma strncpy_any:
  assumes "disj_regions dst (unat n) src (unat n)"
  shows "strncpy m dst src n = write_bytes m dst (text_of (read_bytes m src (unat n)))"
proof -
  let ?zs = "read_bytes m src (unat n)" and ?xs = "takeWhile (\<lambda>b. b \<noteq> 0) (read_bytes m src (unat n))"
  have len: "length ?xs \<le> unat n" using length_takeWhile_le [of _ ?zs] by simp
  have n: "unat n < 2 ^ 32" by (rule unat_lt_u32)
  have "strncpy_loop m dst src (unat n) = write_bytes m dst (padded ?xs (unat n))"
  proof (rule strncpy_loop_eq)
    show "unat n \<le> 2 ^ 32" using n by simp
    show "\<not> in_region dst (unat n) (src + of_nat k)" if "k < unat n" for k
      using that n assms disj_regionsD disj_regions_sym in_region_offset by (metis less_or_eq_imp_le)
    show "m (src + of_nat k) = ?xs ! k" if "k < unat n" "k < length ?xs" for k
      using that takeWhile_nth [of k "\<lambda>b. b \<noteq> 0" ?zs] by simp
    show "m (src + of_nat (length ?xs)) = 0" if "length ?xs < unat n"
      using nth_length_takeWhile [of "\<lambda>b. b \<noteq> 0" ?zs] that by simp
    show "0 \<notin> set ?xs" by (auto dest: set_takeWhileD)
  qed
  then show ?thesis by (simp add: strncpy_def text_of_def)
qed

lemma write_bytes_patch:
  assumes "i + length xs \<le> length old" and "length old \<le> 2 ^ 32"
  shows "write_bytes (write_bytes m a old) (a + of_nat i) xs =
    write_bytes m a (take i old @ xs @ drop (i + length xs) old)"
proof (cases "xs = []")
  case False
  then have i: "i < 2 ^ 32" using assms by (cases xs) auto
  show ?thesis
  proof
    fix x
    have eq: "x - (a + of_nat i) = (x - a) - of_nat i" by simp
    have u: "unat (x - a - of_nat i) = (if i \<le> unat (x - a) then unat (x - a) - i else unat (x - a) + 2 ^ 32 - i)"
      using i by (simp add: unat_sub_if_size word_size)
    have lt: "unat (x - a) < 2 ^ 32" by (rule unat_lt_u32)
    show "write_bytes (write_bytes m a old) (a + of_nat i) xs x = write_bytes m a (take i old @ xs @ drop (i + length xs) old) x"
      unfolding write_bytes_def eq u using assms lt i by (auto simp: nth_append)
  qed
qed simp

lemma read_write_inside:
  assumes "i + n \<le> length bs" and "length bs \<le> 2 ^ 32"
  shows "read_bytes (write_bytes m a bs) (a + of_nat i) n = take n (drop i bs)"
proof (rule nth_equalityI)
  fix k
  assume "k < length (read_bytes (write_bytes m a bs) (a + of_nat i) n)"
  then have "k < n" by simp
  moreover have "a + of_nat i + of_nat k = a + of_nat (i + k)" by simp
  moreover have "unat (of_nat (i + k) :: u32) = i + k" using \<open>k < n\<close> assms by (intro unat_of_nat_u32) simp
  ultimately show "read_bytes (write_bytes m a bs) (a + of_nat i) n ! k = take n (drop i bs) ! k"
    using assms by (simp add: write_bytes_def del: of_nat_add)
qed (use assms in simp)

section \<open>Blocks\<close>

definition sector_bytes :: "('d \<Rightarrow> nat \<Rightarrow> u32 list) \<Rightarrow> 'd \<Rightarrow> int \<Rightarrow> byte list" where
  "sector_bytes sec d off = bytes_of (sec d (nat (off div 512) + 1))"

text \<open>Offsets on the disk at which the driver addresses a whole sector.\<close>

definition sector_off :: "int \<Rightarrow> bool" where
  "sector_off off \<longleftrightarrow> 0 \<le> off \<and> off mod 512 = 0 \<and> off div 512 + 2 \<le> 2 ^ 28"

lemma disk_read_ok:
  assumes a: "ata P sec phase reg busy" and i: "phase (dev s) = AtaIdle" and o: "sector_off off"
    and b: "unat tb + 512 < 2 ^ 32"
  obtains d' where "disk_read P tb 512 off s = Inr (s\<lparr>mem := write_bytes (mem s) tb (sector_bytes sec (dev s) off), dev := d'\<rparr>)"
    and "sec d' = sec (dev s)" and "phase d' = AtaIdle"
proof -
  have o': "0 \<le> off" "off mod 512 = 0" "off div 512 + 1 + int 1 \<le> 2 ^ 28" using o by (auto simp: sector_off_def)
  obtain d' where d': "readseg P tb 512 off (mem s) (dev s) =
      Some (write_bytes (mem s) tb (concat (map (\<lambda>k. bytes_of (sec (dev s) (nat (off div 512) + 1 + k))) [0..<1])), d')"
    "sec d' = sec (dev s)" "phase d' = AtaIdle"
    by (rule ata.readseg_ok [OF a i o', of tb 512]) (use b in simp_all)
  then have "disk_read P tb 512 off s = Inr (s\<lparr>mem := write_bytes (mem s) tb (sector_bytes sec (dev s) off), dev := d'\<rparr>)"
    by (simp add: disk_read_def ret_def sector_bytes_def)
  then show thesis using that d'(2,3) by blast
qed

lemma disk_write_ok:
  assumes a: "ata P sec phase reg busy" and i: "phase (dev s) = AtaIdle" and o: "sector_off off"
    and b: "unat tb + 512 < 2 ^ 32"
  obtains d' where "disk_write P tb 512 off s = Inr (s\<lparr>dev := d'\<rparr>)"
    and "sector_bytes sec d' off = read_bytes (mem s) tb 512"
    and "\<forall>n. n \<noteq> nat (off div 512) + 1 \<longrightarrow> sec d' n = sec (dev s) n" and "phase d' = AtaIdle"
proof -
  have o': "0 \<le> off" "off mod 512 = 0" "off div 512 + 1 < 2 ^ 28" using o by (auto simp: sector_off_def)
  obtain d' where d': "writeseg P tb 512 off (mem s) (dev s) = Some d'"
    "sec d' = (sec (dev s))(nat (off div 512) + 1 := words_at (mem s) tb 128)" "phase d' = AtaIdle"
    by (rule ata.writeseg_ok [OF a i o' b])
  then show thesis using that [of d'] bytes_of_words_at [of 128 "mem s" tb]
    by (simp add: disk_write_def ret_def sector_bytes_def)
qed

lemma length_sector [simp]: "ata P sec phase reg busy \<Longrightarrow> length (sector_bytes sec d off) = 512"
  using ata.sec_length [of P sec phase reg busy d] by (simp add: sector_bytes_def)

lemma patch_block_ok:
  assumes a: "ata P sec phase reg busy" and i: "phase (dev s) = AtaIdle" and bl: "block f n = Inr off"
    and o: "sector_off off" and b: "unat tb + 512 < 2 ^ 32" and l: "i + length xs \<le> 512"
    and src: "read_bytes (mem s) src (length xs) = xs" "0 \<notin> set xs" and dj: "disj_regions tb 512 src (length xs)"
  obtains d' new where "patch_block P tb f n (int i) src (int (length xs)) s = Inr (s\<lparr>mem := write_bytes (mem s) tb new, dev := d'\<rparr>)"
    and "new = take i (sector_bytes sec (dev s) off) @ xs @ drop (i + length xs) (sector_bytes sec (dev s) off)"
    and "sector_bytes sec d' off = new" and "\<forall>n. n \<noteq> nat (off div 512) + 1 \<longrightarrow> sec d' n = sec (dev s) n"
    and "phase d' = AtaIdle"
proof -
  let ?old = "sector_bytes sec (dev s) off"
  let ?new = "take i ?old @ xs @ drop (i + length xs) ?old"
  obtain d1 where d1: "disk_read P tb 512 off s = Inr (s\<lparr>mem := write_bytes (mem s) tb ?old, dev := d1\<rparr>)"
    "sec d1 = sec (dev s)" "phase d1 = AtaIdle" by (rule disk_read_ok [OF a i o b])
  let ?s1 = "s\<lparr>mem := write_bytes (mem s) tb ?old, dev := d1\<rparr>"
  have lx: "length xs < 2 ^ 32" "unat (of_nat (length xs) :: u32) = length xs" using l by simp_all
  have lo: "length ?old = 512" using a by simp
  have src1: "read_bytes (mem ?s1) src (length xs) = xs"
    using read_write_bytes_other [of "length xs" tb ?old src "mem s"] dj src(1) lx lo by simp
  have "disj_regions (tb + of_nat i) (length xs) src (length xs)"
    by (rule disj_regions_sub [OF dj l]) simp
  then have cp: "strncpy (mem ?s1) (tb + of_nat i) src (of_nat (length xs)) = write_bytes (mem s) tb ?new"
    using strncpy_any [of "tb + of_nat i" "of_nat (length xs)" src "mem ?s1"] src1 lx(2) text_of_text [OF src(2)] lo l
      write_bytes_patch [of i xs ?old "mem s" tb] by simp
  let ?s2 = "?s1\<lparr>mem := write_bytes (mem s) tb ?new\<rparr>"
  obtain d2 where d2: "disk_write P tb 512 off ?s2 = Inr (?s2\<lparr>dev := d2\<rparr>)"
    "sector_bytes sec d2 off = read_bytes (mem ?s2) tb 512"
    "\<forall>n. n \<noteq> nat (off div 512) + 1 \<longrightarrow> sec d2 n = sec (dev ?s2) n" "phase d2 = AtaIdle"
    by (rule disk_write_ok [OF a _ o b, of ?s2]) (use d1(3) in simp_all)
  have "length ?new = 512" using lo l by simp
  then have "sector_bytes sec d2 off = ?new" using d2(2) read_write_bytes [of ?new "mem s" tb] by simp
  moreover have "patch_block P tb f n (int i) src (int (length xs)) s = Inr (s\<lparr>mem := write_bytes (mem s) tb ?new, dev := d2\<rparr>)"
    using bl d1(1) d2(1) cp by (simp add: patch_block_def)
  ultimately show thesis using that d2(3,4) d1(2) by simp
qed

section \<open>Reading and writing within a block\<close>

text \<open>Descriptor \<open>fd\<close> of the current process is entry \<open>k\<close> of the table of files, with file pointer \<open>pos\<close>.\<close>

definition file_at :: "int \<Rightarrow> int \<Rightarrow> int \<Rightarrow> ('d, 'a) fsst_scheme \<Rightarrow> bool" where
  "file_at fd k pos s \<longleftrightarrow> 0 \<le> fd \<and> fd < int NR_FILE \<and> fcb (pcb s (current s)) ! nat fd = k \<and>
     0 \<le> k \<and> k < int NR_FILE \<and> length (fcb_table s) = NR_FILE \<and> f_offset (fcb_table s ! nat k) = pos \<and>
     0 \<le> pos \<and> pos < 65536"

abbreviation the_fcb :: "int \<Rightarrow> ('d, 'a) fsst_scheme \<Rightarrow> FCB" where
  "the_fcb k s \<equiv> fcb_table s ! nat k"

definition eax_at :: "'a kst_scheme \<Rightarrow> addr" where
  "eax_at s = tf (pcb s (current s)) + TF_EAX"

definition apart :: "addr \<Rightarrow> addr \<Rightarrow> nat \<Rightarrow> 'a kst_scheme \<Rightarrow> bool" where
  "apart tb buf n s \<longleftrightarrow> unat tb + 513 < 2 ^ 32 \<and> disj_regions tb 512 buf n \<and> disj_regions (eax_at s) 4 buf n"

lemma block_arith:
  assumes "0 \<le> pos" and "pos mod 512 + int n < 512"
  shows "(pos + int n) div 512 = pos div 512"
proof -
  have m: "0 \<le> pos mod 512" by simp
  then have n: "int n div 512 = 0" "int n mod 512 = int n" "(pos mod 512 + int n) div 512 = 0"
    using assms(2) by (simp_all add: div_pos_pos_trivial mod_pos_pos_trivial)
  show ?thesis unfolding div_add1_eq [of pos "int n" 512] n by simp
qed

lemma read_bytes_eax:
  assumes "disj_regions e 4 buf n" and "n \<le> 2 ^ 32"
  shows "read_bytes (store32 m e v) buf n = read_bytes m buf n"
  using read_write_bytes_other [of n e "word_bytes v" buf m] assms by (simp add: store32_write_bytes)

lemma read_file_ok:
  assumes a: "ata P sec phase reg busy" and i: "phase (dev s) = AtaIdle" and f: "file_at fd k pos s"
    and st: "f_state (the_fcb k s) \<in> {s_r, s_rw}" and n: "pos mod 512 + int n < 512"
    and bl: "block (the_fcb k s) (pos div 512) = Inr off" and so: "sector_off off" and ap: "apart tb buf n s"
  obtains s' where "read_file P tb fd buf (int n) s = Inr (int n, s')"
    and "read_bytes (mem s') buf n = text_of (take n (drop (nat (pos mod 512)) (sector_bytes sec (dev s) off)))"
    and "fcb_table s' = (fcb_table s)[nat k := (the_fcb k s)\<lparr>f_offset := pos + int n\<rparr>]"
    and "sec (dev s') = sec (dev s)" and "phase (dev s') = AtaIdle"
proof -
  have pos: "0 \<le> pos" "pos < 65536" "f_offset (the_fcb k s) = pos" and k: "0 \<le> k" "k < 32" "k \<noteq> -1" "length (fcb_table s) = 32"
    and fd: "cur_fd fd s = Inr k"
    using f by (auto simp: file_at_def cur_fd_def)
  let ?start = "pos mod 512" and ?s1 = "s\<lparr>mem := memset (mem s) tb 0 513\<rparr>" and ?b = "sector_bytes sec (dev s) off"
  obtain d' where d': "disk_read P tb 512 off ?s1 = Inr (?s1\<lparr>mem := write_bytes (mem ?s1) tb (sector_bytes sec (dev ?s1) off), dev := d'\<rparr>)"
    "sec d' = sec (dev ?s1)" "phase d' = AtaIdle"
    by (rule disk_read_ok [OF a _ so, of ?s1 tb]) (use i ap in \<open>simp_all add: apart_def\<close>)
  let ?m = "write_bytes (mem ?s1) tb ?b"
  let ?s2 = "s\<lparr>mem := ?m, dev := d'\<rparr>"
  have rb: "read_block P tb (the_fcb k s) (pos div 512) ?s1 = Inr ?s2" using bl d'(1) by (simp add: read_block_def)
  obtain st where st': "st = nat ?start" "int st = ?start" using pos(1) by simp
  have stn: "st + n < 512" using n st'(2) by linarith
  have nn: "unat (of_nat n :: u32) = n" using stn by simp
  have lb: "length ?b = 512" using a by simp
  have dj: "disj_regions buf n (tb + of_nat st) n"
    using disj_regions_sub [of tb 512 buf n st n] ap stn disj_regions_sym by (auto simp: apart_def)
  let ?m3 = "strncpy ?m buf (tb + of_int ?start) (of_int (int n))"
  have m3: "?m3 = write_bytes ?m buf (text_of (take n (drop st ?b)))"
    using strncpy_any [of buf "of_nat n" "tb + of_nat st" ?m] dj nn read_write_inside [of st n ?b "mem ?s1" tb] lb stn
    by (simp add: st'(2) [symmetric])
  have len: "(of_int (int n) :: u32) < 513 - of_int ?start"
  proof -
    have "513 - of_int ?start = (of_nat (513 - st) :: u32)" using stn by (simp add: st'(2) [symmetric] of_nat_diff)
    moreover have "unat (of_nat (513 - st) :: u32) = 513 - st" by (rule unat_of_nat_u32) simp
    ultimately show ?thesis using stn nn by (simp add: word_less_nat_alt)
  qed
  let ?s3 = "s\<lparr>dev := d', mem := ?m3, fcb_table := (fcb_table s)[nat k := (the_fcb k s)\<lparr>f_offset := pos + int n\<rparr>]\<rparr>"
  have "c_div pos 512 = pos div 512" "c_mod pos 512 = pos mod 512" "i32 (pos + int n) = pos + int n" "c_div (pos + int n) 512 = pos div 512"
    using pos stn block_arith [OF pos(1) n] by (auto simp: c_div_nonneg c_mod_nonneg i32_id)
  then have run: "read_file P tb fd buf (int n) s = Inr (int n, set_eax (int n) ?s3)"
    using fd k pos st rb len stn by (auto simp: read_file_def get_fcb_def upd_fcb_def i32_id Let_def)
  have lt: "length (text_of (take n (drop st ?b))) = n" using lb stn by (simp add: text_of_def)
  then have "read_bytes ?m3 buf n = text_of (take n (drop st ?b))"
    unfolding m3 using read_write_bytes [of "text_of (take n (drop st ?b))" ?m buf] stn by simp
  then have "read_bytes (mem (set_eax (int n) ?s3)) buf n = text_of (take n (drop st ?b))"
    using read_bytes_eax ap stn by (simp add: apart_def eax_at_def)
  then show thesis using that [OF run] d'(2,3) st'(1) by simp
qed

lemma write_file_ok:
  assumes a: "ata P sec phase reg busy" and i: "phase (dev s) = AtaIdle" and f: "file_at fd k pos s"
    and st: "f_state (the_fcb k s) \<in> {s_w, s_rw}" and n: "pos mod 512 + int (length xs) < 512"
    and bl: "block (the_fcb k s) (pos div 512) = Inr off" and so: "sector_off off" and ap: "apart tb buf (length xs) s"
    and src: "read_bytes (mem s) buf (length xs) = xs" "0 \<notin> set xs"
  obtains s' where "write_file P tb fd buf (int (length xs)) s = Inr (int (length xs), s')"
    and "sector_bytes sec (dev s') off = take (nat (pos mod 512)) (sector_bytes sec (dev s) off) @ xs @
      drop (nat (pos mod 512) + length xs) (sector_bytes sec (dev s) off)"
    and "\<forall>j. j \<noteq> nat (off div 512) + 1 \<longrightarrow> sec (dev s') j = sec (dev s) j"
    and "fcb_table s' = (fcb_table s)[nat k := (the_fcb k s)\<lparr>f_offset := pos + int (length xs)\<rparr>]"
    and "phase (dev s') = AtaIdle" and "pcb_table s' = pcb_table s" and "current s' = current s"
proof -
  have pos: "0 \<le> pos" "pos < 65536" "f_offset (the_fcb k s) = pos" and k: "0 \<le> k" "k < 32" "k \<noteq> -1" "length (fcb_table s) = 32"
    and fd: "cur_fd fd s = Inr k"
    using f by (auto simp: file_at_def cur_fd_def)
  let ?start = "pos mod 512" and ?n = "int (length xs)"
  obtain st where st': "st = nat ?start" "int st = ?start" using pos(1) by simp
  have stn: "st + length xs \<le> 512" using n st'(2) by linarith
  have tb: "unat tb + 512 < 2 ^ 32" "disj_regions tb 512 buf (length xs)" using ap by (auto simp: apart_def)
  obtain d' new where p: "patch_block P tb (the_fcb k s) (pos div 512) (int st) buf ?n s = Inr (s\<lparr>mem := write_bytes (mem s) tb new, dev := d'\<rparr>)"
    "new = take st (sector_bytes sec (dev s) off) @ xs @ drop (st + length xs) (sector_bytes sec (dev s) off)"
    "sector_bytes sec d' off = new" "\<forall>n. n \<noteq> nat (off div 512) + 1 \<longrightarrow> sec d' n = sec (dev s) n" "phase d' = AtaIdle"
    by (rule patch_block_ok [OF a i bl so tb(1) stn src tb(2)])
  let ?s3 = "s\<lparr>mem := write_bytes (mem s) tb new, dev := d', fcb_table := (fcb_table s)[nat k := (the_fcb k s)\<lparr>f_offset := pos + ?n\<rparr>]\<rparr>"
  have "c_div pos 512 = pos div 512" "c_mod pos 512 = pos mod 512" "i32 (pos + ?n) = pos + ?n" "?n < 512 - ?start" "i32 ?n = ?n"
    using pos n stn by (auto simp: c_div_nonneg c_mod_nonneg i32_id)
  then have run: "write_file P tb fd buf ?n s = Inr (?n, set_eax ?n ?s3)"
    using fd k pos st p(1) st'(2) by (auto simp: write_file_def get_fcb_def upd_fcb_def Let_def)
  show thesis by (rule that [OF run]) (use p st'(1) in simp_all)
qed

section \<open>Opening and closing\<close>

lemma first_idx_Some: "first_idx Q xs i = Some k \<Longrightarrow> i \<le> k \<and> k < i + length xs \<and> Q (xs ! (k - i))"
proof (induction xs arbitrary: i)
  case (Cons x xs)
  show ?case
  proof (cases "Q x")
    case False
    then have "i + 1 \<le> k \<and> k < i + 1 + length xs \<and> Q (xs ! (k - (i + 1)))"
      using Cons.IH [of "i + 1"] Cons.prems by simp
    moreover from this have "k - i = Suc (k - (i + 1))" by linarith
    ultimately show ?thesis by auto
  qed (use Cons.prems in simp)
qed simp

lemma first_idx_None: "\<forall>x \<in> set xs. \<not> Q x \<Longrightarrow> first_idx Q xs i = None"
  by (induction xs arbitrary: i) simp_all

lemma set_fd_fields [simp]:
  "current (set_fd fd v s) = current s" "mem (set_fd fd v s) = mem s" "length (pcb_table (set_fd fd v s)) = length (pcb_table s)"
  by (simp_all add: set_fd_def)

lemma set_fd_files [simp]:
  "fcb_table (set_fd fd v s) = fcb_table s" "dev (set_fd fd v s) = dev s" "direct_at (set_fd fd v s) = direct_at s"
  by (simp_all add: set_fd_def upd_pcb_def)

lemma pcb_set_fd:
  "current s < length (pcb_table s) \<Longrightarrow> pcb (set_fd fd v s) j =
     (if j = current s then (pcb s j)\<lparr>fcb := (fcb (pcb s j))[fd := v]\<rparr> else pcb s j)"
  by (auto simp: set_fd_def pcb_upd_pcb)

text \<open>What a successful \<open>open\<close> of a file that is not yet open does.\<close>

lemma open_fresh:
  assumes a: "ata P sec phase reg busy" and id: "phase (dev s) = AtaIdle"
    and dir: "dir_scan (mem s) filename (direct_at s) [0..<NR_DIR_ENTRY] = Inr (Some i)"
    and ino: "off = i32 (512 * sint (load32 (mem s) (direct_at s + of_nat (32 * i) + 28)))" "sector_off off"
    and ib: "unat ib + 512 < 2 ^ 32" and new: "\<forall>f \<in> set (fcb_table s). f_state f \<noteq> mode"
    and free: "first_idx (\<lambda>f. f_state f = s_close) (fcb_table s) 0 = Some j"
    and fd: "first_idx (\<lambda>v. v = -1) (fcb (pcb s (current s))) 0 = Some fd"
    and len: "length (fcb_table s) = NR_FILE" "length (fcb (pcb s (current s))) = NR_FILE" "current s < length (pcb_table s)"
  obtains s1 where "open_file P ib filename mode s = Inr (int fd, s1)"
    and "fcb (pcb s1 (current s1)) = (fcb (pcb s (current s)))[fd := int j]" and "fd < NR_FILE" and "j < NR_FILE"
    and "f_state (fcb_table s1 ! j) = mode" and "f_count (fcb_table s1 ! j) = 2" and "f_offset (fcb_table s1 ! j) = 0"
    and "length (fcb_table s1) = NR_FILE" and "current s1 < length (pcb_table s1)"
proof -
  obtain d' where d': "disk_read P ib 512 off s = Inr (s\<lparr>mem := write_bytes (mem s) ib (sector_bytes sec (dev s) off), dev := d'\<rparr>)"
    by (rule disk_read_ok [OF a id ino(2) ib])
  let ?s1 = "s\<lparr>mem := write_bytes (mem s) ib (sector_bytes sec (dev s) off), dev := d'\<rparr>"
  let ?inode = "words_at (mem ?s1) ib NR_INODE_ENTRY"
  have j: "j < 32" using first_idx_Some [OF free] len(1) by simp
  have f: "fd < 32" using first_idx_Some [OF fd] len(2) by simp
  have none: "first_idx (\<lambda>f. f_state f = mode \<and> f_inode f ! 0 = ?inode ! 0) (fcb_table ?s1) 0 = None"
    by (rule first_idx_None) (use new in simp)
  let ?fcb = "(fcb_table s ! j)\<lparr>f_state := mode, f_inode := ?inode, f_offset := 0, f_count := 1\<rparr>"
  let ?s2 = "?s1\<lparr>fcb_table := (fcb_table s)[j := ?fcb]\<rparr>"
  let ?s3 = "set_eax (int fd) (set_fd fd (int j) ?s2)"
  let ?s4 = "?s3\<lparr>fcb_table := (fcb_table s)[j := ?fcb\<lparr>f_count := 2\<rparr>]\<rparr>"
  have i: "i32 1 = 1" "i32 2 = 2" "i32 (int fd) = int fd" using f by (auto simp: i32_id)
  have al: "file_alloc ?s1 = (int j, ?s1\<lparr>fcb_table := (fcb_table s)[j := (fcb_table s ! j)
      \<lparr>f_inode := replicate NR_INODE_ENTRY 0, f_offset := 0, f_count := 0\<rparr>]\<rparr>)"
    using free by (simp add: file_alloc_def)
  have up: "upd_fcb (int j) (\<lambda>f. f\<lparr>f_state := mode, f_inode := ?inode, f_offset := 0, f_count := i32 (f_count f + 1)\<rparr>)
      (?s1\<lparr>fcb_table := (fcb_table s)[j := (fcb_table s ! j)
      \<lparr>f_inode := replicate NR_INODE_ENTRY 0, f_offset := 0, f_count := 0\<rparr>]\<rparr>) = Inr ?s2"
    using j len(1) i by (simp add: upd_fcb_def)
  have of: "open_fd (int j) ?s2 = Inr ?s4"
    using fd j len(1) i by (simp add: open_fd_def upd_fcb_def)
  have ge: "get_eax ?s4 = int fd" using get_set_eax [of "int fd" "set_fd fd (int j) ?s2"] i by (simp add: get_eax_def get_tf_def)
  have run: "open_file P ib filename mode s = Inr (int fd, ?s4)"
    unfolding open_file_def dir
    by (simp only: bnd_simps option.case Let_def ino(1) [symmetric] d' none al up of ge prod.case)
  have "fcb (pcb ?s4 (current ?s4)) = (fcb (pcb s (current s)))[fd := int j]" using len(3) by (simp add: pcb_set_fd)
  then show thesis by (rule that [OF run]) (use f j len in simp_all)
qed

section \<open>A concrete state\<close>

text \<open>
  Descriptor 0 of the running process is a file whose first block is block 1000; the directory
  names a file \<open>a\<close> with its inode in block 2.
\<close>

definition fs_demo :: "ata_dev fsst" where
  "fs_demo = \<lparr>pages = (\<lambda>_. \<lparr>pp_link = None, pp_ref = 0\<rparr>), page_free_list = None,
     mem = (\<lambda>_. 0)(0xC0400000 := 97, 0xC040001C := 2, 0xC0500000 := 104, 0xC0500001 := 105, 0xC0500100 := 97),
     pcb_table = table_demo[0 := (table_demo ! 0)\<lparr>fcb := (replicate NR_FILE (-1))[0 := 0], tf := 0xC0300000\<rparr>],
     pid_count = 1, current = 0, tss = \<lparr>esp0 = 0, ss0 = 16\<rparr>, cr3_reg = 0,
     IF = False, time_tick = 0, sem_count = 0, pcb_base = 0xC0200000,
     fcb_table = (replicate NR_FILE \<lparr>f_state = s_close, f_inode = replicate NR_INODE_ENTRY 0, f_offset = 0, f_count = 0\<rparr>)
       [0 := \<lparr>f_state = s_rw, f_inode = replicate NR_INODE_ENTRY 1000, f_offset = 0, f_count = 1\<rparr>],
     direct_at = 0xC0400000, dev = ata_zero\<rparr>"

lemma fs_demo_ok:
  "ata_ph (dev fs_demo) = AtaIdle" "file_at 0 0 0 fs_demo" "f_state (the_fcb 0 fs_demo) = s_rw"
  "block (the_fcb 0 fs_demo) (0 div 512) = Inr 512000" "sector_off 512000"
  "apart 0xC0600000 0xC0500000 2 fs_demo" "apart 0xC0600000 0xC0700000 2 fs_demo"
  "read_bytes (mem fs_demo) 0xC0500000 2 = [104, 105]"
proof -
  have two: "[0..<2] = [0, 1 :: nat]" by (simp add: numeral_2_eq_2)
  show "read_bytes (mem fs_demo) 0xC0500000 2 = [104, 105]" by (simp add: read_bytes_def fs_demo_def two)
qed (simp_all add: fs_demo_def ata_zero_def file_at_def block_def sector_off_def apart_def disj_regions_def eax_at_def)

section \<open>Properties\<close>

text \<open>
  C33: \<open>read\<close> of bytes that lie in one block returns their number, advances the file pointer,
  changes no sector and delivers the bytes up to the first NUL, then zeros: a text comes back as
  it is, binary data is cut at its first zero byte.
\<close>

theorem read_delivers_text:
  assumes "ata P sec phase reg busy" and "phase (dev s) = AtaIdle" and "file_at fd k pos s"
    and "f_state (the_fcb k s) \<in> {s_r, s_rw}" and "pos mod 512 + int n < 512"
    and "block (the_fcb k s) (pos div 512) = Inr off" and "sector_off off" and "apart tb buf n s"
  shows "\<exists>s'. read_file P tb fd buf (int n) s = Inr (int n, s') \<and>
    read_bytes (mem s') buf n = text_of (take n (drop (nat (pos mod 512)) (sector_bytes sec (dev s) off))) \<and>
    f_offset (the_fcb k s') = pos + int n \<and> sec (dev s') = sec (dev s)"
proof -
  have k: "nat k < length (fcb_table s)" using assms(3) unfolding file_at_def by linarith
  show ?thesis using read_file_ok [OF assms] k by (metis nth_list_update_eq FCB.select_convs(3) FCB.surjective FCB.update_convs(3))
qed

theorem read_delivers_text_witness:
  "\<exists>s'. read_file ata_ports 0xC0600000 0 0xC0700000 (int 2) fs_demo = Inr (int 2, s') \<and> f_offset (the_fcb 0 s') = 2"
  using read_delivers_text [OF disk.ata_axioms fs_demo_ok(1,2) _ _ fs_demo_ok(4,5,7)] fs_demo_ok(3) by auto



text \<open>
  C34: opening a file counts twice: the first \<open>open\<close> of a file leaves its use count at 2, so the
  matching \<open>close\<close> takes the descriptor away but never frees the entry of the table of files;
  32 such pairs use the table up.
\<close>

theorem open_close_leaks:
  assumes "ata P sec phase reg busy" and "phase (dev s) = AtaIdle"
    and "dir_scan (mem s) filename (direct_at s) [0..<NR_DIR_ENTRY] = Inr (Some i)"
    and "off = i32 (512 * sint (load32 (mem s) (direct_at s + of_nat (32 * i) + 28)))" and "sector_off off"
    and "unat ib + 512 < 2 ^ 32" and "\<forall>f \<in> set (fcb_table s). f_state f \<noteq> mode"
    and "first_idx (\<lambda>f. f_state f = s_close) (fcb_table s) 0 = Some j"
    and "first_idx (\<lambda>v. v = -1) (fcb (pcb s (current s))) 0 = Some fd"
    and "length (fcb_table s) = NR_FILE" and "length (fcb (pcb s (current s))) = NR_FILE" and "current s < length (pcb_table s)"
  shows "\<exists>s1 s2. open_file P ib filename mode s = Inr (int fd, s1) \<and> fcb (pcb s1 (current s1)) ! fd = int j \<and>
    f_state (fcb_table s1 ! j) = mode \<and> f_offset (fcb_table s1 ! j) = 0 \<and>
    close_file (int fd) s1 = Inr (1, s2) \<and> fcb (pcb s2 (current s2)) ! fd = -1 \<and>
    f_state (fcb_table s2 ! j) = mode \<and> f_count (fcb_table s2 ! j) = 1"
proof -
  obtain s1 where s1: "open_file P ib filename mode s = Inr (int fd, s1)"
    "fcb (pcb s1 (current s1)) = (fcb (pcb s (current s)))[fd := int j]" "fd < NR_FILE" "j < NR_FILE"
    "f_state (fcb_table s1 ! j) = mode" "f_count (fcb_table s1 ! j) = 2" "f_offset (fcb_table s1 ! j) = 0"
    "length (fcb_table s1) = NR_FILE" "current s1 < length (pcb_table s1)"
    by (rule open_fresh [OF assms])
  have fd: "fcb (pcb s1 (current s1)) ! fd = int j" using s1(2,3) assms(11) by simp
  have i: "i32 1 = 1" by (simp add: i32_id)
  let ?s2 = "set_eax 1 ((set_fd fd (-1) s1)\<lparr>fcb_table := (fcb_table s1)[j := (fcb_table s1 ! j)\<lparr>f_count := 1\<rparr>]\<rparr>)"
  have "close_file (int fd) s1 = Inr (1, ?s2)"
    using s1(3,4,6,8) fd i by (simp add: close_file_def cur_fd_def upd_fcb_def)
  moreover have "fcb (pcb ?s2 (current ?s2)) ! fd = -1" using s1(2,3,9) assms(11) by (simp add: pcb_set_fd)
  moreover have "f_state (fcb_table ?s2 ! j) = mode" "f_count (fcb_table ?s2 ! j) = 1" using s1(4,5,8) by simp_all
  ultimately show ?thesis using s1(1,5,7) fd by blast
qed

theorem open_close_leaks_witness:
  "\<exists>s1 s2. open_file ata_ports 0xC0600000 0xC0500100 s_r fs_demo = Inr (int 1, s1) \<and> close_file (int 1) s1 = Inr (1, s2) \<and>
     f_state (fcb_table s2 ! 1) = s_r"
proof -
  have "strcmp (mem fs_demo) 0xC0500100 0xC0400000 = Some 0"
    by (subst strcmp.simps, subst strcmp.simps) (simp add: fs_demo_def)
  then have dir: "dir_scan (mem fs_demo) 0xC0500100 (direct_at fs_demo) [0..<NR_DIR_ENTRY] = Inr (Some 0)"
    by (simp add: upt_conv_Cons ret_def fs_demo_def)
  have off: "1024 = i32 (512 * sint (load32 (mem fs_demo) (direct_at fs_demo + of_nat (32 * 0) + 28)))"
    by (simp add: fs_demo_def load32_def i32_id)
  have rep: "replicate NR_FILE x = x # x # replicate 30 x" for x :: "'b" by (simp add: numeral_eq_Suc)
  have "first_idx (\<lambda>f. f_state f = s_close) (fcb_table fs_demo) 0 = Some 1"
    unfolding fs_demo_def rep by simp
  moreover have "fcb (pcb fs_demo (current fs_demo)) = 0 # -1 # replicate 30 (-1)"
    unfolding fs_demo_def rep by simp
  then have "first_idx (\<lambda>v. v = -1) (fcb (pcb fs_demo (current fs_demo))) 0 = Some 1"
    "length (fcb (pcb fs_demo (current fs_demo))) = NR_FILE" by simp_all
  moreover have "\<forall>f \<in> set (fcb_table fs_demo). f_state f \<noteq> s_r" unfolding fs_demo_def rep by simp
  moreover have "length (fcb_table fs_demo) = NR_FILE" "current fs_demo < length (pcb_table fs_demo)"
    by (simp_all add: fs_demo_def)
  ultimately show ?thesis
    using open_close_leaks [OF disk.ata_axioms fs_demo_ok(1) dir off, of "0xC0600000" s_r 1 1]
    by (auto simp: sector_off_def)
qed

end
