(* ===== verification/Lib_Printfmt.thy ===== *)
theory Lib_Printfmt
  imports Lib_String
begin

text \<open>
  Formatted output: \<open>lib/printfmt.c\<close>. The function \<open>putch\<close> that receives the characters and
  the state it changes are parameters, as in the C code; \<open>mm\<close> reads the memory from that state.
  The variable arguments are the words on the stack at \<open>ap\<close>.
\<close>

section \<open>Numbers\<close>

definition digit_char :: "nat \<Rightarrow> int" where
  "digit_char d = (if d < 10 then 48 + int d else 87 + int d)"

primrec put_n :: "(int \<Rightarrow> 's \<Rightarrow> 's) \<Rightarrow> int \<Rightarrow> nat \<Rightarrow> 's \<Rightarrow> 's" where
  "put_n putch c 0 s = s"
| "put_n putch c (Suc n) s = put_n putch c n (putch c s)"

text \<open>\<open>printnum\<close> is only called with base 10 and 16; the recursion is cut off for bases 0 and 1.\<close>

function printnum :: "(int \<Rightarrow> 's \<Rightarrow> 's) \<Rightarrow> nat \<Rightarrow> nat \<Rightarrow> int \<Rightarrow> int \<Rightarrow> 's \<Rightarrow> 's" where
  "printnum putch num base width padc s =
     (let s1 = (if base \<le> num \<and> 1 < base then printnum putch (num div base) base (width - 1) padc s
                else put_n putch padc (nat (width - 1)) s)
      in putch (digit_char (num mod base)) s1)"
  by pat_completeness auto
termination
  by (relation "measure (\<lambda>(putch, num, base, width, padc, s). num)") auto

declare printnum.simps [simp del]

definition getuint :: "mem \<Rightarrow> addr \<Rightarrow> int \<Rightarrow> nat \<times> addr" where
  "getuint m ap lflag =
     (if 2 \<le> lflag then (unat (load32 m ap) + 2 ^ 32 * unat (load32 m (ap + 4)), ap + 8)
      else (unat (load32 m ap), ap + 4))"

definition getint :: "mem \<Rightarrow> addr \<Rightarrow> int \<Rightarrow> int \<times> addr" where
  "getint m ap lflag =
     (if 2 \<le> lflag then (uint (load32 m ap) + 2 ^ 32 * sint (load32 m (ap + 4)), ap + 8)
      else (sint (load32 m ap), ap + 4))"

section \<open>Strings\<close>

text \<open>A string is in memory or one of the constants of the code.\<close>

datatype str = Mem addr | Lit "byte list"

fun char_at :: "mem \<Rightarrow> str \<Rightarrow> nat \<Rightarrow> byte" where
  "char_at m (Mem a) i = m (a + of_nat i)"
| "char_at m (Lit bs) i = (if i < length bs then bs ! i else 0)"

fun str_nlen :: "mem \<Rightarrow> str \<Rightarrow> int \<Rightarrow> int" where
  "str_nlen m (Mem a) n = strnlen m a (of_int n)"
| "str_nlen m (Lit bs) n = int (min (length bs) (unat (of_int n :: u32)))"

definition ascii :: "string \<Rightarrow> byte list" where
  "ascii cs = map (\<lambda>c. of_nat (of_char c)) cs"

text \<open>The loop over the characters of a \<open>%s\<close> argument; a \<open>char\<close> is signed.\<close>

partial_function (option) put_str ::
  "('s \<Rightarrow> mem) \<Rightarrow> (int \<Rightarrow> 's \<Rightarrow> 's) \<Rightarrow> str \<Rightarrow> nat \<Rightarrow> int \<Rightarrow> int \<Rightarrow> bool \<Rightarrow> 's \<Rightarrow> (int \<times> 's) option" where
  "put_str mm putch p i precision width alt s =
     (let ch = sint (char_at (mm s) p i); precision1 = (if precision < 0 then precision else precision - 1)
      in if ch \<noteq> 0 \<and> (precision < 0 \<or> 0 \<le> precision1)
         then put_str mm putch p (i + 1) precision1 (i32 (width - 1)) alt
                (putch (if alt \<and> (ch < 32 \<or> 126 < ch) then 63 else ch) s)
         else Some (width, s))"

definition print_s :: "('s \<Rightarrow> mem) \<Rightarrow> (int \<Rightarrow> 's \<Rightarrow> 's) \<Rightarrow> str \<Rightarrow> int \<Rightarrow> int \<Rightarrow> int \<Rightarrow> bool \<Rightarrow> 's \<Rightarrow> 's option" where
  "print_s mm putch p padc width precision alt s =
     (let padleft = (0 < width \<and> padc \<noteq> 45);
          width1 = (if padleft then i32 (width - str_nlen (mm s) p precision) else width);
          s1 = (if padleft then put_n putch padc (nat width1) s else s);
          width2 = (if padleft then min width1 0 else width1)
      in map_option (\<lambda>(w, s2). put_n putch 32 (nat w) s2) (put_str mm putch p 0 precision width2 alt s1))"

definition error_string :: "int \<Rightarrow> string option" where
  "error_string e =
     (if e = 1 then Some ''unspecified error'' else if e = 2 then Some ''bad environment''
      else if e = 3 then Some ''invalid parameter'' else if e = 4 then Some ''out of memory''
      else if e = 5 then Some ''out of environments'' else if e = 6 then Some ''segmentation fault'' else None)"

text \<open>The \<open>%e\<close> conversion; its calls of \<open>printfmt\<close> with a constant format are unfolded.\<close>

definition print_e :: "(int \<Rightarrow> 's \<Rightarrow> 's) \<Rightarrow> int \<Rightarrow> 's \<Rightarrow> 's" where
  "print_e putch err s =
     (let e = (if err < 0 then i32 (- err) else err)
      in if 8 \<le> e \<or> error_string e = None
         then let s1 = fold (\<lambda>c. putch (uint c)) (ascii ''error '') s;
                  s2 = (if e < 0 then putch 45 s1 else s1)
              in printnum putch (nat \<bar>e\<bar>) 10 (-1) 32 s2
         else fold (\<lambda>c. putch (sint c)) (ascii (the (error_string e))) s)"

section \<open>The format\<close>

record flags =
  padc :: int
  width :: int
  precision :: int
  lflag :: int
  altflag :: bool

definition flags0 :: flags where
  "flags0 = \<lparr>padc = 32, width = -1, precision = -1, lflag = 0, altflag = False\<rparr>"

definition process_precision :: "flags \<Rightarrow> flags" where
  "process_precision f = (if width f < 0 then f\<lparr>width := precision f, precision := -1\<rparr> else f)"

partial_function (option) scan_width :: "mem \<Rightarrow> addr \<Rightarrow> int \<Rightarrow> int \<Rightarrow> (int \<times> addr) option" where
  "scan_width m fmt ch prec =
     (let prec1 = i32 (prec * 10 + ch - 48); c = sint (m fmt)
      in if c < 48 \<or> 57 < c then Some (prec1, fmt) else scan_width m (fmt + 1) c prec1)"

text \<open>Back to the character after the last \<open>%\<close>.\<close>

partial_function (option) rewind :: "mem \<Rightarrow> addr \<Rightarrow> addr option" where
  "rewind m fmt = (if m (fmt - 1) \<noteq> 37 then rewind m (fmt - 1) else Some fmt)"

text \<open>
  The cases of the \<open>switch\<close> that jump back to the label \<open>reswitch\<close>: the position in the format,
  the arguments and the flags with which they do.
\<close>

definition next_flag :: "mem \<Rightarrow> addr \<Rightarrow> addr \<Rightarrow> flags \<Rightarrow> (addr \<times> addr \<times> flags) option option" where
  "next_flag m fmt ap f =
     (let ch = uint (m fmt); fmt1 = fmt + 1
      in if ch = 45 then Some (Some (fmt1, ap, f\<lparr>padc := 45\<rparr>))
         else if ch = 48 then Some (Some (fmt1, ap, f\<lparr>padc := 48\<rparr>))
         else if 49 \<le> ch \<and> ch \<le> 57
         then map_option (\<lambda>(prec, fmt2). Some (fmt2, ap, process_precision (f\<lparr>precision := prec\<rparr>))) (scan_width m fmt1 ch 0)
         else if ch = 42 then Some (Some (fmt1, ap + 4, process_precision (f\<lparr>precision := sint (load32 m ap)\<rparr>)))
         else if ch = 46 then Some (Some (fmt1, ap, if width f < 0 then f\<lparr>width := 0\<rparr> else f))
         else if ch = 35 then Some (Some (fmt1, ap, f\<lparr>altflag := True\<rparr>))
         else if ch = 108 then Some (Some (fmt1, ap, f\<lparr>lflag := lflag f + 1\<rparr>))
         else Some None)"

text \<open>The other cases: the position in the format, the arguments and the state after the conversion.\<close>

definition convert ::
  "('s \<Rightarrow> mem) \<Rightarrow> (int \<Rightarrow> 's \<Rightarrow> 's) \<Rightarrow> addr \<Rightarrow> addr \<Rightarrow> flags \<Rightarrow> 's \<Rightarrow> (addr \<times> addr \<times> 's) option" where
  "convert mm putch fmt ap f s =
     (let m = mm s; ch = uint (m fmt); fmt1 = fmt + 1
      in if ch = 99 then Some (fmt1, ap + 4, putch (sint (load32 m ap)) s)
         else if ch = 101 then Some (fmt1, ap + 4, print_e putch (sint (load32 m ap)) s)
         else if ch = 115
         then map_option (\<lambda>s1. (fmt1, ap + 4, s1))
                (print_s mm putch (if load32 m ap = 0 then Lit (ascii ''(null)'') else Mem (load32 m ap))
                  (padc f) (width f) (precision f) (altflag f) s)
         else if ch = 100
         then let (num, ap1) = getint m ap (lflag f); s1 = (if num < 0 then putch 45 s else s)
              in Some (fmt1, ap1, printnum putch (nat \<bar>num\<bar>) 10 (width f) (padc f) s1)
         else if ch = 117
         then let (num, ap1) = getuint m ap (lflag f)
              in Some (fmt1, ap1, printnum putch num 10 (width f) (padc f) s)
         else if ch = 111 then Some (fmt1, ap, putch 88 (putch 88 (putch 88 s)))
         else if ch = 112
         then Some (fmt1, ap + 4, printnum putch (unat (load32 m ap)) 16 (width f) (padc f) (putch 120 (putch 48 s)))
         else if ch = 120
         then let (num, ap1) = getuint m ap (lflag f)
              in Some (fmt1, ap1, printnum putch num 16 (width f) (padc f) s)
         else if ch = 37 then Some (fmt1, ap, putch 37 s)
         else let s1 = putch 37 s in map_option (\<lambda>fmt2. (fmt2, ap, s1)) (rewind (mm s1) fmt))"

partial_function (option) reswitch ::
  "('s \<Rightarrow> mem) \<Rightarrow> (int \<Rightarrow> 's \<Rightarrow> 's) \<Rightarrow> addr \<Rightarrow> addr \<Rightarrow> flags \<Rightarrow> 's \<Rightarrow> (addr \<times> addr \<times> 's) option" where
  "reswitch mm putch fmt ap f s =
     Option.bind (next_flag (mm s) fmt ap f) (\<lambda>r.
       case r of None \<Rightarrow> convert mm putch fmt ap f s
       | Some x \<Rightarrow> reswitch mm putch (fst x) (fst (snd x)) (snd (snd x)) s)"

partial_function (option) vprintfmt :: "('s \<Rightarrow> mem) \<Rightarrow> (int \<Rightarrow> 's \<Rightarrow> 's) \<Rightarrow> addr \<Rightarrow> addr \<Rightarrow> 's \<Rightarrow> 's option" where
  "vprintfmt mm putch fmt ap s =
     (let ch = uint (mm s fmt)
      in if ch \<noteq> 37
         then (if ch = 0 then Some s else vprintfmt mm putch (fmt + 1) ap (putch ch s))
         else Option.bind (reswitch mm putch (fmt + 1) ap flags0 s) (\<lambda>(fmt1, ap1, s1).
                vprintfmt mm putch fmt1 ap1 s1))"

section \<open>Printing into a buffer\<close>

record sprintbuf =
  sp_mem :: mem
  sp_buf :: addr
  sp_ebuf :: addr
  sp_cnt :: int

definition sprintputch :: "int \<Rightarrow> sprintbuf \<Rightarrow> sprintbuf" where
  "sprintputch ch b =
     (let b1 = b\<lparr>sp_cnt := i32 (sp_cnt b + 1)\<rparr>
      in if sp_buf b1 < sp_ebuf b1
         then b1\<lparr>sp_mem := (sp_mem b1)(sp_buf b1 := of_int ch), sp_buf := sp_buf b1 + 1\<rparr> else b1)"

definition vsnprintf :: "mem \<Rightarrow> addr \<Rightarrow> int \<Rightarrow> addr \<Rightarrow> addr \<Rightarrow> (int \<times> mem) option" where
  "vsnprintf m buf n fmt ap =
     (let b = \<lparr>sp_mem = m, sp_buf = buf, sp_ebuf = buf + of_int n - 1, sp_cnt = 0\<rparr>
      in if buf = 0 \<or> n < 1 then Some (-3, m)
         else map_option (\<lambda>b1. (sp_cnt b1, (sp_mem b1)(sp_buf b1 := 0))) (vprintfmt sp_mem sprintputch fmt ap b))"

text \<open>\<open>snprintf\<close> takes its variable arguments from the stack after the last named one.\<close>

definition snprintf :: "mem \<Rightarrow> addr \<Rightarrow> int \<Rightarrow> addr \<Rightarrow> addr \<Rightarrow> (int \<times> mem) option" where
  "snprintf m buf n fmt args = vsnprintf m buf n fmt args"

section \<open>Any sink for characters\<close>

text \<open>
  A \<open>putch\<close> that keeps an invariant of its state. Everything that is printed through it keeps
  the invariant, and printing a C string as format returns, whatever the arguments are, because
  scanning any string in the 32-bit memory meets the terminator of the format at the latest.
\<close>

locale char_sink =
  fixes putch :: "int \<Rightarrow> 's \<Rightarrow> 's" and I :: "'s \<Rightarrow> bool" and mm :: "'s \<Rightarrow> mem" and fmt :: addr and xs :: "byte list"
  assumes putch_inv: "I s \<Longrightarrow> I (putch c s)"
    and format: "I s \<Longrightarrow> cstr (mm s) fmt xs"
begin

lemma put_n_inv: "I s \<Longrightarrow> I (put_n putch c n s)"
  by (induction n arbitrary: s) (auto intro: putch_inv)

lemma fold_inv: "I s \<Longrightarrow> I (fold (\<lambda>c. putch (g c)) cs s)"
  by (induction cs arbitrary: s) (auto intro: putch_inv)

lemma printnum_inv: "I s \<Longrightarrow> I (printnum putch num base w pc s)"
proof (induction num arbitrary: w s rule: less_induct)
  case (less num)
  show ?case
  proof (cases "base \<le> num \<and> 1 < base")
    case True
    then have "num div base < num" by (intro div_less_dividend) auto
    then have "I (printnum putch (num div base) base (w - 1) pc s)" using less by blast
    then show ?thesis using True by (subst printnum.simps) (simp add: putch_inv)
  next
    case False
    then show ?thesis using less.prems by (subst printnum.simps) (auto simp: Let_def intro: putch_inv put_n_inv)
  qed
qed

lemma print_e_inv: "I s \<Longrightarrow> I (print_e putch e s)"
  by (simp add: print_e_def Let_def printnum_inv fold_inv putch_inv)

lemma fmt_chars:
  assumes "I s" and "k \<le> length xs"
  shows "mm s (fmt + of_nat k) = (xs @ [0]) ! k"
  using format [OF assms(1)] assms(2) by (cases "k < length xs") (auto simp: nth_append cstr_nth cstr_end)

lemma fmt_nonzero: "I s \<Longrightarrow> k \<le> length xs \<Longrightarrow> mm s (fmt + of_nat k) \<noteq> 0 \<Longrightarrow> k < length xs"
  using fmt_chars [of s k] by (cases "k = length xs") auto

lemma put_str_returns_aux:
  assumes z: "\<And>s. I s \<Longrightarrow> char_at (mm s) p n = 0" and "I s" and "i \<le> n"
  shows "\<exists>w' s'. put_str mm putch p i prec w alt s = Some (w', s') \<and> I s'"
  using assms(2,3)
proof (induction "n - i" arbitrary: i prec w s)
  case 0
  then have "i = n" by simp
  then show ?case using z [OF 0(2)] 0(2) by (subst put_str.simps) simp
next
  case (Suc d)
  let ?ch = "sint (char_at (mm s) p i)" and ?p1 = "if prec < 0 then prec else prec - 1"
  show ?case
  proof (cases "?ch \<noteq> 0 \<and> (prec < 0 \<or> 0 \<le> ?p1)")
    case True
    let ?s = "putch (if alt \<and> (?ch < 32 \<or> 126 < ?ch) then 63 else ?ch) s"
    have "d = n - (i + 1)" "i + 1 \<le> n" using Suc.hyps(2) by auto
    from Suc.hyps(1) [OF this(1) putch_inv [OF Suc.prems(1)] this(2)]
    obtain w' s' where "put_str mm putch p (i + 1) ?p1 (i32 (w - 1)) alt ?s = Some (w', s')" "I s'" by blast
    then show ?thesis using True by (subst put_str.simps) (simp add: Let_def)
  next
    case False
    then show ?thesis using Suc.prems(1) by (subst put_str.simps) (auto simp: Let_def)
  qed
qed

lemma print_s_returns: "I s \<Longrightarrow> \<exists>s'. print_s mm putch p pc w prec alt s = Some s' \<and> I s'"
proof -
  assume s: "I s"
  have "\<exists>n. \<forall>s. I s \<longrightarrow> char_at (mm s) p n = 0"
  proof (cases p)
    case (Mem a)
    let ?n = "unat (fmt + of_nat (length xs) - a)"
    have "char_at (mm s) p ?n = 0" if "I s" for s
      using fmt_chars [OF that, of "length xs"] Mem by simp
    then show ?thesis by blast
  next
    case (Lit bs)
    then show ?thesis by (intro exI [of _ "length bs"]) simp
  qed
  then obtain n where n: "\<And>s. I s \<Longrightarrow> char_at (mm s) p n = 0" by blast
  have r: "\<exists>w' s'. put_str mm putch p 0 prec w2 alt s1 = Some (w', s') \<and> I s'" if "I s1" for w2 s1
    by (rule put_str_returns_aux [OF n that]) simp_all
  show ?thesis
    using r [OF s] r [OF put_n_inv [OF s]] by (fastforce simp: print_s_def Let_def intro: put_n_inv)
qed

lemma scan_width_returns:
  "I s \<Longrightarrow> k \<le> length xs \<Longrightarrow> \<exists>p k'. scan_width (mm s) (fmt + of_nat k) ch prec = Some (p, fmt + of_nat k') \<and> k \<le> k' \<and> k' \<le> length xs"
proof (induction "length xs - k" arbitrary: k ch prec)
  case 0
  then have "mm s (fmt + of_nat k) = 0" using fmt_chars [OF 0(2,3)] by (auto simp: nth_append)
  then show ?case using 0 by (subst scan_width.simps) (auto simp: Let_def)
next
  case (Suc d)
  let ?c = "sint (mm s (fmt + of_nat k))"
  show ?case
  proof (cases "?c < 48 \<or> 57 < ?c")
    case True
    then show ?thesis using Suc.prems by (subst scan_width.simps) (auto simp: Let_def)
  next
    case False
    have "d = length xs - (k + 1)" "k + 1 \<le> length xs" using Suc.hyps(2) by auto
    from Suc.hyps(1) [OF this(1) Suc.prems(1) this(2), of ?c "i32 (prec * 10 + ch - 48)"] obtain p k' where
      "scan_width (mm s) (fmt + of_nat (k + 1)) ?c (i32 (prec * 10 + ch - 48)) = Some (p, fmt + of_nat k')"
      "k + 1 \<le> k'" "k' \<le> length xs" by blast
    moreover have "fmt + of_nat (k + 1) = fmt + of_nat k + 1" by (simp add: add.commute add.left_commute)
    ultimately have "scan_width (mm s) (fmt + of_nat k) ch prec = Some (p, fmt + of_nat k')"
      using False by (subst scan_width.simps) (simp only: Let_def if_False)
    then show ?thesis using \<open>k + 1 \<le> k'\<close> \<open>k' \<le> length xs\<close> by auto
  qed
qed

lemma rewind_returns:
  assumes "I s" and "j < length xs" and "xs ! j = 37"
  shows "j < k \<Longrightarrow> \<exists>k'. rewind (mm s) (fmt + of_nat k) = Some (fmt + of_nat k') \<and> j < k' \<and> k' \<le> k"
proof (induction k)
  case (Suc k)
  have e: "fmt + of_nat (Suc k) - 1 = fmt + of_nat k" by simp
  show ?case
  proof (cases "mm s (fmt + of_nat k) = 37")
    case True
    then show ?thesis using Suc.prems e by (subst rewind.simps) (auto intro!: exI [of _ "Suc k"])
  next
    case False
    then have "k \<noteq> j" using fmt_chars [OF assms(1), of j] assms(2,3) by (auto simp: nth_append)
    then obtain k' where "rewind (mm s) (fmt + of_nat k) = Some (fmt + of_nat k')" "j < k'" "k' \<le> k"
      using Suc by auto
    then show ?thesis using False e by (subst rewind.simps) (auto intro!: exI [of _ k'])
  qed
qed simp

lemma next_flag_returns:
  assumes "I s" and "k \<le> length xs"
  obtains "next_flag (mm s) (fmt + of_nat k) ap f = Some None"
  | k' ap' f' where "next_flag (mm s) (fmt + of_nat k) ap f = Some (Some (fmt + of_nat k', ap', f'))" "k < k'" "k' \<le> length xs"
proof -
  let ?ch = "uint (mm s (fmt + of_nat k))"
  have e: "fmt + of_nat k + 1 = fmt + of_nat (Suc k)" by simp
  show thesis
  proof (cases "?ch = 0")
    case True
    then show thesis using that(1) by (simp add: next_flag_def Let_def)
  next
    case False
    then have "mm s (fmt + of_nat k) \<noteq> 0" by (auto simp: uint_0_iff)
    then have k: "k < length xs" by (rule fmt_nonzero [OF assms])
    obtain p k' where w: "scan_width (mm s) (fmt + of_nat (Suc k)) ?ch 0 = Some (p, fmt + of_nat k')" "Suc k \<le> k'" "k' \<le> length xs"
      using scan_width_returns [OF assms(1), of "Suc k" ?ch 0] k by auto
    have one: "\<exists>ap' f'. next_flag (mm s) (fmt + of_nat k) ap f = Some (Some (fmt + of_nat (Suc k), ap', f'))"
      if "?ch \<in> {45, 48, 42, 46, 35, 108}"
      using that unfolding next_flag_def Let_def e by auto
    consider "?ch \<in> {45, 48, 42, 46, 35, 108}" | "49 \<le> ?ch \<and> ?ch \<le> 57" "?ch \<notin> {45, 48, 42, 46, 35, 108}"
      | "?ch \<notin> {45, 48, 42, 46, 35, 108}" "\<not> (49 \<le> ?ch \<and> ?ch \<le> 57)" by blast
    then show thesis
    proof cases
      case 1
      then show thesis using one that(2) [of "Suc k"] k by auto
    next
      case 2
      then show thesis using that(2) [of k'] w unfolding next_flag_def Let_def e by auto
    next
      case 3
      then show thesis using that(1) unfolding next_flag_def Let_def e by auto
    qed
  qed
qed

lemma convert_returns:
  assumes "I s" and "k \<le> length xs" and "j < k" and "xs ! j = 37"
  obtains k' ap' s' where "convert mm putch (fmt + of_nat k) ap f s = Some (fmt + of_nat k', ap', s')" "j < k'" "k' \<le> length xs" "I s'"
proof -
  let ?ch = "uint (mm s (fmt + of_nat k))"
  have e: "fmt + of_nat k + 1 = fmt + of_nat (Suc k)" by simp
  have "\<exists>k' ap' s'. convert mm putch (fmt + of_nat k) ap f s = Some (fmt + of_nat k', ap', s') \<and> j < k' \<and> k' \<le> length xs \<and> I s'"
  proof (cases "?ch \<in> {99, 101, 115, 100, 117, 111, 112, 120, 37}")
    case True
    then have "mm s (fmt + of_nat k) \<noteq> 0" by (auto simp: uint_0_iff)
    then have "k < length xs" by (rule fmt_nonzero [OF assms(1,2)])
    then have k: "j < Suc k" "Suc k \<le> length xs" using assms(3) by auto
    obtain s1 where s1: "print_s mm putch (if load32 (mm s) ap = 0 then Lit (ascii ''(null)'') else Mem (load32 (mm s) ap))
        (padc f) (width f) (precision f) (altflag f) s = Some s1" "I s1"
      using print_s_returns [OF assms(1)] by blast
    have "\<exists>ap' s'. convert mm putch (fmt + of_nat k) ap f s = Some (fmt + of_nat (Suc k), ap', s') \<and> I s'"
      using True s1 assms(1) unfolding convert_def Let_def e
      by (auto intro: putch_inv printnum_inv print_e_inv split: prod.split)
    then show ?thesis using k by blast
  next
    case False
    obtain k' where "rewind (mm (putch 37 s)) (fmt + of_nat k) = Some (fmt + of_nat k')" "j < k'" "k' \<le> k"
      using rewind_returns [OF putch_inv [OF assms(1)] _ assms(4,3)] assms(2,3) by auto
    then show ?thesis using False assms(2) putch_inv [OF assms(1)] unfolding convert_def Let_def by auto
  qed
  then show thesis using that by blast
qed

lemma reswitch_returns:
  assumes "I s" and "xs ! j = 37"
  shows "j < k \<Longrightarrow> k \<le> length xs \<Longrightarrow> \<exists>k' ap' s'. reswitch mm putch (fmt + of_nat k) ap f s = Some (fmt + of_nat k', ap', s') \<and>
    j < k' \<and> k' \<le> length xs \<and> I s'"
proof (induction "length xs - k" arbitrary: k ap f rule: less_induct)
  case less
  show ?case
  proof (rule next_flag_returns [OF assms(1) less.prems(2), of ap f])
    assume "next_flag (mm s) (fmt + of_nat k) ap f = Some None"
    moreover obtain k' ap' s' where "convert mm putch (fmt + of_nat k) ap f s = Some (fmt + of_nat k', ap', s')"
      "j < k'" "k' \<le> length xs" "I s'"
      by (rule convert_returns [OF assms(1) less.prems(2,1) assms(2)])
    ultimately show ?thesis by (subst reswitch.simps) auto
  next
    fix k' ap' f'
    assume n: "next_flag (mm s) (fmt + of_nat k) ap f = Some (Some (fmt + of_nat k', ap', f'))" "k < k'" "k' \<le> length xs"
    have "length xs - k' < length xs - k" using n(2,3) by linarith
    from less.hyps [OF this _ n(3), of ap' f'] show ?thesis using n less.prems(1) by (subst reswitch.simps) auto
  qed
qed

lemma vprintfmt_returns_at:
  "I s \<Longrightarrow> k \<le> length xs \<Longrightarrow> \<exists>s'. vprintfmt mm putch (fmt + of_nat k) ap s = Some s' \<and> I s'"
proof (induction "length xs - k" arbitrary: k ap s rule: less_induct)
  case less
  let ?b = "mm s (fmt + of_nat k)"
  have e: "fmt + of_nat k + 1 = fmt + of_nat (Suc k)" by simp
  show ?case
  proof (cases "?b = 0")
    case True
    then show ?thesis using less.prems by (subst vprintfmt.simps) (simp add: Let_def)
  next
    case False
    then have k: "k < length xs" by (rule fmt_nonzero [OF less.prems])
    then have b: "?b = xs ! k" using fmt_chars [OF less.prems] by (simp add: nth_append)
    show ?thesis
    proof (cases "?b = 37")
      case True
      then have "xs ! k = 37" using b by simp
      from reswitch_returns [OF less.prems(1) this, of "Suc k" ap flags0] k obtain k' ap' s' where
        r: "reswitch mm putch (fmt + of_nat (Suc k)) ap flags0 s = Some (fmt + of_nat k', ap', s')" "k < k'" "k' \<le> length xs" "I s'"
        by auto
      have "length xs - k' < length xs - k" using r(2,3) by linarith
      from less.hyps [OF this r(4,3), of ap'] show ?thesis
        using True r(1) unfolding e [symmetric] by (subst vprintfmt.simps) (simp add: Let_def)
    next
      case no: False
      have "length xs - Suc k < length xs - k" using k by linarith
      from less.hyps [OF this putch_inv [OF less.prems(1)]] k
      have "\<exists>s'. vprintfmt mm putch (fmt + of_nat k + 1) ap (putch (uint ?b) s) = Some s' \<and> I s'"
        unfolding e by simp
      moreover have "uint ?b \<noteq> 37" "uint ?b \<noteq> 0" using no False by (simp_all add: word_uint_eq_iff)
      ultimately show ?thesis by (subst vprintfmt.simps) (simp add: Let_def)
    qed
  qed
qed

lemma vprintfmt_returns: "I s \<Longrightarrow> \<exists>s'. vprintfmt mm putch fmt ap s = Some s' \<and> I s'"
  using vprintfmt_returns_at [of s 0 ap] by simp

end

section \<open>The digits of a number\<close>

text \<open>The reference: the digits of a number, most significant first, without leading zeros.\<close>

definition digits_of :: "nat \<Rightarrow> nat \<Rightarrow> nat list \<Rightarrow> bool" where
  "digits_of base num ds \<longleftrightarrow>
     ds \<noteq> [] \<and> (\<forall>d \<in> set ds. d < base) \<and> (1 < length ds \<longrightarrow> hd ds \<noteq> 0) \<and> foldl (\<lambda>v d. v * base + d) 0 ds = num"

lemma put_n_fold: "put_n putch c n s = fold putch (replicate n c) s"
  by (induction n arbitrary: s) auto

lemma digits_of_snoc:
  "digits_of base (num div base) ds \<Longrightarrow> base \<le> num \<Longrightarrow> 1 < base \<Longrightarrow> digits_of base num (ds @ [num mod base])"
  by (cases ds) (auto simp: digits_of_def div_eq_0_iff)

lemma printnum_digits:
  assumes "1 < base"
  shows "\<exists>ds. digits_of base num ds \<and> (\<forall>w pc s. printnum putch num base w pc s =
    fold putch (replicate (nat (w - int (length ds))) pc @ map digit_char ds) s)"
proof (induction num rule: less_induct)
  case (less num)
  show ?case
  proof (cases "base \<le> num")
    case True
    then have "num div base < num" using assms by (intro div_less_dividend) auto
    from less [OF this] obtain ds where ds: "digits_of base (num div base) ds"
      "\<And>w pc s. printnum putch (num div base) base w pc s = fold putch (replicate (nat (w - int (length ds))) pc @ map digit_char ds) s"
      by blast
    have "printnum putch num base w pc s =
      fold putch (replicate (nat (w - int (length (ds @ [num mod base])))) pc @ map digit_char (ds @ [num mod base])) s" for w pc s
      using True assms by (subst printnum.simps) (simp add: ds(2) diff_diff_eq add.commute)
    then show ?thesis using digits_of_snoc [OF ds(1) True assms] by blast
  next
    case False
    then have "digits_of base num [num]" by (simp add: digits_of_def)
    moreover have "printnum putch num base w pc s = fold putch (replicate (nat (w - int (length [num]))) pc @ map digit_char [num]) s" for w pc s
      using False by (subst printnum.simps) (simp add: put_n_fold)
    ultimately show ?thesis by blast
  qed
qed

section \<open>The buffer as a sink\<close>

text \<open>
  The invariant of \<open>sprintputch\<close>: the write position is inside the buffer and nothing else in
  memory has changed. The format lies outside the buffer.
\<close>

definition sp_inv :: "mem \<Rightarrow> addr \<Rightarrow> nat \<Rightarrow> addr \<Rightarrow> byte list \<Rightarrow> sprintbuf \<Rightarrow> bool" where
  "sp_inv m buf n fmt xs b \<longleftrightarrow>
     cstr m fmt xs \<and> disj_regions buf n fmt (length xs + 1) \<and> 0 < n \<and> unat buf + n \<le> 2 ^ 32 \<and>
     sp_ebuf b = buf + of_nat (n - 1) \<and> buf \<le> sp_buf b \<and> sp_buf b \<le> sp_ebuf b \<and>
     (\<forall>x. \<not> in_region buf n x \<longrightarrow> sp_mem b x = m x)"

lemma in_buffer:
  assumes "(buf :: addr) \<le> p" "p \<le> buf + of_nat (n - 1)" "0 < n" "unat buf + n \<le> 2 ^ 32"
  shows "in_region buf n p"
proof -
  have "unat (of_nat (n - 1) :: addr) = n - 1" using assms(3,4) by (intro unat_of_nat_u32) auto
  then have "unat (buf + of_nat (n - 1)) = unat buf + (n - 1)"
    using assms(3,4) by (subst unat_add_lem [THEN iffD1]) auto
  then show ?thesis using assms by (auto simp: in_region_def unat_sub word_le_nat_alt)
qed

lemma sprintputch_inv: "sp_inv m buf n fmt xs b \<Longrightarrow> sp_inv m buf n fmt xs (sprintputch c b)"
proof -
  assume b: "sp_inv m buf n fmt xs b"
  then have i: "in_region buf n (sp_buf b)" by (auto simp: sp_inv_def intro: in_buffer)
  show ?thesis
  proof (cases "sp_buf b < sp_ebuf b")
    case True
    then have "unat (sp_buf b + 1) = Suc (unat (sp_buf b))" by (rule unat_succ_u32)
    then have "buf \<le> sp_buf b + 1" "sp_buf b + 1 \<le> sp_ebuf b"
      using b True by (auto simp: sp_inv_def word_le_nat_alt word_less_nat_alt)
    then show ?thesis using b True i by (auto simp: sp_inv_def sprintputch_def Let_def)
  next
    case False
    then show ?thesis using b by (auto simp: sp_inv_def sprintputch_def Let_def)
  qed
qed

lemma sp_format: "sp_inv m buf n fmt xs b \<Longrightarrow> cstr (sp_mem b) fmt xs"
proof -
  assume b: "sp_inv m buf n fmt xs b"
  have "sp_mem b (fmt + of_nat k) = m (fmt + of_nat k)" if "k \<le> length xs" for k
  proof -
    have "in_region fmt (length xs + 1) (fmt + of_nat k)"
      using that by (simp add: in_region_def unsigned_of_nat le_imp_less_Suc take_bit_nat_less_eq_self [THEN order_trans])
    then have "\<not> in_region buf n (fmt + of_nat k)"
      using b disj_regionsD [of fmt "length xs + 1" buf n] by (simp add: sp_inv_def disj_regions_sym)
    then show ?thesis using b by (simp add: sp_inv_def)
  qed
  then show ?thesis using b by (auto simp: sp_inv_def intro: cstr_cong)
qed

lemma sp_inv_start:
  assumes "cstr m fmt xs" and "disj_regions buf n fmt (length xs + 1)" and "0 < n" and "unat buf + n \<le> 2 ^ 32"
  shows "sp_inv m buf n fmt xs \<lparr>sp_mem = m, sp_buf = buf, sp_ebuf = buf + of_nat (n - 1), sp_cnt = 0\<rparr>"
proof -
  have "unat (of_nat (n - 1) :: addr) = n - 1" using assms(3,4) by (intro unat_of_nat_u32) auto
  then have "unat (buf + of_nat (n - 1)) = unat buf + (n - 1)"
    using assms(3,4) by (subst unat_add_lem [THEN iffD1]) auto
  then have "buf \<le> buf + of_nat (n - 1)" by (simp add: word_le_nat_alt)
  then show ?thesis using assms by (simp add: sp_inv_def)
qed

interpretation sbuf: char_sink sprintputch "sp_inv m buf n fmt xs" sp_mem fmt xs for m buf n fmt xs
  by unfold_locales (fact sprintputch_inv, fact sp_format)

text \<open>A memory with the format \<open>%5d\<close> for the instances below.\<close>

definition fmt_demo :: mem where
  "fmt_demo = write_bytes (\<lambda>_. 0) 4096 (ascii ''%5d'')"

lemma fmt_demo:
  "cstr fmt_demo 4096 (ascii ''%5d'')" "disj_regions 8192 16 4096 (length (ascii ''%5d'') + 1)"
  by (simp_all add: fmt_demo_def write_bytes_def ascii_def disj_regions_def)

section \<open>Properties\<close>

text \<open>
  C31: \<open>printnum\<close> prints exactly the digits of the number in the given base, without leading zeros,
  after as many pad characters as the width asks for.
\<close>

theorem printnum_correct:
  assumes "1 < base"
  shows "\<exists>ds. digits_of base num ds \<and> (\<forall>w pc s. printnum putch num base w pc s =
    fold putch (replicate (nat (w - int (length ds))) pc @ map digit_char ds) s)"
  by (rule printnum_digits [OF assms])

theorem printnum_correct_witness:
  "(1 :: nat) < 16 \<and> (\<exists>ds. digits_of 16 255 ds \<and> (\<forall>w pc s. printnum (#) 255 16 w pc s =
    fold (#) (replicate (nat (w - int (length ds))) pc @ map digit_char ds) s))"
  using printnum_correct [of 16 255 "(#)"] by simp

text \<open>
  Formatted output into a buffer returns for every C string as format, whatever its directives
  and whatever the arguments are: none of the loops that scan the format, a field width, a
  string argument or an unknown directive runs forever.
\<close>

theorem vprintfmt_terminates:
  assumes "cstr m fmt xs" and "disj_regions buf n fmt (length xs + 1)" and "0 < n" and "unat buf + n \<le> 2 ^ 32"
  shows "\<exists>b. vprintfmt sp_mem sprintputch fmt ap
    \<lparr>sp_mem = m, sp_buf = buf, sp_ebuf = buf + of_nat (n - 1), sp_cnt = 0\<rparr> = Some b"
proof -
  have "sp_inv m buf n fmt xs \<lparr>sp_mem = m, sp_buf = buf, sp_ebuf = buf + of_nat (n - 1), sp_cnt = 0\<rparr>"
    by (rule sp_inv_start [OF assms])
  from sbuf.vprintfmt_returns [OF this] show ?thesis by blast
qed

theorem vprintfmt_terminates_witness:
  "\<exists>b. vprintfmt sp_mem sprintputch 4096 12288
    \<lparr>sp_mem = fmt_demo, sp_buf = 8192, sp_ebuf = 8192 + of_nat (16 - 1), sp_cnt = 0\<rparr> = Some b"
  using vprintfmt_terminates [of fmt_demo 4096 "ascii ''%5d''" 8192 16 12288] fmt_demo by simp

text \<open>
  C17: \<open>vsnprintf\<close> returns, changes no byte outside the \<open>n\<close> bytes of its buffer and leaves a
  terminating NUL inside the buffer, however long the output is.
\<close>

theorem vsnprintf_bounded:
  assumes "cstr m fmt xs" and "disj_regions buf (nat n) fmt (length xs + 1)" and "1 \<le> n" and "unat buf + nat n \<le> 2 ^ 32"
    and "buf \<noteq> 0"
  shows "\<exists>cnt m'. vsnprintf m buf n fmt ap = Some (cnt, m') \<and>
    (\<forall>x. \<not> in_region buf (nat n) x \<longrightarrow> m' x = m x) \<and> (\<exists>x. in_region buf (nat n) x \<and> m' x = 0)"
proof -
  have e: "buf + of_int n - 1 = buf + of_nat (nat n - 1)" using assms(3) by (simp add: of_nat_diff)
  have "sp_inv m buf (nat n) fmt xs \<lparr>sp_mem = m, sp_buf = buf, sp_ebuf = buf + of_nat (nat n - 1), sp_cnt = 0\<rparr>"
    using assms by (intro sp_inv_start) auto
  from sbuf.vprintfmt_returns [OF this, of ap] obtain b where
    b: "vprintfmt sp_mem sprintputch fmt ap \<lparr>sp_mem = m, sp_buf = buf, sp_ebuf = buf + of_nat (nat n - 1), sp_cnt = 0\<rparr> = Some b"
      "sp_inv m buf (nat n) fmt xs b" by blast
  then have "in_region buf (nat n) (sp_buf b)" by (auto simp: sp_inv_def intro: in_buffer)
  then show ?thesis using b assms(3,5) unfolding vsnprintf_def Let_def e by (auto simp: sp_inv_def)
qed

theorem vsnprintf_bounded_witness:
  "\<exists>cnt m'. vsnprintf fmt_demo 8192 16 4096 12288 = Some (cnt, m') \<and>
    (\<forall>x. \<not> in_region 8192 (nat 16) x \<longrightarrow> m' x = fmt_demo x) \<and> (\<exists>x. in_region 8192 (nat 16) x \<and> m' x = 0)"
  using vsnprintf_bounded [of fmt_demo 4096 "ascii ''%5d''" 8192 16 12288] fmt_demo by simp

end
