(* ===== verification/Devices.thy ===== *)
theory Devices
  imports Disk Lib_Printfmt
begin

text \<open>
  The small devices and the console: the serial port (\<open>kernel/src/lib/serial.c\<close>), the kernel's
  \<open>printk\<close> (\<open>kernel/src/lib/printk.c\<close>), the interval timer (\<open>kernel/src/device/timer.c\<close>) and
  the interrupt controller (\<open>kernel/src/irq/i8259.c\<close>). The hardware behind the ports is a
  parameter; the locale \<open>uart\<close> states the documented behaviour of the serial controller.
\<close>

section \<open>Ports\<close>

definition inb :: "'d ports \<Rightarrow> u16 \<Rightarrow> 'd \<Rightarrow> byte \<times> 'd" where
  "inb P port d = port_in8 P port d"

definition outb :: "'d ports \<Rightarrow> u16 \<Rightarrow> byte \<Rightarrow> 'd \<Rightarrow> 'd" where
  "outb P port data d = port_out8 P port data d"

text \<open>A sequence of \<open>outb\<close> calls.\<close>

definition outbs :: "'d ports \<Rightarrow> (u16 \<times> byte) list \<Rightarrow> 'd \<Rightarrow> 'd" where
  "outbs P ws d = fold (\<lambda>(port, data). outb P port data) ws d"

section \<open>Interrupt controller and timer\<close>

abbreviation (input) IO_PIC1 :: u16 where "IO_PIC1 \<equiv> 0x20"
abbreviation (input) IO_PIC2 :: u16 where "IO_PIC2 \<equiv> 0xA0"
abbreviation (input) IRQ_OFFSET :: byte where "IRQ_OFFSET \<equiv> 0x20"
abbreviation (input) IRQ_SLAVE :: byte where "IRQ_SLAVE \<equiv> 2"

definition init_intr :: "'d ports \<Rightarrow> 'd \<Rightarrow> 'd" where
  "init_intr P d = outbs P
     [(IO_PIC1 + 1, 0xFF), (IO_PIC2 + 1, 0xFF), (IO_PIC1, 0x11), (IO_PIC1 + 1, IRQ_OFFSET),
      (IO_PIC1 + 1, push_bit 2 1), (IO_PIC1 + 1, 0x3), (IO_PIC2, 0x11), (IO_PIC2 + 1, IRQ_OFFSET + 8),
      (IO_PIC2 + 1, IRQ_SLAVE), (IO_PIC2 + 1, 0x01), (IO_PIC1, 0x68), (IO_PIC1, 0x0a),
      (IO_PIC2, 0x68), (IO_PIC2, 0x0a)] d"

abbreviation (input) PIT_FREQUENCE :: int where "PIT_FREQUENCE \<equiv> 1193182"
abbreviation (input) HZ :: int where "HZ \<equiv> 100"

text \<open>The bit fields of the command byte, lowest first: 1, 3, 2 and 2 bits.\<close>

definition cmd_byte :: "byte \<Rightarrow> byte \<Rightarrow> byte \<Rightarrow> byte \<Rightarrow> byte" where
  "cmd_byte present_mode operate_mode access_mode channel =
     take_bit 1 present_mode OR push_bit 1 (take_bit 3 operate_mode) OR push_bit 4 (take_bit 2 access_mode) OR
     push_bit 6 (take_bit 2 channel)"

definition init_timer :: "'d ports \<Rightarrow> 'd \<Rightarrow> 'd" where
  "init_timer P d =
     (let counter = c_div PIT_FREQUENCE HZ
      in outbs P [(0x43, cmd_byte 0 2 3 0), (0x40, of_int (counter AND 0xFF)), (0x40, of_int (counter div 2 ^ 8 AND 0xFF))] d)"

section \<open>The serial port\<close>

abbreviation (input) SERIAL_PORT :: u16 where "SERIAL_PORT \<equiv> 0x3F8"

definition init_serial :: "'d ports \<Rightarrow> 'd \<Rightarrow> 'd" where
  "init_serial P d = outbs P
     [(SERIAL_PORT + 1, 0x00), (SERIAL_PORT + 3, 0x80), (SERIAL_PORT + 0, 0x01), (SERIAL_PORT + 1, 0x00),
      (SERIAL_PORT + 3, 0x03), (SERIAL_PORT + 2, 0xC7), (SERIAL_PORT + 4, 0x0B)] d"

definition serial_idle :: "'d ports \<Rightarrow> 'd \<Rightarrow> bool \<times> 'd" where
  "serial_idle P d = (let r = inb P (SERIAL_PORT + 5) d in (fst r AND 0x20 \<noteq> 0, snd r))"

text \<open>The waiting loop of \<open>serial_printc\<close>; \<open>None\<close> is a call that does not return.\<close>

partial_function (option) serial_wait :: "'d ports \<Rightarrow> 'd \<Rightarrow> 'd option" where
  "serial_wait P d = (if \<not> fst (serial_idle P d) then serial_wait P (snd (serial_idle P d)) else Some (snd (serial_idle P d)))"

definition serial_printc :: "'d ports \<Rightarrow> byte \<Rightarrow> 'd \<Rightarrow> 'd option" where
  "serial_printc P ch d = map_option (outb P SERIAL_PORT ch) (serial_wait P d)"

section \<open>\<open>printk\<close>\<close>

text \<open>
  The state that \<open>putch\<close> changes: the device and the counter behind its second argument. The
  device is \<open>None\<close> once a call of \<open>serial_printc\<close> does not return.
\<close>

record 'd pk =
  pk_mem :: mem
  pk_dev :: "'d option"
  pk_cnt :: int

definition putch :: "'d ports \<Rightarrow> int \<Rightarrow> 'd pk \<Rightarrow> 'd pk" where
  "putch P ch s =
     (case Option.bind (pk_dev s) (serial_printc P (of_int ch)) of
        None \<Rightarrow> s\<lparr>pk_dev := None\<rparr>
      | Some d \<Rightarrow> s\<lparr>pk_dev := Some d, pk_cnt := i32 (pk_cnt s + 1)\<rparr>)"

text \<open>The counter \<open>n\<close> of \<open>vprintk\<close> is not initialised; its value is an argument here.\<close>

definition vprintk :: "'d ports \<Rightarrow> mem \<Rightarrow> addr \<Rightarrow> addr \<Rightarrow> int \<Rightarrow> 'd \<Rightarrow> (int \<times> 'd) option" where
  "vprintk P m fmt ap n d =
     Option.bind (vprintfmt pk_mem (putch P) fmt ap \<lparr>pk_mem = m, pk_dev = Some d, pk_cnt = n\<rparr>) (\<lambda>s.
       map_option (\<lambda>d1. (pk_cnt s, d1)) (pk_dev s))"

definition printk :: "'d ports \<Rightarrow> mem \<Rightarrow> addr \<Rightarrow> addr \<Rightarrow> int \<Rightarrow> 'd \<Rightarrow> (int \<times> 'd) option" where
  "printk P m fmt args n d = vprintk P m fmt args n d"

section \<open>The serial controller\<close>

text \<open>
  The documented behaviour of the 16550: bit 5 of the line status register shows that the
  transmitter is empty, which it is after a while. While bit 7 of the line control register is
  set, the first two ports are the divisor of the baud rate; otherwise a byte written to the
  first port is transmitted.
\<close>

locale uart =
  fixes P :: "'d ports" and sent :: "'d \<Rightarrow> byte list" and lcr :: "'d \<Rightarrow> byte" and divisor :: "'d \<Rightarrow> byte \<times> byte"
    and busy :: "'d \<Rightarrow> nat"
  assumes lsr_idle: "busy d = 0 \<Longrightarrow> fst (port_in8 P 0x3FD d) AND 0x20 \<noteq> 0 \<and> busy (snd (port_in8 P 0x3FD d)) = 0"
    and lsr_busy: "0 < busy d \<Longrightarrow> fst (port_in8 P 0x3FD d) AND 0x20 = 0 \<and> busy (snd (port_in8 P 0x3FD d)) < busy d"
    and lsr_keeps: "sent (snd (port_in8 P 0x3FD d)) = sent d \<and> lcr (snd (port_in8 P 0x3FD d)) = lcr d \<and>
      divisor (snd (port_in8 P 0x3FD d)) = divisor d"
    and set_lcr: "sent (port_out8 P 0x3FB b d) = sent d \<and> lcr (port_out8 P 0x3FB b d) = b \<and>
      divisor (port_out8 P 0x3FB b d) = divisor d"
    and set_low: "lcr d AND 0x80 \<noteq> 0 \<Longrightarrow> sent (port_out8 P 0x3F8 b d) = sent d \<and> lcr (port_out8 P 0x3F8 b d) = lcr d \<and>
      divisor (port_out8 P 0x3F8 b d) = (b, snd (divisor d))"
    and set_high: "sent (port_out8 P 0x3F9 b d) = sent d \<and> lcr (port_out8 P 0x3F9 b d) = lcr d \<and>
      divisor (port_out8 P 0x3F9 b d) = (if lcr d AND 0x80 \<noteq> 0 then (fst (divisor d), b) else divisor d)"
    and set_other: "p \<in> {0x3FA, 0x3FC} \<Longrightarrow> sent (port_out8 P p b d) = sent d \<and> lcr (port_out8 P p b d) = lcr d \<and>
      divisor (port_out8 P p b d) = divisor d"
    and transmit: "lcr d AND 0x80 = 0 \<Longrightarrow> busy d = 0 \<Longrightarrow> sent (port_out8 P 0x3F8 b d) = sent d @ [b] \<and>
      lcr (port_out8 P 0x3F8 b d) = lcr d \<and> divisor (port_out8 P 0x3F8 b d) = divisor d"
begin

lemma serial_wait_returns:
  "\<exists>d'. serial_wait P d = Some d' \<and> busy d' = 0 \<and> sent d' = sent d \<and> lcr d' = lcr d \<and> divisor d' = divisor d"
proof (induction "busy d" arbitrary: d rule: less_induct)
  case less
  let ?r = "port_in8 P 0x3FD d"
  have i: "serial_idle P d = (fst ?r AND 0x20 \<noteq> 0, snd ?r)" by (simp add: serial_idle_def inb_def Let_def)
  show ?case
  proof (cases "busy d = 0")
    case True
    then show ?thesis using lsr_idle lsr_keeps by (subst serial_wait.simps) (simp add: i)
  next
    case False
    then have b: "fst ?r AND 0x20 = 0" "busy (snd ?r) < busy d" using lsr_busy [of d] by auto
    from less.hyps [OF b(2)] show ?thesis using b(1) lsr_keeps by (subst serial_wait.simps) (simp add: i)
  qed
qed

lemma serial_printc_sends:
  assumes "lcr d AND 0x80 = 0"
  obtains d' where "serial_printc P c d = Some d'" "sent d' = sent d @ [c]" "lcr d' = lcr d" "divisor d' = divisor d"
proof -
  obtain d1 where d1: "serial_wait P d = Some d1" "busy d1 = 0" "sent d1 = sent d" "lcr d1 = lcr d" "divisor d1 = divisor d"
    using serial_wait_returns by blast
  show thesis
    using that [of "port_out8 P 0x3F8 c d1"] d1 transmit [of d1 c] assms by (simp add: serial_printc_def outb_def)
qed

lemma init_serial_sets:
  "sent (init_serial P d) = sent d \<and> lcr (init_serial P d) = 3 \<and> divisor (init_serial P d) = (1, 0)"
proof -
  let ?d1 = "port_out8 P 0x3F9 0 d"
  let ?d2 = "port_out8 P 0x3FB 0x80 ?d1"
  let ?d3 = "port_out8 P 0x3F8 1 ?d2"
  let ?d4 = "port_out8 P 0x3F9 0 ?d3"
  let ?d5 = "port_out8 P 0x3FB 3 ?d4"
  have "sent ?d2 = sent d" "lcr ?d2 = 0x80" using set_high set_lcr by simp_all
  moreover from this have "sent ?d3 = sent d" "lcr ?d3 = 0x80" "fst (divisor ?d3) = 1" using set_low [of ?d2 1] by simp_all
  ultimately have "sent ?d5 = sent d" "lcr ?d5 = 3" "divisor ?d5 = (1, 0)" using set_high [of 0 ?d3] set_lcr by simp_all
  then show ?thesis using set_other by (simp add: init_serial_def outbs_def outb_def)
qed

lemma putch_sends:
  assumes "pk_dev s = Some d" and "lcr d AND 0x80 = 0"
  obtains d' where "putch P c s = s\<lparr>pk_dev := Some d', pk_cnt := i32 (pk_cnt s + 1)\<rparr>"
    "sent d' = sent d @ [of_int c]" "lcr d' = lcr d"
proof -
  obtain d' where "serial_printc P (of_int c) d = Some d'" "sent d' = sent d @ [of_int c]" "lcr d' = lcr d"
    by (rule serial_printc_sends [OF assms(2)])
  then show thesis using that [of d'] assms(1) by (simp add: putch_def)
qed

end

text \<open>The state after some characters: what was sent and counted since the start.\<close>

definition pk_inv :: "('d \<Rightarrow> byte list) \<Rightarrow> ('d \<Rightarrow> byte) \<Rightarrow> mem \<Rightarrow> int \<Rightarrow> byte list \<Rightarrow> addr \<Rightarrow> byte list \<Rightarrow> 'd pk \<Rightarrow> bool" where
  "pk_inv sent lcr m n before fmt xs s \<longleftrightarrow> cstr m fmt xs \<and> pk_mem s = m \<and>
     (\<exists>d ys. pk_dev s = Some d \<and> lcr d AND 0x80 = 0 \<and> sent d = before @ ys \<and> pk_cnt s = i32 (n + int (length ys)))"

lemma i32_add: "i32 (i32 x + y) = i32 (x + y)"
  unfolding i32_def by (metis signed_take_bit_add signed_take_bit_signed_take_bit min.idem)

context uart
begin

lemma pk_inv_putch:
  assumes "pk_inv sent lcr m n before fmt xs s"
  shows "pk_inv sent lcr m n before fmt xs (putch P c s)"
proof -
  obtain d ys where d: "pk_dev s = Some d" "lcr d AND 0x80 = 0" "sent d = before @ ys" "pk_cnt s = i32 (n + int (length ys))"
    "cstr m fmt xs" "pk_mem s = m"
    using assms by (auto simp: pk_inv_def)
  obtain d' where d': "putch P c s = s\<lparr>pk_dev := Some d', pk_cnt := i32 (pk_cnt s + 1)\<rparr>"
    "sent d' = sent d @ [of_int c]" "lcr d' = lcr d"
    by (rule putch_sends [OF d(1,2)])
  have "i32 (pk_cnt s + 1) = i32 (n + int (length (ys @ [of_int c :: byte])))" unfolding d(4) by (simp only: i32_add) (simp add: algebra_simps)
  moreover have "sent d' = before @ (ys @ [of_int c])" using d(3) d'(2) by simp
  ultimately show ?thesis using d d' unfolding pk_inv_def by fastforce
qed

sublocale console: char_sink "putch P" "pk_inv sent lcr m n before fmt xs" pk_mem fmt xs for m n before fmt xs
  by unfold_locales (fact pk_inv_putch, simp add: pk_inv_def)

lemma vprintk_sends:
  assumes "cstr m fmt xs" and "lcr d AND 0x80 = 0" and "i32 n = n"
  shows "\<exists>d' ys. vprintk P m fmt ap n d = Some (i32 (n + int (length ys)), d') \<and> sent d' = sent d @ ys"
proof -
  have "pk_inv sent lcr m n (sent d) fmt xs \<lparr>pk_mem = m, pk_dev = Some d, pk_cnt = n\<rparr>"
    using assms by (simp add: pk_inv_def)
  from console.vprintfmt_returns [OF this, of ap] obtain s where
    "vprintfmt pk_mem (putch P) fmt ap \<lparr>pk_mem = m, pk_dev = Some d, pk_cnt = n\<rparr> = Some s" "pk_inv sent lcr m n (sent d) fmt xs s"
    by blast
  then show ?thesis by (auto simp: vprintk_def pk_inv_def)
qed

lemma vprintfmt_literal:
  assumes "cstr m fmt xs" and "37 \<notin> set xs" and "pk_mem s = m" and "pk_dev s = Some d" and "lcr d AND 0x80 = 0"
  shows "\<exists>s' d'. vprintfmt pk_mem (putch P) fmt ap s = Some s' \<and> pk_dev s' = Some d' \<and> sent d' = sent d @ xs"
  using assms
proof (induction xs arbitrary: fmt s d)
  case Nil
  then show ?case by (subst vprintfmt.simps) simp
next
  case (Cons x xs)
  then have x: "m fmt = x" "x \<noteq> 0" "cstr m (fmt + 1) xs" "x \<noteq> 37" by auto
  obtain d' where d': "putch P (uint x) s = s\<lparr>pk_dev := Some d', pk_cnt := i32 (pk_cnt s + 1)\<rparr>"
    "sent d' = sent d @ [of_int (uint x)]" "lcr d' = lcr d"
    by (rule putch_sends [OF Cons.prems(4,5)])
  let ?s = "s\<lparr>pk_dev := Some d', pk_cnt := i32 (pk_cnt s + 1)\<rparr>"
  have "\<exists>s' d''. vprintfmt pk_mem (putch P) (fmt + 1) ap ?s = Some s' \<and> pk_dev s' = Some d'' \<and> sent d'' = sent d' @ xs"
    using Cons.prems x d'(3) by (intro Cons.IH) auto
  moreover have "uint x \<noteq> 37" "uint x \<noteq> 0" using x by (simp_all add: word_uint_eq_iff)
  ultimately show ?case using x(1) d'(1,2) Cons.prems(3) by (subst vprintfmt.simps) (simp add: Let_def)
qed

lemma printk_literal:
  assumes "cstr m fmt xs" and "37 \<notin> set xs"
  shows "\<exists>d' c. printk P m fmt ap n (init_serial P d) = Some (c, d') \<and> sent d' = sent d @ xs"
proof -
  have "lcr (init_serial P d) AND 0x80 = 0" "sent (init_serial P d) = sent d" using init_serial_sets [of d] by simp_all
  then show ?thesis
    using vprintfmt_literal [OF assms, of "\<lparr>pk_mem = m, pk_dev = Some (init_serial P d), pk_cnt = n\<rparr>" "init_serial P d" ap]
    by (auto simp: printk_def vprintk_def)
qed

end

section \<open>A concrete controller\<close>

record uart_dev =
  u_sent :: "byte list"
  u_lcr :: byte
  u_div :: "byte \<times> byte"
  u_busy :: nat

text \<open>It is busy for three polls after every byte.\<close>

definition uart_ports :: "uart_dev ports" where
  "uart_ports = \<lparr>port_in8 = (\<lambda>p d. if p = 0x3FD then (if u_busy d = 0 then 0x60 else 0, d\<lparr>u_busy := u_busy d - 1\<rparr>) else (0, d)),
     port_in32 = (\<lambda>p d. (0, d)),
     port_out8 = (\<lambda>p b d.
       if p = 0x3FB then d\<lparr>u_lcr := b\<rparr>
       else if p = 0x3F8 then (if u_lcr d AND 0x80 \<noteq> 0 then d\<lparr>u_div := (b, snd (u_div d))\<rparr>
                               else d\<lparr>u_sent := u_sent d @ [b], u_busy := 3\<rparr>)
       else if p = 0x3F9 \<and> u_lcr d AND 0x80 \<noteq> 0 then d\<lparr>u_div := (fst (u_div d), b)\<rparr> else d),
     port_out32 = (\<lambda>p w d. d)\<rparr>"

interpretation com1: uart uart_ports u_sent u_lcr u_div u_busy
  by unfold_locales (auto simp: uart_ports_def)

section \<open>Properties\<close>

text \<open>
  After \<open>init_serial\<close> the line runs at divisor 1 with 8 data bits and the console transmits: a
  message without directives arrives byte for byte after everything that was sent before.
\<close>

theorem printk_transmits:
  assumes "uart P sent lcr divisor busy" and "cstr m fmt xs" and "37 \<notin> set xs"
  shows "lcr (init_serial P d) = 3 \<and> divisor (init_serial P d) = (1, 0) \<and>
    (\<exists>d' c. printk P m fmt ap n (init_serial P d) = Some (c, d') \<and> sent d' = sent d @ xs)"
  using uart.init_serial_sets [OF assms(1), of d] uart.printk_literal [OF assms(1-3), of ap n d] by blast

theorem printk_transmits_witness:
  "u_lcr (init_serial uart_ports \<lparr>u_sent = [7], u_lcr = 0, u_div = (0, 0), u_busy = 2\<rparr>) = 3 \<and>
   u_div (init_serial uart_ports \<lparr>u_sent = [7], u_lcr = 0, u_div = (0, 0), u_busy = 2\<rparr>) = (1, 0) \<and>
   (\<exists>d' c. printk uart_ports (write_bytes (\<lambda>_. 0) 4096 (ascii ''Hi'')) 4096 0 0
      (init_serial uart_ports \<lparr>u_sent = [7], u_lcr = 0, u_div = (0, 0), u_busy = 2\<rparr>) = Some (c, d') \<and>
     u_sent d' = [7, 72, 105])"
  using printk_transmits [OF com1.uart_axioms, of "write_bytes (\<lambda>_. 0) 4096 (ascii ''Hi'')" 4096 "[72, 105]"
      "\<lparr>u_sent = [7], u_lcr = 0, u_div = (0, 0), u_busy = 2\<rparr>" 0 0]
  by (simp add: write_bytes_def ascii_def)

text \<open>
  Every call of \<open>vprintk\<close> returns, whatever the format and the arguments are. Its result is the
  number of characters sent on top of the value that the uninitialised counter happens to have.
\<close>

theorem vprintk_counts:
  assumes "uart P sent lcr divisor busy" and "cstr m fmt xs" and "lcr d AND 0x80 = 0" and "i32 n = n"
  shows "\<exists>d' ys. vprintk P m fmt ap n d = Some (i32 (n + int (length ys)), d') \<and> sent d' = sent d @ ys"
  by (rule uart.vprintk_sends [OF assms])

theorem vprintk_counts_witness:
  "\<exists>d' ys. vprintk uart_ports fmt_demo 4096 8192 77 \<lparr>u_sent = [], u_lcr = 3, u_div = (1, 0), u_busy = 5\<rparr> =
     Some (i32 (77 + int (length ys)), d') \<and> u_sent d' = ys"
  using vprintk_counts [OF com1.uart_axioms fmt_demo(1), of "\<lparr>u_sent = [], u_lcr = 3, u_div = (1, 0), u_busy = 5\<rparr>" 77 8192]
  by (simp add: i32_id)

end
