(* ===== verification/Keyboard.thy ===== *)
theory Keyboard
  imports Devices
begin

text \<open>
  The keyboard driver of the kernel (\<open>kernel/src/device/keyboard.c\<close>): interrupts turn scan codes
  into states of ten keys, a system call polls them. The messages that \<open>Keyboard_event\<close> prints
  are not part of the state.
\<close>

section \<open>State and operations\<close>

abbreviation (input) NR_KEYS :: nat where "NR_KEYS \<equiv> 10"

datatype key_st = KEY_STATE_EMPTY | KEY_STATE_WAIT_RELEASE | KEY_STATE_RELEASE | KEY_STATE_PRESS

text \<open>The keys 1 to 9 and Enter.\<close>

definition keycode_array :: "int list" where
  "keycode_array = [0x02, 0x03, 0x04, 0x05, 0x06, 0x07, 0x08, 0x09, 0x0a, 0x1c]"

definition press_state :: "key_st \<Rightarrow> key_st" where
  "press_state k =
     (case k of KEY_STATE_EMPTY \<Rightarrow> KEY_STATE_PRESS | KEY_STATE_RELEASE \<Rightarrow> KEY_STATE_PRESS
      | KEY_STATE_PRESS \<Rightarrow> KEY_STATE_PRESS | KEY_STATE_WAIT_RELEASE \<Rightarrow> KEY_STATE_WAIT_RELEASE)"

text \<open>The loop over the keys, for the codes and states from some index on.\<close>

fun key_event_scan :: "int \<Rightarrow> int list \<Rightarrow> key_st list \<Rightarrow> key_st list" where
  "key_event_scan code (c # cs) (k # ks) =
     (if code = c then press_state k # ks
      else if code = c + 0x80 then KEY_STATE_RELEASE # ks
      else k # key_event_scan code cs ks)"
| "key_event_scan code cs ks = ks"

definition Keyboard_event :: "'d ports \<Rightarrow> 'd \<Rightarrow> key_st list \<Rightarrow> key_st list \<times> 'd" where
  "Keyboard_event P d key_state =
     (let (b, d1) = inb P 0x60 d in (key_event_scan (uint b) keycode_array key_state, d1))"

fun handle_keys_scan :: "int list \<Rightarrow> key_st list \<Rightarrow> int \<times> key_st list" where
  "handle_keys_scan (c # cs) (k # ks) =
     (if k = KEY_STATE_PRESS then (c, KEY_STATE_WAIT_RELEASE # ks)
      else if k = KEY_STATE_RELEASE then (c + 0x80, KEY_STATE_EMPTY # ks)
      else (let (r, ks1) = handle_keys_scan cs ks in (r, k # ks1)))"
| "handle_keys_scan cs ks = (0xff, ks)"

text \<open>\<open>handle_keys\<close> also enables interrupts before it returns a key; the result says whether it did.\<close>

definition handle_keys :: "key_st list \<Rightarrow> int \<times> bool \<times> key_st list" where
  "handle_keys key_state = (let (r, ks) = handle_keys_scan keycode_array key_state in (r, r \<noteq> 0xff, ks))"

definition Refresh_Kbdbuf :: "key_st list \<Rightarrow> key_st list" where
  "Refresh_Kbdbuf key_state = replicate NR_KEYS KEY_STATE_EMPTY"

section \<open>The loops\<close>

text \<open>The make and break codes of the keys are all different, so each code means one key.\<close>

definition codes_ok :: "int list \<Rightarrow> bool" where
  "codes_ok cs \<longleftrightarrow> distinct cs \<and> (\<forall>c \<in> set cs. 0 \<le> c \<and> c < 0x7f)"

lemma codes_ok_Cons: "codes_ok (c # cs) \<longleftrightarrow> c \<notin> set cs \<and> 0 \<le> c \<and> c < 0x7f \<and> codes_ok cs"
  by (auto simp: codes_ok_def)

lemma keycode_array_ok: "codes_ok keycode_array" "length keycode_array = NR_KEYS"
  by (simp_all add: codes_ok_def keycode_array_def)

lemma key_event_length [simp]: "length (key_event_scan code cs ks) = length ks"
  by (induction code cs ks rule: key_event_scan.induct) auto

lemma handle_keys_length [simp]: "length (snd (handle_keys_scan cs ks)) = length ks"
  by (induction cs ks rule: handle_keys_scan.induct) (auto split: prod.split)

lemma key_event_nth:
  assumes "codes_ok cs" and "length ks = length cs" and "i < length cs"
  shows "key_event_scan code cs ks ! i =
    (if code = cs ! i then press_state (ks ! i) else if code = cs ! i + 0x80 then KEY_STATE_RELEASE else ks ! i)"
  using assms
proof (induction code cs ks arbitrary: i rule: key_event_scan.induct)
  case (1 code c cs k ks)
  show ?case
  proof (cases i)
    case 0
    then show ?thesis by simp
  next
    case (Suc j)
    then have "cs ! j \<in> set cs" using "1.prems" by auto
    then have "cs ! j \<noteq> c" "0 \<le> cs ! j" "cs ! j < 0x7f" "0 \<le> c" "c < 0x7f"
      using "1.prems"(1) by (auto simp: codes_ok_def)
    then show ?thesis using 1 Suc by (auto simp: codes_ok_Cons)
  qed
qed auto

text \<open>The pending keys and which of them is delivered.\<close>

abbreviation pending :: "key_st \<Rightarrow> bool" where
  "pending k \<equiv> k = KEY_STATE_PRESS \<or> k = KEY_STATE_RELEASE"

lemma handle_keys_cases:
  assumes "codes_ok cs" and "length ks = length cs"
  obtains (none) "\<forall>k \<in> set ks. \<not> pending k" "handle_keys_scan cs ks = (0xff, ks)"
  | (press) i where "i < length ks" "\<forall>j < i. \<not> pending (ks ! j)" "ks ! i = KEY_STATE_PRESS"
      "handle_keys_scan cs ks = (cs ! i, ks[i := KEY_STATE_WAIT_RELEASE])"
  | (release) i where "i < length ks" "\<forall>j < i. \<not> pending (ks ! j)" "ks ! i = KEY_STATE_RELEASE"
      "handle_keys_scan cs ks = (cs ! i + 0x80, ks[i := KEY_STATE_EMPTY])"
  using assms
proof (induction cs ks arbitrary: thesis rule: handle_keys_scan.induct)
  case (1 c cs k ks)
  show ?case
  proof (cases "pending k")
    case True
    then show ?thesis using "1.prems"(2,3) [of 0] by auto
  next
    case False
    have ok: "codes_ok cs" "length ks = length cs" using "1.prems"(4,5) by (auto simp: codes_ok_Cons)
    show ?thesis
    proof (rule "1.IH" [OF _ _ _ _ _ ok])
      assume "\<forall>k \<in> set ks. \<not> pending k" "handle_keys_scan cs ks = (0xff, ks)"
      then show thesis using "1.prems"(1) False by simp
    next
      fix i
      assume "i < length ks" "\<forall>j < i. \<not> pending (ks ! j)" "ks ! i = KEY_STATE_PRESS"
        "handle_keys_scan cs ks = (cs ! i, ks[i := KEY_STATE_WAIT_RELEASE])"
      moreover from this have "\<forall>j < Suc i. \<not> pending ((k # ks) ! j)" using False by (auto simp: less_Suc_eq_0_disj)
      ultimately show thesis using "1.prems"(2) [of "Suc i"] False by simp
    next
      fix i
      assume "i < length ks" "\<forall>j < i. \<not> pending (ks ! j)" "ks ! i = KEY_STATE_RELEASE"
        "handle_keys_scan cs ks = (cs ! i + 0x80, ks[i := KEY_STATE_EMPTY])"
      moreover from this have "\<forall>j < Suc i. \<not> pending ((k # ks) ! j)" using False by (auto simp: less_Suc_eq_0_disj)
      ultimately show thesis using "1.prems"(3) [of "Suc i"] False by simp
    qed (use False in auto)
  qed
qed auto

section \<open>Interrupts and polls\<close>

text \<open>What happens to the driver: an interrupt with a scan code, or a poll with its result.\<close>

datatype key_act = Irq byte | Polled int

inductive key_step :: "'d ports \<Rightarrow> key_act \<Rightarrow> key_st list \<Rightarrow> key_st list \<Rightarrow> bool" for P :: "'d ports" where
  irq: "inb P 0x60 d = (b, d1) \<Longrightarrow> Keyboard_event P d ks = (ks', d1) \<Longrightarrow> key_step P (Irq b) ks ks'"
| poll: "handle_keys ks = (r, e, ks') \<Longrightarrow> key_step P (Polled r) ks ks'"

inductive_cases key_step_irqE: "key_step P (Irq b) ks ks'"
inductive_cases key_step_pollE: "key_step P (Polled r) ks ks'"

inductive key_run :: "'d ports \<Rightarrow> key_act list \<Rightarrow> key_st list \<Rightarrow> key_st list \<Rightarrow> bool" for P :: "'d ports" where
  stop: "key_run P [] ks ks"
| step: "key_step P a ks ks1 \<Longrightarrow> key_run P as ks1 ks2 \<Longrightarrow> key_run P (a # as) ks ks2"

lemma irq_nth:
  assumes "key_step P (Irq b) ks ks'" and "length ks = NR_KEYS" and "i < NR_KEYS"
  shows "ks' ! i = (if uint b = keycode_array ! i then press_state (ks ! i)
      else if uint b = keycode_array ! i + 0x80 then KEY_STATE_RELEASE else ks ! i)"
    and "length ks' = NR_KEYS"
  using assms key_event_nth [OF keycode_array_ok(1), of ks i]
  by (auto elim!: key_step_irqE simp: Keyboard_event_def keycode_array_ok)

lemma codes_nth:
  assumes "i < NR_KEYS"
  shows "0 \<le> keycode_array ! i" "keycode_array ! i < 0x7f"
  using assms keycode_array_ok by (auto simp: codes_ok_def)

lemma code_inj: "i < NR_KEYS \<Longrightarrow> j < NR_KEYS \<Longrightarrow> keycode_array ! i = keycode_array ! j \<Longrightarrow> i = j"
  using keycode_array_ok by (simp add: codes_ok_def nth_eq_iff_index_eq)

text \<open>A poll: nothing was pending, or the first pending key was delivered.\<close>

lemma handle_keys_elim [consumes 1, case_names none press release]:
  assumes "length ks = NR_KEYS"
  obtains (none) "\<forall>k \<in> set ks. \<not> pending k" "handle_keys ks = (0xff, False, ks)"
  | (press) i where "i < NR_KEYS" "\<forall>j < i. \<not> pending (ks ! j)" "ks ! i = KEY_STATE_PRESS"
      "handle_keys ks = (keycode_array ! i, True, ks[i := KEY_STATE_WAIT_RELEASE])"
  | (release) i where "i < NR_KEYS" "\<forall>j < i. \<not> pending (ks ! j)" "ks ! i = KEY_STATE_RELEASE"
      "handle_keys ks = (keycode_array ! i + 0x80, True, ks[i := KEY_STATE_EMPTY])"
proof (rule handle_keys_cases [OF keycode_array_ok(1), of ks])
  show "length ks = length keycode_array" using assms keycode_array_ok by simp
next
  assume "\<forall>k \<in> set ks. \<not> pending k" "handle_keys_scan keycode_array ks = (0xff, ks)"
  then show thesis using none by (simp add: handle_keys_def)
next
  fix i
  assume "i < length ks" "\<forall>j < i. \<not> pending (ks ! j)" "ks ! i = KEY_STATE_PRESS"
    "handle_keys_scan keycode_array ks = (keycode_array ! i, ks[i := KEY_STATE_WAIT_RELEASE])"
  then show thesis using press [of i] codes_nth [of i] assms by (simp add: handle_keys_def)
next
  fix i
  assume "i < length ks" "\<forall>j < i. \<not> pending (ks ! j)" "ks ! i = KEY_STATE_RELEASE"
    "handle_keys_scan keycode_array ks = (keycode_array ! i + 0x80, ks[i := KEY_STATE_EMPTY])"
  then show thesis using release [of i] codes_nth [of i] assms by (simp add: handle_keys_def)
qed

text \<open>A key that was delivered and not released stays as it is, and no poll returns its code.\<close>

lemma wait_release_stays:
  assumes "key_step P a ks ks'" and "length ks = NR_KEYS" and "i < NR_KEYS" and "ks ! i = KEY_STATE_WAIT_RELEASE"
    and "a \<noteq> Irq (of_int (keycode_array ! i + 0x80))"
  shows "length ks' = NR_KEYS \<and> ks' ! i = KEY_STATE_WAIT_RELEASE"
proof (cases a)
  case (Irq b)
  have "of_int (uint b) = b" by simp
  then have "uint b \<noteq> keycode_array ! i + 0x80" using assms(5) Irq by metis
  then show ?thesis using irq_nth [OF _ assms(2,3), of P b ks'] assms(1,4) Irq by (simp add: press_state_def)
next
  case (Polled r)
  then obtain e where "handle_keys ks = (r, e, ks')" using assms(1) by (auto elim: key_step_pollE)
  then show ?thesis using assms(2,4) by (cases rule: handle_keys_elim [OF assms(2)]) (auto simp: nth_list_update)
qed

lemma wait_release_quiet:
  assumes "length ks = NR_KEYS" and "i < NR_KEYS" and "ks ! i = KEY_STATE_WAIT_RELEASE"
  shows "fst (handle_keys ks) \<noteq> keycode_array ! i"
  using assms(1)
proof (cases rule: handle_keys_elim)
  case none
  then show ?thesis using codes_nth [OF assms(2)] by simp
next
  case (press j)
  then show ?thesis using code_inj [OF assms(2), of j] assms(3) by auto
next
  case (release j)
  then show ?thesis using codes_nth [OF assms(2)] codes_nth [of j] by simp
qed

lemma run_quiet:
  assumes "key_run P as ks ks'" and "length ks = NR_KEYS" and "i < NR_KEYS" and "ks ! i = KEY_STATE_WAIT_RELEASE"
    and "Irq (of_int (keycode_array ! i + 0x80)) \<notin> set as"
  shows "length ks' = NR_KEYS \<and> ks' ! i = KEY_STATE_WAIT_RELEASE"
  using assms
proof (induction rule: key_run.induct)
  case (step a ks ks1 as ks2)
  have "length ks1 = NR_KEYS \<and> ks1 ! i = KEY_STATE_WAIT_RELEASE"
    using step by (intro wait_release_stays [OF step.hyps(1)]) auto
  then show ?case using step by simp
qed simp

text \<open>A pending key is delivered after the pending keys before it.\<close>

definition poll :: "key_st list \<Rightarrow> key_st list" where
  "poll ks = snd (snd (handle_keys ks))"

lemma pending_delivered:
  assumes "length ks = NR_KEYS" and "i < NR_KEYS" and "ks ! i = KEY_STATE_PRESS"
  shows "\<exists>n \<le> card {j. j < i \<and> pending (ks ! j)}. fst (handle_keys ((poll ^^ n) ks)) = keycode_array ! i"
  using assms
proof (induction "card {j. j < i \<and> pending (ks ! j)}" arbitrary: ks rule: less_induct)
  case less
  let ?A = "{j. j < i \<and> pending (ks ! j)}"
  have next_key: ?case if j: "j < i" "pending (ks ! j)" "poll ks = ks[j := k]" "\<not> pending k" for j k
  proof -
    have A: "{l. l < i \<and> pending (ks[j := k] ! l)} = ?A - {j}"
      using j less.prems(1,2) by (auto simp: nth_list_update)
    then have c: "card {l. l < i \<and> pending (ks[j := k] ! l)} < card ?A" unfolding A using j by (intro card_Diff1_less) auto
    have "ks[j := k] ! i = KEY_STATE_PRESS" using j less.prems by simp
    then obtain n where "n \<le> card {l. l < i \<and> pending (ks[j := k] ! l)}" "fst (handle_keys ((poll ^^ n) (ks[j := k]))) = keycode_array ! i"
      using less.hyps [OF c] less.prems by auto
    then show ?thesis using j(3) c by (intro exI [of _ "Suc n"]) (simp add: funpow_Suc_right del: funpow.simps)
  qed
  show ?case
    using less.prems(1)
  proof (cases rule: handle_keys_elim)
    case none
    then show ?thesis using less.prems by (metis nth_mem)
  next
    case (press j)
    then have "\<not> i < j" using less.prems(3) by auto
    then show ?thesis using press next_key [of j KEY_STATE_WAIT_RELEASE] less.prems
      by (cases "i = j") (auto simp: poll_def intro: exI [of _ 0])
  next
    case (release j)
    then have "\<not> i < j" "i \<noteq> j" using less.prems(3) by auto
    then show ?thesis using release next_key [of j KEY_STATE_EMPTY] by (simp add: poll_def)
  qed
qed

section \<open>An instance\<close>

text \<open>A keyboard whose data port shows one scan code, and a driver state with one key pressed.\<close>

definition kbd_ports :: "byte ports" where
  "kbd_ports = \<lparr>port_in8 = (\<lambda>p d. (d, d)), port_in32 = (\<lambda>p d. (0, d)), port_out8 = (\<lambda>p b d. d), port_out32 = (\<lambda>p w d. d)\<rparr>"

definition keys_idle :: "key_st list" where
  "keys_idle = KEY_STATE_EMPTY # replicate 9 KEY_STATE_EMPTY"

lemma keys_demo:
  "handle_keys (keys_idle[0 := KEY_STATE_PRESS]) = (keycode_array ! 0, True, keys_idle[0 := KEY_STATE_WAIT_RELEASE])"
  "key_step kbd_ports (Irq 2) (keys_idle[0 := KEY_STATE_WAIT_RELEASE]) (keys_idle[0 := KEY_STATE_WAIT_RELEASE])"
  "inb kbd_ports 0x60 2 = (2, 2)" "length keys_idle = NR_KEYS" "keycode_array ! 0 = 2" "keys_idle ! 0 = KEY_STATE_EMPTY"
proof -
  show "key_step kbd_ports (Irq 2) (keys_idle[0 := KEY_STATE_WAIT_RELEASE]) (keys_idle[0 := KEY_STATE_WAIT_RELEASE])"
    by (rule key_step.irq [of _ 2 2 2])
      (simp_all add: kbd_ports_def inb_def Keyboard_event_def keycode_array_def keys_idle_def press_state_def)
qed (simp_all add: kbd_ports_def inb_def handle_keys_def keycode_array_def keys_idle_def)

section \<open>Properties\<close>

text \<open>
  C18: No repeated key presses: once a poll has delivered a key press, no later poll delivers it
  again before the release of the key is seen, however many interrupts and polls come between
  (in particular not for the codes that a key held down repeats).
\<close>

theorem no_auto_repeat:
  assumes "length ks = NR_KEYS" and "i < NR_KEYS" and "handle_keys ks = (keycode_array ! i, e, ks1)"
    and "key_run P as ks1 ks2" and "Irq (of_int (keycode_array ! i + 0x80)) \<notin> set as"
  shows "fst (handle_keys ks2) \<noteq> keycode_array ! i"
proof -
  have "length ks1 = NR_KEYS \<and> ks1 ! i = KEY_STATE_WAIT_RELEASE"
    using assms(1)
  proof (cases rule: handle_keys_elim)
    case (press j)
    then show ?thesis using assms(1,3) code_inj [OF assms(2) press(1)] by auto
  next
    case (release j)
    then show ?thesis using assms(3) codes_nth [OF assms(2)] codes_nth [OF release(1)] by auto
  qed (use assms(3) codes_nth [OF assms(2)] in auto)
  then have "length ks2 = NR_KEYS \<and> ks2 ! i = KEY_STATE_WAIT_RELEASE"
    using run_quiet [OF assms(4) _ assms(2) _ assms(5)] by blast
  then show ?thesis using wait_release_quiet assms(2) by blast
qed

theorem no_auto_repeat_witness:
  "fst (handle_keys (keys_idle[0 := KEY_STATE_WAIT_RELEASE])) \<noteq> keycode_array ! 0"
  using no_auto_repeat [OF _ _ keys_demo(1) key_run.step [OF keys_demo(2) key_run.stop]] by (simp add: keys_demo)



end
