(* ===== verification/Syscall.thy ===== *)
theory Syscall
  imports Semaphore File_System Keyboard
begin

text \<open>
  System calls and interrupts: \<open>kernel/src/syscall/syscall.c\<close> and \<open>kernel/src/irq/irq_handle.c\<close>,
  which dispatch to all other components of the kernel. The entry code in \<open>do_irq.S\<close> pushes the
  trap frame whose address is the argument of \<open>irq_handle\<close>. Messages on the console are not
  modelled here.
\<close>

section \<open>State\<close>

record 'd sysst = "'d fsst" +
  key_state :: "key_st list"

text \<open>The addresses of the local buffers of the file operations.\<close>

record kbufs =
  kb_inode :: addr
  kb_temp :: addr
  kb_end :: addr

abbreviation (input) TF_EBX :: u32 where "TF_EBX \<equiv> 16"
abbreviation (input) TF_EDX :: u32 where "TF_EDX \<equiv> 20"
abbreviation (input) TF_ECX :: u32 where "TF_ECX \<equiv> 24"
abbreviation (input) TF_IRQ :: u32 where "TF_IRQ \<equiv> 40"

abbreviation (input) VMEM_ADDR :: addr where "VMEM_ADDR \<equiv> 0xA0000"
abbreviation (input) SCR_SIZE :: u32 where "SCR_SIZE \<equiv> 64000"

section \<open>Semaphores in the memory of the caller\<close>

definition sem_get :: "addr \<Rightarrow> 'a kst_scheme \<Rightarrow> sem_t" where
  "sem_get p s = \<lparr>sem_value = sint (load32 (mem s) p), mutex = (mem s (p + 4) \<noteq> 0),
     sem_index = sint (load32 (mem s) (p + 8)), block_proc_num = sint (load32 (mem s) (p + 12))\<rparr>"

text \<open>The two members that the operations on a semaphore write.\<close>

definition sem_put :: "addr \<Rightarrow> sem_t \<Rightarrow> 'a kst_scheme \<Rightarrow> 'a kst_scheme" where
  "sem_put p q s = s\<lparr>mem := store32 (store32 (mem s) p (of_int (sem_value q))) (p + 12) (of_int (block_proc_num q))\<rparr>"

definition sem_put_new :: "addr \<Rightarrow> sem_t \<Rightarrow> 'a kst_scheme \<Rightarrow> 'a kst_scheme" where
  "sem_put_new p q s = sem_put p q (s\<lparr>mem := store32 ((mem s)(p + 4 := (if mutex q then 1 else 0))) (p + 8) (of_int (sem_index q))\<rparr>)"

section \<open>System calls\<close>

primrec put_bytes :: "'d ports \<Rightarrow> mem \<Rightarrow> addr \<Rightarrow> nat \<Rightarrow> 'd \<Rightarrow> 'd option" where
  "put_bytes P m buf 0 d = Some d"
| "put_bytes P m buf (Suc n) d = Option.bind (serial_printc P (m buf) d) (put_bytes P m (buf + 1) n)"

definition fs_write :: "'d ports \<Rightarrow> int \<Rightarrow> addr \<Rightarrow> int \<Rightarrow> ('d, 'a) fsst_scheme \<Rightarrow> (int \<times> ('d, 'a) fsst_scheme) res" where
  "fs_write P fd buf len s =
     (if fd = 1
      then bnd (ret (put_bytes P (mem s) buf (nat len) (dev s))) (\<lambda>d. Inr (len, s\<lparr>dev := d\<rparr>))
      else Inr (-1, s))"

text \<open>Storing the result of a call in the trap frame.\<close>

definition ret_eax :: "addr \<Rightarrow> (int \<times> 'a kst_scheme) res \<Rightarrow> 'a kst_scheme res" where
  "ret_eax t r = bnd r (\<lambda>(v, s). Inr (set_tf t TF_EAX (of_int v) s))"

definition do_syscall :: "'d ports \<Rightarrow> kbufs \<Rightarrow> addr \<Rightarrow> 'd sysst \<Rightarrow> 'd sysst res" where
  "do_syscall P K t s =
     (let id = uint (get_tf t TF_EAX s); ebx = get_tf t TF_EBX s; ecx = get_tf t TF_ECX s; edx = get_tf t TF_EDX s;
          q = sem_get ebx s
      in if id = 0 then (let (r, e, ks) = handle_keys (key_state s)
                         in ret_eax t (Inr (r, s\<lparr>IF := IF s \<or> e, key_state := ks\<rparr>)))
         else if id = 2 then ret_eax t (fs_write P (sint ebx) ecx (sint edx) s)
         else if id = 1 then Inr (s\<lparr>mem := memcpy (mem s) VMEM_ADDR ebx SCR_SIZE\<rparr>)
         else if id = 3 then ret_eax t (Inr (uint (time_tick s), s))
         else if id = 6 then process_sleep (sint ebx) s
         else if id = 5 then process_fork s
         else if id = 7 then process_exit s
         else if id = 4 then ret_eax t (Inr (getpid s, s))
         else if id = 8 then create_thread ebx s
         else if id = 9 then (let (q1, s1) = sem_init (sint ecx) (edx \<noteq> 0) s in Inr (sem_put_new ebx q1 s1))
         else if id = 10 then bnd (sem_wait q s) (\<lambda>(q1, s1). Inr (sem_put ebx q1 s1))
         else if id = 11 then (let (q1, s1) = sem_post q s in Inr (sem_put ebx q1 s1))
         else if id = 12 then Inr (sem_destroy q s)
         else if id = 13 then (let (r, q1, s1) = sem_trywait q s in ret_eax t (Inr (r, sem_put ebx q1 s1)))
         else if id = 14 then ret_eax t (open_file P (kb_inode K) ebx (sint ecx) s)
         else if id = 15 then ret_eax t (read_file P (kb_temp K) (sint ebx) ecx (sint edx) s)
         else if id = 16 then ret_eax t (write_file P (kb_temp K) (sint ebx) ecx (sint edx) s)
         else if id = 17 then ret_eax t (lseek P (kb_end K) (sint ebx) (sint ecx) (sint edx) s)
         else if id = 18 then ret_eax t (close_file (sint ebx) s)
         else Inr s)"

section \<open>Interrupts\<close>

text \<open>Exceptions print a message and stop the kernel in an endless loop.\<close>

definition irq_handle :: "'d ports \<Rightarrow> kbufs \<Rightarrow> addr \<Rightarrow> 'd sysst \<Rightarrow> 'd sysst res" where
  "irq_handle P K t s =
     (let irq = sint (get_tf t TF_IRQ s); set_frame = at_pcb (current s) (\<lambda>b. b\<lparr>tf := t\<rparr>) s
      in if irq = 0x80 then bnd set_frame (do_syscall P K t)
         else if irq < 1000 then Inl Hang
         else if irq = 1000 then timer_event t s
         else if irq = 1001
         then bnd set_frame (\<lambda>s1. let (ks, d) = Keyboard_event P (dev s1) (key_state s1) in Inr (s1\<lparr>key_state := ks, dev := d\<rparr>))
         else if irq = 1014 then set_frame
         else Inr s)"

section \<open>Output of a process\<close>

lemma read_bytes_Suc: "read_bytes m a (Suc n) = m a # read_bytes m (a + 1) n"
proof -
  have "[0..<Suc n] = 0 # map Suc [0..<n]" by (simp add: upt_conv_Cons map_Suc_upt del: upt_Suc)
  then show ?thesis by (simp add: read_bytes_def comp_def add.assoc del: upt_Suc)
qed

lemma nat_sint: "0 \<le> sint (n :: u32) \<Longrightarrow> nat (sint n) = unat n"
proof -
  assume n: "0 \<le> sint n"
  have "uint n = uint (of_int (sint n) :: u32)" by simp
  also have "\<dots> = take_bit LENGTH(32) (sint n)" by (rule uint_word_of_int_eq)
  finally have "uint n = take_bit 32 (sint n)" by simp
  moreover have "sint n < 2 ^ 31" using sint_lt [of n] by simp
  ultimately have "uint n = sint n" using n by (simp add: take_bit_int_eq_self)
  then show ?thesis by (simp add: unat_eq_nat_uint)
qed

context uart
begin

lemma put_bytes_sends:
  "lcr d AND 0x80 = 0 \<Longrightarrow> \<exists>d'. put_bytes P m buf n d = Some d' \<and> sent d' = sent d @ read_bytes m buf n \<and> lcr d' = lcr d"
proof (induction n arbitrary: buf d)
  case 0
  then show ?case by (simp add: read_bytes_def)
next
  case (Suc n)
  obtain d1 where d1: "serial_printc P (m buf) d = Some d1" "sent d1 = sent d @ [m buf]" "lcr d1 = lcr d"
    by (rule serial_printc_sends [OF Suc.prems])
  then show ?case using Suc.IH [of d1 "buf + 1"] Suc.prems by (auto simp: read_bytes_Suc)
qed

end

lemma write_syscall:
  assumes "uart P sent lcr divisor busy" and "lcr (dev s) AND 0x80 = 0" and "current s < MAX_PCB"
    and "get_tf t TF_IRQ s = 0x80" and "get_tf t TF_EAX s = 2" and "get_tf t TF_EBX s = 1"
    and "get_tf t TF_ECX s = buf" and "get_tf t TF_EDX s = n" and "0 \<le> sint n"
  obtains d' where "sent d' = sent (dev s) @ read_bytes (mem s) buf (unat n)" and "lcr d' = lcr (dev s)"
    and "irq_handle P K t s = Inr (set_tf t TF_EAX n ((upd_pcb (current s) (\<lambda>b. b\<lparr>tf := t\<rparr>) s)\<lparr>dev := d'\<rparr>))"
proof -
  let ?s1 = "upd_pcb (current s) (\<lambda>b. b\<lparr>tf := t\<rparr>) s"
  have n: "nat (sint n) = unat n" "of_int (sint n) = n" using assms(9) by (simp_all add: nat_sint)
  obtain d' where d': "put_bytes P (mem s) buf (unat n) (dev s) = Some d'" "sent d' = sent (dev s) @ read_bytes (mem s) buf (unat n)"
    "lcr d' = lcr (dev s)" using uart.put_bytes_sends [OF assms(1,2)] by blast
  have "get_tf t off ?s1 = get_tf t off s" for off by (simp add: get_tf_def)
  moreover have "dev ?s1 = dev s" by (simp add: upd_pcb_def)
  ultimately have "do_syscall P K t ?s1 = Inr (set_tf t TF_EAX n (?s1\<lparr>dev := d'\<rparr>))"
    using assms(4-8) d'(1) n by (simp add: do_syscall_def Let_def fs_write_def ret_eax_def ret_def)
  moreover have "irq_handle P K t s = do_syscall P K t ?s1"
    using assms(3,4) by (simp add: irq_handle_def Let_def at_pcb_def)
  ultimately show thesis using that [OF d'(2,3)] by simp
qed

section \<open>Properties\<close>

text \<open>
  C19: The system call \<open>write\<close> on descriptor 1: the interrupt sends exactly the bytes of the buffer
  over the serial line, in order and after everything sent before, returns their number in
  \<open>eax\<close> and changes nothing else in memory.
\<close>

theorem write_syscall_sends:
  assumes "uart P sent lcr divisor busy" and "lcr (dev s) AND 0x80 = 0" and "current s < MAX_PCB"
    and "get_tf t TF_IRQ s = 0x80" and "get_tf t TF_EAX s = 2" and "get_tf t TF_EBX s = 1"
    and "get_tf t TF_ECX s = buf" and "get_tf t TF_EDX s = n" and "0 \<le> sint n"
  shows "\<exists>s'. irq_handle P K t s = Inr s' \<and> sent (dev s') = sent (dev s) @ read_bytes (mem s) buf (unat n) \<and>
    get_tf t TF_EAX s' = n \<and> mem s' = store32 (mem s) (t + TF_EAX) n"
proof -
  obtain d' where d': "sent d' = sent (dev s) @ read_bytes (mem s) buf (unat n)"
    "irq_handle P K t s = Inr (set_tf t TF_EAX n ((upd_pcb (current s) (\<lambda>b. b\<lparr>tf := t\<rparr>) s)\<lparr>dev := d'\<rparr>))"
    by (rule write_syscall [OF assms])
  then show ?thesis by (simp add: set_tf_def get_tf_def)
qed

definition write_demo :: "uart_dev sysst" where
  "write_demo = \<lparr>pages = (\<lambda>_. \<lparr>pp_link = None, pp_ref = 0\<rparr>), page_free_list = None,
     mem = store32 (store32 (store32 (store32 (store32 (\<lambda>_. 65) 0x1028 0x80) 0x101C 2) 0x1010 1) 0x1018 0x5000) 0x1014 3,
     pcb_table = table_demo, pid_count = 1, current = 3, tss = \<lparr>esp0 = 0, ss0 = 16\<rparr>, cr3_reg = 0,
     IF = False, time_tick = 0, sem_count = 0, pcb_base = 0xC0200000,
     fcb_table = replicate NR_FILE \<lparr>f_state = s_close, f_inode = replicate NR_INODE_ENTRY 0, f_offset = 0, f_count = 0\<rparr>,
     direct_at = 0xC0400000, dev = \<lparr>u_sent = [], u_lcr = 3, u_div = (1, 0), u_busy = 1\<rparr>, key_state = keys_idle\<rparr>"

theorem write_syscall_sends_witness:
  "\<exists>s'. irq_handle uart_ports \<lparr>kb_inode = 0, kb_temp = 0, kb_end = 0\<rparr> 0x1000 write_demo = Inr s' \<and> u_sent (dev s') = [65, 65, 65] \<and>
    get_tf 0x1000 TF_EAX s' = 3 \<and> mem s' = store32 (mem write_demo) 0x101C 3"
proof -
  have two: "[0..<3] = [0, 1, 2 :: nat]" by (simp add: upt_rec)
  have "read_bytes (mem write_demo) 0x5000 3 = [65, 65, 65]"
    by (simp add: write_demo_def read_bytes_def two store32_def)
  then show ?thesis
    using write_syscall_sends [OF com1.uart_axioms, of write_demo "0x1000" "0x5000" 3 "\<lparr>kb_inode = 0, kb_temp = 0, kb_end = 0\<rparr>"]
    by (simp add: write_demo_def get_tf_def mem_simps disj_regions_def)
qed

end
