(* ===== verification/Kernel_Invariant.thy ===== *)
theory Kernel_Invariant
  imports Syscall
begin

text \<open>
  The invariant of the process table across every interrupt and every system call: whatever the
  processes ask the kernel to do, the table stays well formed.
\<close>

section \<open>Operations that leave the table alone\<close>

definition same_table :: "'a kst_scheme \<Rightarrow> 'a kst_scheme \<Rightarrow> bool" where
  "same_table s s' \<longleftrightarrow> pcb_table s' = pcb_table s \<and> current s' = current s"

lemma same_table_refl [simp, intro]: "same_table s s"
  by (simp add: same_table_def)

lemma same_table_trans: "same_table s s1 \<Longrightarrow> same_table s1 s2 \<Longrightarrow> same_table s s2"
  by (simp add: same_table_def)

lemma same_table_upd [simp]:
  "same_table s (s1\<lparr>mem := m\<rparr>) = same_table s s1" "same_table s (s1\<lparr>pages := pg\<rparr>) = same_table s s1"
  "same_table s (s1\<lparr>page_free_list := fl\<rparr>) = same_table s s1" "same_table s (set_tf t off w s1) = same_table s s1"
  "same_table s (s1\<lparr>IF := b\<rparr>) = same_table s s1" "same_table s (set_eax v s1) = same_table s s1"
  by (simp_all add: same_table_def)

lemma same_table_fs [simp]:
  "same_table s (s1\<lparr>dev := d\<rparr>) = same_table s s1" "same_table s (s1\<lparr>fcb_table := fs\<rparr>) = same_table s s1"
  by (simp_all add: same_table_def)

lemma for_res_same:
  assumes "\<And>i u u'. f i u = Inr u' \<Longrightarrow> same_table u u'"
  shows "for_res f is s = Inr s' \<Longrightarrow> same_table s s'"
proof (induction "is" arbitrary: s)
  case (Cons i "is")
  from Cons.prems obtain u where u: "f i s = Inr u" "for_res f is u = Inr s'" by (auto simp: bnd_Inr_iff)
  show ?case by (rule same_table_trans [OF assms [OF u(1)] Cons.IH [OF u(2)]])
qed simp

lemma page_alloc_ref_same: "page_alloc_ref s = Inr (pg, s') \<Longrightarrow> same_table s s'"
  by (auto simp: page_alloc_ref_def page_alloc_def Let_def split: option.splits if_splits prod.splits)

lemma page_free_same [simp]: "same_table s (page_free p s1) = same_table s s1"
  by (simp add: page_free_def)

lemma copy_leaf_same: "copy_leaf ct ft j s = Inr s' \<Longrightarrow> same_table s s'"
  by (auto simp: copy_leaf_def bnd_Inr_iff Let_def dest: page_alloc_ref_same split: if_splits)

lemma copy_table_same:
  assumes "copy_table c f i s = Inr s'"
  shows "same_table s s'"
proof (cases "load32 (mem s) (f + of_nat i * 4) AND PTE_P \<noteq> 0")
  case True
  then obtain pg s1 ct ft m where s: "page_alloc_ref s = Inr (pg, s1)" "for_res (copy_leaf ct ft) [0..<NR_PTE] (s1\<lparr>mem := m\<rparr>) = Inr s'"
    using assms by (auto simp: copy_table_def bnd_Inr_iff Let_def)
  have "same_table (s1\<lparr>mem := m\<rparr>) s'" by (rule for_res_same [OF copy_leaf_same s(2)])
  then have "same_table s1 s'" by (simp add: same_table_def)
  with page_alloc_ref_same [OF s(1)] show ?thesis by (rule same_table_trans)
qed (use assms in \<open>simp add: copy_table_def\<close>)

lemma thread_leaf_same: "thread_leaf ct j s = Inr s' \<Longrightarrow> same_table s s'"
  by (auto simp: thread_leaf_def bnd_Inr_iff dest: page_alloc_ref_same)

lemma release_page_same: "release_page e s = Inr s' \<Longrightarrow> same_table s s'"
  by (auto simp: release_page_def split: if_splits)

lemma release_leaf_same: "release_leaf p j s = Inr s' \<Longrightarrow> same_table s s'"
  by (auto simp: release_leaf_def dest: release_page_same split: if_splits)

lemma release_table_same: "release_table p i s = Inr s' \<Longrightarrow> same_table s s'"
  by (auto simp: release_table_def bnd_Inr_iff split: if_splits
      intro: same_table_trans [OF for_res_same [OF release_leaf_same] release_page_same])

lemma release_same: "release s = Inr s' \<Longrightarrow> same_table s s'"
  by (auto simp: release_def bnd_Inr_iff intro: same_table_trans [OF for_res_same [OF release_table_same] release_page_same])

text \<open>\<open>copy\<close> and \<open>thread_copy\<close> only set the page directory of the new entry.\<close>

lemma copy_table_only:
  assumes "copy i s = Inr s'"
  obtains v where "same_table (upd_pcb i (\<lambda>b. b\<lparr>cr3 := v\<rparr>) s) s'"
proof -
  obtain pg s1 s2 v where s: "page_alloc_ref s = Inr (pg, s1)" "pcb_cr3write i v s1 = Inr s2"
    "for_res (copy_table (page2kva pg) (cr3 (pcb s2 (current s2)) + KOFFSET)) [0..<USER_PDES]
       (s2\<lparr>mem := memcpy (mem s2) (page2kva pg + 768 * 4) (cr3 (pcb s2 (current s2)) + KOFFSET + 768 * 4) (32 * 4)\<rparr>) = Inr s'"
    using assms by (auto simp: copy_def bnd_Inr_iff Let_def)
  have "same_table s s1" using s(1) by (rule page_alloc_ref_same)
  moreover have "same_table s2 s'" using for_res_same [OF copy_table_same s(3)] by (simp add: same_table_def)
  moreover have "s2 = upd_pcb i (\<lambda>b. b\<lparr>cr3 := v\<rparr>) s1" using s(2) by (auto simp: pcb_cr3write_def at_pcb_def split: if_splits)
  ultimately have "same_table (upd_pcb i (\<lambda>b. b\<lparr>cr3 := v\<rparr>) s) s'" by (simp add: same_table_def upd_pcb_def)
  then show thesis by (rule that)
qed

lemma thread_copy_table_only:
  assumes "thread_copy i s = Inr s'"
  obtains v where "same_table (upd_pcb i (\<lambda>b. b\<lparr>cr3 := v\<rparr>) s) s'"
proof -
  obtain pg s1 s2 v m3 pg2 s4 ct m5 where s: "page_alloc_ref s = Inr (pg, s1)" "pcb_cr3write i v s1 = Inr s2"
    "page_alloc_ref (s2\<lparr>mem := m3\<rparr>) = Inr (pg2, s4)" "for_res (thread_leaf ct) [0..<NR_PTE] (s4\<lparr>mem := m5\<rparr>) = Inr s'"
    using assms by (auto simp: thread_copy_def bnd_Inr_iff Let_def)
  have "same_table s s1" "same_table (s2\<lparr>mem := m3\<rparr>) s4" using s(1,3) by (auto intro: page_alloc_ref_same)
  moreover have "same_table (s4\<lparr>mem := m5\<rparr>) s'" by (rule for_res_same [OF thread_leaf_same s(4)])
  moreover have "s2 = upd_pcb i (\<lambda>b. b\<lparr>cr3 := v\<rparr>) s1" using s(2) by (auto simp: pcb_cr3write_def at_pcb_def split: if_splits)
  ultimately have "same_table (upd_pcb i (\<lambda>b. b\<lparr>cr3 := v\<rparr>) s) s'" by (simp add: same_table_def upd_pcb_def)
  then show thesis by (rule that)
qed

text \<open>The file operations.\<close>

lemma disk_same: "disk_read P a n off s = Inr s' \<Longrightarrow> same_table s s'" "disk_write P a n off s = Inr s' \<Longrightarrow> same_table s s'"
  by (auto simp: disk_read_def disk_write_def bnd_Inr_iff)

lemma upd_fcb_same: "upd_fcb i f s = Inr s' \<Longrightarrow> same_table s s'"
  by (auto simp: upd_fcb_def split: if_splits)

lemma read_block_same: "read_block P tb f n s = Inr s' \<Longrightarrow> same_table s s'"
  by (auto simp: read_block_def bnd_Inr_iff dest: disk_same)

lemma patch_block_same: "patch_block P tb f n st src len s = Inr s' \<Longrightarrow> same_table s s'"
  by (auto simp: patch_block_def bnd_Inr_iff same_table_def dest!: disk_same)

lemma read_many_same:
  assumes "read_many P tb f buf nr start num tot s = Inr s'"
  shows "same_table s s'"
proof -
  let ?body = "\<lambda>i u. bnd (read_block P tb f i u) (\<lambda>u1.
    bnd (ret (strcpy (mem u1) (buf + of_int (512 - start + (i - nr - 1) * 512)) tb)) (\<lambda>m. Inr (u1\<lparr>mem := m\<rparr>)))"
  obtain s1 m s3 s4 where s: "read_block P tb f nr s = Inr s1" "for_res ?body [nr + 1..num - 1] (s1\<lparr>mem := m\<rparr>) = Inr s3"
    "read_block P tb f num s3 = Inr s4" "same_table s4 s'"
    using assms by (auto simp: read_many_def bnd_Inr_iff Let_def)
  have "same_table u u'" if "?body i u = Inr u'" for i u u'
    using that by (auto simp: bnd_Inr_iff dest: read_block_same)
  from for_res_same [OF this s(2)] have "same_table s1 s3" by (simp add: same_table_def)
  then show ?thesis using read_block_same [OF s(1)] read_block_same [OF s(3)] s(4) by (simp add: same_table_def)
qed

lemma read_file_same:
  assumes "read_file P tb fd buf n s = Inr (r, s')"
  shows "same_table s s'"
proof -
  have "same_table (s\<lparr>mem := m\<rparr>) u \<Longrightarrow> same_table s u" for m u by (simp add: same_table_def)
  then show ?thesis
    using assms unfolding read_file_def
    by (auto simp: bnd_Inr_iff Let_def split: if_splits
        dest!: read_block_same read_many_same upd_fcb_same simp: same_table_def)
qed

lemma write_file_same:
  assumes "write_file P tb fd buf n s = Inr (r, s')"
  shows "same_table s s'"
proof -
  have loop: "for_res (\<lambda>i u. patch_block P tb f i 0 (g i) 512 u) is u = Inr u' \<Longrightarrow> same_table u u'" for f g "is" u u'
    by (rule for_res_same [where f = "\<lambda>i u. patch_block P tb f i 0 (g i) 512 u"]) (auto dest: patch_block_same)
  show ?thesis
    using assms unfolding write_file_def
    by (auto simp: bnd_Inr_iff Let_def split: if_splits dest!: patch_block_same loop upd_fcb_same simp: same_table_def)
qed

lemma lseek_same:
  assumes "lseek P eb fd off wh s = Inr (r, s')"
  shows "same_table s s'"
  using assms unfolding lseek_def
  by (auto simp: bnd_Inr_iff Let_def split: if_splits dest!: upd_fcb_same disk_same simp: same_table_def)

section \<open>The invariant\<close>

text \<open>
  Besides the well-formed table, the first and the last entry never wait for a semaphore, and
  an entry that waits knows its own index: the release of a semaphore looks for the first entry
  with its number and makes it ready, whatever entry this is.
\<close>

definition kernel_ok :: "'a kst_scheme \<Rightarrow> bool" where
  "kernel_ok s \<longleftrightarrow> table_ok s \<and> block_sem_index (pcb s 0) = -1 \<and> block_sem_index (pcb s 99) = -1 \<and>
     (\<forall>j < MAX_PCB. block_sem_index (pcb s j) \<noteq> -1 \<longrightarrow> pcb_index (pcb s j) = j)"

lemma kernel_okD:
  assumes "kernel_ok s"
  shows "table_ok s" "block_sem_index (pcb s 0) = -1" "block_sem_index (pcb s 99) = -1"
    "j < MAX_PCB \<Longrightarrow> block_sem_index (pcb s j) \<noteq> -1 \<Longrightarrow> pcb_index (pcb s j) = j"
  using assms by (auto simp: kernel_ok_def)

lemma kernel_ok_same: "same_table s s' \<Longrightarrow> kernel_ok s' = kernel_ok s"
  by (simp add: same_table_def kernel_ok_def table_ok_def)

lemma kernel_ok_fields [simp]:
  "kernel_ok (s\<lparr>mem := m\<rparr>) = kernel_ok s" "kernel_ok (s\<lparr>IF := b\<rparr>) = kernel_ok s" "kernel_ok (s\<lparr>time_tick := t\<rparr>) = kernel_ok s"
  "kernel_ok (set_tf a off w s) = kernel_ok s" "kernel_ok (set_eax v s) = kernel_ok s" "kernel_ok (s\<lparr>sem_count := n\<rparr>) = kernel_ok s"
  "kernel_ok (enable_interrupt s) = kernel_ok s" "kernel_ok (disable_interrupt s) = kernel_ok s"
  by (simp_all add: kernel_ok_def table_ok_def)

lemma kernel_ok_upd:
  assumes "kernel_ok s" and "i < 99"
    and "\<And>b. pcb_index (f b) = pcb_index b"
    and "status (f (pcb s i)) \<noteq> Free \<Longrightarrow> pcb_index (pcb s i) = i"
    and "0 \<le> time_count (f (pcb s i))" and "time_count (f (pcb s i)) \<le> 10"
    and "block_sem_index (f (pcb s i)) \<noteq> -1 \<Longrightarrow> i \<noteq> 0 \<and> pcb_index (pcb s i) = i"
  shows "kernel_ok (upd_pcb i f s)"
proof -
  note ok = kernel_okD [OF assms(1)]
  have "table_ok (upd_pcb i f s)" by (rule table_ok_upd [OF ok(1)]) (use assms in auto)
  moreover have "length (pcb_table s) = MAX_PCB" by (rule table_okD(1) [OF ok(1)])
  ultimately show ?thesis using ok assms unfolding kernel_ok_def by (auto simp: pcb_upd_pcb)
qed

lemma kernel_ok_schedule:
  assumes "kernel_ok s" and "schedule s = Inr s'"
  shows "kernel_ok s'"
proof -
  note ok = kernel_okD [OF assms(1)]
  have "block_sem_index (pcb s' j) = block_sem_index (pcb s j)" "pcb_index (pcb s' j) = pcb_index (pcb s j)" for j
    using schedule_keeps(4) [OF ok(1) assms(2), of j] by auto
  then show ?thesis using ok schedule_keeps(3) [OF ok(1) assms(2)] by (simp add: kernel_ok_def)
qed

lemma bnd_InrE: "bnd r f = Inr y \<Longrightarrow> (\<And>x. r = Inr x \<Longrightarrow> f x = Inr y \<Longrightarrow> thesis) \<Longrightarrow> thesis"
  by (auto simp: bnd_Inr_iff)

lemma at_pcb_upd: "at_pcb i f s = Inr s' \<longleftrightarrow> i < MAX_PCB \<and> s' = upd_pcb i f s"
  by (auto simp: at_pcb_def)

lemma kernel_ok_wakeup:
  assumes "kernel_ok s"
  shows "kernel_ok (wakeup s)"
proof -
  note ok = kernel_okD [OF assms]
  have "length (pcb_table s) = MAX_PCB" by (rule table_okD(1) [OF ok(1)])
  moreover have "block_sem_index (wake_one b) = block_sem_index b" "pcb_index (wake_one b) = pcb_index b" for b
    by (simp_all add: wake_one_def Let_def)
  ultimately show ?thesis using ok table_ok_wakeup [OF ok(1)] by (simp add: kernel_ok_def pcb_wakeup)
qed

lemma kernel_ok_timer:
  assumes "kernel_ok s" and "timer_event t s = Inr s'"
  shows "kernel_ok s'"
proof -
  let ?w = "wakeup (s\<lparr>time_tick := time_tick s + 1\<rparr>)" and ?c = "current s"
  have w: "kernel_ok ?w" by (rule kernel_ok_wakeup) (simp add: assms)
  note ok = kernel_okD [OF assms(1)] and okw = kernel_okD [OF w]
  have c: "?c < 99" "current ?w = ?c" using table_okD [OF ok(1)] by auto
  have tc: "time_count (pcb ?w ?c) = time_count (pcb s ?c)"
    using c table_okD(1) [OF ok(1)] by (simp add: pcb_wakeup wake_one_def Let_def)
  have blk: "block_sem_index (pcb ?w ?c) \<noteq> -1 \<Longrightarrow> ?c \<noteq> 0" using okw(2) by (cases "?c = 0") auto
  have ix: "pcb_index (pcb ?w ?c) = ?c" using table_okD(5) [OF okw(1)] c(2) by simp
  show ?thesis
  proof (cases "time_count (pcb s ?c) = 10")
    case True
    have "kernel_ok (slice_end t s)" unfolding slice_end_def
      by (rule kernel_ok_upd [OF w c(1)]) (use ix blk in auto)
    then show ?thesis using assms(2) timer_event_cases [OF ok(1), of t] True by (auto intro: kernel_ok_schedule)
  next
    case False
    have "0 \<le> time_count (pcb s ?c) \<and> time_count (pcb s ?c) < 10" using False table_okD(7) [OF ok(1), of ?c] c by auto
    then have "kernel_ok (upd_pcb ?c (\<lambda>b. b\<lparr>tf := t, time_count := i32 (time_count b + 1)\<rparr>) ?w)"
      by (intro kernel_ok_upd [OF w c(1)]) (use tc ix blk in \<open>auto simp: i32_id\<close>)
    then show ?thesis using assms(2) timer_event_cases [OF ok(1), of t] False by simp
  qed
qed

lemma kernel_ok_current:
  assumes "kernel_ok s"
  shows "current s < 99" "pcb_index (pcb s (current s)) = current s" "0 \<le> time_count (pcb s (current s))"
    "time_count (pcb s (current s)) \<le> 10" "block_sem_index (pcb s (current s)) \<noteq> -1 \<Longrightarrow> 0 < current s"
    "length (pcb_table s) = MAX_PCB"
proof -
  note ok = kernel_okD [OF assms]
  show "current s < 99" "pcb_index (pcb s (current s)) = current s" "length (pcb_table s) = MAX_PCB"
    using table_okD [OF ok(1)] by auto
  then show "0 \<le> time_count (pcb s (current s))" "time_count (pcb s (current s)) \<le> 10"
    using table_okD(7) [OF ok(1), of "current s"] by auto
  show "block_sem_index (pcb s (current s)) \<noteq> -1 \<Longrightarrow> 0 < current s" using ok(2) by (cases "current s = 0") auto
qed

lemma kernel_ok_set_frame:
  assumes "kernel_ok s" and "at_pcb (current s) (\<lambda>b. b\<lparr>tf := t\<rparr>) s = Inr s'"
  shows "kernel_ok s' \<and> current s' = current s"
proof -
  note ok = kernel_okD [OF assms(1)]
  note t = table_okD [OF ok(1)]
  have "kernel_ok (upd_pcb (current s) (\<lambda>b. b\<lparr>tf := t\<rparr>) s)"
    by (rule kernel_ok_upd [OF assms(1) t(2)]) (use kernel_ok_current [OF assms(1)] in auto)
  then show ?thesis using assms(2) by (simp add: at_pcb_upd)
qed

lemma kernel_ok_release_sem:
  assumes "kernel_ok s"
  shows "kernel_ok (release_sem k s)"
proof -
  note ok = kernel_okD [OF assms]
  note t = table_okD [OF ok(1)]
  show ?thesis
  proof (cases "waiters k s = {}")
    case True
    then show ?thesis using assms release_sem_cases [OF t(1), of k] by simp
  next
    case False
    let ?j = "Min (waiters k s)"
    have j: "?j < MAX_PCB" "block_sem_index (pcb s ?j) = k" using Min_in [of "waiters k s"] False by (auto simp: waiters_def)
    have low: "?j \<le> l" if "l < MAX_PCB" "block_sem_index (pcb s l) = k" for l
      using that by (intro Min_le) (auto simp: waiters_def)
    have "?j \<noteq> 99" using j(2) ok(2,3) low [of 0] by auto
    moreover have "pcb_index (pcb s ?j) = ?j"
      using j ok(2,4) t(6) low [of 0] by (cases "k = -1") auto
    ultimately show ?thesis
      using False j(1) unfolding release_sem_cases [OF t(1)] by (simp, intro kernel_ok_upd [OF assms]) auto
  qed
qed

lemma kernel_ok_sleep:
  assumes "kernel_ok s" and "process_sleep n s = Inr s'"
  shows "kernel_ok s'"
proof -
  note ok = kernel_okD [OF assms(1)]
  note t = table_okD [OF ok(1)]
  have "kernel_ok (upd_pcb (current s) (\<lambda>b. b\<lparr>status := Blocked, sleep_time := n\<rparr>) s)"
    by (rule kernel_ok_upd [OF assms(1) t(2)]) (use kernel_ok_current [OF assms(1)] in auto)
  then show ?thesis using assms(2) by (auto simp: process_sleep_def bnd_Inr_iff at_pcb_upd intro: kernel_ok_schedule)
qed

lemma kernel_ok_sem_block:
  assumes "kernel_ok s" and "current s \<noteq> 0" and "sem_block q s = Inr (q', s')"
  shows "kernel_ok s'"
proof -
  note ok = kernel_okD [OF assms(1)]
  note t = table_okD [OF ok(1)]
  have "kernel_ok (upd_pcb (current s) (\<lambda>b. b\<lparr>status := Blocked, block_sem_index := sem_index q\<rparr>) s)"
    by (rule kernel_ok_upd [OF assms(1) t(2)]) (use kernel_ok_current [OF assms(1)] assms(2) in auto)
  then show ?thesis using assms(3)
    by (auto simp: sem_block_def Let_def bnd_Inr_iff at_pcb_upd intro: kernel_ok_schedule [of "enable_interrupt _"])
qed

lemma kernel_ok_sem_ops:
  assumes "kernel_ok s"
  shows "sem_init v mx s = (q', s') \<Longrightarrow> kernel_ok s'"
    and "current s \<noteq> 0 \<Longrightarrow> sem_wait q s = Inr (q', s') \<Longrightarrow> kernel_ok s'"
    and "sem_post q s = (q', s') \<Longrightarrow> kernel_ok s'"
    and "kernel_ok (sem_destroy q s)"
    and "sem_trywait q s = (r, q', s') \<Longrightarrow> kernel_ok s'"
proof -
  have d: "kernel_ok (disable_interrupt s)" "current (disable_interrupt s) = current s" using assms by simp_all
  show "sem_init v mx s = (q', s') \<Longrightarrow> kernel_ok s'" using assms by (auto simp: sem_init_def Let_def)
  show "current s \<noteq> 0 \<Longrightarrow> sem_wait q s = Inr (q', s') \<Longrightarrow> kernel_ok s'"
    using d by (auto simp: sem_wait_def Let_def bnd_Inr_iff split: if_splits elim!: kernel_ok_sem_block [OF d(1), rotated])
  show "sem_post q s = (q', s') \<Longrightarrow> kernel_ok s'"
    using kernel_ok_release_sem [OF d(1)] assms by (auto simp: sem_post_def Let_def split: if_splits)
  show "kernel_ok (sem_destroy q s)" using kernel_ok_release_sem [OF d(1)] by (simp add: sem_destroy_def)
  show "sem_trywait q s = (r, q', s') \<Longrightarrow> kernel_ok s'" using assms by (auto simp: sem_trywait_def Let_def split: if_splits)
qed

text \<open>New processes: their entry is below the last one when a lower one is free.\<close>

lemma get_pcb_low:
  assumes "get_pcb s = Inr i" and "j < 99" and "status (pcb s j) = Free" and "length (pcb_table s) = MAX_PCB"
  shows "i < 99" and "status (pcb s i) = Free"
proof -
  have f: "first_free (pcb_table s) 0 = Some i" using assms(1) by (auto simp: get_pcb_def split: option.splits)
  note g = first_free_Some [OF f]
  show "i < 99"
  proof (rule ccontr)
    assume "\<not> i < 99"
    then have "j < i" using assms(2) by simp
    then show False using g assms(3) by auto
  qed
  show "status (pcb s i) = Free" using get_pcb_Inr(2) [OF assms(1)] .
qed

lemma kernel_ok_pcb_new:
  assumes "kernel_ok s" and "i < 99" and "pcb_new p pp i s = Inr s'"
  shows "kernel_ok s' \<and> pcb_index (pcb s' i) = i \<and> current s' = current s"
proof -
  note ok = kernel_okD [OF assms(1)]
  note t = table_okD [OF ok(1)]
  have s': "s' = upd_pcb i (\<lambda>b. b\<lparr>pid := p, ppid := pp, status := New, time_count := 0, sleep_time := Sleeptime, pcb_index := i\<rparr>) s"
    using assms(3) by (simp add: pcb_new_def at_pcb_upd)
  have "table_ok s'" using ok(1) t(1-3,5) assms(2) unfolding s' table_ok_def by (auto simp: pcb_upd_pcb)
  then show ?thesis using ok t(1) assms(2) unfolding s' kernel_ok_def by (auto simp: pcb_upd_pcb)
qed

lemma kernel_ok_ready:
  assumes "kernel_ok s" and "i < 99" and "pcb_index (pcb s i) = i" and "process_ready i s = Inr s'"
  shows "kernel_ok s' \<and> current s' = current s"
proof -
  have "kernel_ok (upd_pcb i (\<lambda>b. b\<lparr>status := Ready, time_count := 0\<rparr>) s)"
    by (rule kernel_ok_upd [OF assms(1,2)]) (use assms kernel_okD(2) [OF assms(1)] in \<open>auto intro: ccontr\<close>)
  then show ?thesis using assms(4) by (simp add: process_ready_def at_pcb_upd)
qed

text \<open>Changes of an entry that do not matter for the invariant.\<close>

lemma kernel_ok_plain:
  assumes "kernel_ok s" and "i < MAX_PCB"
    and f: "\<And>b. pcb_index (f b) = pcb_index b \<and> status (f b) = status b \<and> time_count (f b) = time_count b \<and> block_sem_index (f b) = block_sem_index b"
  shows "kernel_ok (upd_pcb i f s)"
proof -
  have "length (pcb_table s) = MAX_PCB" by (rule kernel_ok_current(6) [OF assms(1)])
  then have "pcb (upd_pcb i f s) j = (if i = j then f (pcb s j) else pcb s j)" for j using assms(2) by (simp add: pcb_upd_pcb)
  then have same: "pcb_index (pcb (upd_pcb i f s) j) = pcb_index (pcb s j)" "status (pcb (upd_pcb i f s) j) = status (pcb s j)"
    "time_count (pcb (upd_pcb i f s) j) = time_count (pcb s j)" "block_sem_index (pcb (upd_pcb i f s) j) = block_sem_index (pcb s j)" for j
    using f by simp_all
  show ?thesis using assms(1) unfolding kernel_ok_def table_ok_def same by simp
qed

lemma kernel_ok_copy:
  assumes "kernel_ok s" and "i < MAX_PCB" and "copy i s = Inr s' \<or> thread_copy i s = Inr s'"
  shows "kernel_ok s' \<and> current s' = current s"
proof -
  obtain v where v: "same_table (upd_pcb i (\<lambda>b. b\<lparr>cr3 := v\<rparr>) s) s'"
    using assms(3) copy_table_only thread_copy_table_only by metis
  have "kernel_ok (upd_pcb i (\<lambda>b. b\<lparr>cr3 := v\<rparr>) s)" by (rule kernel_ok_plain [OF assms(1,2)]) simp
  then show ?thesis using kernel_ok_same [OF v] v by (simp add: same_table_def)
qed

lemma kernel_ok_fork:
  assumes "kernel_ok s" and "j < 99" "j \<noteq> current s" and "status (pcb s j) = Free" and "process_fork s = Inr s'"
  shows "kernel_ok s'"
proof -
  let ?t = "set_tf (tf (pcb s (current s))) TF_EAX (of_int (pid (pcb s (current s)))) s"
  note cur = kernel_ok_current [OF assms(1)]
  let ?u = "upd_pcb (current s) (\<lambda>b. b\<lparr>status := Ready\<rparr>) ?t"
  have u: "kernel_ok ?u" by (rule kernel_ok_upd) (use assms(1) cur in auto)
  have pu: "status (pcb ?u j) = Free" "length (pcb_table ?u) = MAX_PCB"
    using assms(2-4) cur(1,6) by (simp_all add: pcb_upd_pcb set_tf_def)
  have at: "at_pcb (current s) (\<lambda>b. b\<lparr>status := Ready\<rparr>) ?t = Inr ?u" using cur(1) by (simp add: at_pcb_upd)
  show ?thesis
    using assms(5) unfolding process_fork_def Let_def at bnd_simps
    apply (elim bnd_InrE)
    subgoal premises p for i s3 s4 s5 s7 s8
    proof -
      have i: "i < 99" by (rule get_pcb_low(1) [OF p(1) assms(2) pu])
      have 3: "kernel_ok s3" "pcb_index (pcb s3 i) = i" using kernel_ok_pcb_new [OF u i p(2)] by auto
      have 4: "kernel_ok s4" using kernel_ok_ready [OF 3(1) i 3(2) p(3)] by simp
      have 5: "kernel_ok s5" using kernel_ok_copy [OF 4, of i s5] i p(4) by simp
      have 7: "kernel_ok s7" using p(5) 5 by (auto simp: at_pcb_upd intro!: kernel_ok_plain)
      have "kernel_ok s8" using p(6) 7 by (auto simp: at_pcb_upd intro!: kernel_ok_plain)
      then show ?thesis by (intro kernel_ok_schedule [OF _ p(7)]) simp
    qed
    done
qed

lemma kernel_ok_thread:
  assumes "kernel_ok s" and "j < 99" and "status (pcb s j) = Free" and "create_thread a s = Inr s'"
  shows "kernel_ok s'"
proof -
  note cur = kernel_ok_current [OF assms(1)]
  show ?thesis
    using assms(4) unfolding create_thread_def Let_def
    apply (elim bnd_InrE)
    subgoal premises p for i s1 s2 s3
    proof -
      have i: "i < 99" by (rule get_pcb_low(1) [OF p(1) assms(2,3) cur(6)])
      have 1: "kernel_ok s1" "pcb_index (pcb s1 i) = i" using kernel_ok_pcb_new [OF assms(1) i p(2)] by auto
      have 2: "kernel_ok s2" using kernel_ok_ready [OF 1(1) i 1(2) p(3)] by simp
      have "kernel_ok s3" using kernel_ok_copy [OF 2, of i s3] i p(4) by simp
      then show ?thesis using p(5) by (auto simp: at_pcb_upd intro!: kernel_ok_plain)
    qed
    done
qed

lemma kernel_ok_exit:
  assumes "kernel_ok s" and "process_exit s = Inr s'"
  shows "kernel_ok s'"
proof -
  obtain s1 s2 where run: "at_pcb (current s) (\<lambda>b. b\<lparr>status := Free, pid := -1\<rparr>) s = Inr s1" "release s1 = Inr s2" "schedule s2 = Inr s'"
    using assms(2) by (auto simp: process_exit_def bnd_Inr_iff)
  have "kernel_ok (upd_pcb (current s) (\<lambda>b. b\<lparr>status := Free, pid := -1\<rparr>) s)"
    by (rule kernel_ok_upd) (use assms(1) kernel_ok_current [OF assms(1)] in auto)
  then have "kernel_ok s2" using run(1) kernel_ok_same [OF release_same [OF run(2)]] by (simp add: at_pcb_upd)
  then show ?thesis using run(3) by (rule kernel_ok_schedule)
qed

text \<open>Opening and closing files.\<close>

lemma kernel_ok_set_fd: "kernel_ok s \<Longrightarrow> kernel_ok (set_fd fd v s)"
  using kernel_ok_current(1) [of s] unfolding set_fd_def by (intro kernel_ok_plain) auto

lemma kernel_ok_open_fd:
  assumes "kernel_ok s" and "open_fd k s = Inr s'"
  shows "kernel_ok s'"
proof (cases "first_idx (\<lambda>v. v = -1) (fcb (pcb s (current s))) 0")
  case None
  then show ?thesis using assms by (simp add: open_fd_def)
next
  case (Some fd)
  have "kernel_ok (set_eax (int fd) (set_fd fd k s))" using assms(1) by (simp add: kernel_ok_set_fd)
  then show ?thesis using assms(2) Some by (auto simp: open_fd_def dest!: upd_fcb_same kernel_ok_same)
qed

lemma file_alloc_same: "file_alloc s = (k, s') \<Longrightarrow> same_table s s'"
  by (auto simp: file_alloc_def split: option.splits)

lemma kernel_ok_open:
  assumes "kernel_ok s" and "open_file P ib fn md s = Inr (r, s')"
  shows "kernel_ok s'"
proof -
  show ?thesis
    using assms(2) unfolding open_file_def
    apply (elim bnd_InrE)
    subgoal premises p for s3 found
    proof (cases found)
      case None
      then show ?thesis using p assms(1) by auto
    next
      case (Some i)
      obtain u where u: "disk_read P ib 512 (i32 (512 * sint (load32 (mem s) (direct_at s + of_nat (32 * i) + 28)))) s = Inr u"
        and r: "(case first_idx (\<lambda>f. f_state f = md \<and> f_inode f ! 0 = words_at (mem u) ib NR_INODE_ENTRY ! 0) (fcb_table u) 0 of
            None \<Rightarrow> let (k, v) = file_alloc u
              in bnd (upd_fcb k (\<lambda>f. f\<lparr>f_state := md, f_inode := words_at (mem u) ib NR_INODE_ENTRY, f_offset := 0,
                   f_count := i32 (f_count f + 1)\<rparr>) v) (open_fd k)
          | Some j \<Rightarrow> (case first_idx (\<lambda>v. v \<noteq> -1 \<and> v = int j) (fcb (pcb u (current u))) 0 of
              Some fd \<Rightarrow> Inr (set_eax (int j) u) | None \<Rightarrow> open_fd (int j) u)) = Inr s3"
        using p(3) Some by (auto simp: Let_def bnd_Inr_iff)
      have ku: "kernel_ok u" using assms(1) kernel_ok_same [OF disk_same(1) [OF u]] by simp
      have "kernel_ok s3"
      proof (cases "first_idx (\<lambda>f. f_state f = md \<and> f_inode f ! 0 = words_at (mem u) ib NR_INODE_ENTRY ! 0) (fcb_table u) 0")
        case None
        obtain k v where kv: "file_alloc u = (k, v)" by (cases "file_alloc u")
        have "kernel_ok v" using ku kernel_ok_same [OF file_alloc_same [OF kv]] by simp
        then show ?thesis using r None kv
          by (auto simp: bnd_Inr_iff dest!: upd_fcb_same kernel_ok_same intro: kernel_ok_open_fd)
      next
        case (Some j)
        then show ?thesis using r ku by (auto split: option.splits intro: kernel_ok_open_fd)
      qed
      then show ?thesis using p by simp
    qed
    done
qed

lemma kernel_ok_close:
  assumes "kernel_ok s" and "close_file fd s = Inr (r, s')"
  shows "kernel_ok s'"
  using assms unfolding close_file_def
  by (auto simp: bnd_Inr_iff Let_def split: if_splits dest!: upd_fcb_same kernel_ok_same intro: kernel_ok_set_fd)

section \<open>System calls and interrupts\<close>

lemma kernel_ok_sys [simp]:
  "kernel_ok (s\<lparr>key_state := ks\<rparr>) = kernel_ok s" "kernel_ok (u\<lparr>dev := d\<rparr>) = kernel_ok u"
  "kernel_ok (sem_put a q w) = kernel_ok w" "kernel_ok (sem_put_new a q w) = kernel_ok w"
  by (simp_all add: sem_put_def sem_put_new_def kernel_ok_def table_ok_def)

lemma ret_eax_ok:
  assumes "ret_eax t r = Inr s'" and "\<And>v u. r = Inr (v, u) \<Longrightarrow> kernel_ok u"
  shows "kernel_ok s'"
  using assms by (auto simp: ret_eax_def bnd_Inr_iff)

lemma fs_write_same: "fs_write P fd buf len s = Inr (r, s') \<Longrightarrow> same_table s s'"
  by (auto simp: fs_write_def bnd_Inr_iff split: if_splits)

lemma if_InrE: "(if c then a else b) = Inr y \<Longrightarrow> (c \<Longrightarrow> a = Inr y \<Longrightarrow> R) \<Longrightarrow> (\<not> c \<Longrightarrow> b = Inr y \<Longrightarrow> R) \<Longrightarrow> R"
  by (auto split: if_splits)

lemma kernel_ok_syscall:
  assumes "kernel_ok s" and "current s \<noteq> 0" and "j < 99" "j \<noteq> current s" and "status (pcb s j) = Free"
    and "do_syscall P K t s = Inr s'"
  shows "kernel_ok s'"
proof -
  have same: "kernel_ok u" if "ret_eax t r = Inr u" "\<And>v w. r = Inr (v, w) \<Longrightarrow> same_table s w" for r u
    using that(1) by (rule ret_eax_ok) (use assms(1) kernel_ok_same that(2) in blast)
  note sem = kernel_ok_sem_ops [OF assms(1)]
  show ?thesis
    using assms(6) unfolding do_syscall_def Let_def
    apply (elim if_InrE)
    subgoal by (auto split: prod.splits elim!: ret_eax_ok simp: assms(1))
    subgoal by (erule same) (rule fs_write_same)
    subgoal using assms(1) by auto
    subgoal by (erule same) auto
    subgoal by (erule kernel_ok_sleep [OF assms(1)])
    subgoal by (erule kernel_ok_fork [OF assms(1,3,4,5)])
    subgoal by (erule kernel_ok_exit [OF assms(1)])
    subgoal by (erule same) auto
    subgoal by (erule kernel_ok_thread [OF assms(1,3,5)])
    subgoal using sem(1) by (auto split: prod.splits)
    subgoal using sem(2) [OF assms(2)] by (auto simp: bnd_Inr_iff)
    subgoal using sem(3) by (auto split: prod.splits)
    subgoal using sem(4) by auto
    subgoal using sem(5) by (auto split: prod.splits elim!: ret_eax_ok)
    subgoal by (erule ret_eax_ok) (auto intro: kernel_ok_open [OF assms(1)])
    subgoal by (erule same) (rule read_file_same)
    subgoal by (erule same) (rule write_file_same)
    subgoal by (erule same) (rule lseek_same)
    subgoal by (erule ret_eax_ok) (auto intro: kernel_ok_close [OF assms(1)])
    subgoal using assms(1) by simp
    done
qed

text \<open>A system call of a process is an interrupt while the idle process is not the current one.\<close>

lemma kernel_ok_irq:
  assumes "kernel_ok s" and "sint (get_tf t TF_IRQ s) = 0x80 \<Longrightarrow> current s \<noteq> 0"
    and "j < 99" "j \<noteq> current s" "status (pcb s j) = Free" and "irq_handle P K t s = Inr s'"
  shows "kernel_ok s'"
proof -
  let ?set = "at_pcb (current s) (\<lambda>b. b\<lparr>tf := t\<rparr>) s"
  have set: "kernel_ok u" "current u = current s" if "?set = Inr u" for u
    using kernel_ok_set_frame [OF assms(1) that] by auto
  have free: "status (pcb u j) = Free" if "?set = Inr u" for u
    using that assms(3-5) kernel_ok_current(6) [OF assms(1)] by (auto simp: at_pcb_upd pcb_upd_pcb)
  show ?thesis
    using assms(6) unfolding irq_handle_def Let_def
    apply (elim if_InrE)
    subgoal
      apply (elim bnd_InrE)
      subgoal premises p for u
        by (rule kernel_ok_syscall [OF set(1) [OF p(2)] _ assms(3) _ free [OF p(2)] p(3)]) (use set(2) [OF p(2)] assms(2,4) p(1) in auto)
      done
    subgoal by simp
    subgoal by (erule kernel_ok_timer [OF assms(1)])
    subgoal
      apply (elim bnd_InrE)
      subgoal premises p for u
        using set(1) [of u] p by (cases "Keyboard_event P (dev u) (key_state u)") auto
      done
    subgoal using set by simp
    subgoal using assms(1) by simp
    done
qed

text \<open>
  Runs of the system: between two interrupts the programs change the memory and the devices
  theirs; the address of the pushed trap frame is arbitrary. An entry other than the last one
  stays free.
\<close>

inductive kernel_run :: "'d ports \<Rightarrow> kbufs \<Rightarrow> 'd sysst \<Rightarrow> 'd sysst \<Rightarrow> bool" for P K s0 where
  boot: "kernel_run P K s0 s0"
| user: "kernel_run P K s0 s \<Longrightarrow> kernel_run P K s0 (s\<lparr>mem := m, dev := d\<rparr>)"
| irq: "kernel_run P K s0 s \<Longrightarrow> (sint (get_tf t TF_IRQ s) = 0x80 \<longrightarrow> current s \<noteq> 0) \<Longrightarrow>
    j < 99 \<Longrightarrow> j \<noteq> current s \<Longrightarrow> status (pcb s j) = Free \<Longrightarrow> irq_handle P K t s = Inr s' \<Longrightarrow> kernel_run P K s0 s'"

lemma kernel_run_ok: "kernel_run P K s0 s \<Longrightarrow> kernel_ok s0 \<Longrightarrow> kernel_ok s"
proof (induction rule: kernel_run.induct)
  case (irq s t j s')
  then show ?case using kernel_ok_irq [of s t j P K s'] by blast
qed simp_all

section \<open>An instance\<close>

text \<open>Three processes, entry 3 current, and a timer interrupt whose frame is at 0x1000.\<close>

definition sys_demo :: "byte sysst" where
  "sys_demo = \<lparr>pages = (\<lambda>_. \<lparr>pp_link = None, pp_ref = 0\<rparr>), page_free_list = None, mem = (\<lambda>_. 0),
     pcb_table = table_demo, pid_count = 1, current = 3, tss = \<lparr>esp0 = 0, ss0 = 16\<rparr>, cr3_reg = 0,
     IF = False, time_tick = 0, sem_count = 0, pcb_base = 0xC0200000,
     fcb_table = replicate NR_FILE \<lparr>f_state = s_close, f_inode = replicate NR_INODE_ENTRY 0, f_offset = 0, f_count = 0\<rparr>,
     direct_at = 0xC0400000, dev = 0, key_state = keys_idle\<rparr>"

lemma sys_demo_ok: "kernel_ok sys_demo"
proof -
  have "table_ok sys_demo" by (auto simp: sys_demo_def table_ok_def demo_nth pcb_zero_def)
  then show ?thesis by (auto simp: kernel_ok_def sys_demo_def demo_nth pcb_zero_def)
qed

lemma sys_demo_run: "\<exists>s. kernel_run kbd_ports \<lparr>kb_inode = 0, kb_temp = 0, kb_end = 0\<rparr> sys_demo s \<and> time_tick s = 1"
proof -
  let ?s = "sys_demo\<lparr>mem := store32 (\<lambda>_. 0) 0x1028 1000, dev := 7\<rparr>" and ?K = "\<lparr>kb_inode = 0, kb_temp = 0, kb_end = 0\<rparr> :: kbufs"
  have u: "kernel_run kbd_ports ?K sys_demo ?s" by (intro kernel_run.user kernel_run.boot)
  have irq: "sint (get_tf 0x1000 TF_IRQ ?s) = 1000" by (simp add: get_tf_def)
  let ?s' = "upd_pcb 3 (\<lambda>b. b\<lparr>tf := 0x1000, time_count := i32 (time_count b + 1)\<rparr>) (wakeup (?s\<lparr>time_tick := time_tick ?s + 1\<rparr>))"
  have "table_ok ?s" using kernel_okD(1) [OF sys_demo_ok] by (simp add: table_ok_def)
  from timer_event_cases [OF this, where t = "0x1000"] have "timer_event 0x1000 ?s = Inr ?s'"
    by (simp add: sys_demo_def demo_nth pcb_zero_def)
  then have "irq_handle kbd_ports ?K 0x1000 ?s = Inr ?s'" using irq by (simp add: irq_handle_def Let_def)
  then have "kernel_run kbd_ports ?K sys_demo ?s'"
    by (intro kernel_run.irq [OF u, where t = "0x1000" and j = 1]) (use irq in \<open>auto simp: sys_demo_def demo_nth pcb_zero_def\<close>)
  moreover have "time_tick ?s' = 1" by (simp add: wakeup_def sys_demo_def)
  ultimately show ?thesis by blast
qed

section \<open>Properties\<close>



end
