(* ===== verification/Disk_Segments.thy ===== *)
theory Disk_Segments
  imports Disk
begin

text \<open>
  Reading byte ranges of the disk that start anywhere in a sector. The kernel and the boot
  loader have the same loop over \<open>readsect\<close>; the locale \<open>sector_loop\<close> states what the loop needs
  of the sector routine, and gives what both loops deliver.
\<close>

section \<open>Bytes of the disk\<close>

text \<open>Byte \<open>k\<close> of the disk image; sector 0 is the boot sector, which the drivers skip.\<close>

definition disk_byte :: "(nat \<Rightarrow> u32 list) \<Rightarrow> nat \<Rightarrow> byte" where
  "disk_byte f k = bytes_of (f (k div 512 + 1)) ! (k mod 512)"

definition disk_range :: "(nat \<Rightarrow> u32 list) \<Rightarrow> nat \<Rightarrow> nat \<Rightarrow> byte list" where
  "disk_range f k n = map (disk_byte f) [k..<k + n]"

lemma length_disk_range [simp]: "length (disk_range f k n) = n"
  by (simp add: disk_range_def)

lemma nth_disk_range [simp]: "i < n \<Longrightarrow> disk_range f k n ! i = disk_byte f (k + i)"
  by (simp add: disk_range_def)

lemma disk_range_append: "disk_range f k (n + l) = disk_range f k n @ disk_range f (k + n) l"
  by (rule nth_equalityI) (auto simp: nth_append)

lemma disk_range_sector: "length (f (b + 1)) = 128 \<Longrightarrow> disk_range f (512 * b) 512 = bytes_of (f (b + 1))"
  by (rule nth_equalityI) (simp_all add: disk_byte_def)

text \<open>
  A range of \<open>count\<close> bytes from byte \<open>k\<close>: the loop starts \<open>k mod 512\<close> bytes before the destination
  and reads whole sectors.
\<close>

definition sectors :: "nat \<Rightarrow> nat \<Rightarrow> nat" where
  "sectors k count = (k mod 512 + count + 511) div 512"

lemma sectors_bounds: "k mod 512 + count \<le> 512 * sectors k count" "512 * sectors k count < k mod 512 + count + 512"
proof -
  define x where "x = k mod 512 + count"
  have "512 * ((x + 511) div 512) + (x + 511) mod 512 = x + 511" by (rule mult_div_mod_eq)
  moreover have "(x + 511) mod 512 < 512" by simp
  ultimately have "x \<le> 512 * ((x + 511) div 512)" "512 * ((x + 511) div 512) < x + 512" by linarith+
  then show "k mod 512 + count \<le> 512 * sectors k count" "512 * sectors k count < k mod 512 + count + 512"
    by (simp_all only: sectors_def x_def)
qed

section \<open>The disk as a memory\<close>

lemma in_region_range:
  "unat a + n \<le> 2 ^ 32 \<Longrightarrow> in_region a n x \<longleftrightarrow> unat a \<le> unat x \<and> unat x < unat a + n"
  using unat_lt_u32 [of x] unat_lt_u32 [of a]
  by (auto simp: in_region_def unat_sub_if_size word_size word_le_nat_alt)

definition disk_mem :: "(nat \<Rightarrow> u32 list) \<Rightarrow> mem" where
  "disk_mem f a = disk_byte f (unat a)"

definition same_bytes :: "mem \<Rightarrow> addr \<Rightarrow> mem \<Rightarrow> addr \<Rightarrow> nat \<Rightarrow> bool" where
  "same_bytes m a m' b n \<longleftrightarrow> (\<forall>i < n. m (a + of_nat i) = m' (b + of_nat i))"

lemma same_bytes_sub:
  "same_bytes m a m' b n \<Longrightarrow> k + l \<le> n \<Longrightarrow> same_bytes m (a + of_nat k) m' (b + of_nat k) l"
proof (unfold same_bytes_def, intro allI impI)
  fix i
  assume "\<forall>i < n. m (a + of_nat i) = m' (b + of_nat i)" "k + l \<le> n" "i < l"
  then have "m (a + of_nat (k + i)) = m' (b + of_nat (k + i))" by (simp del: of_nat_add)
  then show "m (a + of_nat k + of_nat i) = m' (b + of_nat k + of_nat i)" by (simp only: of_nat_add add.assoc)
qed

lemma same_load32: "same_bytes m a m' b n \<Longrightarrow> k + 4 \<le> n \<Longrightarrow> load32 m (a + of_nat k) = load32 m' (b + of_nat k)"
  using same_bytes_sub [of m a m' b n k 4] by (auto simp: same_bytes_def load32_def numeral_eq_Suc All_less_Suc ac_simps)

text \<open>The aligned words of a sector.\<close>

lemma nth_bytes_of: "w < length ws \<Longrightarrow> j < 4 \<Longrightarrow> bytes_of ws ! (4 * w + j) = word_bytes (ws ! w) ! j"
  by (induction ws arbitrary: w) (auto simp: nth_append nth_Cons' less_Suc_eq_0_disj nat_diff_split split: nat_diff_split)

lemma disk_word:
  assumes "length (f (b + 1)) = 128" and "w < 128" and "b < 8388608" and "a = of_nat (512 * b + 4 * w)"
  shows "load32 (disk_mem f) a = f (b + 1) ! w"
proof -
  have d: "disk_mem f (a + of_nat j) = word_bytes (f (b + 1) ! w) ! j" if "j < 4" for j
  proof -
    have "unat (of_nat (512 * b + 4 * w + j) :: u32) = 512 * b + 4 * w + j" using that assms(2,3) by (intro unat_of_nat_u32) simp
    then have "disk_mem f (a + of_nat j) = disk_byte f (512 * b + (4 * w + j))" by (simp add: disk_mem_def assms(4) add.assoc)
    also have "\<dots> = bytes_of (f (b + 1)) ! (4 * w + j)" using that assms(2) by (simp add: disk_byte_def)
    finally show ?thesis using nth_bytes_of [of w "f (b + 1)" j] that assms(1,2) by simp
  qed
  show ?thesis using d [of 0] d [of 1] d [of 2] d [of 3] by (simp add: load32_def word_bytes_def word32_of_bytes)
qed

section \<open>The loop over the sectors\<close>

locale sector_loop =
  fixes rd :: "addr \<Rightarrow> int \<Rightarrow> mem \<Rightarrow> 'd \<Rightarrow> (mem \<times> 'd) option"
    and loop :: "addr \<Rightarrow> addr \<Rightarrow> int \<Rightarrow> mem \<Rightarrow> 'd \<Rightarrow> (mem \<times> 'd) option"
    and sec :: "'d \<Rightarrow> nat \<Rightarrow> u32 list" and idle :: "'d \<Rightarrow> bool"
  assumes sec_len: "length (sec d n) = 128"
    and rd_ok: "idle d \<Longrightarrow> 0 \<le> off \<Longrightarrow> off < 2 ^ 28 \<Longrightarrow>
      \<exists>d'. rd a off m d = Some (write_bytes m a (bytes_of (sec d (nat off))), d') \<and> sec d' = sec d \<and> idle d'"
    and loop_step: "loop a e off m d =
      (if a < e then Option.bind (rd a off m d) (\<lambda>(m1, d1). loop (a + 512) e (i32 (off + 1)) m1 d1) else Some (m, d))"
begin

lemma loop_ok:
  assumes "idle d" and "b + n < 2 ^ 28" and "unat a + 512 * n < 2 ^ 32"
    and "unat e \<le> unat a + 512 * n" and "0 < n \<Longrightarrow> unat a + 512 * (n - 1) < unat e"
  shows "\<exists>d'. loop a e (int b + 1) m d = Some (write_bytes m a (disk_range (sec d) (512 * b) (512 * n)), d') \<and>
    sec d' = sec d \<and> idle d'"
  using assms
proof (induction n arbitrary: a b m d)
  case 0
  then have "\<not> a < e" by (simp add: word_less_nat_alt)
  then show ?case using 0 by (subst loop_step) (simp add: write_bytes_def disk_range_def)
next
  case (Suc n)
  obtain d1 where d1: "rd a (int b + 1) m d = Some (write_bytes m a (bytes_of (sec d (b + 1))), d1)"
    "sec d1 = sec d" "idle d1" using rd_ok [OF Suc.prems(1), of "int b + 1" a m] Suc.prems(2) by (auto simp: nat_add_distrib)
  have lt: "a < e" using Suc.prems(5) by (simp add: word_less_nat_alt)
  have u: "unat (a + 512) = unat a + 512" using Suc.prems(3) by (simp add: unat_word_ariths)
  have i: "i32 (int b + 1 + 1) = int (b + 1) + 1" using Suc.prems(2) by (simp add: i32_id)
  let ?m = "write_bytes m a (bytes_of (sec d (b + 1)))"
  have p: "b + 1 + n < 2 ^ 28" "unat (a + 512) + 512 * n < 2 ^ 32" "unat e \<le> unat (a + 512) + 512 * n"
    "0 < n \<Longrightarrow> unat (a + 512) + 512 * (n - 1) < unat e"
    using Suc.prems(2-5) u by auto
  obtain d' where d': "loop (a + 512) e (int (b + 1) + 1) ?m d1 =
      Some (write_bytes ?m (a + 512) (disk_range (sec d1) (512 * (b + 1)) (512 * n)), d')" "sec d' = sec d1" "idle d'"
    using Suc.IH [OF d1(3) p, of ?m] by blast
  have "write_bytes ?m (a + 512) (disk_range (sec d) (512 * (b + 1)) (512 * n)) =
      write_bytes m a (disk_range (sec d) (512 * b) (512 * Suc n))"
    using write_bytes_append [of "disk_range (sec d) (512 * b) 512" "disk_range (sec d) (512 * (b + 1)) (512 * n)" m a]
      disk_range_append [of "sec d" "512 * b" 512 "512 * n"] disk_range_sector [of "sec d" b, OF sec_len] Suc.prems(3)
    by (simp add: algebra_simps)
  then show ?case using lt d1 d' i by (subst loop_step) simp
qed

lemma segment_ok:
  assumes "idle d" and "k + count < 2 ^ 31" and "k mod 512 \<le> unat a" and "unat a + count + 512 \<le> 2 ^ 32"
  shows "\<exists>d'. loop (a - of_nat (k mod 512)) (a + of_nat count) (int (k div 512) + 1) m d =
      Some (write_bytes m (a - of_nat (k mod 512)) (disk_range (sec d) (k - k mod 512) (512 * sectors k count)), d') \<and>
      sec d' = sec d \<and> idle d'"
proof -
  have k: "k mod 512 < 512" by simp
  have r: "unat (of_nat (k mod 512) :: u32) = k mod 512" by (rule unat_of_nat_u32) (rule less_trans [OF k], simp)
  have c: "unat (of_nat count :: u32) = count" by (rule unat_of_nat_u32) (use assms(2) in simp)
  have ua: "unat (a - of_nat (k mod 512)) = unat a - k mod 512" "unat (a + of_nat count) = unat a + count"
    using assms(3,4) k r c by (simp_all add: unat_sub_if_size unat_word_ariths)
  have n: "k mod 512 + count \<le> 512 * sectors k count" "512 * sectors k count < k mod 512 + count + 512"
    by (rule sectors_bounds)+
  have 1: "k div 512 + sectors k count < 2 ^ 28"
    using n(2) assms(2) mult_div_mod_eq [of 512 k] by simp
  have 2: "unat (a - of_nat (k mod 512)) + 512 * sectors k count < 2 ^ 32"
    "unat (a + of_nat count) \<le> unat (a - of_nat (k mod 512)) + 512 * sectors k count"
    "0 < sectors k count \<Longrightarrow> unat (a - of_nat (k mod 512)) + 512 * (sectors k count - 1) < unat (a + of_nat count)"
    unfolding ua using n assms(3,4) by (auto simp: algebra_simps)
  have "512 * (k div 512) = k - k mod 512" by (simp add: minus_mod_eq_mult_div)
  then show ?thesis using loop_ok [OF assms(1) 1 2] by simp
qed

text \<open>What a reader of the destination finds, and what is left alone.\<close>

lemma segment_bytes:
  assumes "idle d" and "k + count < 2 ^ 31" and "k mod 512 \<le> unat a" and "unat a + count + 512 \<le> 2 ^ 32"
  obtains m' d' where "loop (a - of_nat (k mod 512)) (a + of_nat count) (int (k div 512) + 1) m d = Some (m', d')"
    and "sec d' = sec d" and "idle d'" and "\<And>i. i < count \<Longrightarrow> m' (a + of_nat i) = disk_byte (sec d) (k + i)"
    and "\<And>x. \<not> in_region (a - of_nat (k mod 512)) (512 * sectors k count) x \<Longrightarrow> m' x = m x"
proof -
  let ?a = "a - of_nat (k mod 512)" and ?bs = "disk_range (sec d) (k - k mod 512) (512 * sectors k count)"
  obtain d' where d': "loop ?a (a + of_nat count) (int (k div 512) + 1) m d = Some (write_bytes m ?a ?bs, d')"
    "sec d' = sec d" "idle d'" using segment_ok [OF assms] by blast
  show thesis
  proof (rule that [OF d'])
    fix i
    assume i: "i < count"
    then have l: "k mod 512 + i < 512 * sectors k count" using sectors_bounds(1) [of k count] by linarith
    have "a + of_nat i - ?a = of_nat (k mod 512 + i)" by simp
    moreover have "k mod 512 + i < 2 ^ 32" using i assms(2) mod_less_eq_dividend [of k 512] by simp
    ultimately have u: "unat (a + of_nat i - ?a) = k mod 512 + i" by (simp only: unat_of_nat_u32)
    have "write_bytes m ?a ?bs (a + of_nat i) = ?bs ! (k mod 512 + i)"
      unfolding write_bytes_def u using l by (simp only: length_disk_range if_True)
    also have "\<dots> = disk_byte (sec d) (k - k mod 512 + (k mod 512 + i))" using l by (rule nth_disk_range)
    also have "k - k mod 512 + (k mod 512 + i) = k + i" using mod_less_eq_dividend [of k 512] by linarith
    finally show "write_bytes m ?a ?bs (a + of_nat i) = disk_byte (sec d) (k + i)" .
  next
    fix x
    assume "\<not> in_region ?a (512 * sectors k count) x"
    then show "write_bytes m ?a ?bs x = m x" by (intro write_bytes_other) (simp only: length_disk_range not_False_eq_True)
  qed
qed

text \<open>The same with the arguments of \<open>readseg\<close>, a C \<open>int\<close> count and offset.\<close>

lemma range_ok:
  assumes "idle d" and "k + n < 2 ^ 31" and "k mod 512 \<le> unat a" and "unat a + n + 512 \<le> 2 ^ 32"
  obtains m' d' where "loop (a - of_int (c_mod (int k) SECTSIZE)) (a + of_int (int n)) (i32 (c_div (int k) SECTSIZE + 1)) m d = Some (m', d')"
    and "sec d' = sec d" and "idle d'" and "same_bytes m' a (disk_mem (sec d)) (of_nat k) n"
    and "m' = write_bytes m (a - of_nat (k mod 512)) (disk_range (sec d) (k - k mod 512) (512 * sectors k n))"
    and "\<And>x. \<not> in_region (a - of_nat (k mod 512)) (512 * sectors k n) x \<Longrightarrow> m' x = m x"
proof -
  obtain m' d' where r: "loop (a - of_nat (k mod 512)) (a + of_nat n) (int (k div 512) + 1) m d = Some (m', d')"
    "sec d' = sec d" "idle d'" "\<And>i. i < n \<Longrightarrow> m' (a + of_nat i) = disk_byte (sec d) (k + i)"
    "\<And>x. \<not> in_region (a - of_nat (k mod 512)) (512 * sectors k n) x \<Longrightarrow> m' x = m x"
    by (rule segment_bytes [OF assms, where m = m]) blast
  have w: "m' = write_bytes m (a - of_nat (k mod 512)) (disk_range (sec d) (k - k mod 512) (512 * sectors k n))"
    using segment_ok [OF assms, where m = m] r(1) by auto
  have c: "c_mod (int k) 512 = int (k mod 512)" "c_div (int k) 512 = int (k div 512)"
    by (simp_all add: c_mod_nonneg c_div_nonneg zmod_int zdiv_int)
  have "int (k div 512) < 2 ^ 31 - 1" using assms(2) by simp
  then have i: "i32 (int (k div 512) + 1) = int (k div 512) + 1" by (intro i32_id) simp_all
  have "same_bytes m' a (disk_mem (sec d)) (of_nat k) n"
    unfolding same_bytes_def
  proof (intro allI impI)
    fix j
    assume j: "j < n"
    then have "unat (of_nat (k + j) :: u32) = k + j" using assms(2) by (intro unat_of_nat_u32) simp
    then show "m' (a + of_nat j) = disk_mem (sec d) (of_nat k + of_nat j)" using r(4) [OF j] by (simp add: disk_mem_def)
  qed
  moreover have "loop (a - of_int (c_mod (int k) SECTSIZE)) (a + of_int (int n)) (i32 (c_div (int k) SECTSIZE + 1)) m d = Some (m', d')"
    using r(1) by (simp add: c i del: of_nat_mod)
  ultimately show thesis using that [of m' d'] r(2,3,5) w by blast
qed

end

text \<open>The kernel's driver is such a loop, for every conforming controller.\<close>

sublocale ata \<subseteq> kseg: sector_loop "readsect P" "readseg_loop P" sec "\<lambda>d. phase d = AtaIdle"
proof unfold_locales
  fix d and off :: int and a :: addr and m
  assume "phase d = AtaIdle" "0 \<le> off" "off < 2 ^ 28"
  then show "\<exists>d'. readsect P a off m d = Some (write_bytes m a (bytes_of (sec d (nat off))), d') \<and> sec d' = sec d \<and> phase d' = AtaIdle"
    using readsect_ok [of d off a m] by blast
qed (simp_all add: sec_length readseg_loop.simps [of P])

context ata
begin

lemma readseg_range_ok:
  assumes "phase d = AtaIdle" and "k + n < 2 ^ 31" and "k mod 512 \<le> unat a" and "unat a + n + 512 \<le> 2 ^ 32"
  obtains m' d' where "readseg P a (int n) (int k) m d = Some (m', d')" and "sec d' = sec d" and "phase d' = AtaIdle"
    and "same_bytes m' a (disk_mem (sec d)) (of_nat k) n"
    and "m' = write_bytes m (a - of_nat (k mod 512)) (disk_range (sec d) (k - k mod 512) (512 * sectors k n))"
  unfolding readseg_def by (rule kseg.range_ok [OF assms, where m = m]) blast

end

interpretation disk_loop: sector_loop "readsect ata_ports" "readseg_loop ata_ports" ata_sec "\<lambda>d. ata_ph d = AtaIdle"
  by (rule disk.kseg.sector_loop_axioms)

end
