(* ===== verification/Elf_Loader.thy ===== *)
theory Elf_Loader
  imports File_System Paging_Init Disk_Segments
begin

text \<open>
  The program loader of \<open>kernel/src/elf/elf.c\<close>: it reads an ELF executable from the disk image
  into the pages of the first user address space, maps the user stack and the video memory,
  and makes a process of it. The local buffers of \<open>loader\<close> and the statically allocated page
  tables are parameters: the addresses the compiler and the linker give them.
\<close>

section \<open>ELF files\<close>

definition load16 :: "mem \<Rightarrow> addr \<Rightarrow> u16" where
  "load16 m a = ucast (m a) OR push_bit 8 (ucast (m (a + 1)))"

text \<open>The structures of \<open>kernel/inc/elf.h\<close>, read from the memory a pointer designates.\<close>

record ELFHeader =
  e_magic :: u32
  e_elf :: "byte list"
  e_type :: u16
  e_machine :: u16
  e_version :: u32
  e_entry :: u32
  e_phoff :: u32
  e_shoff :: u32
  e_flags :: u32
  e_ehsize :: u16
  e_phentsize :: u16
  e_phnum :: u16
  e_shentsize :: u16
  e_shnum :: u16
  e_shstrndx :: u16

record ProgramHeader =
  p_type :: u32
  p_off :: u32
  p_vaddr :: u32
  p_paddr :: u32
  p_filesz :: u32
  p_memsz :: u32
  p_flags :: u32
  p_align :: u32

definition elf_header :: "mem \<Rightarrow> addr \<Rightarrow> ELFHeader" where
  "elf_header m a = \<lparr>e_magic = load32 m a, e_elf = read_bytes m (a + 4) 12, e_type = load16 m (a + 16),
     e_machine = load16 m (a + 18), e_version = load32 m (a + 20), e_entry = load32 m (a + 24),
     e_phoff = load32 m (a + 28), e_shoff = load32 m (a + 32), e_flags = load32 m (a + 36),
     e_ehsize = load16 m (a + 40), e_phentsize = load16 m (a + 42), e_phnum = load16 m (a + 44),
     e_shentsize = load16 m (a + 46), e_shnum = load16 m (a + 48), e_shstrndx = load16 m (a + 50)\<rparr>"

definition prog_header :: "mem \<Rightarrow> addr \<Rightarrow> ProgramHeader" where
  "prog_header m a = \<lparr>p_type = load32 m a, p_off = load32 m (a + 4), p_vaddr = load32 m (a + 8),
     p_paddr = load32 m (a + 12), p_filesz = load32 m (a + 16), p_memsz = load32 m (a + 20),
     p_flags = load32 m (a + 24), p_align = load32 m (a + 28)\<rparr>"

lemma load16_load32: "load16 m a = ucast (load32 m a)"
  by (rule bit_word_eqI) (auto simp: load16_def load32_def bit_simps dest: bit_imp_le_length)

lemma same_load16: "same_bytes m a m' b n \<Longrightarrow> k + 2 \<le> n \<Longrightarrow> load16 m (a + of_nat k) = load16 m' (b + of_nat k)"
  using same_bytes_sub [of m a m' b n k 2] by (auto simp: same_bytes_def load16_def numeral_eq_Suc All_less_Suc ac_simps)

lemma same_prog_header: "same_bytes m a m' b 32 \<Longrightarrow> prog_header m a = prog_header m' b"
  using same_load32 [of m a m' b 32 0] same_load32 [of m a m' b 32 4] same_load32 [of m a m' b 32 8]
    same_load32 [of m a m' b 32 12] same_load32 [of m a m' b 32 16] same_load32 [of m a m' b 32 20]
    same_load32 [of m a m' b 32 24] same_load32 [of m a m' b 32 28]
  by (simp add: prog_header_def)

lemma same_elf_header:
  assumes "same_bytes m a m' b 52"
  shows "e_entry (elf_header m a) = e_entry (elf_header m' b)" "e_phoff (elf_header m a) = e_phoff (elf_header m' b)"
    "e_phnum (elf_header m a) = e_phnum (elf_header m' b)"
  using same_load32 [OF assms, of 24] same_load32 [OF assms, of 28] same_load16 [OF assms, of 44]
  by (simp_all add: elf_header_def)

text \<open>The byte of the disk at which a segment starts, when the file starts at block \<open>eo\<close>.\<close>

definition seg_pos :: "nat \<Rightarrow> ProgramHeader \<Rightarrow> nat" where
  "seg_pos eo p = 512 * eo + unat (p_off p)"

abbreviation (input) PT_LOAD :: u32 where "PT_LOAD \<equiv> 1"
abbreviation (input) STACK_SIZE :: u32 where "STACK_SIZE \<equiv> 0x400000"

section \<open>Loading a segment\<close>

record elf_bufs =
  lb_bitmap :: addr
  lb_inode :: addr
  lb_buffer :: addr
  lb_sec :: addr
  lb_updir :: addr
  lb_vdtable :: addr

text \<open>
  One page of a segment. \<open>num\<close> counts the bytes of the file already loaded; like every
  operand of the unsigned comparison it is a 32-bit word. The physical address that
  \<open>mm_malloc\<close> returns is used through the identity mapping of the kernel, hence \<open>lin\<close>.
\<close>

definition load_page :: "'d ports \<Rightarrow> elf_bufs \<Rightarrow> u32 \<Rightarrow> addr \<Rightarrow> u32 \<Rightarrow> u32 \<Rightarrow> ('d, 'a) fsst_scheme \<Rightarrow>
    (u32 \<times> u32 \<times> ('d, 'a) fsst_scheme) res" where
  "load_page P B elf_off ph va num s =
     (let off = PGOFF va; va1 = PTE_ADDR va
      in bnd (mm_malloc (lb_updir B) va1 s) (\<lambda>(pa, s1).
         let s2 = s1\<lparr>mem := memset (mem s1) (lb_sec B) 0 PGSIZE\<rparr>;
             left = p_filesz (prog_header (mem s2) ph) - num;
             rest = (if left < PGSIZE - off then left else PGSIZE - off)
         in bnd (if rest \<noteq> 0
                 then disk_read P (lb_sec B + off) (sint rest)
                        (sint (elf_off * 512 + p_off (prog_header (mem s2) ph) + num)) s2
                 else Inr s2) (\<lambda>s3.
            Inr (va1, num + rest, s3\<lparr>mem := memcpy (mem s3) (lin pa) (lb_sec B) PGSIZE\<rparr>))))"

text \<open>The loop over the pages; \<open>None\<close> is a loop that does not end.\<close>

partial_function (option) load_pages :: "'d ports \<Rightarrow> elf_bufs \<Rightarrow> u32 \<Rightarrow> addr \<Rightarrow> u32 \<Rightarrow> u32 \<Rightarrow> ('d, 'a) fsst_scheme \<Rightarrow>
    ('d, 'a) fsst_scheme res option" where
  "load_pages P B elf_off ph va num s =
     (if va < p_vaddr (prog_header (mem s) ph) + p_memsz (prog_header (mem s) ph)
      then (case load_page P B elf_off ph va num s of
              Inl e \<Rightarrow> Some (Inl e)
            | Inr (va1, num1, s1) \<Rightarrow> load_pages P B elf_off ph (va1 + PGSIZE) num1 s1)
      else Some (Inr s))"

definition load_segment :: "'d ports \<Rightarrow> elf_bufs \<Rightarrow> u32 \<Rightarrow> addr \<Rightarrow> ('d, 'a) fsst_scheme \<Rightarrow> ('d, 'a) fsst_scheme res" where
  "load_segment P B elf_off ph s =
     (if p_type (prog_header (mem s) ph) = PT_LOAD
      then bnd (ret (load_pages P B elf_off ph (p_vaddr (prog_header (mem s) ph)) 0 s)) id
      else Inr s)"

section \<open>The loader\<close>

text \<open>
  The file is the one of directory entry 1. The loop over the program headers is the loop over
  their indices.
\<close>

definition load_image :: "'d ports \<Rightarrow> elf_bufs \<Rightarrow> ('d, 'a) fsst_scheme \<Rightarrow> ('d, 'a) fsst_scheme res" where
  "load_image P B s =
     bnd (disk_read P (lb_bitmap B) (256 * 512) 0 s) (\<lambda>s1.
     bnd (disk_read P (direct_at s1) 512 131072 s1) (\<lambda>s2.
     let inode_offset = load32 (mem s2) (direct_at s2 + 32 + 28)
     in bnd (disk_read P (lb_inode B) 512 (sint (512 * inode_offset)) s2) (\<lambda>s3.
     let elf_off = load32 (mem s3) (lb_inode B)
     in bnd (disk_read P (lb_buffer B) 4096 (sint (elf_off * 512)) s3) (\<lambda>s4.
     let elf = elf_header (mem s4) (lb_buffer B); ph = lb_buffer B + e_phoff elf
     in for_res (\<lambda>k. load_segment P B elf_off (ph + of_nat (32 * k))) [0..<unat (e_phnum elf)] (page_init s4)))))"

definition user_stack :: "addr \<Rightarrow> 'a pm_scheme \<Rightarrow> 'a pm_scheme res" where
  "user_stack updir s =
     for_res (\<lambda>k s. bnd (mm_malloc updir (KOFFSET - STACK_SIZE + of_nat (4096 * k)) s) (\<lambda>(_, s1). Inr s1))
       [0..<1024] s"

definition loader :: "'d ports \<Rightarrow> elf_bufs \<Rightarrow> ('d, 'a) fsst_scheme \<Rightarrow> ('d, 'a) fsst_scheme res" where
  "loader P B s =
     bnd (get_pcb s) (\<lambda>i. let (p, s0) = get_pid s in
     bnd (pcb_new p 0 i s0) (\<lambda>s1.
     bnd (load_image P B s1) (\<lambda>s2.
     bnd (user_stack (lb_updir B) s2) (\<lambda>s3.
     let s4 = s3\<lparr>mem := create_video_mapping (lb_updir B) (lb_vdtable B) (mem s3)\<rparr>
     in bnd (pcb_cr3write i (cr3_with_base (drop_bit 12 (va_to_pa (lb_updir B)))) s4) (\<lambda>s5.
     let eip = e_entry (elf_header (mem s5) (lb_buffer B));
         cs = SELECTOR_USER (of_nat SEG_USER_CODE); ss = SELECTOR_USER (of_nat SEG_USER_DATA);
         t = kstack s5 i + 4096 - TF_SIZE;
         s6 = set_tf t TF_SS ss s5; s7 = set_tf t TF_ESP (KOFFSET - 4) s6; s8 = set_tf t TF_EFLAGS 0x202 s7;
         s9 = set_tf t TF_CS cs s8; s10 = set_tf t TF_EIP eip s9; s11 = set_tf t TF_DS ss s10;
         s12 = set_tf t TF_ES ss s11
     in bnd (at_pcb i (\<lambda>b. b\<lparr>tf := t\<rparr>) s12) (process_ready i))))))"

end
