(* ===== verification/Boot.thy ===== *)
theory Boot
  imports Disk_Segments Elf_Loader
begin

text \<open>
  The boot loader \<open>boot/main.c\<close>: it runs before paging is enabled, reads the kernel, the file
  of directory entry 0, from the disk image and copies its segments to their physical
  addresses. Memory is indexed by physical addresses here. The structures it works on lie at
  the fixed addresses 0x8000, 0x8500 and 0x8900.
\<close>

section \<open>The driver\<close>

text \<open>\<open>waitdisk\<close> is the loop of the kernel's driver; \<open>readsect\<close> also waits before every word.\<close>

definition boot_waitdisk :: "'d ports \<Rightarrow> 'd \<Rightarrow> 'd option" where
  "boot_waitdisk P d = waitdisk P d"

primrec boot_words :: "'d ports \<Rightarrow> addr \<Rightarrow> nat \<Rightarrow> mem \<times> 'd \<Rightarrow> (mem \<times> 'd) option" where
  "boot_words P dst 0 s = Some s"
| "boot_words P dst (Suc n) s =
     Option.bind (boot_words P dst n s) (\<lambda>(m, d).
     Option.bind (boot_waitdisk P d) (\<lambda>d1.
       let r = in_long P 0x1F0 d1 in Some (store32 m (dst + of_nat (4 * n)) (fst r), snd r)))"

definition boot_readsect :: "'d ports \<Rightarrow> addr \<Rightarrow> int \<Rightarrow> mem \<Rightarrow> 'd \<Rightarrow> (mem \<times> 'd) option" where
  "boot_readsect P dst offset m d =
     Option.bind (boot_waitdisk P d) (\<lambda>d1.
     Option.bind (boot_waitdisk P (ata_command P offset 0x20 d1)) (\<lambda>d2. boot_words P dst 128 (m, d2)))"

partial_function (option) boot_readseg_loop :: "'d ports \<Rightarrow> addr \<Rightarrow> addr \<Rightarrow> int \<Rightarrow> mem \<Rightarrow> 'd \<Rightarrow> (mem \<times> 'd) option" where
  "boot_readseg_loop P pa epa offset m d =
     (if pa < epa
      then Option.bind (boot_readsect P pa offset m d) (\<lambda>(m1, d1).
             boot_readseg_loop P (pa + 512) epa (i32 (offset + 1)) m1 d1)
      else Some (m, d))"

definition boot_readseg :: "'d ports \<Rightarrow> addr \<Rightarrow> int \<Rightarrow> int \<Rightarrow> mem \<Rightarrow> 'd \<Rightarrow> (mem \<times> 'd) option" where
  "boot_readseg P pa count offset m d =
     boot_readseg_loop P (pa - of_int (c_mod offset SECTSIZE)) (pa + of_int count)
       (i32 (c_div offset SECTSIZE + 1)) m d"

section \<open>Loading the kernel\<close>

partial_function (option) zero_fill :: "addr \<Rightarrow> addr \<Rightarrow> addr \<Rightarrow> mem \<Rightarrow> mem option" where
  "zero_fill ph pa i m =
     (if i < pa + p_memsz (prog_header m ph) then zero_fill ph pa (i + 1) (m(i := 0)) else Some m)"

definition boot_segment :: "'d ports \<Rightarrow> int \<Rightarrow> addr \<Rightarrow> mem \<times> 'd \<Rightarrow> (mem \<times> 'd) option" where
  "boot_segment P elf_offset ph s =
     (let m = fst s; p = prog_header m ph
      in if p_type p = 1
         then let pa = p_paddr p
              in Option.bind (boot_readseg P pa (sint (p_filesz p)) (sint (p_off p + of_int (elf_offset * 512))) m (snd s)) (\<lambda>(m1, d1).
                 map_option (\<lambda>m2. (m2, d1)) (zero_fill ph pa (pa + p_filesz (prog_header m1 ph)) m1))
         else Some s)"

primrec boot_segments :: "'d ports \<Rightarrow> int \<Rightarrow> addr \<Rightarrow> nat \<Rightarrow> mem \<times> 'd \<Rightarrow> (mem \<times> 'd) option" where
  "boot_segments P elf_offset ph 0 s = Some s"
| "boot_segments P elf_offset ph (Suc n) s =
     Option.bind (boot_segments P elf_offset ph n s) (boot_segment P elf_offset (ph + of_nat (32 * n)))"

text \<open>The result is the address the boot loader jumps to, with the memory and the disk at that time.\<close>

definition bootmain :: "'d ports \<Rightarrow> mem \<Rightarrow> 'd \<Rightarrow> (addr \<times> mem \<times> 'd) option" where
  "bootmain P m d =
     Option.bind (boot_readseg P 0x8000 512 (512 * 256 + 0) m d) (\<lambda>(m1, d1).
     let inode_offset = sint (load32 m1 (0x8000 + 28))
     in Option.bind (boot_readseg P 0x8500 512 (i32 (inode_offset * 512)) m1 d1) (\<lambda>(m2, d2).
     let elf_offset = sint (load32 m2 0x8500)
     in Option.bind (boot_readseg P 0x8900 4096 (i32 (elf_offset * 512)) m2 d2) (\<lambda>(m3, d3).
     let elf = elf_header m3 0x8900; ph = 0x8900 + e_phoff elf
     in Option.bind (boot_segments P elf_offset ph (unat (e_phnum elf)) (m3, d3)) (\<lambda>(m4, d4).
        Some (e_entry (elf_header m4 0x8900) - 0xC0000000, m4, d4)))))"

section \<open>The driver delivers sectors\<close>

context ata
begin

lemma boot_words_ok:
  assumes "phase d = AtaRead n 0"
  shows "k \<le> 128 \<Longrightarrow> \<exists>d'. boot_words P dst k (m, d) = Some (write_bytes m dst (bytes_of (take k (sec d n))), d') \<and>
    sec d' = sec d \<and> phase d' = (if k < 128 then AtaRead n k else AtaIdle)"
proof (induction k)
  case 0
  then show ?case using assms by (simp add: write_bytes_def)
next
  case (Suc k)
  then obtain d1 where d1: "boot_words P dst k (m, d) = Some (write_bytes m dst (bytes_of (take k (sec d n))), d1)"
    "sec d1 = sec d" "phase d1 = AtaRead n k" by auto
  obtain d2 where d2: "waitdisk P d1 = Some d2" "busy d2 = 0" "sec d2 = sec d" "phase d2 = AtaRead n k"
    using waitdisk_returns [of d1] d1 by auto
  let ?r = "port_in32 P 0x1F0 d2"
  have r: "fst ?r = sec d n ! k" "sec (snd ?r) = sec d" "phase (snd ?r) = (if Suc k < 128 then AtaRead n (Suc k) else AtaIdle)"
    using read_word [OF d2(4,2)] Suc.prems d2(3) by auto
  have "store32 (write_bytes m dst (bytes_of (take k (sec d n)))) (dst + of_nat (4 * k)) (sec d n ! k) =
      write_bytes m dst (bytes_of (take (Suc k) (sec d n)))"
    using write_bytes_append [of "bytes_of (take k (sec d n))" "word_bytes (sec d n ! k)" m dst] sec_length [of d n] Suc.prems
    by (simp add: store32_write_bytes take_Suc_conv_app_nth)
  then show ?case using d1(1) d2(1) r by (auto simp: in_long_def boot_waitdisk_def Let_def)
qed

lemma boot_readsect_ok:
  assumes "phase d = AtaIdle" and "0 \<le> offset" and "offset < 2 ^ 28"
  shows "\<exists>d'. boot_readsect P dst offset m d = Some (write_bytes m dst (bytes_of (sec d (nat offset))), d') \<and>
    sec d' = sec d \<and> phase d' = AtaIdle"
proof -
  obtain d1 where d1: "waitdisk P d = Some d1" "busy d1 = 0" "sec d1 = sec d" "phase d1 = AtaIdle"
    using waitdisk_returns [of d] assms(1) by auto
  note c = command_ok [OF d1(4,2) assms(2,3), of "0x20"]
  obtain d2 where d2: "waitdisk P (ata_command P offset 0x20 d1) = Some d2" "sec d2 = sec d" "phase d2 = AtaRead (nat offset) 0"
    using waitdisk_returns [of "ata_command P offset 0x20 d1"] c d1(3) by auto
  then show ?thesis using boot_words_ok [OF d2(3), of 128 dst m] d1(1) sec_length [of d "nat offset"]
    by (simp add: boot_readsect_def boot_waitdisk_def)
qed

end

sublocale ata \<subseteq> bseg: sector_loop "boot_readsect P" "boot_readseg_loop P" sec "\<lambda>d. phase d = AtaIdle"
proof unfold_locales
  fix d and off :: int and a :: addr and m
  assume "phase d = AtaIdle" "0 \<le> off" "off < 2 ^ 28"
  then show "\<exists>d'. boot_readsect P a off m d = Some (write_bytes m a (bytes_of (sec d (nat off))), d') \<and> sec d' = sec d \<and> phase d' = AtaIdle"
    by (rule boot_readsect_ok)
qed (simp_all add: sec_length boot_readseg_loop.simps [of P])

interpretation boot_loop: sector_loop "boot_readsect ata_ports" "boot_readseg_loop ata_ports" ata_sec "\<lambda>d. ata_ph d = AtaIdle"
  by (rule disk.bseg.sector_loop_axioms)

section \<open>Segments\<close>

context ata
begin

lemma boot_readseg_ok:
  assumes "phase d = AtaIdle" and "k + n < 2 ^ 31" and "k mod 512 \<le> unat a" and "unat a + n + 512 \<le> 2 ^ 32"
  obtains m' d' where "boot_readseg P a (int n) (int k) m d = Some (m', d')" and "sec d' = sec d" and "phase d' = AtaIdle"
    and "same_bytes m' a (disk_mem (sec d)) (of_nat k) n"
    and "\<And>x. \<not> in_region (a - of_nat (k mod 512)) (512 * sectors k n) x \<Longrightarrow> m' x = m x"
  unfolding boot_readseg_def by (rule bseg.range_ok [OF assms, where m = m]) blast

lemma zero_fill_ok:
  assumes "unat e < 2 ^ 32" and "unat i \<le> unat e" and "e = pa + p_memsz (prog_header m ph)"
    and "\<And>k. k < 32 \<Longrightarrow> unat (ph + of_nat k) < unat i"
  shows "zero_fill ph pa i m = Some (\<lambda>x. if i \<le> x \<and> x < e then 0 else m x)"
  using assms
proof (induction "unat e - unat i" arbitrary: i m)
  case 0
  then have "e \<le> i" by (simp add: word_le_nat_alt)
  then have "(\<lambda>x. if i \<le> x \<and> x < e then 0 else m x) = m" "\<not> i < e" by (auto simp: fun_eq_iff)
  then show ?case unfolding 0(4) by (subst zero_fill.simps) simp
next
  case (Suc n)
  then have lt: "i < e" by (simp add: word_less_nat_alt)
  then have u: "unat (i + 1) = Suc (unat i)" by (rule unat_succ_u32)
  have "same_bytes (m(i := 0)) ph m ph 32" unfolding same_bytes_def using Suc.prems(4) by fastforce
  then have h: "prog_header (m(i := 0)) ph = prog_header m ph" by (rule same_prog_header)
  have "zero_fill ph pa (i + 1) (m(i := 0)) = Some (\<lambda>x. if i + 1 \<le> x \<and> x < e then 0 else (m(i := 0)) x)"
  proof (rule Suc.hyps(1))
    show "n = unat e - unat (i + 1)" "unat (i + 1) \<le> unat e" using Suc.hyps(2) u lt by (simp_all add: word_less_nat_alt)
    show "\<And>k. k < 32 \<Longrightarrow> unat (ph + of_nat k) < unat (i + 1)" using Suc.prems(4) u by fastforce
  qed (use Suc.prems h in simp_all)
  moreover have "(\<lambda>x. if i + 1 \<le> x \<and> x < e then 0 else (m(i := 0)) x) = (\<lambda>x. if i \<le> x \<and> x < e then 0 else m x)"
    using lt u by (auto simp: fun_eq_iff word_le_nat_alt word_less_nat_alt Suc_le_eq) (metis le_neq_implies_less unsigned_word_eqI)
  ultimately show ?case using lt Suc.prems(3) by (subst zero_fill.simps) simp
qed

end

text \<open>
  A segment that the boot loader handles properly: it lies above the loader's own structures, its
  file part on the first 2 GB of the disk; \<open>eo\<close> is the first block of the file.
\<close>

definition seg_low :: "nat \<Rightarrow> ProgramHeader \<Rightarrow> nat" where
  "seg_low eo p = unat (p_paddr p) - seg_pos eo p mod 512"

definition seg_high :: "nat \<Rightarrow> ProgramHeader \<Rightarrow> nat" where
  "seg_high eo p = max (seg_low eo p + 512 * sectors (seg_pos eo p) (unat (p_filesz p)))
     (unat (p_paddr p) + unat (p_memsz p))"

definition boot_seg_ok :: "nat \<Rightarrow> ProgramHeader \<Rightarrow> bool" where
  "boot_seg_ok eo p \<longleftrightarrow> p_filesz p \<le> p_memsz p \<and> seg_pos eo p + unat (p_filesz p) < 2 ^ 31 \<and>
     0x9B00 \<le> unat (p_paddr p) \<and> unat (p_paddr p) + unat (p_memsz p) + 512 < 2 ^ 32"

definition seg_loaded :: "(nat \<Rightarrow> u32 list) \<Rightarrow> nat \<Rightarrow> ProgramHeader \<Rightarrow> mem \<Rightarrow> bool" where
  "seg_loaded f eo p m \<longleftrightarrow> (\<forall>i < unat (p_memsz p). m (p_paddr p + of_nat i) =
     (if i < unat (p_filesz p) then disk_byte f (seg_pos eo p + i) else 0))"

context ata
begin

lemma boot_segment_ok:
  assumes "phase d = AtaIdle" and "p = prog_header m ph" and "p_type p = 1" and "boot_seg_ok eo p"
    and "unat ph + 32 \<le> 0x9900"
  obtains m' d' where "boot_segment P (int eo) ph (m, d) = Some (m', d')" and "sec d' = sec d" and "phase d' = AtaIdle"
    and "seg_loaded (sec d) eo p m'" and "\<And>x. unat x < seg_low eo p \<or> seg_high eo p \<le> unat x \<Longrightarrow> m' x = m x"
    and "0x9900 \<le> seg_low eo p"
proof -
  let ?a = "p_paddr p" and ?n = "unat (p_filesz p)" and ?l = "unat (p_memsz p)" and ?k = "seg_pos eo p"
  have ok: "?n \<le> ?l" "?k + ?n < 2 ^ 31" "0x9B00 \<le> unat ?a" "unat ?a + ?l + 512 < 2 ^ 32"
    using assms(4) by (simp_all add: boot_seg_ok_def word_le_nat_alt)
  have r: "?k mod 512 < 512" by simp
  have b: "?k mod 512 \<le> unat ?a" "unat ?a + ?n + 512 \<le> 2 ^ 32" using ok r by linarith+
  obtain m1 d1 where m1: "boot_readseg P ?a (int ?n) (int ?k) m d = Some (m1, d1)" "sec d1 = sec d" "phase d1 = AtaIdle"
    "same_bytes m1 ?a (disk_mem (sec d)) (of_nat ?k) ?n"
    "\<And>x. \<not> in_region (?a - of_nat (?k mod 512)) (512 * sectors ?k ?n) x \<Longrightarrow> m1 x = m x"
    by (rule boot_readseg_ok [OF assms(1) ok(2) b, where m = m]) blast
  have low: "unat (?a - of_nat (?k mod 512)) = seg_low eo p"
    using b(1) r by (simp add: unat_sub_if_size seg_low_def)
  have sz: "512 * sectors ?k ?n < ?k mod 512 + ?n + 512" by (rule sectors_bounds)
  have hi: "seg_low eo p + 512 * sectors ?k ?n \<le> 2 ^ 32" using sz b ok unfolding seg_low_def by linarith
  have out: "m1 x = m x" if "unat x < seg_low eo p \<or> seg_low eo p + 512 * sectors ?k ?n \<le> unat x" for x
    using m1(5) [of x] in_region_range [of "?a - of_nat (?k mod 512)" "512 * sectors ?k ?n" x] low hi that by auto
  have above: "0x9900 \<le> seg_low eo p" using ok(3) r unfolding seg_low_def by linarith
  have ph: "unat (ph + of_nat k) = unat ph + k" if "k < 32" for k
    using assms(5) that by (simp add: unat_word_ariths)
  have p1: "prog_header m1 ph = p"
    unfolding assms(2) by (rule same_prog_header) (use out ph assms(5) above in \<open>auto simp: same_bytes_def\<close>)
  have un: "unat (?a + of_nat i) = unat ?a + i" if "i \<le> ?l" for i
  proof -
    have "unat (of_nat i :: u32) = i" using that ok(4) by (intro unat_of_nat_u32) simp
    then show ?thesis using that ok(4) by (simp add: unat_word_ariths)
  qed
  have ub: "unat (?a + p_filesz p) = unat ?a + ?n" "unat (?a + p_memsz p) = unat ?a + ?l"
    using un [of ?n] un [of ?l] ok(1) by simp_all
  let ?m = "\<lambda>x. if ?a + p_filesz p \<le> x \<and> x < ?a + p_memsz p then 0 else m1 x"
  have "zero_fill ph ?a (?a + p_filesz p) m1 = Some ?m"
    by (rule zero_fill_ok) (use ub ok ph assms(5) p1 in simp_all)
  moreover have "sint (p_filesz p) = int ?n" using ok(2) by (intro sint_u32) simp
  moreover have "sint (p_off p + of_int (int eo * 512)) = int ?k"
  proof -
    have "p_off p + of_int (int eo * 512) = of_nat ?k" by (simp add: seg_pos_def)
    moreover have "unat (of_nat ?k :: u32) = ?k" using ok(2) by (intro unat_of_nat_u32) simp
    ultimately show ?thesis using ok(2) by (simp add: sint_u32)
  qed
  ultimately have res: "boot_segment P (int eo) ph (m, d) = Some (?m, d1)"
    using assms(2,3) m1(1) p1 by (simp add: boot_segment_def Let_def)
  have loaded: "seg_loaded (sec d) eo p ?m"
    unfolding seg_loaded_def
  proof (intro allI impI)
    fix i
    assume i: "i < ?l"
    have "unat (of_nat (?k + i) :: u32) = ?k + i" if "i < ?n" using ok(2) that by (intro unat_of_nat_u32) simp
    then have "i < ?n \<Longrightarrow> m1 (?a + of_nat i) = disk_byte (sec d) (?k + i)"
      using m1(4) by (simp add: same_bytes_def disk_mem_def)
    then show "?m (?a + of_nat i) = (if i < ?n then disk_byte (sec d) (?k + i) else 0)"
      using i un [of i] ub by (auto simp: word_le_nat_alt word_less_nat_alt)
  qed
  have rest: "?m x = m x" if "unat x < seg_low eo p \<or> seg_high eo p \<le> unat x" for x
    using that out [of x] ub b(1) by (auto simp: seg_high_def seg_low_def word_le_nat_alt word_less_nat_alt)
  show thesis by (rule that [OF res m1(2,3) loaded rest above])
qed

lemma boot_segments_ok:
  assumes "phase d = AtaIdle" and "\<And>k. p k = prog_header m (ph + of_nat (32 * k))" and "unat ph + 32 * n \<le> 0x9900"
    and "\<And>k. k < n \<Longrightarrow> p_type (p k) = 1 \<Longrightarrow> boot_seg_ok eo (p k)"
    and "\<And>j k. k < j \<Longrightarrow> j < n \<Longrightarrow> p_type (p k) = 1 \<Longrightarrow> p_type (p j) = 1 \<Longrightarrow>
      seg_high eo (p j) \<le> unat (p_paddr (p k)) \<or> unat (p_paddr (p k)) + unat (p_memsz (p k)) \<le> seg_low eo (p j)"
  shows "\<exists>m' d'. boot_segments P (int eo) ph n (m, d) = Some (m', d') \<and> sec d' = sec d \<and> phase d' = AtaIdle \<and>
    (\<forall>k < n. p_type (p k) = 1 \<longrightarrow> seg_loaded (sec d) eo (p k) m') \<and> (\<forall>x. unat x < 0x9900 \<longrightarrow> m' x = m x)"
  using assms(3-5)
proof (induction n)
  case 0
  then show ?case using assms(1) by simp
next
  case (Suc n)
  obtain m1 d1 where m1: "boot_segments P (int eo) ph n (m, d) = Some (m1, d1)" "sec d1 = sec d" "phase d1 = AtaIdle"
    "\<And>k. k < n \<Longrightarrow> p_type (p k) = 1 \<Longrightarrow> seg_loaded (sec d) eo (p k) m1" "\<And>x. unat x < 0x9900 \<Longrightarrow> m1 x = m x"
    using Suc by fastforce
  let ?h = "ph + of_nat (32 * n)"
  have u: "unat (ph + of_nat i) = unat ph + i" if "i \<le> 32 * Suc n" for i
  proof -
    have "unat (of_nat i :: u32) = i" using that Suc.prems(1) by (intro unat_of_nat_u32) simp
    then show ?thesis using that Suc.prems(1) by (simp add: unat_word_ariths)
  qed
  have "same_bytes m1 ?h m ?h 32"
    unfolding same_bytes_def
  proof (intro allI impI)
    fix i :: nat
    assume "i < 32"
    then have "unat (?h + of_nat i) < 0x9900" using u [of "32 * n + i"] Suc.prems(1) by (simp add: add.assoc)
    then show "m1 (?h + of_nat i) = m (?h + of_nat i)" by (rule m1(5))
  qed
  then have p: "p n = prog_header m1 ?h" unfolding assms(2) by (rule same_prog_header [symmetric])
  show ?case
  proof (cases "p_type (p n) = 1")
    case False
    then have "boot_segments P (int eo) ph (Suc n) (m, d) = Some (m1, d1)"
      using m1(1) p by (simp add: boot_segment_def Let_def)
    then show ?thesis using m1 False by (auto simp: less_Suc_eq)
  next
    case True
    have hb: "unat ?h + 32 \<le> 0x9900" using u [of "32 * n"] Suc.prems(1) by simp
    obtain m2 d2 where m2: "boot_segment P (int eo) ?h (m1, d1) = Some (m2, d2)" "sec d2 = sec d1" "phase d2 = AtaIdle"
      "seg_loaded (sec d1) eo (p n) m2" "\<And>x. unat x < seg_low eo (p n) \<or> seg_high eo (p n) \<le> unat x \<Longrightarrow> m2 x = m1 x"
      "0x9900 \<le> seg_low eo (p n)"
      by (rule boot_segment_ok [OF m1(3) p True Suc.prems(2) [OF _ True] hb]) auto
    have keep: "seg_loaded (sec d) eo (p k) m2" if k: "k < n" "p_type (p k) = 1" for k
    proof -
      have ok: "unat (p_paddr (p k)) + unat (p_memsz (p k)) + 512 < 2 ^ 32"
        using Suc.prems(2) [of k] k by (simp add: boot_seg_ok_def)
      have "m2 (p_paddr (p k) + of_nat i) = m1 (p_paddr (p k) + of_nat i)" if i: "i < unat (p_memsz (p k))" for i
      proof (rule m2(5))
        have "unat (of_nat i :: u32) = i" using i ok by (intro unat_of_nat_u32) simp
        then have "unat (p_paddr (p k) + of_nat i) = unat (p_paddr (p k)) + i" using i ok by (simp add: unat_word_ariths)
        then show "unat (p_paddr (p k) + of_nat i) < seg_low eo (p n) \<or> seg_high eo (p n) \<le> unat (p_paddr (p k) + of_nat i)"
          using Suc.prems(3) [of k n] k True i by auto
      qed
      then show ?thesis using m1(4) [OF k] by (simp add: seg_loaded_def)
    qed
    show ?thesis using m1 m2 keep by (auto simp: less_Suc_eq)
  qed
qed

end

section \<open>Properties\<close>

context ata
begin

text \<open>The three reads of \<open>bootmain\<close> before the segments: directory, inode and headers.\<close>

lemma boot_headers:
  assumes "phase d = AtaIdle" and ino: "ino = unat (load32 (disk_mem (sec d)) 131100)" and "512 * ino + 512 < 2 ^ 31"
    and eo: "eo = unat (load32 (disk_mem (sec d)) (of_nat (512 * ino)))" and "512 * eo + 4096 < 2 ^ 31"
  obtains m3 d3 where "sec d3 = sec d" and "phase d3 = AtaIdle" and "same_bytes m3 0x8900 (disk_mem (sec d)) (of_nat (512 * eo)) 4096"
    and "bootmain P m d = map_option (\<lambda>(m4, d4). (e_entry (elf_header m4 0x8900) - 0xC0000000, m4, d4))
      (boot_segments P (int eo) (0x8900 + e_phoff (elf_header m3 0x8900)) (unat (e_phnum (elf_header m3 0x8900))) (m3, d3))"
proof -
  let ?dm = "disk_mem (sec d)"
  obtain m1 d1 where m1: "boot_readseg P 0x8000 (int 512) (int 131072) m d = Some (m1, d1)" "sec d1 = sec d" "phase d1 = AtaIdle"
    "same_bytes m1 0x8000 ?dm (of_nat 131072) 512"
    by (rule boot_readseg_ok [OF assms(1), where k = 131072 and n = 512 and a = "0x8000" and m = m]) simp_all
  have l1: "load32 m1 32796 = load32 ?dm 131100" using same_load32 [OF m1(4), of 28] by simp
  obtain m2 d2 where m2: "boot_readseg P 0x8500 (int 512) (int (512 * ino)) m1 d1 = Some (m2, d2)" "sec d2 = sec d" "phase d2 = AtaIdle"
    "same_bytes m2 0x8500 ?dm (of_nat (512 * ino)) 512"
    by (rule boot_readseg_ok [OF m1(3), where k = "512 * ino" and n = 512 and a = "0x8500" and m = m1])
      (use assms(3) m1(2) in simp_all)
  have l2: "load32 m2 0x8500 = load32 ?dm (of_nat (512 * ino))" using same_load32 [OF m2(4), of 0] by simp
  obtain m3 d3 where m3: "boot_readseg P 0x8900 (int 4096) (int (512 * eo)) m2 d2 = Some (m3, d3)" "sec d3 = sec d" "phase d3 = AtaIdle"
    "same_bytes m3 0x8900 ?dm (of_nat (512 * eo)) 4096"
    by (rule boot_readseg_ok [OF m2(3), where k = "512 * eo" and n = 4096 and a = "0x8900" and m = m2])
      (use assms(5) m2(2) in simp_all)
  have i: "sint (load32 m1 32796) = int ino" "sint (load32 m2 0x8500) = int eo"
    unfolding l1 l2 using assms(2-5) by (simp_all add: sint_u32)
  have j: "i32 (int ino * 512) = int (512 * ino)" "i32 (int eo * 512) = int (512 * eo)"
    using assms(3,5) by (simp_all add: i32_id)
  show thesis
    by (rule that [OF m3(2-4)])
      (use m1(1) m2(1) m3(1) in \<open>simp add: bootmain_def i j Let_def map_option_case split_def del: of_nat_mult split: option.split\<close>)
qed

end

text \<open>The header survives while the segments are loaded above it.\<close>

lemma same_low_bytes:
  assumes "\<And>x. unat x < 0x9900 \<Longrightarrow> m' x = m x"
  shows "same_bytes m' 0x8900 m 0x8900 52"
  unfolding same_bytes_def
proof (intro allI impI)
  fix i :: nat
  assume "i < 52"
  then have "unat (0x8900 + of_nat i :: u32) < 0x9900" by (simp add: unat_word_ariths)
  then show "m' (0x8900 + of_nat i) = m (0x8900 + of_nat i)" by (rule assms)
qed

text \<open>
  C12: The boot loader: from any conforming disk that holds an ELF file whose headers lie in its first
  4096 bytes and whose segments neither reach the boot loader's structures nor, sector by sector,
  an earlier segment, \<open>bootmain\<close> reaches the jump to the physical address of the entry point, and
  then every loadable segment is in memory, its file part followed by zeros.
\<close>

theorem bootmain_loads_kernel:
  assumes "ata P sec phase reg busy" and "phase d = AtaIdle"
    and "ino = unat (load32 (disk_mem (sec d)) 131100)" and "512 * ino + 512 < 2 ^ 31"
    and "eo = unat (load32 (disk_mem (sec d)) (of_nat (512 * ino)))" and "512 * eo + 4096 < 2 ^ 31"
    and "h = elf_header (disk_mem (sec d)) (of_nat (512 * eo))"
    and "unat (e_phoff h) + 32 * unat (e_phnum h) \<le> 4096"
    and "\<And>k. p k = prog_header (disk_mem (sec d)) (of_nat (512 * eo) + (e_phoff h + of_nat (32 * k)))"
    and "\<And>k. k < unat (e_phnum h) \<Longrightarrow> p_type (p k) = 1 \<Longrightarrow> boot_seg_ok eo (p k)"
    and "\<And>j k. k < j \<Longrightarrow> j < unat (e_phnum h) \<Longrightarrow> p_type (p k) = 1 \<Longrightarrow> p_type (p j) = 1 \<Longrightarrow>
      seg_high eo (p j) \<le> unat (p_paddr (p k)) \<or> unat (p_paddr (p k)) + unat (p_memsz (p k)) \<le> seg_low eo (p j)"
  shows "\<exists>m' d'. bootmain P m d = Some (e_entry h - 0xC0000000, m', d') \<and>
    (\<forall>k < unat (e_phnum h). p_type (p k) = 1 \<longrightarrow> seg_loaded (sec d) eo (p k) m')"
proof -
  let ?dm = "disk_mem (sec d)"
  obtain m3 d3 where m3: "sec d3 = sec d" "phase d3 = AtaIdle" "same_bytes m3 0x8900 ?dm (of_nat (512 * eo)) 4096"
    and run: "bootmain P m d = map_option (\<lambda>(m4, d4). (e_entry (elf_header m4 0x8900) - 0xC0000000, m4, d4))
      (boot_segments P (int eo) (0x8900 + e_phoff (elf_header m3 0x8900)) (unat (e_phnum (elf_header m3 0x8900))) (m3, d3))"
    by (rule ata.boot_headers [OF assms(1-6), of m])
  have hd: "e_entry (elf_header m3 0x8900) = e_entry h" "e_phoff (elf_header m3 0x8900) = e_phoff h"
    "e_phnum (elf_header m3 0x8900) = e_phnum h"
    unfolding assms(7) using same_bytes_sub [OF m3(3), of 0 52] by (auto intro!: same_elf_header)
  let ?ph = "0x8900 + e_phoff h" and ?n = "unat (e_phnum h)"
  let ?p = "\<lambda>k. prog_header m3 (?ph + of_nat (32 * k))"
  have uph: "unat ?ph = 0x8900 + unat (e_phoff h)" using assms(8) by (simp add: unat_word_ariths)
  have p: "p k = ?p k" if "k < ?n" for k
  proof -
    let ?o = "unat (e_phoff h) + 32 * k"
    have "same_bytes m3 (0x8900 + of_nat ?o) ?dm (of_nat (512 * eo) + of_nat ?o) 32"
      by (rule same_bytes_sub [OF m3(3)]) (use that assms(8) in simp)
    then show ?thesis unfolding assms(9) by (simp add: same_prog_header add.assoc)
  qed
  have "\<exists>m' d'. boot_segments P (int eo) ?ph ?n (m3, d3) = Some (m', d') \<and> sec d' = sec d3 \<and> phase d' = AtaIdle \<and>
      (\<forall>k < ?n. p_type (?p k) = 1 \<longrightarrow> seg_loaded (sec d3) eo (?p k) m') \<and> (\<forall>x. unat x < 0x9900 \<longrightarrow> m' x = m3 x)"
    by (rule ata.boot_segments_ok [OF assms(1) m3(2)]) (use uph assms(8,10,11) p in auto)
  then obtain m4 d4 where m4: "boot_segments P (int eo) ?ph ?n (m3, d3) = Some (m4, d4)"
    "\<And>k. k < ?n \<Longrightarrow> p_type (p k) = 1 \<Longrightarrow> seg_loaded (sec d) eo (p k) m4" "\<And>x. unat x < 0x9900 \<Longrightarrow> m4 x = m3 x"
    using p m3(1) by auto
  have "e_entry (elf_header m4 0x8900) = e_entry h" using same_elf_header(1) [OF same_low_bytes [OF m4(3)]] hd(1) by simp
  then show ?thesis using run m4(1,2) by (simp add: hd)
qed

section \<open>A disk image\<close>

text \<open>One kernel file of one segment: directory in sector 257, inode in sector 258, file from sector 301 on.\<close>

definition boot_demo :: ata_dev where
  "boot_demo = ata_zero\<lparr>ata_disk := (\<lambda>n k.
     if n = 257 \<and> k = 7 then 257 else if n = 258 \<and> k = 0 then 300
     else if n = 301 then (if k = 6 then 0xC0100000 else if k = 7 then 52 else if k = 11 then 1
       else if k = 13 then 1 else if k = 14 then 0x1000 else if k = 16 then 0x100000 else if k = 17 then 5
       else if k = 18 then 9 else 0)
     else if n = 309 then 0x44434241 else 0)\<rparr>"

lemma boot_demo_words:
  "w < 128 \<Longrightarrow> b < 8388608 \<Longrightarrow> load32 (disk_mem (ata_sec boot_demo)) (of_nat (512 * b + 4 * w)) = ata_disk boot_demo (b + 1) w"
  using disk_word [of "ata_sec boot_demo" b w] by (simp add: ata_sec_def)

theorem bootmain_loads_kernel_witness:
  "\<exists>m' d'. bootmain ata_ports (\<lambda>_. 7) boot_demo = Some (0x100000, m', d') \<and>
     seg_loaded (ata_sec boot_demo) 300 (prog_header (disk_mem (ata_sec boot_demo)) 153652) m'"
proof -
  let ?dm = "disk_mem (ata_sec boot_demo)"
  let ?p = "\<lambda>k. prog_header ?dm (153600 + (52 + of_nat (32 * k)))"
  have w: "load32 ?dm 131100 = 257" "load32 ?dm 131584 = 300" "load32 ?dm 153624 = 0xC0100000" "load32 ?dm 153628 = 52"
    "load32 ?dm 153644 = 1" "load32 ?dm 153652 = 1" "load32 ?dm 153656 = 0x1000" "load32 ?dm 153664 = 0x100000"
    "load32 ?dm 153668 = 5" "load32 ?dm 153672 = 9"
    using boot_demo_words [of 7 256] boot_demo_words [of 0 257] boot_demo_words [of 6 300] boot_demo_words [of 7 300]
      boot_demo_words [of 11 300] boot_demo_words [of 13 300] boot_demo_words [of 14 300] boot_demo_words [of 16 300]
      boot_demo_words [of 17 300] boot_demo_words [of 18 300]
    by (simp_all add: boot_demo_def)
  have h: "e_entry (elf_header ?dm 153600) = 0xC0100000" "e_phoff (elf_header ?dm 153600) = 52"
    "e_phnum (elf_header ?dm 153600) = 1"
    using w by (simp_all add: elf_header_def load16_load32)
  have p: "p_type (?p 0) = 1" "p_off (?p 0) = 0x1000" "p_paddr (?p 0) = 0x100000" "p_filesz (?p 0) = 5" "p_memsz (?p 0) = 9"
    using w by (simp_all add: prog_header_def)
  have "\<exists>m' d'. bootmain ata_ports (\<lambda>_. 7) boot_demo = Some (e_entry (elf_header ?dm 153600) - 0xC0000000, m', d') \<and>
      (\<forall>k < unat (e_phnum (elf_header ?dm 153600)). p_type (?p k) = 1 \<longrightarrow> seg_loaded (ata_sec boot_demo) 300 (?p k) m')"
  proof (rule bootmain_loads_kernel [OF disk.ata_axioms, where ino = 257])
    show "boot_seg_ok 300 (?p k)" if "k < unat (e_phnum (elf_header ?dm 153600))" for k
      using that p by (simp add: h boot_seg_ok_def seg_pos_def)
  qed (use w h in \<open>simp_all add: boot_demo_def ata_zero_def\<close>)
  then show ?thesis using p(1) by (simp add: h)
qed

end
