(* ===== verification/User_View.thy ===== *)
theory User_View
  imports Address_Space Fork Paging_Init
begin

text \<open>
  Memory as a program sees it: the bytes that the processor finds at the user addresses of an
  address space, and what the page-table code does to this view. The kernel writes user pages
  through its own addresses; the lemmas say which of its writes a program can notice.
\<close>

section \<open>The user's view of memory\<close>

abbreviation leaf :: "u32 \<Rightarrow> slot" where
  "leaf va \<equiv> Leaf (unat (PDX va)) (unat (PTX va))"

text \<open>The byte a program with the page directory in frame \<open>d\<close> reads at \<open>va\<close>.\<close>

definition user_byte :: "mem \<Rightarrow> nat \<Rightarrow> u32 \<Rightarrow> byte option" where
  "user_byte m d va = map_option (\<lambda>p. m (lin p)) (page_walk m (page2pa d) va)"

lemma lin_page2pa: "lin (page2pa f + x) = page2kva f + x"
  by (simp add: lin_def page2kva_def)

lemma user_byte_slot:
  assumes "d < npages" and "va < KOFFSET"
  shows "user_byte m d va = map_option (\<lambda>f. m (page2kva f + PGOFF va)) (slot_frame m d (leaf va))"
  unfolding user_byte_def page_walk_slot [OF assms] by (simp add: option.map_comp comp_def lin_page2pa)

lemma frame_page: "f < npages \<Longrightarrow> frame (page2kva f + PGOFF va) = f"
  using frame_addr [of f "unat (PGOFF va)"] PGOFF_lt [of va] by simp

text \<open>The frames of the directory and of the page tables.\<close>

definition table_frames :: "mem \<Rightarrow> nat \<Rightarrow> nat set" where
  "table_frames m d = insert d {f. \<exists>i. slot_frame m d (Tab i) = Some f}"

lemma table_framesI [intro]: "d \<in> table_frames m d" "slot_frame m d (Tab i) = Some f \<Longrightarrow> f \<in> table_frames m d"
  unfolding table_frames_def by blast+

lemma leaf_not_table:
  assumes "space_ok s d xs" and "slot_frame (mem s) d (Leaf i j) = Some f"
  shows "f \<notin> table_frames (mem s) d" and "f < npages" and "f \<notin> set xs"
proof -
  note ok = space_okD [OF assms(1)]
  show "f \<notin> table_frames (mem s) d"
    using ok(2) [OF assms(2), of Dir] ok(2) [OF assms(2), of "Tab k" for k] unfolding table_frames_def
    by (auto simp del: slot_frame.simps(2,3))
  show "f < npages" "f \<notin> set xs" using ok(3,4) assms(2) by blast+
qed

section \<open>Filling an entry\<close>

lemma fill_entry_more: "fill_entry a s = Inr s' \<Longrightarrow> pm.more s' = pm.more s"
  by (auto simp: fill_entry_def page_alloc_ref_def page_alloc_def bnd_Inr_iff Let_def split: if_splits option.splits prod.splits)

lemma filled_new:
  assumes "g < npages" "l < 1024" "x < npages" "x \<noteq> g" "frame y = x"
  shows "filled m g l x y = 0"
proof -
  have "\<not> in_region (entry g l) 4 y" using entry_frame [OF assms(1,2)] assms(4,5) by auto
  then show ?thesis using assms(3,5) by (simp add: filled_def store32_other memset_page)
qed

text \<open>The effect on memory, beside \<open>fill_tab_refines\<close> and \<open>fill_leaf_refines\<close>.\<close>

lemma fill_entry_mem:
  assumes "free_list s xs" and "fill_entry (entry g l) s = Inr s'"
  shows "tab_entry (mem s) g l \<noteq> None \<and> s' = s \<or>
    tab_entry (mem s) g l = None \<and> xs \<noteq> [] \<and> mem s' = filled (mem s) g l (hd xs)"
proof (cases "tab_entry (mem s) g l")
  case None
  then have a: "load32 (mem s) (entry g l) AND PTE_P = 0" by (simp add: entry_absent)
  show ?thesis
  proof (cases xs)
    case Nil
    then show ?thesis using fill_entry_oom [of s "entry g l"] a assms by simp
  next
    case (Cons x ys)
    obtain s1 where "fill_entry (entry g l) s = Inr s1" "mem s1 = filled (mem s) g l x"
      by (rule fill_entry_absent [of s x ys "entry g l"]) (use a assms(1) Cons in \<open>auto simp: filled_def\<close>)
    then show ?thesis using None Cons assms(2) by simp
  qed
next
  case (Some t)
  then have "load32 (mem s) (entry g l) AND PTE_P \<noteq> 0" using entry_absent [of "mem s" g l] by auto
  then show ?thesis using Some assms(2) by (simp add: fill_entry_present)
qed

section \<open>Allocation\<close>

lemma vm_fill_at:
  assumes "vm_fill sl (M, xs) = Some (M', ys)"
  shows "M' a = M a \<or> a = sl \<and> M a = None \<and> (\<exists>x \<in> set xs. M' a = Some x)"
  using assms by (auto split: option.splits list.splits if_splits)

lemma vm_touch_at:
  assumes "vm_touch i j (M, xs) = Some (M', ys)"
  shows "M' a = M a \<or> (a = Tab i \<or> a = Leaf i j) \<and> M a = None \<and> (\<exists>x \<in> set xs. M' a = Some x)"
proof -
  obtain M1 zs where 1: "vm_fill (Tab i) (M, xs) = Some (M1, zs)" and 2: "vm_fill (Leaf i j) (M1, zs) = Some (M', ys)"
    using assms by (auto simp: vm_touch_def split: option.splits simp del: vm_fill.simps)
  show ?thesis using vm_fill_at [OF 1, of a] vm_fill_at [OF 2, of a] vm_fill_ran [OF 1] by auto
qed

text \<open>
  \<open>mm_malloc\<close> seen by the program: a page that was missing reads as zeros, everything else reads
  as before. The kernel's memory changes in page tables and free pages only.
\<close>

lemma pgdir_walk_mem:
  assumes ok: "space_ok s d xs" and va: "va < KOFFSET" and w: "pgdir_walk (page2kva d) va True s = Inr (pte, s')"
  shows "pm.more s' = pm.more s"
    and "frame y \<notin> set xs \<Longrightarrow> frame y \<notin> table_frames (mem s) d \<Longrightarrow> mem s' y = mem s y"
    and "slot_frame (mem s) d (leaf va) = None \<Longrightarrow> slot_frame (mem s') d (leaf va) = Some (frame y) \<Longrightarrow> mem s' y = 0"
proof -
  let ?i = "unat (PDX va)" and ?j = "unat (PTX va)"
  have i: "?i < USER_PDES" using va by (rule user_PDX)
  have d: "d < npages" "d \<notin> set xs" using space_ok_dir [OF ok] by auto
  obtain s1 where s1: "fill_entry (entry d ?i) s = Inr s1"
    and s2: "fill_entry (lin (PTE_ADDR (load32 (mem s1) (entry d ?i)) + PTX va * 4)) s1 = Inr s'"
    using w by (auto simp: pgdir_walk_def pgdir_entry Let_def bnd_Inr_iff)
  show "pm.more s' = pm.more s" using fill_entry_more [OF s1] fill_entry_more [OF s2] by simp
  obtain M1 ys1 where M1: "vm_fill (Tab ?i) (slot_frame (mem s) d, xs) = Some (M1, ys1)" "space_ok s1 d ys1" "slot_frame (mem s1) d = M1"
    using fill_tab_refines [OF ok i] s1 by (auto split: option.splits)
  obtain t where t: "tab_entry (mem s1) d ?i = Some t" using vm_fill_maps [OF M1(1)] M1(3) i by force
  then have tt: "slot_frame (mem s1) d (Tab ?i) = Some t" using i by simp
  have fr: "fr (load32 (mem s1) (entry d ?i)) = t" using t by (auto simp: tab_entry_def Let_def split: if_splits)
  have s2': "fill_entry (entry t ?j) s1 = Inr s'" using s2 by (simp add: lin_PTE_ADDR fr)
  have t': "t < npages" "t \<notin> set ys1" using space_okD(3,4) [OF M1(2) tt] by auto
  have sub: "set ys1 \<subseteq> set xs" using vm_fill_ran [OF M1(1)] by simp
  have tab: "t \<in> set xs \<or> t \<in> table_frames (mem s) d"
    using vm_fill_at [OF M1(1), of "Tab ?i"] M1(3) tt by (auto simp: table_frames_def simp del: slot_frame.simps)
  note e1 = fill_entry_mem [OF space_okD(1) [OF ok] s1] and e2 = fill_entry_mem [OF space_okD(1) [OF M1(2)] s2']
  have np: "x < npages" if "x \<in> set xs" for x using space_okD(1) [OF ok] that by (simp add: free_list_def)
  show "mem s' y = mem s y" if y: "frame y \<notin> set xs" "frame y \<notin> table_frames (mem s) d"
  proof -
    have "frame y \<noteq> d" "frame y \<noteq> t" using y tab by auto
    have yn: "frame y \<notin> set ys1" using y(1) sub by auto
    have "mem s1 y = mem s y"
      using e1 filled_other [of d ?i "hd xs" y "mem s"] d(1) np [of "hd xs"] y(1) \<open>frame y \<noteq> d\<close> by (cases xs) auto
    moreover have "mem s' y = mem s1 y"
      using e2 filled_other [of t ?j "hd ys1" y "mem s1"] t'(1) np [of "hd ys1"] sub yn \<open>frame y \<noteq> t\<close>
      by (cases ys1) auto
    ultimately show ?thesis by simp
  qed
  show "mem s' y = 0" if y: "slot_frame (mem s) d (leaf va) = None" "slot_frame (mem s') d (leaf va) = Some (frame y)"
  proof -
    have "M1 (leaf va) = None" using M1(1) y(1) by (auto split: option.splits list.splits simp del: slot_frame.simps)
    then have "tab_entry (mem s1) t ?j = None" using M1(3) t i by auto
    then have m: "ys1 \<noteq> []" "mem s' = filled (mem s1) t ?j (hd ys1)" using e2 by auto
    then have h: "hd ys1 \<in> set ys1" by simp
    then have x: "hd ys1 < npages" "hd ys1 \<noteq> t" using np sub t'(2) by auto
    have dt: "d \<noteq> t" using space_okD(2) [OF M1(2) tt, of Dir] by auto
    have dx: "d \<noteq> hd ys1" using h sub d(2) by auto
    have "tab_entry (mem s') d ?i = Some t"
      unfolding m(2) using tab_entry_filled [of d t ?i ?j "hd ys1" "mem s1"] d(1) t'(1) x t dt dx by simp
    moreover have "tab_entry (mem s') t ?j = Some (hd ys1)"
      unfolding m(2) using tab_entry_filled [of t t ?j ?j "hd ys1" "mem s1"] t'(1) x by simp
    ultimately have "frame y = hd ys1" using y(2) i by simp
    then show ?thesis unfolding m(2) using filled_new [OF t'(1) _ x] by simp
  qed
qed

lemma mm_malloc_view:
  assumes ok: "space_ok s d xs" and len: "2 \<le> length xs" and va: "va < KOFFSET"
  obtains s' ys f where "mm_malloc (page2kva d) va s = Inr (page2pa f + PGOFF va, s')"
    and "space_ok s' d ys" and "set ys \<subseteq> set xs" and "length xs \<le> length ys + 2" and "pm.more s' = pm.more s"
    and "slot_frame (mem s') d (leaf va) = Some f"
    and "\<And>y. frame y \<notin> set xs \<Longrightarrow> frame y \<notin> table_frames (mem s) d \<Longrightarrow> mem s' y = mem s y"
    and "table_frames (mem s') d \<subseteq> table_frames (mem s) d \<union> set xs"
    and "\<And>i j. (i, j) \<noteq> (unat (PDX va), unat (PTX va)) \<Longrightarrow> slot_frame (mem s') d (Leaf i j) = slot_frame (mem s) d (Leaf i j)"
    and "\<And>v. v < KOFFSET \<Longrightarrow> user_byte (mem s') d v =
      (if PGNUM v = PGNUM va \<and> user_byte (mem s) d v = None then Some 0 else user_byte (mem s) d v)"
proof -
  let ?i = "unat (PDX va)" and ?j = "unat (PTX va)"
  have d: "d < npages" using space_ok_dir [OF ok] by simp
  obtain M ys where M: "vm_touch ?i ?j (slot_frame (mem s) d, xs) = Some (M, ys)" using vm_touch_enough [OF len] by blast
  obtain pte s' where w: "pgdir_walk (page2kva d) va True s = Inr (Some pte, s')"
    and ok': "space_ok s' d ys" and sf: "slot_frame (mem s') d = M"
    using pgdir_walk_refines_lemma [OF ok va] M by auto
  obtain pa s2 where p: "mm_malloc (page2kva d) va s = Inr (pa, s2)" "page_walk (mem s2) (page2pa d) va = Some pa"
    by (rule mm_malloc_maps_lemma [OF ok len va])
  have s2: "s2 = s'" using p(1) w by (simp add: mm_malloc_def)
  obtain f where f: "slot_frame (mem s') d (leaf va) = Some f" "pa = page2pa f + PGOFF va"
    using p(2) unfolding s2 page_walk_slot [OF d va] map_option_eq_Some by blast
  note wm = pgdir_walk_mem [OF ok va w]
  have sub: "set ys \<subseteq> set xs" "slot_frame (mem s) d \<subseteq>\<^sub>m M"
    using M vm_touch_extends [OF M] unfolding vm_touch_def
    by (auto split: option.splits dest!: vm_fill_ran simp del: vm_fill.simps slot_frame.simps)
  have Ml: "M sl = slot_frame (mem s) d sl \<or> slot_frame (mem s) d sl = None \<and> (sl = Tab ?i \<or> sl = leaf va) \<and> (\<exists>x \<in> set xs. M sl = Some x)" for sl
    using vm_touch_at [OF M, of sl] by blast
  have other: "slot_frame (mem s') d (Leaf i j) = slot_frame (mem s) d (Leaf i j)" if "(i, j) \<noteq> (?i, ?j)" for i j
    using Ml [of "Leaf i j"] that sf by auto
  have view: "user_byte (mem s') d v = (if PGNUM v = PGNUM va \<and> user_byte (mem s) d v = None then Some 0 else user_byte (mem s) d v)"
    if v: "v < KOFFSET" for v
  proof (cases "slot_frame (mem s) d (leaf v)")
    case (Some g)
    then have "slot_frame (mem s') d (leaf v) = Some g" using sub(2) sf unfolding map_le_def by (metis domI)
    moreover have "mem s' (page2kva g + PGOFF v) = mem s (page2kva g + PGOFF v)"
      using wm(2) leaf_not_table [OF ok Some] frame_page [of g v] by simp
    ultimately show ?thesis using Some by (simp add: user_byte_slot [OF d v] del: slot_frame.simps)
  next
    case None
    show ?thesis
    proof (cases "PGNUM v = PGNUM va")
      case True
      then have l: "leaf v = leaf va" by (simp add: PGNUM_eq_iff)
      have "f < npages" by (rule space_okD(3) [OF ok' f(1)])
      then have "mem s' (page2kva f + PGOFF v) = 0" using wm(3) f(1) None l frame_page [of f v] by simp
      then show ?thesis using f(1) l None True by (simp add: user_byte_slot [OF d v] del: slot_frame.simps)
    next
      case False
      then have "(unat (PDX v), unat (PTX v)) \<noteq> (?i, ?j)" by (simp add: PGNUM_eq_iff unsigned_word_eqI) (metis unsigned_word_eqI)
      then show ?thesis using other None False by (simp add: user_byte_slot [OF d v] del: slot_frame.simps)
    qed
  qed
  have tabs: "table_frames (mem s') d \<subseteq> table_frames (mem s) d \<union> set xs"
    unfolding table_frames_def sf using Ml [of "Tab i" for i] by (auto simp del: slot_frame.simps) (metis option.inject)+
  show thesis
    by (rule that [OF _ ok' sub(1) vm_touch_length [OF M] wm(1) f(1) wm(2) tabs other view]) (use p(1) s2 f(2) in auto)
qed

lemma unat_PGNUM: "unat (PGNUM va) = unat va div 4096"
  by (simp add: PGNUM_def drop_bit_eq_div unat_div_distrib)

lemma unat_PTE_ADDR: "unat (PTE_ADDR va) = unat va - unat va mod 4096"
proof -
  have "va mod 4096 \<le> va" by (simp add: word_le_nat_alt unat_mod_distrib)
  moreover have "PTE_ADDR va = va - va mod 4096"
    by (simp add: PTE_ADDR_alt push_bit_eq_mult drop_bit_eq_div minus_mod_eq_div_mult)
  ultimately show ?thesis by (simp add: unat_sub unat_mod_distrib)
qed

lemma leaf_eq: "PGNUM v = PGNUM va \<Longrightarrow> leaf v = leaf va"
  by (simp add: PGNUM_eq_iff)

lemma leaf_neq: "PGNUM v \<noteq> PGNUM va \<Longrightarrow> leaf v \<noteq> leaf va"
  by (auto simp: PGNUM_eq_iff unsigned_word_eqI)

lemma PGOFF_PTE_ADDR: "PGOFF (PTE_ADDR va) = 0"
proof (rule unsigned_word_eqI)
  have "unat (PTE_ADDR va) mod 4096 = 0" unfolding unat_PTE_ADDR minus_mod_eq_mult_div by simp
  then show "unat (PGOFF (PTE_ADDR va)) = unat (0 :: u32)" by (simp add: unat_PGOFF)
qed

lemma table_frames_ran: "table_frames m d \<subseteq> ran (slot_frame m d)"
  unfolding table_frames_def by (auto intro: ranI [of _ Dir] ranI simp del: slot_frame.simps(2,3))

section \<open>Writing to memory\<close>

text \<open>Kernel buffers lie outside the frames \<open>W\<close> that the page allocator manages.\<close>

definition kernel_buf :: "nat set \<Rightarrow> addr \<Rightarrow> nat \<Rightarrow> bool" where
  "kernel_buf W a n \<longleftrightarrow> (\<forall>y. in_region a n y \<longrightarrow> frame y \<notin> W)"

text \<open>Replacing the contents of one page of the program by those of a kernel buffer.\<close>

lemma copy_page_view:
  assumes ok: "space_ok s d xs" and f: "slot_frame (mem s) d (leaf va) = Some f" and buf: "kernel_buf {f} bf 4096" "unat bf + 4096 \<le> 2 ^ 32"
    and m: "\<And>y. frame y \<in> ran (slot_frame (mem s) d) \<Longrightarrow> m y = mem s y" and m': "m' = memcpy m (page2kva f) bf PGSIZE"
  shows "slot_frame m' d = slot_frame (mem s) d"
    and "v < KOFFSET \<Longrightarrow> user_byte m' d v = (if PGNUM v = PGNUM va then Some (m (bf + PGOFF v)) else user_byte (mem s) d v)"
    and "frame y \<noteq> f \<Longrightarrow> m' y = m y"
proof -
  have d: "d < npages" using space_ok_dir [OF ok] by simp
  have fn: "f < npages" by (rule space_okD(3) [OF ok f])
  have e: "m' = moved m (page2kva f) bf 4096"
    unfolding m' by (subst memcpy_eq) (use buf(2) unat_page2kva [OF fn] npages_less [OF fn] in simp_all)
  show o: "frame y \<noteq> f \<Longrightarrow> m' y = m y" for y
    unfolding e using frame_region [OF fn, of y] by (intro moved_other) simp
  have old: "m' y = mem s y" if "frame y \<in> ran (slot_frame (mem s) d)" "frame y \<noteq> f" for y
    using o m that by simp
  have tf: "f \<notin> table_frames (mem s) d" by (rule leaf_not_table(1) [OF ok f])
  show sf: "slot_frame m' d = slot_frame (mem s) d"
  proof (rule slot_frame_cong [OF d])
    show "frame a = d \<Longrightarrow> m' a = mem s a" for a
      using old [of a] tf table_frames_ran by (auto simp: table_frames_def)
    show "t < npages \<and> (frame a = t \<longrightarrow> m' a = mem s a)" if "slot_frame (mem s) d (Tab i) = Some t" for i t a
      using old [of a] tf that space_okD(3) [OF ok that] by (auto simp: table_frames_def intro: ranI simp del: slot_frame.simps)
  qed
  show "user_byte m' d v = (if PGNUM v = PGNUM va then Some (m (bf + PGOFF v)) else user_byte (mem s) d v)" if v: "v < KOFFSET"
  proof (cases "PGNUM v = PGNUM va")
    case True
    then have "slot_frame m' d (leaf v) = Some f" unfolding sf using f leaf_eq [OF True] by simp
    moreover have "m' (page2kva f + PGOFF v) = m (bf + PGOFF v)"
      unfolding e using PGOFF_lt [of v] by (simp add: moved_def)
    ultimately show ?thesis using True by (simp add: user_byte_slot [OF d v] del: slot_frame.simps)
  next
    case False
    have "m' (page2kva g + PGOFF v) = mem s (page2kva g + PGOFF v)" if g: "slot_frame (mem s) d (leaf v) = Some g" for g
    proof -
      have "g \<noteq> f" using space_okD(2) [OF ok g, of "leaf va"] f leaf_neq [OF False] by metis
      then show ?thesis using old frame_page [OF space_okD(3) [OF ok g], of v] ranI [of "slot_frame (mem s) d" "leaf v" g] g by simp
    qed
    then show ?thesis using False by (cases "slot_frame (mem s) d (leaf v)") (simp_all add: user_byte_slot [OF d v] sf del: slot_frame.simps)
  qed
qed

lemma video_other:
  assumes "d < npages" and "vt < npages" and "frame y \<noteq> d" and "frame y \<noteq> vt"
  shows "create_video_mapping (page2kva d) (page2kva vt) m y = m y"
proof -
  have s: "store32 m' (page2kva vt + of_nat ((i + 0xA0) * 4)) w y = m' y" if "i < 16" for i m' w
    using store_entry_other [OF assms(2) _ assms(4), of "i + 0xA0"] that by (simp add: entry_def)
  have "n \<le> 16 \<Longrightarrow> fst (fold (\<lambda>i (m, pframe). (store32 m (page2kva vt + of_nat ((i + 0xA0) * 4)) (make_pte pframe), pframe + PGSIZE))
      [0..<n] (m', pf)) y = m' y" for n m' pf
  proof (induction n)
    case (Suc n)
    then show ?case using s [of n] by (auto simp: split_beta simp del: of_nat_add of_nat_mult)
  qed simp
  from this [of 16] have "create_video_mapping (page2kva d) (page2kva vt) m y = store32 m (page2kva d) (make_pde (va_to_pa (page2kva vt))) y"
    unfolding create_video_mapping_def Let_def by blast
  also have "\<dots> = m y" using store_entry_other [OF assms(1) _ assms(3), of 0] by (simp add: entry_def)
  finally show ?thesis .
qed

text \<open>The view depends on the directory entry of the address and on the tables and pages.\<close>

lemma user_byte_cong:
  assumes ok: "space_ok s d xs" and v: "v < KOFFSET"
    and e: "load32 m' (entry d (unat (PDX v))) = load32 (mem s) (entry d (unat (PDX v)))"
    and m: "\<And>y. frame y \<in> ran (slot_frame (mem s) d) \<Longrightarrow> frame y \<noteq> d \<Longrightarrow> m' y = mem s y"
  shows "user_byte m' d v = user_byte (mem s) d v"
proof -
  let ?i = "unat (PDX v)" and ?j = "unat (PTX v)"
  have d: "d < npages" using space_ok_dir [OF ok] by simp
  have i: "?i < USER_PDES" by (rule user_PDX [OF v])
  have t: "tab_entry m' d ?i = tab_entry (mem s) d ?i" by (simp add: tab_entry_def e)
  have same: "m' y = mem s y" if "slot_frame (mem s) d a = Some (frame y)" "a \<noteq> Dir" for a y
  proof (rule m)
    show "frame y \<in> ran (slot_frame (mem s) d)" using that(1) by (rule ranI)
    show "frame y \<noteq> d" using space_okD(2) [OF ok that(1), of Dir] that(2) by auto
  qed
  have "slot_frame m' d (leaf v) = slot_frame (mem s) d (leaf v)"
  proof (cases "tab_entry (mem s) d ?i")
    case (Some g)
    then have g: "slot_frame (mem s) d (Tab ?i) = Some g" using i by simp
    have "tab_entry m' g ?j = tab_entry (mem s) g ?j"
      by (rule tab_entry_cong [OF space_okD(3) [OF ok g] PTX_lt]) (use same [of "Tab ?i"] g in simp)
    then show ?thesis using t Some by simp
  qed (use t in simp)
  moreover have "m' (page2kva f + PGOFF v) = mem s (page2kva f + PGOFF v)" if "slot_frame (mem s) d (leaf v) = Some f" for f
    by (rule same [of "leaf v"]) (use that frame_page [OF space_okD(3) [OF ok that]] in simp_all)
  ultimately show ?thesis by (cases "slot_frame (mem s) d (leaf v)") (simp_all add: user_byte_slot [OF d v] del: slot_frame.simps)
qed

end
