(* ===== verification/Loaded_Image.thy ===== *)
theory Loaded_Image
  imports Elf_Loader User_View
begin

text \<open>
  What the program loader of \<open>Elf_Loader\<close> builds. Every step is an equation on the user's view of
  memory, so the loaded program is the composition of its segments: \<open>program_image\<close> is that image,
  \<open>loading\<close> the invariant of the loader between two pages.
\<close>

section \<open>The bytes of a segment\<close>

text \<open>
  The byte that the loader puts at address \<open>v\<close> of a page of the segment. Whole sectors are read, so
  that the file's bytes around the segment come with it, up to the sector boundaries.
\<close>

definition seg_byte :: "(nat \<Rightarrow> u32 list) \<Rightarrow> nat \<Rightarrow> ProgramHeader \<Rightarrow> nat \<Rightarrow> byte" where
  "seg_byte f eo p v =
     (let a = unat (p_vaddr p); n = unat (p_filesz p)
      in if 0 < n \<and> a - a mod 512 \<le> v \<and> v < 512 * ((a + n + 511) div 512)
         then disk_byte f (seg_pos eo p + v - a) else 0)"

lemma round_up: "x \<le> 512 * ((x + 511) div 512)" "512 * ((x + 511) div 512) < x + (512 :: nat)"
  using mult_div_mod_eq [of 512 "x + 511"] mod_less_divisor [of 512 "x + 511"] by linarith+

lemma round_up_le: "x \<le> 512 * y \<Longrightarrow> 512 * ((x + 511) div 512) \<le> 512 * (y :: nat)"
proof -
  assume "x \<le> 512 * y"
  then have "x + 512 \<le> 512 * (y + 1)" by simp
  with round_up(2) have "512 * ((x + 511) div 512) < 512 * (y + 1)" by (rule less_le_trans)
  then show ?thesis by simp
qed

lemma round_up_ge: "512 * y \<le> x \<Longrightarrow> 512 * (y :: nat) \<le> 512 * ((x + 511) div 512)"
  using round_up(1) by (rule order_trans [rotated])

lemma round_up_shift: "512 * ((512 * b + x + 511) div 512) = 512 * b + 512 * ((x + 511) div (512 :: nat))"
proof -
  have "512 * b + x + 511 = x + 511 + b * 512" by simp
  then have "(512 * b + x + 511) div 512 = b + (x + 511) div 512" by (simp only: div_mult_self1)
  then show ?thesis by (simp only: distrib_left)
qed

text \<open>The addresses of one page, whose first byte to load is at offset \<open>off\<close>.\<close>

lemma page_range:
  fixes a n off pg q num rest sp :: nat
  assumes "a \<le> 4096 * pg + off" and "off < 4096" and "a = 4096 * pg + off \<or> off = 0"
    and num: "num = min n (4096 * pg + off - a)" and rest: "rest = min (n - num) (4096 - off)" and "q < 4096"
  shows "rest \<noteq> 0 \<and> off - off mod 512 \<le> q \<and> q < off - off mod 512 + 512 * ((off mod 512 + rest + 511) div 512) \<longleftrightarrow>
    0 < n \<and> a - a mod 512 \<le> 4096 * pg + q \<and> 4096 * pg + q < 512 * ((a + n + 511) div 512)"
proof (cases "rest = 0")
  case True
  then have "n \<le> num" using rest assms(2) by simp
  then have le: "n \<le> 4096 * pg + off - a" using num by simp
  have "\<not> (0 < n \<and> 4096 * pg + q < 512 * ((a + n + 511) div 512))"
  proof
    assume n: "0 < n \<and> 4096 * pg + q < 512 * ((a + n + 511) div 512)"
    then have "off = 0" using assms(3) le by auto
    then have "a + n \<le> 512 * (8 * pg)" using le assms(1) by simp
    from round_up_le [OF this] n show False by simp
  qed
  then show ?thesis using True by simp
next
  case False
  then have nn: "num < n" "num = 4096 * pg + off - a" using num rest by auto
  let ?o = "off div 512" and ?r = "off mod 512"
  have o: "off = 512 * ?o + ?r" by simp
  have oo: "off - off mod 512 = 512 * ?o" by (rule minus_mod_eq_mult_div)
  have "off - off mod 512 + 512 * ((off mod 512 + rest + 511) div 512) = 512 * ((off + rest + 511) div 512)"
    using round_up_shift [of ?o "?r + rest"] o oo by (simp add: add.assoc [symmetric])
  moreover have "off - off mod 512 \<le> q \<longleftrightarrow> a - a mod 512 \<le> 4096 * pg + q"
  proof (cases "off = 0")
    case True
    then show ?thesis using assms(1) by simp
  next
    case False
    then have a: "a = 512 * (8 * pg) + off" using assms(3) by simp
    then have "a mod 512 = ?r" by (simp only: mod_mult_self4)
    then show ?thesis using a oo o by linarith
  qed
  moreover have "q < 512 * ((off + rest + 511) div 512) \<longleftrightarrow> 4096 * pg + q < 512 * ((a + n + 511) div 512)"
  proof (cases "n - num \<le> 4096 - off")
    case True
    then have "a + n = 512 * (8 * pg) + (off + rest)" using rest nn assms(1) by simp
    then have "512 * ((a + n + 511) div 512) = 4096 * pg + 512 * ((off + rest + 511) div 512)"
      using round_up_shift [of "8 * pg" "off + rest"] by (simp add: add.assoc)
    then show ?thesis by simp
  next
    case False: False
    then have "rest = 4096 - off" using rest by simp
    then have "off + rest = 4096" using assms(2) by simp
    moreover have "512 * (8 * pg + 8) \<le> a + n" using False nn assms(1,2) by simp
    from round_up_ge [OF this] have "4096 * pg + 4096 \<le> 512 * ((a + n + 511) div 512)" by simp
    ultimately show ?thesis using assms(6) by simp
  qed
  ultimately show ?thesis using False nn(1) by simp
qed

lemma page_source:
  fixes a n off pg q num rest sp :: nat
  assumes "a \<le> 4096 * pg + off" and "num = min n (4096 * pg + off - a)" and "rest = min (n - num) (4096 - off)"
    and "rest \<noteq> 0" and "off - off mod 512 \<le> q" and "sp mod 512 = a mod 512"
  shows "(sp + num) mod 512 = off mod 512"
    and "sp + num - off mod 512 + (q - (off - off mod 512)) = sp + (4096 * pg + q) - a"
proof -
  have n: "num = 4096 * pg + off - a" using assms(2-4) by auto
  have "(sp + num) mod 512 = (a + num) mod 512" using assms(6) by (rule mod_add_cong) simp
  also have "a + num = off + 512 * (8 * pg)" using n assms(1) by simp
  also have "\<dots> mod 512 = off mod 512" by (rule mod_mult_self2)
  finally show m: "(sp + num) mod 512 = off mod 512" .
  then have "off mod 512 \<le> sp + num" by (metis mod_less_eq_dividend)
  moreover have "off mod 512 \<le> off" by simp
  ultimately show "sp + num - off mod 512 + (q - (off - off mod 512)) = sp + (4096 * pg + q) - a"
    using n assms(1,5) by linarith
qed

lemma write_bytes_at:
  assumes "b < 4096" and "q < 4096" and "length bs \<le> 4096"
  shows "write_bytes m (a + of_nat b) bs (a + of_nat q) = (if b \<le> q \<and> q < b + length bs then bs ! (q - b) else m (a + of_nat q))"
proof (cases "b \<le> q")
  case True
  then have "a + of_nat q - (a + of_nat b) = of_nat (q - b)" by (simp add: of_nat_diff)
  moreover have "unat (of_nat (q - b) :: u32) = q - b" using assms by (intro unat_of_nat_u32) simp
  ultimately have "unat (a + of_nat q - (a + of_nat b)) = q - b" by (simp only:)
  then show ?thesis using True unfolding write_bytes_def by auto
next
  case False
  have "unat (of_nat q :: u32) = q" "unat (of_nat b :: u32) = b" using assms by (auto intro: unat_of_nat_u32)
  moreover have "a + of_nat q - (a + of_nat b) = (of_nat q - of_nat b :: u32)" by simp
  ultimately have "\<not> unat (a + of_nat q - (a + of_nat b)) < length bs"
    using False assms by (simp only: unat_sub_if_size word_size) simp
  then show ?thesis using False unfolding write_bytes_def by auto
qed

definition same_kernel :: "('d, 'a) fsst_scheme \<Rightarrow> ('d, 'a) fsst_scheme \<Rightarrow> bool" where
  "same_kernel s s' \<longleftrightarrow> s' = s\<lparr>mem := mem s', pages := pages s', page_free_list := page_free_list s', dev := dev s'\<rparr>"

lemma same_kernel_refl [simp]: "same_kernel s s"
  by (simp add: same_kernel_def)

lemma same_kernel_upd: "same_kernel s (s\<lparr>mem := m, dev := d\<rparr>)" "same_kernel s (s\<lparr>mem := m\<rparr>)"
  by (simp_all add: same_kernel_def)

lemma same_kernel_trans: "same_kernel s s1 \<Longrightarrow> same_kernel s1 s2 \<Longrightarrow> same_kernel s s2"
  by (cases s; cases s1; cases s2) (auto simp: same_kernel_def)

lemma same_kernel_more: "pm.more s' = pm.more s \<Longrightarrow> same_kernel s s'"
  by (cases s; cases s') (auto simp: same_kernel_def)

lemma same_kernel_fields:
  assumes "same_kernel s s'"
  shows "pcb_table s' = pcb_table s" "current s' = current s" "pcb_base s' = pcb_base s" "direct_at s' = direct_at s"
  using assms by (cases s; cases s'; auto simp: same_kernel_def)+

context ata
begin

lemma disk_read_view:
  assumes "phase (dev s) = AtaIdle" and "k + n < 2 ^ 31" and "k mod 512 \<le> unat a" and "unat a + n + 512 \<le> 2 ^ 32"
  obtains m' d' where "disk_read P a (int n) (int k) s = Inr (s\<lparr>mem := m', dev := d'\<rparr>)"
    and "sec d' = sec (dev s)" and "phase d' = AtaIdle" and "same_bytes m' a (disk_mem (sec (dev s))) (of_nat k) n"
    and "m' = write_bytes (mem s) (a - of_nat (k mod 512)) (disk_range (sec (dev s)) (k - k mod 512) (512 * sectors k n))"
proof -
  obtain m' d' where r: "readseg P a (int n) (int k) (mem s) (dev s) = Some (m', d')" "sec d' = sec (dev s)" "phase d' = AtaIdle"
    "same_bytes m' a (disk_mem (sec (dev s))) (of_nat k) n"
    "m' = write_bytes (mem s) (a - of_nat (k mod 512)) (disk_range (sec (dev s)) (k - k mod 512) (512 * sectors k n))"
    by (rule readseg_range_ok [OF assms, where m = "mem s"]) blast
  show thesis by (rule that [OF _ r(2-5)]) (simp add: disk_read_def r(1) ret_def)
qed

end

text \<open>A segment the loader handles: below the kernel, its file part as aligned as its addresses.\<close>

definition load_seg_ok :: "nat \<Rightarrow> ProgramHeader \<Rightarrow> bool" where
  "load_seg_ok eo p \<longleftrightarrow> p_filesz p \<le> p_memsz p \<and> unat (p_vaddr p) + unat (p_memsz p) \<le> 0xC0000000 \<and>
     seg_pos eo p mod 512 = unat (p_vaddr p) mod 512 \<and> seg_pos eo p + unat (p_filesz p) < 2 ^ 31"

lemma min_step:
  fixes n v a off :: nat
  shows "k = min n (v - a) \<Longrightarrow> a \<le> v \<Longrightarrow> r = min (n - k) (4096 - off) \<Longrightarrow> off < 4096 \<Longrightarrow> off \<le> v \<Longrightarrow>
    k + r = min n (v - off + 4096 - a)"
  by (auto simp: min_def split: if_splits)

text \<open>How many bytes of the file are copied into the page of \<open>va\<close>.\<close>

lemma rest_of_page:
  fixes num va n :: u32 and rest :: u32 and a :: nat
  assumes "unat num = min (unat n) (unat va - a)" and "a \<le> unat va"
    and "rest = (if n - num < PGSIZE - PGOFF va then n - num else PGSIZE - PGOFF va)"
  shows "unat rest = min (unat n - unat num) (4096 - unat va mod 4096)"
    and "unat (num + rest) = min (unat n) (unat va - unat va mod 4096 + 4096 - a)"
proof -
  have "num \<le> n" using assms(1) by (simp add: word_le_nat_alt)
  then have l: "unat (n - num) = unat n - unat num" by (rule unat_sub)
  have "PGOFF va \<le> 4096" using unat_PGOFF [of va] by (simp add: word_le_nat_alt)
  then have o: "unat (4096 - PGOFF va) = 4096 - unat va mod 4096" using unat_PGOFF [of va] by (simp add: unat_sub)
  show r: "unat rest = min (unat n - unat num) (4096 - unat va mod 4096)"
    using l o by (simp add: assms(3) word_less_nat_alt)
  then have "unat num + unat rest \<le> unat n" using assms(1) by linarith
  then have "unat (num + rest) = unat num + unat rest" using unat_lt_u32 [of n] by (simp add: unat_word_ariths)
  also have "\<dots> = min (unat n) (unat va - unat va mod 4096 + 4096 - a)" by (rule min_step [OF assms(1,2) r]) simp_all
  finally show "unat (num + rest) = min (unat n) (unat va - unat va mod 4096 + 4096 - a)" .
qed

context ata
begin

text \<open>The buffer after the part of the file for the page of \<open>va\<close> was read into it.\<close>

lemma page_buffer:
  assumes ok: "load_seg_ok eo p" and idle: "phase (dev s) = AtaIdle" and va: "unat (p_vaddr p) \<le> unat va"
    and al: "unat (p_vaddr p) = unat va \<or> unat va mod 4096 = 0"
    and num: "unat num = min (unat (p_filesz p)) (unat va - unat (p_vaddr p))"
    and rest: "rest = (if p_filesz p - num < PGSIZE - PGOFF va then p_filesz p - num else PGSIZE - PGOFF va)"
    and bs: "unat bf + 4608 \<le> 2 ^ 32" and z: "\<And>q. q < 4096 \<Longrightarrow> mem s (bf + of_nat q) = 0" and eo: "eo = unat elf_off"
  obtains m' d' where "(if rest \<noteq> 0 then disk_read P (bf + PGOFF va) (sint rest) (sint (elf_off * 512 + p_off p + num)) s else Inr s) =
      Inr (s\<lparr>mem := m', dev := d'\<rparr>)"
    and "sec d' = sec (dev s)" and "phase d' = AtaIdle"
    and "\<And>q. q < 4096 \<Longrightarrow> m' (bf + of_nat q) = seg_byte (sec (dev s)) eo p (unat va - unat va mod 4096 + q)"
    and "\<And>y. \<not> in_region bf 4096 y \<Longrightarrow> m' y = mem s y"
proof -
  let ?f = "sec (dev s)" and ?a = "unat (p_vaddr p)" and ?n = "unat (p_filesz p)" and ?off = "unat va mod 4096"
  let ?pg = "unat va div 4096" and ?sp = "seg_pos eo p" and ?num = "unat num" and ?rest = "unat rest"
  have sg: "?sp mod 512 = ?a mod 512" "?sp + ?n < 2 ^ 31" using ok by (simp_all add: load_seg_ok_def)
  have vd: "unat va = 4096 * ?pg + ?off" by simp
  have le: "?a \<le> 4096 * ?pg + ?off" "?num = min ?n (4096 * ?pg + ?off - ?a)" "?a = 4096 * ?pg + ?off \<or> ?off = 0"
    using va num al by simp_all
  have r: "?rest = min (?n - ?num) (4096 - ?off)" by (rule rest_of_page(1) [OF num va rest])
  have pg: "unat va - ?off = 4096 * ?pg" by (rule minus_mod_eq_mult_div)
  note range = page_range [OF le(1) _ le(3,2) r]
  show thesis
  proof (cases "rest = 0")
    case True
    have "seg_byte ?f eo p (unat va - ?off + q) = 0" if "q < 4096" for q
      using range [OF _ that] True unfolding pg seg_byte_def Let_def by auto
    then show thesis using that [where m' = "mem s" and d' = "dev s"] True idle z by simp
  next
    case False
    then have r0: "?rest \<noteq> 0" by (simp add: unat_eq_0)
    note src = page_source [OF le(1,2) r r0 _ sg(1)]
    let ?k = "?sp + ?num" and ?b = "?off - ?off mod 512"
    have k: "?k mod 512 = ?off mod 512" by (rule src(1) [of ?off]) simp
    have bd: "?k + ?rest < 2 ^ 31" using r sg(2) le(2) by linarith
    have uo: "unat (bf + PGOFF va) = unat bf + ?off" using bs unat_PGOFF [of va] by (simp add: unat_word_ariths)
    have b1: "?k mod 512 \<le> unat (bf + PGOFF va)" unfolding uo k by (simp add: trans_le_add2)
    have b2: "unat (bf + PGOFF va) + ?rest + 512 \<le> 2 ^ 32" unfolding uo using r bs by linarith
    have w: "elf_off * 512 + p_off p + num = of_nat ?k" by (simp add: seg_pos_def eo ac_simps)
    have "unat (of_nat ?k :: u32) = ?k" using bd by (intro unat_of_nat_u32) simp
    then have s1: "sint (elf_off * 512 + p_off p + num) = int ?k" unfolding w using bd by (subst sint_u32) simp_all
    have s2: "sint rest = int ?rest" using bd by (intro sint_u32) linarith
    obtain m' d' where m: "disk_read P (bf + PGOFF va) (int ?rest) (int ?k) s = Inr (s\<lparr>mem := m', dev := d'\<rparr>)"
      "sec d' = ?f" "phase d' = AtaIdle"
      "m' = write_bytes (mem s) (bf + PGOFF va - of_nat (?k mod 512)) (disk_range ?f (?k - ?k mod 512) (512 * sectors ?k ?rest))"
      by (rule disk_read_view [OF idle bd b1 b2]) blast
    have pf: "PGOFF va = of_nat ?off" unfolding unat_PGOFF [symmetric] by simp
    have base: "bf + PGOFF va - of_nat (?k mod 512) = bf + of_nat ?b" unfolding k pf by (simp add: of_nat_diff)
    have sl: "?off mod 512 + ?rest \<le> 512 * sectors ?k ?rest" "512 * sectors ?k ?rest = 512 * ((?off mod 512 + ?rest + 511) div 512)"
      using sectors_bounds(1) [of ?k ?rest] by (simp_all add: sectors_def k)
    have fit: "?b + 512 * sectors ?k ?rest \<le> 4096"
    proof -
      have "?off + ?rest \<le> 512 * 8" using r by simp
      from round_up_le [OF this] show ?thesis
        unfolding sl(2) using round_up_shift [of "?off div 512" "?off mod 512 + ?rest"] by (simp add: minus_mod_eq_mult_div add.assoc [symmetric])
    qed
    have at: "m' (bf + of_nat q) = (if ?b \<le> q \<and> q < ?b + 512 * sectors ?k ?rest
        then disk_range ?f (?k - ?k mod 512) (512 * sectors ?k ?rest) ! (q - ?b) else mem s (bf + of_nat q))" if "q < 4096" for q
    proof -
      have "?b < 4096" by (rule le_less_trans [OF diff_le_self]) simp
      moreover have "length (disk_range ?f (?k - ?k mod 512) (512 * sectors ?k ?rest)) \<le> 4096"
        unfolding length_disk_range using fit by (rule add_leD2)
      ultimately show ?thesis unfolding m(4) base by (subst write_bytes_at [OF _ that]) (simp_all only: length_disk_range)
    qed
    have "m' (bf + of_nat q) = seg_byte ?f eo p (unat va - ?off + q)" if q: "q < 4096" for q
    proof (cases "?b \<le> q \<and> q < ?b + 512 * sectors ?k ?rest")
      case True
      then have lt: "q - ?b < 512 * sectors ?k ?rest" by linarith
      have "m' (bf + of_nat q) = disk_byte ?f (?k - ?off mod 512 + (q - ?b))"
        unfolding at [OF q] if_P [OF True] nth_disk_range [OF lt] by (simp only: k)
      also have "?k - ?off mod 512 + (q - ?b) = ?sp + (4096 * ?pg + q) - ?a" by (rule src(2)) (use True in simp)
      finally show ?thesis using range [OF _ q] True r0 sl(2) unfolding pg seg_byte_def Let_def by (simp add: add.assoc)
    next
      case False
      have "m' (bf + of_nat q) = 0" unfolding at [OF q] if_not_P [OF False] by (rule z [OF q])
      then show ?thesis using range [OF _ q] False r0 sl(2) unfolding pg seg_byte_def Let_def by auto
    qed
    moreover have "m' y = mem s y" if "\<not> in_region bf 4096 y" for y
      unfolding m(4) base
    proof (rule write_bytes_other)
      show "\<not> in_region (bf + of_nat ?b) (length (disk_range ?f (?k - ?k mod 512) (512 * sectors ?k ?rest))) y"
        unfolding length_disk_range using that in_region_sub [OF _ fit] by fastforce
    qed
    ultimately show thesis using that [where m' = m' and d' = d'] m(1-3) r0 s1 s2 False by simp
  qed
qed

end

lemma kernel_bufD: "kernel_buf W a n \<Longrightarrow> k < n \<Longrightarrow> n \<le> 2 ^ 32 \<Longrightarrow> frame (a + of_nat k) \<notin> W"
  by (simp add: kernel_buf_def in_region_offset)

lemma kernel_buf_mono: "kernel_buf W a n \<Longrightarrow> V \<subseteq> W \<Longrightarrow> kernel_buf V a n"
  by (auto simp: kernel_buf_def)

text \<open>The addresses of the loader's buffers; \<open>W\<close> are the frames of the program and of the free list.\<close>

definition bufs_ok :: "nat set \<Rightarrow> elf_bufs \<Rightarrow> bool" where
  "bufs_ok W B \<longleftrightarrow> kernel_buf W (lb_sec B) 4096 \<and> kernel_buf W (lb_buffer B) 4096 \<and> disj_regions (lb_sec B) 4096 (lb_buffer B) 4096 \<and>
     unat (lb_sec B) + 4608 \<le> 2 ^ 32 \<and> unat (lb_buffer B) + 4608 \<le> 2 ^ 32"

lemma in_bufs:
  assumes "bufs_ok W B" and "h + 32 \<le> 4096" and "ph = lb_buffer B + of_nat h" and "i < 32"
  shows "frame (ph + of_nat i) \<notin> W" and "\<not> in_region (lb_sec B) 4096 (ph + of_nat i)"
proof -
  have e: "ph + of_nat i = lb_buffer B + of_nat (h + i)" by (simp add: assms(3))
  have r: "in_region (lb_buffer B) 4096 (ph + of_nat i)" unfolding e using assms(2,4) by (intro in_region_offset) simp_all
  then show "frame (ph + of_nat i) \<notin> W" using assms(1) by (simp add: bufs_ok_def kernel_buf_def)
  show "\<not> in_region (lb_sec B) 4096 (ph + of_nat i)"
    using r assms(1) disj_regionsD disj_regions_sym unfolding bufs_ok_def by blast
qed

text \<open>The state between two pages: the loader's resources, and what it has left alone so far.\<close>

definition loading :: "nat set \<Rightarrow> elf_bufs \<Rightarrow> nat \<Rightarrow> nat list \<Rightarrow> ('d, 'a) fsst_scheme \<Rightarrow> ('d, 'a) fsst_scheme \<Rightarrow> bool" where
  "loading W B d xs s0 s \<longleftrightarrow> space_ok s d xs \<and> set xs \<union> ran (slot_frame (mem s) d) \<subseteq> W \<and> same_kernel s0 s \<and>
     (\<forall>y. frame y \<notin> W \<longrightarrow> \<not> in_region (lb_sec B) 4096 y \<longrightarrow> mem s y = mem s0 y)"

lemma loading_header:
  assumes "loading W B d xs s0 s" and "bufs_ok W B" and "h + 32 \<le> 4096" and "ph = lb_buffer B + of_nat h"
  shows "prog_header (mem s) ph = prog_header (mem s0) ph"
  by (rule same_prog_header) (use assms in_bufs [OF assms(2-4)] in \<open>auto simp: loading_def same_bytes_def\<close>)

lemma same_kernel_dev: "same_kernel s s' \<Longrightarrow> same_kernel s (s'\<lparr>mem := m, dev := e\<rparr>)"
  by (cases s; cases s') (auto simp: same_kernel_def)

lemma mm_malloc_loading:
  assumes l: "loading W B d xs s0 s" and len: "2 \<le> length xs" and va: "va < KOFFSET"
  obtains s' ys f where "mm_malloc (page2kva d) va s = Inr (page2pa f + PGOFF va, s')"
    and "loading W B d ys s0 s'" and "length xs \<le> length ys + 2" and "dev s' = dev s"
    and "slot_frame (mem s') d (leaf va) = Some f"
    and "\<And>v. v < KOFFSET \<Longrightarrow> user_byte (mem s') d v =
      (if PGNUM v = PGNUM va \<and> user_byte (mem s) d v = None then Some 0 else user_byte (mem s) d v)"
proof -
  have ok: "space_ok s d xs" and W: "set xs \<union> ran (slot_frame (mem s) d) \<subseteq> W" and k: "same_kernel s0 s"
    and o: "\<And>y. frame y \<notin> W \<Longrightarrow> \<not> in_region (lb_sec B) 4096 y \<Longrightarrow> mem s y = mem s0 y"
    using l by (simp_all add: loading_def)
  obtain s' ys f where a: "mm_malloc (page2kva d) va s = Inr (page2pa f + PGOFF va, s')"
    "space_ok s' d ys" "set ys \<subseteq> set xs" "length xs \<le> length ys + 2" "pm.more s' = pm.more s"
    "slot_frame (mem s') d (leaf va) = Some f"
    "\<And>y. frame y \<notin> set xs \<Longrightarrow> frame y \<notin> table_frames (mem s) d \<Longrightarrow> mem s' y = mem s y"
    "\<And>v. v < KOFFSET \<Longrightarrow> user_byte (mem s') d v =
      (if PGNUM v = PGNUM va \<and> user_byte (mem s) d v = None then Some 0 else user_byte (mem s) d v)"
    by (rule mm_malloc_view [OF ok len va]) blast
  have "mem s' y = mem s0 y" if "frame y \<notin> W" "\<not> in_region (lb_sec B) 4096 y" for y
    using o [OF that] a(7) [of y] that(1) W table_frames_ran by fastforce
  moreover have "set ys \<union> ran (slot_frame (mem s') d) \<subseteq> W" using mm_malloc_ran [OF ok va a(1)] a(3) W by blast
  moreover have "same_kernel s0 s'" using k same_kernel_more [OF a(5)] by (rule same_kernel_trans)
  ultimately have "loading W B d ys s0 s'" using a(2) by (simp add: loading_def)
  moreover have "dev s' = dev s" using a(5) by (cases s; cases s') simp
  ultimately show thesis using that a(1,4,6,8) by blast
qed

context ata
begin

lemma load_page_view:
  assumes l: "loading W B d xs s0 s" and len: "2 \<le> length xs" and idle: "phase (dev s) = AtaIdle" and B: "bufs_ok W B" "lb_updir B = page2kva d"
    and h: "h + 32 \<le> 4096" "ph = lb_buffer B + of_nat h" and p: "prog_header (mem s) ph = p"
    and seg: "load_seg_ok eo p" "eo = unat elf_off"
    and va: "va < KOFFSET" "unat (p_vaddr p) \<le> unat va" "unat (p_vaddr p) = unat va \<or> unat va mod 4096 = 0"
    and num: "unat num = min (unat (p_filesz p)) (unat va - unat (p_vaddr p))"
  obtains s' ys num' where "load_page P B elf_off ph va num s = Inr (PTE_ADDR va, num', s')"
    and "loading W B d ys s0 s'" and "length xs \<le> length ys + 2" and "sec (dev s') = sec (dev s)" and "phase (dev s') = AtaIdle"
    and "unat num' = min (unat (p_filesz p)) (unat va - unat va mod 4096 + 4096 - unat (p_vaddr p))"
    and "\<And>v. v < KOFFSET \<Longrightarrow> user_byte (mem s') d v =
      (if PGNUM v = PGNUM va then Some (seg_byte (sec (dev s)) eo p (unat v)) else user_byte (mem s) d v)"
proof -
  let ?bf = "lb_sec B" and ?va = "PTE_ADDR va"
  have bf: "kernel_buf W ?bf 4096" "unat ?bf + 4608 \<le> 2 ^ 32" using B(1) by (simp_all add: bufs_ok_def)
  have va': "?va < KOFFSET" using va(1) unat_PTE_ADDR [of va] by (simp add: word_less_nat_alt)
  obtain s1 ys f where a: "mm_malloc (page2kva d) ?va s = Inr (page2pa f + PGOFF ?va, s1)"
    "loading W B d ys s0 s1" "length xs \<le> length ys + 2" "dev s1 = dev s" "slot_frame (mem s1) d (leaf ?va) = Some f"
    "\<And>v. v < KOFFSET \<Longrightarrow> user_byte (mem s1) d v =
      (if PGNUM v = PGNUM ?va \<and> user_byte (mem s) d v = None then Some 0 else user_byte (mem s) d v)"
    by (rule mm_malloc_loading [OF l len va']) blast
  have f: "slot_frame (mem s1) d (leaf va) = Some f" using a(5) leaf_eq [OF PGNUM_PTE_ADDR [of va]] by simp
  let ?s2 = "s1\<lparr>mem := memset (mem s1) ?bf 0 PGSIZE\<rparr>"
  have z: "mem ?s2 (?bf + of_nat q) = 0" if "q < 4096" for q using that by (simp add: memset_eq)
  have o2: "mem ?s2 y = mem s1 y" if "\<not> in_region ?bf 4096 y" for y using that by (simp add: memset_eq in_region_def)
  have p2: "prog_header (mem ?s2) ph = p"
  proof -
    have "prog_header (mem ?s2) ph = prog_header (mem s1) ph"
      by (rule same_prog_header) (use o2 in_bufs(2) [OF B(1) h] in \<open>auto simp: same_bytes_def\<close>)
    then show ?thesis using loading_header [OF a(2) B(1) h] loading_header [OF l B(1) h] p by simp
  qed
  define left where "left = p_filesz p - num"
  define rest where "rest = (if left < PGSIZE - PGOFF va then left else PGSIZE - PGOFF va)"
  obtain m3 d3 where r: "(if rest \<noteq> 0 then disk_read P (?bf + PGOFF va) (sint rest) (sint (elf_off * 512 + p_off p + num)) ?s2 else Inr ?s2) =
      Inr (?s2\<lparr>mem := m3, dev := d3\<rparr>)" "sec d3 = sec (dev ?s2)" "phase d3 = AtaIdle"
    "\<And>q. q < 4096 \<Longrightarrow> m3 (?bf + of_nat q) = seg_byte (sec (dev ?s2)) eo p (unat va - unat va mod 4096 + q)"
    "\<And>y. \<not> in_region ?bf 4096 y \<Longrightarrow> m3 y = mem ?s2 y"
    by (rule page_buffer [OF seg(1) _ va(2,3) num rest_def [unfolded left_def] bf(2) z seg(2)]) (use a(4) idle in auto)
  have num': "unat (num + rest) = min (unat (p_filesz p)) (unat va - unat va mod 4096 + 4096 - unat (p_vaddr p))"
    by (rule rest_of_page(2) [OF num va(2) rest_def [unfolded left_def]])
  let ?m4 = "memcpy m3 (page2kva f) ?bf PGSIZE"
  let ?s4 = "?s2\<lparr>mem := ?m4, dev := d3\<rparr>"
  have run: "load_page P B elf_off ph va num s = Inr (?va, num + rest, ?s4)"
    unfolding load_page_def Let_def B(2) a(1) bnd_simps prod.case p2 left_def [symmetric] rest_def [symmetric] r(1) PGOFF_PTE_ADDR
    by (simp add: lin_page2pa [of f 0, simplified])
  have o3: "m3 y = mem s1 y" if "\<not> in_region ?bf 4096 y" for y using r(5) o2 that by simp
  have ok1: "space_ok s1 d ys" and W1: "set ys \<union> ran (slot_frame (mem s1) d) \<subseteq> W"
    and o1: "\<And>y. frame y \<notin> W \<Longrightarrow> \<not> in_region ?bf 4096 y \<Longrightarrow> mem s1 y = mem s0 y" and k1: "same_kernel s0 s1"
    using a(2) by (simp_all add: loading_def)
  have fW: "f \<in> W" using W1 ranI [of "slot_frame (mem s1) d" "leaf va" f] f by blast
  note cp = copy_page_view [OF ok1 f, of ?bf m3 ?m4]
  have hyp: "kernel_buf {f} ?bf 4096" "unat ?bf + 4096 \<le> 2 ^ 32" using bf fW kernel_buf_mono by auto
  have m3: "m3 y = mem s1 y" if "frame y \<in> ran (slot_frame (mem s1) d)" for y
    using o3 [of y] that W1 bf(1) by (auto simp: kernel_buf_def)
  have sf: "slot_frame ?m4 d = slot_frame (mem s1) d" by (rule cp(1)) (use hyp m3 in simp_all)
  have "loading W B d ys s0 ?s4"
    unfolding loading_def
  proof (intro conjI allI impI)
    show "space_ok ?s4 d ys" using ok1 unfolding space_ok_def by (simp add: sf free_list_def)
    show "set ys \<union> ran (slot_frame (mem ?s4) d) \<subseteq> W" using W1 by (simp add: sf)
    show "same_kernel s0 ?s4" using same_kernel_dev [OF k1] by simp
    show "mem ?s4 y = mem s0 y" if "frame y \<notin> W" "\<not> in_region ?bf 4096 y" for y
    proof -
      have "?m4 y = m3 y" by (rule cp(3)) (use hyp m3 fW that in auto)
      then show ?thesis using o3 o1 that by simp
    qed
  qed
  moreover have "user_byte (mem ?s4) d v = (if PGNUM v = PGNUM va then Some (seg_byte (sec (dev s)) eo p (unat v)) else user_byte (mem s) d v)"
    if v: "v < KOFFSET" for v
  proof -
    have "user_byte ?m4 d v = (if PGNUM v = PGNUM va then Some (m3 (?bf + PGOFF v)) else user_byte (mem s1) d v)"
      by (rule cp(2)) (use hyp m3 v in simp_all)
    moreover have "m3 (?bf + PGOFF v) = seg_byte (sec (dev s)) eo p (unat v)" if "PGNUM v = PGNUM va"
    proof -
      have "unat v div 4096 = unat va div 4096" using that unat_PGNUM by metis
      then have "unat va - unat va mod 4096 + unat (PGOFF v) = unat v"
        unfolding unat_PGOFF minus_mod_eq_mult_div by (metis mult_div_mod_eq)
      then show ?thesis using r(4) [OF PGOFF_lt [of v]] a(4) by simp
    qed
    ultimately show ?thesis using a(6) [OF v] by (simp add: PGNUM_PTE_ADDR)
  qed
  ultimately show thesis using that [OF run _ a(3)] r(2,3) num' a(4) by simp
qed

end

section \<open>A segment\<close>

text \<open>The pages of a segment that ends at \<open>e\<close>, from the one of address \<open>v\<close> on.\<close>

definition pages_left :: "nat \<Rightarrow> nat \<Rightarrow> nat" where
  "pages_left e v = (if v < e then (e - 4096 * (v div 4096) + 4095) div 4096 else 0)"

lemma pages_left_step: "v < e \<Longrightarrow> pages_left e v = Suc (pages_left e (4096 * (v div 4096) + 4096))"
proof -
  assume v: "v < e"
  define q where "q = 4096 * (v div 4096)"
  have q: "q \<le> v" "(q + 4096) div 4096 = v div 4096 + 1" unfolding q_def by simp_all
  have "(e - q + 4095) div 4096 = Suc (if q + 4096 < e then (e - (q + 4096) + 4095) div 4096 else 0)"
  proof (cases "q + 4096 < e")
    case True
    then have "e - q + 4095 = (e - (q + 4096) + 4095) + 4096" by simp
    then show ?thesis using True by (simp only: div_add_self2) simp
  next
    case False
    then have "e - q + 4095 = (e - q - 1) + 4096" "e - q - 1 < 4096" using v q(1) by linarith+
    then show ?thesis using False by (simp only: div_add_self2) simp
  qed
  then show ?thesis using v unfolding pages_left_def q_def [symmetric] q(2) by (simp add: q_def)
qed

definition seg_end :: "ProgramHeader \<Rightarrow> nat" where
  "seg_end p = unat (p_vaddr p) + unat (p_memsz p)"

definition seg_covers :: "ProgramHeader \<Rightarrow> u32 \<Rightarrow> bool" where
  "seg_covers p v \<longleftrightarrow> p_type p = PT_LOAD \<and> p_memsz p \<noteq> 0 \<and> unat (p_vaddr p) div 4096 \<le> unat v div 4096 \<and>
     4096 * (unat v div 4096) < seg_end p"

context ata
begin

lemma load_pages_view:
  assumes "loading W B d xs s0 s" and "2 * pages_left (seg_end p) (unat va) \<le> length xs" and "phase (dev s) = AtaIdle"
    and B: "bufs_ok W B" "lb_updir B = page2kva d"
    and h: "h + 32 \<le> 4096" "ph = lb_buffer B + of_nat h" and "prog_header (mem s0) ph = p"
    and seg: "load_seg_ok eo p" "eo = unat elf_off"
    and "unat (p_vaddr p) \<le> unat va" "unat (p_vaddr p) = unat va \<or> unat va mod 4096 = 0"
    and "unat num = min (unat (p_filesz p)) (unat va - unat (p_vaddr p))"
  shows "\<exists>s' ys. load_pages P B elf_off ph va num s = Some (Inr s') \<and> loading W B d ys s0 s' \<and>
    length xs \<le> length ys + 2 * pages_left (seg_end p) (unat va) \<and> sec (dev s') = sec (dev s) \<and> phase (dev s') = AtaIdle \<and>
    (\<forall>v < KOFFSET. user_byte (mem s') d v =
      (if unat va < seg_end p \<and> unat va div 4096 \<le> unat v div 4096 \<and> 4096 * (unat v div 4096) < seg_end p
       then Some (seg_byte (sec (dev s)) eo p (unat v)) else user_byte (mem s) d v))"
  using assms(1-3,11-13)
proof (induction "pages_left (seg_end p) (unat va)" arbitrary: va num xs s)
  case (0 va num xs s)
  have pa: "unat (p_vaddr p + p_memsz p) = seg_end p" using seg(1) by (simp add: load_seg_ok_def seg_end_def unat_word_ariths)
  have "prog_header (mem s) ph = p" using loading_header [OF 0(2) B(1) h] assms(8) by simp
  moreover have "\<not> unat va < seg_end p" using 0(1) pages_left_step by force
  ultimately show ?case using 0 pa by (subst load_pages.simps) (auto simp: word_less_nat_alt)
next
  case (Suc n va num xs s)
  let ?e = "seg_end p" and ?q = "unat va div 4096"
  have pa: "unat (p_vaddr p + p_memsz p) = ?e" "?e \<le> 0xC0000000"
    using seg(1) by (simp_all add: load_seg_ok_def seg_end_def unat_word_ariths)
  have hd: "prog_header (mem s) ph = p" using loading_header [OF Suc(3) B(1) h] assms(8) by simp
  have lt: "unat va < ?e" using Suc(2) by (auto simp: pages_left_def split: if_splits)
  then have vk: "va < KOFFSET" using pa(2) by (simp add: word_less_nat_alt)
  have pl: "pages_left ?e (unat va) = Suc (pages_left ?e (4096 * ?q + 4096))" by (rule pages_left_step [OF lt])
  have two: "2 \<le> length xs" using Suc(4) pl by simp
  have mq: "unat va - unat va mod 4096 = 4096 * ?q" by (rule minus_mod_eq_mult_div)
  obtain s1 ys num1 where 1: "load_page P B elf_off ph va num s = Inr (PTE_ADDR va, num1, s1)" "loading W B d ys s0 s1"
    "length xs \<le> length ys + 2" "sec (dev s1) = sec (dev s)" "phase (dev s1) = AtaIdle"
    "unat num1 = min (unat (p_filesz p)) (4096 * ?q + 4096 - unat (p_vaddr p))"
    "\<And>v. v < KOFFSET \<Longrightarrow> user_byte (mem s1) d v =
      (if PGNUM v = PGNUM va then Some (seg_byte (sec (dev s)) eo p (unat v)) else user_byte (mem s) d v)"
    by (rule load_page_view [OF Suc(3) two Suc(5) B h hd seg vk Suc(6-8)]) (use mq in auto)
  let ?va = "PTE_ADDR va + PGSIZE"
  have "unat (PTE_ADDR va) = 4096 * ?q" by (simp only: unat_PTE_ADDR mq)
  moreover have "4096 * ?q \<le> unat va" by simp
  ultimately have u: "unat ?va = 4096 * ?q + 4096" using lt pa(2) by (simp add: unat_word_ariths)
  have ge: "unat va < 4096 * ?q + 4096" using mult_div_mod_eq [of 4096 "unat va"] mod_less_divisor [of 4096 "unat va"] by linarith
  have "\<exists>s' zs. load_pages P B elf_off ph ?va num1 s1 = Some (Inr s') \<and> loading W B d zs s0 s' \<and>
      length ys \<le> length zs + 2 * pages_left ?e (unat ?va) \<and> sec (dev s') = sec (dev s1) \<and> phase (dev s') = AtaIdle \<and>
      (\<forall>v < KOFFSET. user_byte (mem s') d v =
        (if unat ?va < ?e \<and> unat ?va div 4096 \<le> unat v div 4096 \<and> 4096 * (unat v div 4096) < ?e
         then Some (seg_byte (sec (dev s1)) eo p (unat v)) else user_byte (mem s1) d v))"
  proof (rule Suc(1) [OF _ 1(2) _ 1(5)])
    show "n = pages_left ?e (unat ?va)" using Suc(2) pl by (simp add: u)
    show "2 * pages_left ?e (unat ?va) \<le> length ys" using Suc(4) pl 1(3) by (simp add: u)
    show "unat (p_vaddr p) \<le> unat ?va" using Suc(6) ge by (simp add: u)
    show "unat (p_vaddr p) = unat ?va \<or> unat ?va mod 4096 = 0" by (simp add: u)
    show "unat num1 = min (unat (p_filesz p)) (unat ?va - unat (p_vaddr p))" using 1(6) by (simp only: u)
  qed
  then obtain s' zs where 2: "load_pages P B elf_off ph ?va num1 s1 = Some (Inr s')" "loading W B d zs s0 s'"
    "length ys \<le> length zs + 2 * pages_left ?e (unat ?va)" "sec (dev s') = sec (dev s)" "phase (dev s') = AtaIdle"
    "\<And>v. v < KOFFSET \<Longrightarrow> user_byte (mem s') d v =
      (if unat ?va < ?e \<and> unat ?va div 4096 \<le> unat v div 4096 \<and> 4096 * (unat v div 4096) < ?e
       then Some (seg_byte (sec (dev s)) eo p (unat v)) else user_byte (mem s1) d v)"
    using 1(4) by auto
  have run: "load_pages P B elf_off ph va num s = Some (Inr s')"
    by (subst load_pages.simps) (use hd lt pa(1) 1(1) 2(1) in \<open>simp add: word_less_nat_alt\<close>)
  have view: "user_byte (mem s') d v = (if unat va < ?e \<and> ?q \<le> unat v div 4096 \<and> 4096 * (unat v div 4096) < ?e
      then Some (seg_byte (sec (dev s)) eo p (unat v)) else user_byte (mem s) d v)" if v: "v < KOFFSET" for v
  proof -
    have pg: "PGNUM v = PGNUM va \<longleftrightarrow> unat v div 4096 = ?q" using unat_PGNUM by (metis unsigned_word_eqI)
    have d4: "unat ?va div 4096 = ?q + 1" by (simp add: u)
    have "4096 * ?q < ?e" using lt \<open>4096 * ?q \<le> unat va\<close> by linarith
    then have "unat ?va < ?e \<and> unat ?va div 4096 \<le> unat v div 4096 \<and> 4096 * (unat v div 4096) < ?e \<or> unat v div 4096 = ?q \<longleftrightarrow>
        ?q \<le> unat v div 4096 \<and> 4096 * (unat v div 4096) < ?e"
      unfolding d4 u by auto
    then show ?thesis using 2(6) [OF v] 1(7) [OF v] pg lt by (auto split: if_splits)
  qed
  show ?case
    by (intro exI [of _ s'] exI [of _ zs] conjI allI impI) (use run 2 view 1(3) pl u in auto)
qed

lemma load_segment_view:
  assumes l: "loading W B d xs s0 s" and len: "2 * pages_left (seg_end p) (unat (p_vaddr p)) \<le> length xs" and idle: "phase (dev s) = AtaIdle"
    and B: "bufs_ok W B" "lb_updir B = page2kva d"
    and h: "h + 32 \<le> 4096" "ph = lb_buffer B + of_nat h" and p: "prog_header (mem s0) ph = p"
    and seg: "p_type p = PT_LOAD \<Longrightarrow> load_seg_ok eo p" "eo = unat elf_off"
  shows "\<exists>s' ys. load_segment P B elf_off ph s = Inr s' \<and> loading W B d ys s0 s' \<and>
    length xs \<le> length ys + 2 * pages_left (seg_end p) (unat (p_vaddr p)) \<and> sec (dev s') = sec (dev s) \<and> phase (dev s') = AtaIdle \<and>
    (\<forall>v < KOFFSET. user_byte (mem s') d v =
      (if seg_covers p v then Some (seg_byte (sec (dev s)) eo p (unat v)) else user_byte (mem s) d v))"
proof -
  have hd: "prog_header (mem s) ph = p" using loading_header [OF l B(1) h] p by simp
  show ?thesis
  proof (cases "p_type p = PT_LOAD")
    case True
    have c: "seg_covers p v \<longleftrightarrow> unat (p_vaddr p) < seg_end p \<and> unat (p_vaddr p) div 4096 \<le> unat v div 4096 \<and>
        4096 * (unat v div 4096) < seg_end p" for v
      using True by (auto simp: seg_covers_def seg_end_def unat_eq_0 word_neq_0_conv word_less_nat_alt)
    obtain s' ys where r: "load_pages P B elf_off ph (p_vaddr p) 0 s = Some (Inr s')" "loading W B d ys s0 s'"
      "length xs \<le> length ys + 2 * pages_left (seg_end p) (unat (p_vaddr p))" "sec (dev s') = sec (dev s)" "phase (dev s') = AtaIdle"
      "\<forall>v < KOFFSET. user_byte (mem s') d v =
        (if unat (p_vaddr p) < seg_end p \<and> unat (p_vaddr p) div 4096 \<le> unat v div 4096 \<and> 4096 * (unat v div 4096) < seg_end p
         then Some (seg_byte (sec (dev s)) eo p (unat v)) else user_byte (mem s) d v)"
      using load_pages_view [OF l len idle B h p seg(1) [OF True] seg(2), of 0] by auto
    have "load_segment P B elf_off ph s = Inr s'" using True r(1) by (simp add: load_segment_def hd ret_def)
    then show ?thesis using r(2-6) unfolding c by blast
  next
    case False
    then have "load_segment P B elf_off ph s = Inr s" "\<And>v. \<not> seg_covers p v" by (simp_all add: load_segment_def hd seg_covers_def)
    then show ?thesis using l idle by auto
  qed
qed

end

section \<open>The image\<close>

text \<open>The program after the first \<open>n\<close> program headers: a later segment replaces the whole pages it touches.\<close>

primrec program_image :: "(nat \<Rightarrow> u32 list) \<Rightarrow> nat \<Rightarrow> (nat \<Rightarrow> ProgramHeader) \<Rightarrow> nat \<Rightarrow> u32 \<Rightarrow> byte option" where
  "program_image f eo p 0 v = None"
| "program_image f eo p (Suc n) v =
     (if seg_covers (p n) v then Some (seg_byte f eo (p n) (unat v)) else program_image f eo p n v)"

primrec image_pages :: "(nat \<Rightarrow> ProgramHeader) \<Rightarrow> nat \<Rightarrow> nat" where
  "image_pages p 0 = 0"
| "image_pages p (Suc n) = image_pages p n + pages_left (seg_end (p n)) (unat (p_vaddr (p n)))"

context ata
begin

lemma load_segments_view:
  assumes l: "loading W B d xs s0 s0" and idle: "phase (dev s0) = AtaIdle" and B: "bufs_ok W B" "lb_updir B = page2kva d"
    and h: "h + 32 * n \<le> 4096" "ph = lb_buffer B + of_nat h" and p: "\<And>k. p k = prog_header (mem s0) (ph + of_nat (32 * k))"
    and seg: "\<And>k. k < n \<Longrightarrow> p_type (p k) = PT_LOAD \<Longrightarrow> load_seg_ok eo (p k)" "eo = unat elf_off"
    and len: "2 * image_pages p n \<le> length xs" and empty: "\<And>v. v < KOFFSET \<Longrightarrow> user_byte (mem s0) d v = None"
  shows "\<exists>s' ys. for_res (\<lambda>k. load_segment P B elf_off (ph + of_nat (32 * k))) [0..<n] s0 = Inr s' \<and> loading W B d ys s0 s' \<and>
    length xs \<le> length ys + 2 * image_pages p n \<and> sec (dev s') = sec (dev s0) \<and> phase (dev s') = AtaIdle \<and>
    (\<forall>v < KOFFSET. user_byte (mem s') d v = program_image (sec (dev s0)) eo p n v)"
proof -
  let ?I = "\<lambda>n s. \<exists>ys. loading W B d ys s0 s \<and> length xs \<le> length ys + 2 * image_pages p n \<and> sec (dev s) = sec (dev s0) \<and>
    phase (dev s) = AtaIdle \<and> (\<forall>v < KOFFSET. user_byte (mem s) d v = program_image (sec (dev s0)) eo p n v)"
  have mono: "image_pages p j \<le> image_pages p k" if "j \<le> k" for j k using that by (induction k) (auto simp: le_Suc_eq)
  have "\<exists>t. for_res (\<lambda>k. load_segment P B elf_off (ph + of_nat (32 * k))) [0..<n] s0 = Inr t \<and> ?I n t"
  proof (rule for_upt_invariant [where I = ?I])
    show "?I 0 s0" using l idle empty by auto
  next
    fix k s
    assume k: "k < n" and I: "?I k s"
    then obtain ys where I: "loading W B d ys s0 s" "length xs \<le> length ys + 2 * image_pages p k" "sec (dev s) = sec (dev s0)"
      "phase (dev s) = AtaIdle" "\<forall>v < KOFFSET. user_byte (mem s) d v = program_image (sec (dev s0)) eo p k v" by blast
    have ly: "2 * pages_left (seg_end (p k)) (unat (p_vaddr (p k))) \<le> length ys"
      using mono [of "Suc k" n] k len I(2) by simp
    have hk: "h + 32 * k + 32 \<le> 4096" using h(1) k by simp
    have pk: "ph + of_nat (32 * k) = lb_buffer B + of_nat (h + 32 * k)" by (simp add: h(2))
    obtain s' zs where r: "load_segment P B elf_off (ph + of_nat (32 * k)) s = Inr s'" "loading W B d zs s0 s'"
      "length ys \<le> length zs + 2 * pages_left (seg_end (p k)) (unat (p_vaddr (p k)))" "sec (dev s') = sec (dev s)" "phase (dev s') = AtaIdle"
      "\<forall>v < KOFFSET. user_byte (mem s') d v =
        (if seg_covers (p k) v then Some (seg_byte (sec (dev s)) eo (p k) (unat v)) else user_byte (mem s) d v)"
      using load_segment_view [OF I(1) ly I(4) B hk pk p [symmetric] seg(1) [OF k] seg(2)] by blast
    have "length xs \<le> length zs + 2 * image_pages p (Suc k)" using I(2) r(3) by simp
    moreover have "\<forall>v < KOFFSET. user_byte (mem s') d v = program_image (sec (dev s0)) eo p (Suc k) v"
      using r(6) I(3,5) by simp
    ultimately show "\<exists>t'. load_segment P B elf_off (ph + of_nat (32 * k)) s = Inr t' \<and> ?I (Suc k) t'"
      using r(1,2,4,5) I(3) by auto
  qed
  then show ?thesis by blast
qed

end

section \<open>The whole loader\<close>

lemma page_init_keeps: "mem (page_init s) = mem s" "pm.more (page_init s) = pm.more s"
proof -
  have "mem (fold page_init_step is u) = mem u \<and> pm.more (fold page_init_step is u) = pm.more u" for "is" and u :: "'a pm_scheme"
    by (induction "is" arbitrary: u) (simp_all add: page_init_step_def)
  then show "mem (page_init s) = mem s" "pm.more (page_init s) = pm.more s" by (simp_all add: page_init_def)
qed

definition empty_dir :: "mem \<Rightarrow> nat \<Rightarrow> bool" where
  "empty_dir m d \<longleftrightarrow> (\<forall>i < USER_PDES. load32 m (entry d i) AND PTE_P = 0)"

definition user_frames :: "nat \<Rightarrow> nat set" where
  "user_frames d = insert d {1025..<npages}"

lemma empty_dir_loading:
  assumes "page_free_list s = None" and "d \<le> 1024" and "empty_dir (mem s) d"
  shows "loading (user_frames d) B d (rev [1025..<npages]) (page_init s) (page_init s)" and "v < KOFFSET \<Longrightarrow> user_byte (mem s) d v = None"
proof -
  have t: "tab_entry (mem s) d i = None" if "i < USER_PDES" for i using assms(3) that by (simp add: empty_dir_def entry_absent)
  have sf: "slot_frame (mem s) d sl = (if sl = Dir then Some d else None)" for sl by (cases sl) (simp_all add: t)
  then have r: "ran (slot_frame (mem s) d) = {d}" unfolding ran_def by auto
  have d: "d < npages" using assms(2) by (simp add: npages_def)
  have "space_ok (page_init s) d (rev [1025..<npages])"
    using page_init_free_list [OF assms(1)] assms(2) d by (auto simp: space_ok_def page_init_keeps sf split: if_splits)
  then show "loading (user_frames d) B d (rev [1025..<npages]) (page_init s) (page_init s)"
    by (auto simp: loading_def page_init_keeps r user_frames_def)
  show "v < KOFFSET \<Longrightarrow> user_byte (mem s) d v = None"
    by (simp add: user_byte_slot [OF d] sf del: slot_frame.simps)
qed

context ata
begin

text \<open>Reading whole sectors into a kernel buffer.\<close>

lemma read_kernel:
  assumes "phase (dev s) = AtaIdle" and "k mod 512 = 0" and "n mod 512 = 0" and "k + n < 2 ^ 31"
    and "kernel_buf W a n" and "unat a + n + 512 \<le> 2 ^ 32"
  obtains m' d' where "disk_read P a (int n) (int k) s = Inr (s\<lparr>mem := m', dev := d'\<rparr>)"
    and "sec d' = sec (dev s)" and "phase d' = AtaIdle" and "same_bytes m' a (disk_mem (sec (dev s))) (of_nat k) n"
    and "\<And>y. frame y \<in> W \<Longrightarrow> m' y = mem s y"
proof -
  have "k mod 512 \<le> unat a" using assms(2) by simp
  then obtain m' d' where r: "disk_read P a (int n) (int k) s = Inr (s\<lparr>mem := m', dev := d'\<rparr>)"
    "sec d' = sec (dev s)" "phase d' = AtaIdle" "same_bytes m' a (disk_mem (sec (dev s))) (of_nat k) n"
    "m' = write_bytes (mem s) (a - of_nat (k mod 512)) (disk_range (sec (dev s)) (k - k mod 512) (512 * sectors k n))"
    by (rule disk_read_view [OF assms(1,4) _ assms(6)]) blast
  have "512 * sectors k n = n"
  proof -
    have "n = 512 * (n div 512)" using assms(3) by auto
    then show ?thesis using round_up_shift [of "n div 512" 0] by (simp add: sectors_def assms(2))
  qed
  then have "m' y = mem s y" if "frame y \<in> W" for y
    unfolding r(5) assms(2) using assms(5) that by (intro write_bytes_other) (auto simp: kernel_buf_def)
  then show thesis using that r(1-4) by blast
qed

end

text \<open>
  An executable on the disk: the file of directory entry 1 starts at block \<open>eo\<close>, \<open>h\<close> is its header
  and \<open>p\<close> its program headers, which lie in its first 4096 bytes.
\<close>

definition executable :: "(nat \<Rightarrow> u32 list) \<Rightarrow> nat \<Rightarrow> ELFHeader \<Rightarrow> (nat \<Rightarrow> ProgramHeader) \<Rightarrow> bool" where
  "executable f eo h p \<longleftrightarrow>
     (let ino = unat (load32 (disk_mem f) 131132); n = unat (e_phnum h)
      in 512 * ino + 512 < 2 ^ 31 \<and> eo = unat (load32 (disk_mem f) (of_nat (512 * ino))) \<and> 512 * eo + 4096 < 2 ^ 31 \<and>
         h = elf_header (disk_mem f) (of_nat (512 * eo)) \<and> unat (e_phoff h) + 32 * n \<le> 4096 \<and>
         (\<forall>k. p k = prog_header (disk_mem f) (of_nat (512 * eo) + (e_phoff h + of_nat (32 * k)))) \<and>
         (\<forall>k < n. p_type (p k) = PT_LOAD \<longrightarrow> load_seg_ok eo (p k)) \<and> 2 * image_pages p n + 2048 \<le> npages - 1025)"

definition loader_bufs :: "nat set \<Rightarrow> addr \<Rightarrow> elf_bufs \<Rightarrow> bool" where
  "loader_bufs W dir B \<longleftrightarrow> bufs_ok W B \<and> kernel_buf W (lb_bitmap B) 131072 \<and> kernel_buf W dir 512 \<and> kernel_buf W (lb_inode B) 512 \<and>
     unat (lb_bitmap B) + 131584 \<le> 2 ^ 32 \<and> unat dir + 1024 \<le> 2 ^ 32 \<and> unat (lb_inode B) + 1024 \<le> 2 ^ 32"

lemma program_image_cong: "(\<And>k. k < n \<Longrightarrow> p k = q k) \<Longrightarrow> program_image f eo p n v = program_image f eo q n v"
  by (induction n) auto

lemma image_pages_cong: "(\<And>k. k < n \<Longrightarrow> p k = q k) \<Longrightarrow> image_pages p n = image_pages q n"
  by (induction n) auto

lemma empty_dir_cong: "d < npages \<Longrightarrow> (\<And>y. frame y = d \<Longrightarrow> m' y = m y) \<Longrightarrow> empty_dir m' d = empty_dir m d"
  using load_entry_cong [of d _ m' m] by (simp add: empty_dir_def)

lemma same_kernel_free_list: "same_kernel s s' \<Longrightarrow> same_kernel s (page_init s')"
  using same_kernel_more [OF page_init_keeps(2)] same_kernel_trans by blast

lemma more_dev: "pm.more s' = pm.more s \<Longrightarrow> dev s' = dev s"
  by (cases s; cases s') simp

lemma loading_buffer:
  assumes "loading W B d xs s0 s" and "bufs_ok W B"
  shows "same_bytes (mem s) (lb_buffer B) (mem s0) (lb_buffer B) 4096"
  unfolding same_bytes_def
proof (intro allI impI)
  fix i :: nat
  assume "i < 4096"
  then have r: "in_region (lb_buffer B) 4096 (lb_buffer B + of_nat i)" by (intro in_region_offset) simp_all
  then have "frame (lb_buffer B + of_nat i) \<notin> W" "\<not> in_region (lb_sec B) 4096 (lb_buffer B + of_nat i)"
    using assms(2) disj_regionsD disj_regions_sym unfolding bufs_ok_def kernel_buf_def by blast+
  then show "mem s (lb_buffer B + of_nat i) = mem s0 (lb_buffer B + of_nat i)" using assms(1) by (simp add: loading_def)
qed

lemma sint_sector_offset: "512 * k < 2 ^ 31 \<Longrightarrow> w = of_nat (512 * k) \<Longrightarrow> sint (w :: u32) = int (512 * k)"
  by (subst sint_u32) (simp_all del: of_nat_mult)

context ata
begin

text \<open>The four reads of \<open>load_image\<close> before the segments: bitmap, directory, inode and headers.\<close>

lemma load_headers:
  assumes idle: "phase (dev s) = AtaIdle" and ino: "ino = unat (load32 (disk_mem (sec (dev s))) 131132)" "512 * ino + 512 < 2 ^ 31"
    and eo: "eo = unat (load32 (disk_mem (sec (dev s))) (of_nat (512 * ino)))" "512 * eo + 4096 < 2 ^ 31"
    and B: "loader_bufs W (direct_at s) B"
  obtains m4 d4 w where "sec d4 = sec (dev s)" and "phase d4 = AtaIdle" and "\<And>y. frame y \<in> W \<Longrightarrow> m4 y = mem s y"
    and "same_bytes m4 (lb_buffer B) (disk_mem (sec (dev s))) (of_nat (512 * eo)) 4096" and "unat w = eo"
    and "load_image P B s = for_res (\<lambda>k. load_segment P B w (lb_buffer B + e_phoff (elf_header m4 (lb_buffer B)) + of_nat (32 * k)))
      [0..<unat (e_phnum (elf_header m4 (lb_buffer B)))] (page_init (s\<lparr>mem := m4, dev := d4\<rparr>))"
proof -
  let ?f = "sec (dev s)" and ?dm = "disk_mem (sec (dev s))"
  have b: "kernel_buf W (lb_bitmap B) 131072" "kernel_buf W (direct_at s) 512" "kernel_buf W (lb_inode B) 512"
    "unat (lb_bitmap B) + 131584 \<le> 2 ^ 32" "unat (direct_at s) + 1024 \<le> 2 ^ 32" "unat (lb_inode B) + 1024 \<le> 2 ^ 32"
    "kernel_buf W (lb_buffer B) 4096" "unat (lb_buffer B) + 4608 \<le> 2 ^ 32"
    using B by (simp_all add: loader_bufs_def bufs_ok_def)
  obtain m1 d1 where 1: "disk_read P (lb_bitmap B) (int 131072) (int 0) s = Inr (s\<lparr>mem := m1, dev := d1\<rparr>)" "sec d1 = ?f" "phase d1 = AtaIdle"
    "\<And>y. frame y \<in> W \<Longrightarrow> m1 y = mem s y"
    by (rule read_kernel [OF idle, of 0 131072 W "lb_bitmap B"]) (use b in auto)
  let ?s1 = "s\<lparr>mem := m1, dev := d1\<rparr>"
  obtain m2 d2 where 2: "disk_read P (direct_at s) (int 512) (int 131072) ?s1 = Inr (?s1\<lparr>mem := m2, dev := d2\<rparr>)" "sec d2 = ?f" "phase d2 = AtaIdle"
    "same_bytes m2 (direct_at s) ?dm (of_nat 131072) 512" "\<And>y. frame y \<in> W \<Longrightarrow> m2 y = m1 y"
    by (rule read_kernel [of ?s1 131072 512 W "direct_at s"]) (use 1 b in auto)
  let ?s2 = "?s1\<lparr>mem := m2, dev := d2\<rparr>"
  have "load32 m2 (direct_at s + 60) = load32 ?dm 131132" using same_load32 [OF 2(4), of 60] by simp
  then have sino: "sint (512 * load32 m2 (direct_at s + 60)) = int (512 * ino)"
    using ino by (intro sint_sector_offset) simp_all
  obtain m3 d3 where 3: "disk_read P (lb_inode B) (int 512) (int (512 * ino)) ?s2 = Inr (?s2\<lparr>mem := m3, dev := d3\<rparr>)" "sec d3 = ?f" "phase d3 = AtaIdle"
    "same_bytes m3 (lb_inode B) ?dm (of_nat (512 * ino)) 512" "\<And>y. frame y \<in> W \<Longrightarrow> m3 y = m2 y"
    by (rule read_kernel [of ?s2 "512 * ino" 512 W "lb_inode B"]) (use 2 b ino(2) in auto)
  let ?s3 = "?s2\<lparr>mem := m3, dev := d3\<rparr>"
  have ueo: "unat (load32 m3 (lb_inode B)) = eo" using same_load32 [OF 3(4), of 0] eo(1) by simp
  have seo: "sint (load32 m3 (lb_inode B) * 512) = int (512 * eo)"
    using ueo eo(2) by (intro sint_sector_offset) auto
  obtain m4 d4 where 4: "disk_read P (lb_buffer B) (int 4096) (int (512 * eo)) ?s3 = Inr (?s3\<lparr>mem := m4, dev := d4\<rparr>)" "sec d4 = ?f" "phase d4 = AtaIdle"
    "same_bytes m4 (lb_buffer B) ?dm (of_nat (512 * eo)) 4096" "\<And>y. frame y \<in> W \<Longrightarrow> m4 y = m3 y"
    by (rule read_kernel [of ?s3 "512 * eo" 4096 W "lb_buffer B"]) (use 3 b eo(2) in auto)
  show thesis
  proof (rule that [OF 4(2,3) _ 4(4) ueo])
    show "frame y \<in> W \<Longrightarrow> m4 y = mem s y" for y using 1(4) 2(5) 3(5) 4(5) by simp
  qed (use 1(1) 2(1) 3(1) 4(1) in \<open>simp add: load_image_def Let_def sino seo ac_simps del: upt_Suc of_nat_mult\<close>)
qed

lemma load_image_view:
  assumes idle: "phase (dev s) = AtaIdle" and ex: "executable (sec (dev s)) eo h p" and n: "n = unat (e_phnum h)"
    and free: "page_free_list s = None" and d: "d \<le> 1024" "empty_dir (mem s) d"
    and B: "loader_bufs (user_frames d) (direct_at s) B" "lb_updir B = page2kva d"
  shows "\<exists>s0 s' ys. load_image P B s = Inr s' \<and> loading (user_frames d) B d ys s0 s' \<and> same_kernel s s' \<and>
    npages - 1025 \<le> length ys + 2 * image_pages p n \<and> sec (dev s') = sec (dev s) \<and> phase (dev s') = AtaIdle \<and>
    e_entry (elf_header (mem s') (lb_buffer B)) = e_entry h \<and>
    (\<forall>v < KOFFSET. user_byte (mem s') d v = program_image (sec (dev s)) eo p n v)"
proof -
  let ?W = "user_frames d" and ?f = "sec (dev s)"
  let ?dm = "disk_mem ?f"
  define ino where "ino = unat (load32 ?dm 131132)"
  have e: "512 * ino + 512 < 2 ^ 31" "eo = unat (load32 ?dm (of_nat (512 * ino)))" "512 * eo + 4096 < 2 ^ 31"
    "h = elf_header ?dm (of_nat (512 * eo))" "unat (e_phoff h) + 32 * n \<le> 4096"
    "\<And>k. p k = prog_header ?dm (of_nat (512 * eo) + (e_phoff h + of_nat (32 * k)))"
    "\<And>k. k < n \<Longrightarrow> p_type (p k) = PT_LOAD \<Longrightarrow> load_seg_ok eo (p k)" "2 * image_pages p n + 2048 \<le> npages - 1025"
    using ex unfolding executable_def Let_def n ino_def by blast+
  have b: "bufs_ok ?W B" using B(1) by (simp add: loader_bufs_def)
  obtain m4 d4 w where 4: "sec d4 = ?f" "phase d4 = AtaIdle" "\<And>y. frame y \<in> ?W \<Longrightarrow> m4 y = mem s y"
    "same_bytes m4 (lb_buffer B) ?dm (of_nat (512 * eo)) 4096" "unat w = eo"
    and run: "load_image P B s = for_res (\<lambda>k. load_segment P B w (lb_buffer B + e_phoff (elf_header m4 (lb_buffer B)) + of_nat (32 * k)))
      [0..<unat (e_phnum (elf_header m4 (lb_buffer B)))] (page_init (s\<lparr>mem := m4, dev := d4\<rparr>))"
    by (rule load_headers [OF idle ino_def e(1-3) B(1)]) (rule that)
  let ?s4 = "s\<lparr>mem := m4, dev := d4\<rparr>"
  let ?s5 = "page_init ?s4"
  have s5: "mem ?s5 = m4" "dev ?s5 = d4" using page_init_keeps(1) [of ?s4] more_dev [OF page_init_keeps(2) [of ?s4]] by simp_all
  have hd: "e_entry (elf_header m4 (lb_buffer B)) = e_entry h" "e_phoff (elf_header m4 (lb_buffer B)) = e_phoff h"
    "e_phnum (elf_header m4 (lb_buffer B)) = e_phnum h"
    unfolding e(4) using same_bytes_sub [OF 4(4), of 0 52] by (auto intro!: same_elf_header)
  have "d < npages" using d(1) by (simp add: npages_def)
  then have "empty_dir m4 d" using empty_dir_cong [of d m4 "mem s"] 4(3) d(2) by (simp add: user_frames_def)
  then have init: "loading ?W B d (rev [1025..<npages]) ?s5 ?s5" "\<And>v. v < KOFFSET \<Longrightarrow> user_byte m4 d v = None"
    using empty_dir_loading [of ?s4 d] free d(1) by simp_all
  let ?ph = "lb_buffer B + e_phoff h"
  let ?p = "\<lambda>k. prog_header (mem ?s5) (?ph + of_nat (32 * k))"
  have p: "?p k = p k" if "k < n" for k
  proof -
    let ?o = "unat (e_phoff h) + 32 * k"
    have "same_bytes m4 (lb_buffer B + of_nat ?o) ?dm (of_nat (512 * eo) + of_nat ?o) 32"
      by (rule same_bytes_sub [OF 4(4)]) (use that e(5) in simp)
    then show ?thesis unfolding e(6) s5(1) by (simp add: same_prog_header add.assoc)
  qed
  have "\<exists>s' ys. for_res (\<lambda>k. load_segment P B w (?ph + of_nat (32 * k))) [0..<n] ?s5 = Inr s' \<and> loading ?W B d ys ?s5 s' \<and>
      length (rev [1025..<npages]) \<le> length ys + 2 * image_pages ?p n \<and> sec (dev s') = sec (dev ?s5) \<and> phase (dev s') = AtaIdle \<and>
      (\<forall>v < KOFFSET. user_byte (mem s') d v = program_image (sec (dev ?s5)) eo ?p n v)"
  proof (rule load_segments_view [OF init(1) _ b B(2) e(5)])
    show "2 * image_pages ?p n \<le> length (rev [1025..<npages])" using e(8) image_pages_cong [of n ?p p] p by simp
    show "k < n \<Longrightarrow> p_type (?p k) = PT_LOAD \<Longrightarrow> load_seg_ok eo (?p k)" for k using p e(7) by simp
  qed (use s5 4(2,5) init(2) in simp_all)
  then obtain s' ys where r: "for_res (\<lambda>k. load_segment P B w (?ph + of_nat (32 * k))) [0..<n] ?s5 = Inr s'" "loading ?W B d ys ?s5 s'"
    "npages - 1025 \<le> length ys + 2 * image_pages p n" "sec (dev s') = ?f" "phase (dev s') = AtaIdle"
    "\<And>v. v < KOFFSET \<Longrightarrow> user_byte (mem s') d v = program_image ?f eo p n v"
    using image_pages_cong [of n ?p p] program_image_cong [of n ?p p] p s5(2) 4(1) by auto
  have "same_kernel s ?s5" by (rule same_kernel_free_list) (simp add: same_kernel_def)
  then have k: "same_kernel s s'" by (rule same_kernel_trans) (use r(2) in \<open>simp add: loading_def\<close>)
  have "same_bytes (mem s') (lb_buffer B) m4 (lb_buffer B) 52"
    using same_bytes_sub [OF loading_buffer [OF r(2) b], of 0 52] s5(1) by simp
  then have "e_entry (elf_header (mem s') (lb_buffer B)) = e_entry h" using same_elf_header(1) hd(1) by metis
  then show ?thesis using run r k by (auto simp: hd n [symmetric])
qed

end

text \<open>What the program sees after the stack was mapped: zeros in the 4 MB below the kernel.\<close>

definition program_view :: "(nat \<Rightarrow> u32 list) \<Rightarrow> nat \<Rightarrow> (nat \<Rightarrow> ProgramHeader) \<Rightarrow> nat \<Rightarrow> u32 \<Rightarrow> byte option" where
  "program_view f eo p n v =
     (case program_image f eo p n v of
        Some b \<Rightarrow> Some b
      | None \<Rightarrow> if KOFFSET - STACK_SIZE \<le> v then Some 0 else None)"

lemma unat_stack_page: "k \<le> 1024 \<Longrightarrow> unat (KOFFSET - STACK_SIZE + of_nat (4096 * k) :: u32) = 0xBFC00000 + 4096 * k"
proof -
  assume k: "k \<le> 1024"
  then have "unat (of_nat (4096 * k) :: u32) = 4096 * k" by (intro unat_of_nat_u32) simp
  then show ?thesis using k by (simp add: unat_word_ariths del: of_nat_mult)
qed

lemma user_stack_view:
  assumes l: "loading W B d xs s0 s" and len: "2048 \<le> length xs"
  shows "\<exists>s' ys. user_stack (page2kva d) s = Inr s' \<and> loading W B d ys s0 s' \<and> dev s' = dev s \<and>
    (\<forall>v < KOFFSET. user_byte (mem s') d v = (if user_byte (mem s) d v = None \<and> KOFFSET - STACK_SIZE \<le> v then Some 0 else user_byte (mem s) d v))"
proof -
  let ?I = "\<lambda>k t. \<exists>ys. loading W B d ys s0 t \<and> dev t = dev s \<and> 2048 \<le> length ys + 2 * k \<and>
    (\<forall>v < KOFFSET. user_byte (mem t) d v =
      (if user_byte (mem s) d v = None \<and> 0xBFC00000 \<le> unat v \<and> unat v < 0xBFC00000 + 4096 * k then Some 0 else user_byte (mem s) d v))"
  have "\<exists>t. user_stack (page2kva d) s = Inr t \<and> ?I 1024 t"
    unfolding user_stack_def
  proof (rule for_upt_invariant [where I = ?I])
    show "?I 0 s" using l len by auto
  next
    fix k t
    let ?a = "KOFFSET - STACK_SIZE + of_nat (4096 * k) :: u32"
    assume k: "k < 1024" and "?I k t"
    then obtain ys where I: "loading W B d ys s0 t" "dev t = dev s" "2048 \<le> length ys + 2 * k"
      "\<And>v. v < KOFFSET \<Longrightarrow> user_byte (mem t) d v =
        (if user_byte (mem s) d v = None \<and> 0xBFC00000 \<le> unat v \<and> unat v < 0xBFC00000 + 4096 * k then Some 0 else user_byte (mem s) d v)"
      by blast
    have u: "unat ?a = 0xBFC00000 + 4096 * k" by (rule unat_stack_page) (use k in simp)
    have a: "?a < KOFFSET" using u k by (simp add: word_less_nat_alt)
    have two: "2 \<le> length ys" using I(3) k by simp
    obtain t' zs f where r: "mm_malloc (page2kva d) ?a t = Inr (page2pa f + PGOFF ?a, t')" "loading W B d zs s0 t'"
      "length ys \<le> length zs + 2" "dev t' = dev t"
      "\<And>v. v < KOFFSET \<Longrightarrow> user_byte (mem t') d v =
        (if PGNUM v = PGNUM ?a \<and> user_byte (mem t) d v = None then Some 0 else user_byte (mem t) d v)"
      by (rule mm_malloc_loading [OF I(1) two a]) blast
    have pg: "PGNUM v = PGNUM ?a \<longleftrightarrow> 0xBFC00000 + 4096 * k \<le> unat v \<and> unat v < 0xBFC00000 + 4096 * Suc k" for v
    proof -
      have "PGNUM v = PGNUM ?a \<longleftrightarrow> unat v div 4096 = 0xBFC00 + k"
        unfolding word_unat_eq_iff unat_PGNUM u by (simp add: add.commute)
      also have "\<dots> \<longleftrightarrow> 4096 * (0xBFC00 + k) \<le> unat v \<and> unat v < 4096 * (0xBFC00 + k) + 4096"
        by (auto simp: div_nat_eqI)
      finally show ?thesis by simp
    qed
    have "user_byte (mem t') d v =
        (if user_byte (mem s) d v = None \<and> 0xBFC00000 \<le> unat v \<and> unat v < 0xBFC00000 + 4096 * Suc k then Some 0 else user_byte (mem s) d v)"
      if "v < KOFFSET" for v
      using r(5) [OF that] I(4) [OF that] pg [of v] by auto
    then show "\<exists>t'. bnd (mm_malloc (page2kva d) ?a t) (\<lambda>(_, s1). Inr s1) = Inr t' \<and> ?I (Suc k) t'"
      using r(1-4) I(2,3) by fastforce
  qed
  then obtain t ys where t: "user_stack (page2kva d) s = Inr t" "loading W B d ys s0 t" "dev t = dev s"
    "\<And>v. v < KOFFSET \<Longrightarrow> user_byte (mem t) d v =
      (if user_byte (mem s) d v = None \<and> 0xBFC00000 \<le> unat v \<and> unat v < 0xBFC00000 + 4096 * 1024 then Some 0 else user_byte (mem s) d v)"
    by blast
  have "user_byte (mem t) d v = (if user_byte (mem s) d v = None \<and> KOFFSET - STACK_SIZE \<le> v then Some 0 else user_byte (mem s) d v)"
    if "v < KOFFSET" for v
    using t(4) [OF that] that by (simp add: word_less_nat_alt word_le_nat_alt)
  then show ?thesis using t(1-3) by blast
qed

text \<open>The trap frame with which the program starts, and its entry of the process table.\<close>

definition start_frame :: "u32 \<Rightarrow> addr \<Rightarrow> mem \<Rightarrow> mem" where
  "start_frame eip t m =
     (let ss = SELECTOR_USER (of_nat SEG_USER_DATA)
      in store32 (store32 (store32 (store32 (store32 (store32 (store32 m (t + TF_SS) ss) (t + TF_ESP) (KOFFSET - 4))
           (t + TF_EFLAGS) 0x202) (t + TF_CS) (SELECTOR_USER (of_nat SEG_USER_CODE))) (t + TF_EIP) eip) (t + TF_DS) ss) (t + TF_ES) ss)"

definition program_pcb :: "int \<Rightarrow> nat \<Rightarrow> nat \<Rightarrow> addr \<Rightarrow> PCB \<Rightarrow> PCB" where
  "program_pcb pd i d t b = b\<lparr>pid := pd, ppid := 0, status := Ready, time_count := 0, sleep_time := Sleeptime,
     pcb_index := i, cr3 := page2pa d, tf := t\<rparr>"

lemma start_frame_other: "\<not> in_region t 68 y \<Longrightarrow> start_frame eip t m y = m y"
proof -
  assume "\<not> in_region t 68 y"
  then have "\<not> in_region (t + of_nat k) 4 y" if "k \<le> 64" for k using in_region_sub [of t k 4 y 68] that by auto
  from this [of 32] this [of 36] this [of 48] this [of 52] this [of 56] this [of 60] this [of 64] show ?thesis
    by (simp add: start_frame_def Let_def store32_other)
qed

lemma start_frame_fields:
  "load32 (start_frame eip t m) (t + TF_EIP) = eip" "load32 (start_frame eip t m) (t + TF_ESP) = KOFFSET - 4"
  "load32 (start_frame eip t m) (t + TF_CS) = SELECTOR_USER (of_nat SEG_USER_CODE)"
  "load32 (start_frame eip t m) (t + TF_EFLAGS) = 0x202"
  "load32 (start_frame eip t m) (t + TF_SS) = SELECTOR_USER (of_nat SEG_USER_DATA)"
  by (simp_all add: start_frame_def Let_def load32_store32_other disj_regions_def)

lemma upd_pcb_dev [simp]: "dev (upd_pcb i f s) = dev s" "direct_at (upd_pcb i f s) = direct_at s"
  by (simp_all add: upd_pcb_def)

lemma same_kernel_sym: "same_kernel s s' \<Longrightarrow> same_kernel s' s"
  by (cases s; cases s') (auto simp: same_kernel_def)

text \<open>The video mapping and the start frame leave alone what the program sees from 4 MB on.\<close>

lemma start_view:
  assumes ok: "space_ok s d zs" "ran (slot_frame (mem s) d) \<subseteq> user_frames d" and dn: "d < npages" "vt < npages"
    and vt: "vt \<notin> user_frames d" and t: "kernel_buf (insert vt (user_frames d)) t 68" and v: "v < KOFFSET" "0x400000 \<le> v"
  shows "user_byte (start_frame e t (create_video_mapping (page2kva d) (page2kva vt) (mem s))) d v = user_byte (mem s) d v"
proof -
  let ?m4 = "create_video_mapping (page2kva d) (page2kva vt) (mem s)"
  let ?m6 = "start_frame e t ?m4"
  have dW: "d \<in> user_frames d" by (simp add: user_frames_def)
  have tf: "?m6 y = ?m4 y" if "frame y \<in> insert vt (user_frames d)" for y
    using t that by (intro start_frame_other) (auto simp: kernel_buf_def)
  have "0x400000 \<le> unat v" "unat v < 0xC0000000" using v by (simp_all add: word_le_nat_alt word_less_nat_alt)
  then have "unat (PDX v) \<noteq> 0" unfolding unat_PDX by (simp add: div_eq_0_iff)
  moreover have ne: "d \<noteq> vt" using vt dW by blast
  ultimately have "load32 ?m4 (entry d (unat (PDX v))) = load32 (mem s) (entry d (unat (PDX v)))"
    by (intro create_video_mapping_load(3) [OF dn _ dn(1) PDX_lt]) auto
  moreover have "load32 ?m6 (entry d (unat (PDX v))) = load32 ?m4 (entry d (unat (PDX v)))"
    by (rule load_entry_cong [OF dn(1) PDX_lt]) (use tf dW in simp)
  ultimately show ?thesis
  proof (intro user_byte_cong [OF ok(1) v(1)])
    fix y
    assume y: "frame y \<in> ran (slot_frame (mem s) d)" "frame y \<noteq> d"
    have w: "frame y \<in> user_frames d" by (rule subsetD [OF ok(2) y(1)])
    then have "frame y \<noteq> vt" using vt by metis
    then have "?m4 y = mem s y" using video_other [OF dn y(2)] by simp
    then show "?m6 y = mem s y" using tf [of y] w by simp
  qed simp
qed

lemma video_header:
  assumes "same_bytes m b m' b 52" and "kernel_buf (insert vt W) b 4096" and "d \<in> W" and "d < npages" "vt < npages"
  shows "e_entry (elf_header (create_video_mapping (page2kva d) (page2kva vt) m) b) = e_entry (elf_header m' b)"
proof -
  have "same_bytes (create_video_mapping (page2kva d) (page2kva vt) m) b m b 52"
    unfolding same_bytes_def
  proof (intro allI impI)
    fix j :: nat
    assume "j < 52"
    then have "frame (b + of_nat j) \<notin> insert vt W" using kernel_bufD [OF assms(2), of j] by simp
    then show "create_video_mapping (page2kva d) (page2kva vt) m (b + of_nat j) = m (b + of_nat j)"
      using assms(3) by (intro video_other [OF assms(4,5)]) auto
  qed
  then show ?thesis using same_elf_header(1) assms(1) by metis
qed

context ata
begin

lemma loader_view:
  assumes idle: "phase (dev s) = AtaIdle" and ex: "executable (sec (dev s)) eo h p"
    and free: "page_free_list s = None" and d: "d \<le> 1024" "empty_dir (mem s) d" and vt: "vt \<le> 1024" "vt \<noteq> d"
    and B: "loader_bufs (insert vt (user_frames d)) (direct_at s) B" "lb_updir B = page2kva d" "lb_vdtable B = page2kva vt"
    and i: "get_pcb s = Inr i" "length (pcb_table s) = MAX_PCB"
    and t: "t = kstack s i + 4096 - TF_SIZE" "kernel_buf (insert vt (user_frames d)) t 68"
  shows "\<exists>s'. loader P B s = Inr s' \<and> sec (dev s') = sec (dev s) \<and> phase (dev s') = AtaIdle \<and> current s' = current s \<and>
    pcb_base s' = pcb_base s \<and> pcb_table s' = (pcb_table s)[i := program_pcb (i32 (pid_count s + 1)) i d t (pcb s i)] \<and>
    (\<exists>m. mem s' = start_frame (e_entry h) t m) \<and>
    (\<forall>v < KOFFSET. 0x400000 \<le> v \<longrightarrow> user_byte (mem s') d v = program_view (sec (dev s)) eo p (unat (e_phnum h)) v)"
proof -
  let ?W = "user_frames d" and ?n = "unat (e_phnum h)" and ?f = "sec (dev s)"
  have dn: "d < npages" "vt < npages" using d(1) vt(1) by (simp_all add: npages_def)
  have il: "i < MAX_PCB" using get_pcb_Inr(1) [OF i(1)] i(2) by simp
  obtain pd where pd: "pd = i32 (pid_count s + 1)" by simp
  let ?s0 = "s\<lparr>pid_count := pd\<rparr>"
  let ?s1 = "upd_pcb i (\<lambda>b. b\<lparr>pid := pd, ppid := 0, status := New, time_count := 0, sleep_time := Sleeptime, pcb_index := i\<rparr>) ?s0"
  have B': "loader_bufs ?W (direct_at ?s1) B"
    using B(1) kernel_buf_mono [of "insert vt ?W" _ _ ?W] unfolding loader_bufs_def bufs_ok_def upd_pcb_def by auto
  have ex': "executable (sec (dev ?s1)) eo h p" and idle': "phase (dev ?s1) = AtaIdle"
    and init: "page_free_list ?s1 = None" "empty_dir (mem ?s1) d"
    using ex idle free d(2) by (simp_all add: upd_pcb_def)
  obtain s00 s2 ys where 2: "load_image P B ?s1 = Inr s2" "loading ?W B d ys s00 s2" "same_kernel ?s1 s2"
    "npages - 1025 \<le> length ys + 2 * image_pages p ?n" "sec (dev s2) = ?f" "phase (dev s2) = AtaIdle"
    "e_entry (elf_header (mem s2) (lb_buffer B)) = e_entry h"
    "\<And>v. v < KOFFSET \<Longrightarrow> user_byte (mem s2) d v = program_image ?f eo p ?n v"
    using load_image_view [OF idle' ex' refl init(1) d(1) init(2) B' B(2)] by (auto simp: upd_pcb_def)
  have "2048 \<le> length ys" using 2(4) ex unfolding executable_def Let_def by linarith
  then obtain s3 zs where 3: "user_stack (page2kva d) s2 = Inr s3" "loading ?W B d zs s00 s3" "dev s3 = dev s2"
    "\<And>v. v < KOFFSET \<Longrightarrow> user_byte (mem s3) d v = (if user_byte (mem s2) d v = None \<and> KOFFSET - STACK_SIZE \<le> v then Some 0 else user_byte (mem s2) d v)"
    using user_stack_view [OF 2(2)] by blast
  have k3: "same_kernel ?s1 s3"
    using same_kernel_trans [OF 2(3) same_kernel_trans [OF same_kernel_sym, of s00 s2 s3]] 2(2) 3(2) unfolding loading_def by blast
  let ?m4 = "create_video_mapping (page2kva d) (page2kva vt) (mem s3)"
  let ?s4 = "s3\<lparr>mem := ?m4\<rparr>"
  have cr3: "cr3_with_base (drop_bit 12 (va_to_pa (page2kva d))) = page2pa d"
    using cr3_page [OF dn(1)] by (simp add: va_to_pa_def page2kva_def)
  let ?s5 = "upd_pcb i (\<lambda>b. b\<lparr>cr3 := page2pa d\<rparr>) ?s4"
  have ok3: "space_ok s3 d zs" and W3: "ran (slot_frame (mem s3) d) \<subseteq> ?W" using 3(2) by (simp_all add: loading_def)
  have vW: "vt \<notin> ?W" using vt by (auto simp: user_frames_def)
  have bu: "bufs_ok ?W B" "kernel_buf (insert vt ?W) (lb_buffer B) 4096" using B' B(1) by (simp_all add: loader_bufs_def bufs_ok_def)
  have "same_bytes (mem s3) (lb_buffer B) (mem s2) (lb_buffer B) 52"
    using same_bytes_sub [OF loading_buffer [OF 3(2) bu(1)], of 0 52] same_bytes_sub [OF loading_buffer [OF 2(2) bu(1)], of 0 52]
    by (simp add: same_bytes_def)
  then have entry: "e_entry (elf_header ?m4 (lb_buffer B)) = e_entry h"
    using video_header [OF _ bu(2) _ dn] 2(7) by (simp add: user_frames_def)
  have tb: "pcb_table s3 = pcb_table ?s1" "current s3 = current s" "pcb_base s3 = pcb_base s" "pcb_table ?s4 = pcb_table ?s1"
    using same_kernel_fields [OF k3] by (simp_all add: upd_pcb_def)
  have ks: "kstack ?s5 i = t - 4028" using tb(3) by (simp add: t kstack_def)
  let ?m6 = "start_frame (e_entry h) t ?m4"
  let ?s6 = "upd_pcb i (\<lambda>b. b\<lparr>status := Ready, time_count := 0\<rparr>) (upd_pcb i (\<lambda>b. b\<lparr>tf := t\<rparr>) (?s5\<lparr>mem := ?m6\<rparr>))"
  have run: "loader P B s = Inr ?s6"
    unfolding loader_def get_pid_def Let_def i(1) bnd_simps prod.case pcb_new_def at_pcb_def pcb_cr3write_def process_ready_def B(2,3)
    using il 2(1) 3(1) cr3 ks entry pd by (simp add: set_tf_def start_frame_def Let_def add.commute)
  have tab: "pcb_table ?s6 = (pcb_table s)[i := program_pcb pd i d t (pcb s i)]"
    using tb(4) il i(2) by (cases "pcb s i") (simp add: upd_pcb_def program_pcb_def)
  have view: "user_byte ?m6 d v = program_view ?f eo p ?n v" if v: "v < KOFFSET" "0x400000 \<le> v" for v
    using start_view [OF ok3 W3 dn vW t(2) v, of "e_entry h"] 3(4) [OF v(1)] 2(8) [OF v(1)] by (simp add: program_view_def split: option.split)
  have mem: "mem ?s6 = ?m6" and fields: "dev ?s6 = dev s3" "current ?s6 = current s3" "pcb_base ?s6 = pcb_base s3"
    by simp_all
  show ?thesis
  proof (intro exI [of _ ?s6] conjI allI impI)
    show "loader P B s = Inr ?s6" by (rule run)
    show "sec (dev ?s6) = ?f" "phase (dev ?s6) = AtaIdle" unfolding fields(1) 3(3) by (rule 2(5,6))+
    show "current ?s6 = current s" "pcb_base ?s6 = pcb_base s" unfolding fields by (rule tb(2,3))+
    show "pcb_table ?s6 = (pcb_table s)[i := program_pcb (i32 (pid_count s + 1)) i d t (pcb s i)]" using tab unfolding pd .
    show "\<exists>m. mem ?s6 = start_frame (e_entry h) t m" using mem by blast
    show "user_byte (mem ?s6) d v = program_view ?f eo p ?n v" if "v < KOFFSET" "0x400000 \<le> v" for v
      unfolding mem by (rule view [OF that])
  qed
qed

end

section \<open>The loader's contract\<close>

text \<open>What the loader expects of the kernel: an empty user directory in frame \<open>d\<close>, buffers of its own, a free entry \<open>i\<close>.\<close>

definition loader_ready :: "('d, 'a) fsst_scheme \<Rightarrow> elf_bufs \<Rightarrow> nat \<Rightarrow> nat \<Rightarrow> nat \<Rightarrow> addr \<Rightarrow> bool" where
  "loader_ready s B d vt i t \<longleftrightarrow>
     page_free_list s = None \<and> d \<le> 1024 \<and> empty_dir (mem s) d \<and> vt \<le> 1024 \<and> vt \<noteq> d \<and>
     loader_bufs (insert vt (user_frames d)) (direct_at s) B \<and> lb_updir B = page2kva d \<and> lb_vdtable B = page2kva vt \<and>
     get_pcb s = Inr i \<and> length (pcb_table s) = MAX_PCB \<and>
     t = kstack s i + 4096 - TF_SIZE \<and> kernel_buf (insert vt (user_frames d)) t 68"

lemma loader_runs:
  assumes "ata P sec phase reg busy" and "phase (dev s) = AtaIdle" and "executable (sec (dev s)) eo h p" and "loader_ready s B d vt i t"
  obtains s' where "loader P B s = Inr s'" and "sec (dev s') = sec (dev s)" and "phase (dev s') = AtaIdle" and "current s' = current s"
    and "pcb_table s' = (pcb_table s)[i := program_pcb (i32 (pid_count s + 1)) i d t (pcb s i)]"
    and "get_tf t TF_EIP s' = e_entry h" and "get_tf t TF_ESP s' = KOFFSET - 4" and "get_tf t TF_CS s' = SELECTOR_USER (of_nat SEG_USER_CODE)"
    and "\<And>v. v < KOFFSET \<Longrightarrow> 0x400000 \<le> v \<Longrightarrow> user_byte (mem s') d v = program_view (sec (dev s)) eo p (unat (e_phnum h)) v"
proof -
  have r: "page_free_list s = None" "d \<le> 1024" "empty_dir (mem s) d" "vt \<le> 1024" "vt \<noteq> d"
    "loader_bufs (insert vt (user_frames d)) (direct_at s) B" "lb_updir B = page2kva d" "lb_vdtable B = page2kva vt"
    "get_pcb s = Inr i" "length (pcb_table s) = MAX_PCB" "t = kstack s i + 4096 - TF_SIZE" "kernel_buf (insert vt (user_frames d)) t 68"
    using assms(4) unfolding loader_ready_def by blast+
  from ata.loader_view [OF assms(1-3) r] start_frame_fields show thesis
    using that by (fastforce simp: get_tf_def)
qed

section \<open>A game\<close>

text \<open>Directory in sector 257, inode in sector 258, the file from sector 301 on: one segment of 5 bytes, 9 in memory.\<close>

definition game_disk :: ata_dev where
  "game_disk = ata_zero\<lparr>ata_disk := (\<lambda>n k.
     if n = 257 \<and> k = 15 then 257 else if n = 258 \<and> k = 0 then 300
     else if n = 301 then (if k = 6 then 0x8048000 else if k = 7 then 52 else if k = 11 then 1
       else if k = 13 then 1 else if k = 14 then 0x1000 else if k = 15 then 0x8048000 else if k = 17 then 5
       else if k = 18 then 9 else 0)
     else if n = 309 then 0x44434241 else 0)\<rparr>"

lemma game_disk_words:
  "w < 128 \<Longrightarrow> b < 8388608 \<Longrightarrow> load32 (disk_mem (ata_sec game_disk)) (of_nat (512 * b + 4 * w)) = ata_disk game_disk (b + 1) w"
  using disk_word [of "ata_sec game_disk" b w] by (simp add: ata_sec_def)

abbreviation game_prog :: "nat \<Rightarrow> ProgramHeader" where
  "game_prog k \<equiv> prog_header (disk_mem (ata_sec game_disk)) (of_nat (512 * 300) + (52 + of_nat (32 * k)))"

lemma game_disk_executable:
  "executable (ata_sec game_disk) 300 (elf_header (disk_mem (ata_sec game_disk)) (of_nat (512 * 300))) game_prog"
  "e_entry (elf_header (disk_mem (ata_sec game_disk)) (of_nat (512 * 300))) = 0x8048000"
  "e_phnum (elf_header (disk_mem (ata_sec game_disk)) (of_nat (512 * 300))) = 1"
  "program_view (ata_sec game_disk) 300 game_prog 1 0x8048000 = Some 0x41"
  "program_view (ata_sec game_disk) 300 game_prog 1 0xBFFFFFFC = Some 0"
proof -
  let ?dm = "disk_mem (ata_sec game_disk)"
  have w: "load32 ?dm 131132 = 257" "load32 ?dm 131584 = 300" "load32 ?dm 153624 = 0x8048000" "load32 ?dm 153628 = 52"
    "load32 ?dm 153644 = 1" "load32 ?dm 153652 = 1" "load32 ?dm 153656 = 0x1000" "load32 ?dm 153660 = 0x8048000"
    "load32 ?dm 153668 = 5" "load32 ?dm 153672 = 9"
    using game_disk_words [of 15 256] game_disk_words [of 0 257] game_disk_words [of 6 300] game_disk_words [of 7 300]
      game_disk_words [of 11 300] game_disk_words [of 13 300] game_disk_words [of 14 300] game_disk_words [of 15 300]
      game_disk_words [of 17 300] game_disk_words [of 18 300]
    by (simp_all add: game_disk_def)
  have h: "e_entry (elf_header ?dm 153600) = 0x8048000" "e_phoff (elf_header ?dm 153600) = 52" "e_phnum (elf_header ?dm 153600) = 1"
    using w by (simp_all add: elf_header_def load16_load32)
  have p: "p_type (game_prog 0) = 1" "p_off (game_prog 0) = 0x1000" "p_vaddr (game_prog 0) = 0x8048000"
    "p_filesz (game_prog 0) = 5" "p_memsz (game_prog 0) = 9"
    using w by (simp_all add: prog_header_def)
  then have s: "load_seg_ok 300 (game_prog 0)" "seg_end (game_prog 0) = 0x8048009"
    by (simp_all add: load_seg_ok_def seg_pos_def seg_end_def word_le_nat_alt)
  show "e_entry (elf_header ?dm (of_nat (512 * 300))) = 0x8048000" "e_phnum (elf_header ?dm (of_nat (512 * 300))) = 1"
    using h by simp_all
  have pages: "image_pages game_prog 1 = 1" using s(2) p(3) by (simp add: pages_left_def)
  show "executable (ata_sec game_disk) 300 (elf_header ?dm (of_nat (512 * 300))) game_prog"
    unfolding executable_def Let_def using w h s(1) pages by (simp add: npages_def)
  have cov: "seg_covers (game_prog 0) 0x8048000" "\<not> seg_covers (game_prog 0) 0xBFFFFFFC"
    using s(2) p by (simp_all add: seg_covers_def)
  have "disk_byte (ata_sec game_disk) 157696 = 0x41"
    using nth_bytes_of [of 0 "ata_sec game_disk 309" 0] by (simp add: disk_byte_def ata_sec_def game_disk_def word_bytes_def)
  then have "seg_byte (ata_sec game_disk) 300 (game_prog 0) 0x8048000 = 0x41"
    using p by (simp add: seg_byte_def Let_def seg_pos_def)
  then show "program_view (ata_sec game_disk) 300 game_prog 1 0x8048000 = Some 0x41"
    using cov(1) by (simp add: program_view_def)
  show "program_view (ata_sec game_disk) 300 game_prog 1 0xBFFFFFFC = Some 0"
    using cov(2) by (simp add: program_view_def)
qed

text \<open>A kernel buffer in pages 258 to 1024.\<close>

lemma kernel_buf_range:
  assumes "0xC0102000 \<le> unat a" and "unat a + n \<le> 0xC0401000"
  shows "kernel_buf (insert 257 (user_frames 256)) a n"
  unfolding kernel_buf_def
proof (intro allI impI)
  fix y
  assume "in_region a n y"
  then have y: "unat a \<le> unat y" "unat y < unat a + n" using in_region_range [of a n y] assms(2) by auto
  then have "unat (y - KOFFSET) = unat y - 0xC0000000" using assms(1) by (simp add: unat_sub_if_size)
  then have "frame y = (unat y - 0xC0000000) div 4096" by (simp add: frame_def drop_bit_eq_div unat_div_distrib)
  moreover have "258 * 4096 \<le> unat y - 0xC0000000" "unat y - 0xC0000000 < 1025 * 4096" using y assms by simp_all
  ultimately have "258 \<le> frame y" "frame y < 1025"
    by (simp_all only: less_eq_div_iff_mult_less_eq div_less_iff_less_mult zero_less_numeral)
  then show "frame y \<notin> insert 257 (user_frames 256)" by (auto simp: user_frames_def)
qed

definition game_bufs :: elf_bufs where
  "game_bufs = \<lparr>lb_bitmap = 0xC0200000, lb_inode = 0xC0230000, lb_buffer = 0xC0240000, lb_sec = 0xC0250000,
     lb_updir = page2kva 256, lb_vdtable = page2kva 257\<rparr>"

definition game_kernel :: "ata_dev fsst" where
  "game_kernel = \<lparr>pages = (\<lambda>_. \<lparr>pp_link = None, pp_ref = 0\<rparr>), page_free_list = None, mem = (\<lambda>_. 0),
     pcb_table = replicate MAX_PCB pcb_zero, pid_count = 1, current = 0, tss = \<lparr>esp0 = 0, ss0 = 16\<rparr>, cr3_reg = 0,
     IF = False, time_tick = 0, sem_count = 0, pcb_base = 0xC0280000,
     fcb_table = replicate NR_FILE \<lparr>f_state = s_close, f_inode = replicate NR_INODE_ENTRY 0, f_offset = 0, f_count = 0\<rparr>,
     direct_at = 0xC0300000, dev = game_disk\<rparr>"

lemma game_kernel_ready: "loader_ready game_kernel game_bufs 256 257 0 0xC0280FC0"
  unfolding loader_ready_def
proof (intro conjI)
  show "empty_dir (mem game_kernel) 256" by (simp add: empty_dir_def game_kernel_def load32_def)
  show "loader_bufs (insert 257 (user_frames 256)) (direct_at game_kernel) game_bufs"
    unfolding loader_bufs_def bufs_ok_def game_bufs_def game_kernel_def
    by (simp add: kernel_buf_range disj_regions_def)
  show "get_pcb game_kernel = Inr 0" by (simp add: get_pcb_def game_kernel_def pcb_zero_def numeral_eq_Suc)
  show "kernel_buf (insert 257 (user_frames 256)) 0xC0280FC0 68" by (rule kernel_buf_range) simp_all
qed (simp_all add: game_kernel_def game_bufs_def kstack_def)

section \<open>Properties\<close>



end
