(* ===== verification/Kernel_Main.thy ===== *)
theory Kernel_Main
  imports Loaded_Image Kernel_Invariant
begin

text \<open>
  The start of the kernel, \<open>kernel/main.c\<close>: \<open>init\<close> enables paging and continues at the linear
  addresses of the kernel; \<open>init_cond\<close> sets up the devices and the tables, makes the idle process
  of itself, loads the game and enables interrupts. The state that it reaches satisfies
  the invariant of the process table, so that the invariant holds in every run of the system.
\<close>

section \<open>Initialisation\<close>

text \<open>Addresses that the linker gives to the static tables, and the symbols of \<open>do_irq.S\<close>.\<close>

record kaddrs =
  ka_kpdir :: addr
  ka_kptable :: addr
  ka_gdt :: addr
  ka_tss :: addr
  ka_idt :: addr
  ka_symbol :: "idt_entry \<Rightarrow> u32"
  ka_loader :: elf_bufs

text \<open>The descriptor tables and registers of the processor that no other part of the model uses.\<close>

record cpu =
  segs :: seg_regs
  idt :: "GateDescriptor list"
  idtr :: "u16 list"
  cr0 :: u32

text \<open>The endless \<open>wait_intr\<close> loop is the end of the model: everything after it happens in interrupts.\<close>

definition init_cond :: "'d ports \<Rightarrow> kaddrs \<Rightarrow> cpu \<Rightarrow> 'd sysst \<Rightarrow> (cpu \<times> 'd sysst) res" where
  "init_cond P A c s =
     (let s1 = s\<lparr>dev := init_serial P (dev s)\<rparr>;
          (tss1, regs) = init_segment (ka_gdt A) (ka_tss A) (tss s1);
          s2 = s1\<lparr>tss := tss1\<rparr>;
          (idt1, idtr1) = init_idt (ka_symbol A) (ka_idt A) (idt c);
          s3 = s2\<lparr>dev := init_intr P (dev s2)\<rparr>;
          s4 = s3\<lparr>dev := init_timer P (dev s3)\<rparr>;
          s5 = s4\<lparr>mem := fst (init_mm (ka_kpdir A) (lb_updir (ka_loader A)) (mem s4))\<rparr>;
          s6 = file_init (pcb_init s5)
      in bnd (get_pcb s6) (\<lambda>i. let (p, s7) = get_pid s6 in
         bnd (pcb_new p 0 i s7) (\<lambda>s8. let s9 = s8\<lparr>current := i\<rparr> in
         bnd (pcb_cr3write i (cr3_with_base (drop_bit 12 (va_to_pa (ka_kpdir A)))) s9) (\<lambda>s10.
         bnd (loader P (ka_loader A) s10) (\<lambda>s11.
           Inr (c\<lparr>segs := regs, idt := idt1, idtr := idtr1\<rparr>, enable_interrupt s11))))))"

definition init :: "'d ports \<Rightarrow> kaddrs \<Rightarrow> cpu \<Rightarrow> 'd sysst \<Rightarrow> (cpu \<times> 'd sysst) res" where
  "init P A c s =
     (let (m, cr3, cr0) = init_page (ka_kpdir A) (ka_kptable A) (cr0 c) (mem s)
      in init_cond P A (c\<lparr>cr0 := cr0\<rparr>) (s\<lparr>mem := m, cr3_reg := cr3\<rparr>))"

section \<open>The board\<close>

text \<open>
  The devices that the start of the kernel programs: the disk controller takes no notice of a byte
  written to any port but its own.
\<close>

locale board = ata +
  assumes other_ports: "p \<notin> {0x1F0, 0x1F1, 0x1F2, 0x1F3, 0x1F4, 0x1F5, 0x1F6, 0x1F7} \<Longrightarrow>
    sec (port_out8 P p v d) = sec d \<and> phase (port_out8 P p v d) = phase d"
begin

lemma outbs_keeps:
  "\<forall>w \<in> set ws. fst w \<notin> {0x1F0, 0x1F1, 0x1F2, 0x1F3, 0x1F4, 0x1F5, 0x1F6, 0x1F7} \<Longrightarrow>
     sec (outbs P ws d) = sec d \<and> phase (outbs P ws d) = phase d"
proof (induction ws arbitrary: d)
  case (Cons w ws)
  have "sec (outbs P ws (port_out8 P (fst w) (snd w) d)) = sec (port_out8 P (fst w) (snd w) d) \<and>
      phase (outbs P ws (port_out8 P (fst w) (snd w) d)) = phase (port_out8 P (fst w) (snd w) d)"
    by (rule Cons.IH) (use Cons.prems in simp)
  moreover have "outbs P (w # ws) d = outbs P ws (port_out8 P (fst w) (snd w) d)"
    by (cases w) (simp add: outbs_def outb_def)
  ultimately show ?case using other_ports [of "fst w" "snd w" d] Cons.prems by simp
qed (simp add: outbs_def)

lemma devices_keep:
  "sec (init_serial P d) = sec d \<and> phase (init_serial P d) = phase d"
  "sec (init_intr P d) = sec d \<and> phase (init_intr P d) = phase d"
  "sec (init_timer P d) = sec d \<and> phase (init_timer P d) = phase d"
  unfolding init_serial_def init_intr_def init_timer_def Let_def by (rule outbs_keeps; simp)+

end

interpretation pc: board ata_ports ata_sec ata_ph ata_regs ata_busy
  by unfold_locales (auto simp: ata_ports_def ata_sec_def fun_eq_iff)

section \<open>The state after the start\<close>

text \<open>Before the loader: the idle process is entry 0 and the current one, everything else is free.\<close>

definition booted :: "'d ports \<Rightarrow> kaddrs \<Rightarrow> 'd sysst \<Rightarrow> 'd sysst" where
  "booted P A s =
     (let s5 = s\<lparr>tss := fst (init_segment (ka_gdt A) (ka_tss A) (tss s)),
            dev := init_timer P (init_intr P (init_serial P (dev s))),
            mem := fst (init_mm (ka_kpdir A) (lb_updir (ka_loader A)) (mem s)), pid_count := i32 (pid_count s + 1), current := 0\<rparr>
      in upd_pcb 0 (\<lambda>b. b\<lparr>pid := i32 (pid_count s + 1), ppid := 0, status := New, time_count := 0, sleep_time := Sleeptime, pcb_index := 0,
           cr3 := cr3_with_base (drop_bit 12 (va_to_pa (ka_kpdir A)))\<rparr>) (file_init (pcb_init s5)))"

lemma init_cond_loader:
  assumes "length (pcb_table s) = MAX_PCB" and "loader P (ka_loader A) (booted P A s) = Inr s'"
  shows "\<exists>c'. init_cond P A c s = Inr (c', enable_interrupt s')"
proof -
  obtain tss1 regs idt1 idtr1 where e: "init_segment (ka_gdt A) (ka_tss A) (tss s) = (tss1, regs)"
    "init_idt (ka_symbol A) (ka_idt A) (idt c) = (idt1, idtr1)" by (metis prod.exhaust)
  define s6 where "s6 = file_init (pcb_init (s\<lparr>tss := tss1, dev := init_timer P (init_intr P (init_serial P (dev s))),
      mem := fst (init_mm (ka_kpdir A) (lb_updir (ka_loader A)) (mem s))\<rparr>))"
  have t: "pcb_table s6 = map (\<lambda>p. p\<lparr>status := Free, pid := -1, block_sem_index := -1, fcb := replicate NR_FILE (-1)\<rparr>) (pcb_table s)"
    by (simp add: s6_def file_init_def pcb_init_def)
  obtain b bs where b: "pcb_table s = b # bs" using assms(1) by (cases "pcb_table s") auto
  have g: "get_pcb s6 = Inr 0" by (simp add: get_pcb_def t b)
  let ?s7 = "s6\<lparr>pid_count := i32 (pid_count s6 + 1)\<rparr>"
  let ?s9 = "(upd_pcb 0 (\<lambda>b. b\<lparr>pid := i32 (pid_count s6 + 1), ppid := 0, status := New, time_count := 0, sleep_time := Sleeptime, pcb_index := 0\<rparr>) ?s7)
    \<lparr>current := 0\<rparr>"
  have "init_cond P A c s = bnd (get_pcb s6) (\<lambda>i. let (p, s7) = get_pid s6 in
      bnd (pcb_new p 0 i s7) (\<lambda>s8. let s9 = s8\<lparr>current := i\<rparr> in
      bnd (pcb_cr3write i (cr3_with_base (drop_bit 12 (va_to_pa (ka_kpdir A)))) s9) (\<lambda>s10.
      bnd (loader P (ka_loader A) s10) (\<lambda>s11. Inr (c\<lparr>segs := regs, idt := idt1, idtr := idtr1\<rparr>, enable_interrupt s11)))))"
    by (simp add: init_cond_def Let_def e s6_def)
  also have "\<dots> = bnd (loader P (ka_loader A) (upd_pcb 0 (\<lambda>b. b\<lparr>cr3 := cr3_with_base (drop_bit 12 (va_to_pa (ka_kpdir A)))\<rparr>) ?s9))
      (\<lambda>s11. Inr (c\<lparr>segs := regs, idt := idt1, idtr := idtr1\<rparr>, enable_interrupt s11))"
    by (simp add: g get_pid_def Let_def pcb_new_def at_pcb_def pcb_cr3write_def)
  also have "upd_pcb 0 (\<lambda>b. b\<lparr>cr3 := cr3_with_base (drop_bit 12 (va_to_pa (ka_kpdir A)))\<rparr>) ?s9 = booted P A s"
    unfolding booted_def Let_def s6_def by (simp add: upd_pcb_def file_init_def pcb_init_def b e)
  finally show ?thesis using assms(2) by simp
qed

lemma booted_table:
  assumes "length (pcb_table s) = MAX_PCB"
  shows "length (pcb_table (booted P A s)) = MAX_PCB" and "current (booted P A s) = 0" and "pcb_base (booted P A s) = pcb_base s"
    and "status (pcb (booted P A s) 0) = New \<and> pcb_index (pcb (booted P A s) 0) = 0 \<and> time_count (pcb (booted P A s) 0) = 0 \<and>
      block_sem_index (pcb (booted P A s) 0) = -1"
    and "0 < j \<Longrightarrow> j < MAX_PCB \<Longrightarrow> status (pcb (booted P A s) j) = Free \<and> time_count (pcb (booted P A s) j) = time_count (pcb s j) \<and>
      block_sem_index (pcb (booted P A s) j) = -1"
    and "get_pcb (booted P A s) = Inr 1"
proof -
  obtain b0 b1 bs where b: "pcb_table s = b0 # b1 # bs" using assms by (cases "pcb_table s"; cases "tl (pcb_table s)") auto
  show "length (pcb_table (booted P A s)) = MAX_PCB" "current (booted P A s) = 0" "pcb_base (booted P A s) = pcb_base s"
    "status (pcb (booted P A s) 0) = New \<and> pcb_index (pcb (booted P A s) 0) = 0 \<and> time_count (pcb (booted P A s) 0) = 0 \<and>
      block_sem_index (pcb (booted P A s) 0) = -1"
    using assms by (simp_all add: booted_def Let_def upd_pcb_def file_init_def pcb_init_def b)
  show "0 < j \<Longrightarrow> j < MAX_PCB \<Longrightarrow> status (pcb (booted P A s) j) = Free \<and> time_count (pcb (booted P A s) j) = time_count (pcb s j) \<and>
      block_sem_index (pcb (booted P A s) j) = -1"
    using assms by (simp add: booted_def Let_def upd_pcb_def file_init_def pcb_init_def)
  show "get_pcb (booted P A s) = Inr 1"
    by (simp add: get_pcb_def booted_def Let_def upd_pcb_def file_init_def pcb_init_def b)
qed

text \<open>The kernel state after the loader is well formed, whatever the rest of memory holds.\<close>

lemma loaded_kernel_ok:
  assumes "length (pcb_table s) = MAX_PCB" and "\<And>b. b \<in> set (pcb_table s) \<Longrightarrow> time_count b = 0"
    and "current s' = 0" and "pcb_table s' = (pcb_table (booted P A s))[1 := program_pcb pd 1 d t (pcb (booted P A s) 1)]"
  shows "kernel_ok s'"
proof -
  note b = booted_table [where P = P and A = A, OF assms(1)]
  have p: "pcb s' j = (if j = 1 then program_pcb pd 1 d t (pcb (booted P A s) 1) else pcb (booted P A s) j)" for j
    unfolding assms(4) using b(1) by (simp add: nth_list_update)
  have tc: "time_count (pcb (booted P A s) j) = 0" if "j < MAX_PCB" for j
    using b(4) b(5) [of j] that assms(1,2) by (cases "j = 0") (auto simp: nth_mem)
  have bl: "block_sem_index (pcb (booted P A s) j) = -1" if "j < MAX_PCB" for j
    using b(4) b(5) [of j] that by (cases "j = 0") auto
  have fr: "status (pcb (booted P A s) j) = Free" if "j < MAX_PCB" "j \<noteq> 0" for j using b(5) [of j] that by simp
  have pc: "pcb_index (program_pcb pd 1 d t x) = 1" "time_count (program_pcb pd 1 d t x) = 0"
    "block_sem_index (program_pcb pd 1 d t x) = block_sem_index x" for x
    by (simp_all add: program_pcb_def)
  have "table_ok s'"
    unfolding table_ok_def
  proof (intro conjI allI impI)
    show "length (pcb_table s') = MAX_PCB" using assms(4) b(1) by simp
    show "current s' < 99" "pcb_index (pcb s' (current s')) = current s'" "pcb_index (pcb s' 0) = 0" using assms(3) b(4) by (simp_all add: p)
    show "status (pcb s' 99) = Free" using fr [of 99] by (simp add: p)
    show "pcb_index (pcb s' j) = j" if "j < MAX_PCB" "status (pcb s' j) \<noteq> Free" for j
      using that fr [of j] b(4) pc by (cases "j = 0"; cases "j = 1") (simp_all add: p)
    show "0 \<le> time_count (pcb s' j)" "time_count (pcb s' j) \<le> 10" if "j < MAX_PCB" for j
      using tc [OF that] pc by (simp_all add: p)
  qed
  moreover have "block_sem_index (pcb s' j) = -1" if "j < MAX_PCB" for j using bl [OF that] bl [of 1] pc by (simp add: p)
  ultimately show ?thesis by (simp add: kernel_ok_def)
qed

text \<open>
  The linker's part: the static tables of the kernel are zero and lie in pages of their own below
  the allocator's; \<open>kd\<close>, \<open>d\<close> and \<open>vt\<close> are the frames of the kernel's and the user's page directory and
  of the video table, \<open>t\<close> is the place of the first program's trap frame.
\<close>

definition linked :: "kaddrs \<Rightarrow> 'd sysst \<Rightarrow> nat \<Rightarrow> nat \<Rightarrow> nat \<Rightarrow> addr \<Rightarrow> bool" where
  "linked A s kd d vt t \<longleftrightarrow>
     page_free_list s = None \<and> length (pcb_table s) = MAX_PCB \<and> (\<forall>b \<in> set (pcb_table s). time_count b = 0) \<and>
     kd < npages \<and> d \<le> 1024 \<and> vt \<le> 1024 \<and> kd \<noteq> d \<and> vt \<noteq> d \<and> ka_kpdir A = page2kva kd \<and>
     lb_updir (ka_loader A) = page2kva d \<and> lb_vdtable (ka_loader A) = page2kva vt \<and>
     loader_bufs (insert vt (user_frames d)) (direct_at s) (ka_loader A) \<and>
     t = kstack s 1 + 4096 - TF_SIZE \<and> kernel_buf (insert vt (user_frames d)) t 68"

lemma booted_ready:
  assumes "linked A s kd d vt t"
  shows "loader_ready (booted P A s) (ka_loader A) d vt 1 t"
proof -
  have l: "page_free_list s = None" "length (pcb_table s) = MAX_PCB" "kd < npages" "d \<le> 1024" "vt \<le> 1024" "kd \<noteq> d" "vt \<noteq> d"
    "ka_kpdir A = page2kva kd" "lb_updir (ka_loader A) = page2kva d" "lb_vdtable (ka_loader A) = page2kva vt"
    "loader_bufs (insert vt (user_frames d)) (direct_at s) (ka_loader A)" "t = kstack s 1 + 4096 - TF_SIZE"
    "kernel_buf (insert vt (user_frames d)) t 68"
    using assms unfolding linked_def by blast+
  note b = booted_table [where P = P and A = A, OF l(2)]
  have f: "page_free_list (booted P A s) = None" "direct_at (booted P A s) = direct_at s"
    "mem (booted P A s) = fst (init_mm (page2kva kd) (page2kva d) (mem s))"
    by (simp_all add: booted_def Let_def file_init_def pcb_init_def l)
  have dn: "d < npages" using l(4) by (simp add: npages_def)
  obtain m' u where "init_mm (page2kva kd) (page2kva d) (mem s) = (m', u)" by fastforce
  then have "empty_dir (mem (booted P A s)) d"
    using init_mm_entries(1) [OF l(3) dn l(6)] by (simp add: empty_dir_def f)
  then show ?thesis using l b(1,3,6) f by (simp add: loader_ready_def kstack_def)
qed

lemma kernel_starts_lemma:
  assumes "board P sec phase reg busy" and "phase (dev s) = AtaIdle" and "executable (sec (dev s)) eo h p" and "linked A s kd d vt t"
  obtains c' s' where "init_cond P A c s = Inr (c', s')" and "kernel_ok s'" and "current s' = 0" and "IF s'" and "status (pcb s' 1) = Ready"
    and "tf (pcb s' 1) = t" and "cr3 (pcb s' 1) = page2pa d" and "get_tf t TF_EIP s' = e_entry h"
    and "\<And>v. v < KOFFSET \<Longrightarrow> 0x400000 \<le> v \<Longrightarrow> user_byte (mem s') d v = program_view (sec (dev s)) eo p (unat (e_phnum h)) v"
proof -
  have l: "length (pcb_table s) = MAX_PCB" "\<And>b. b \<in> set (pcb_table s) \<Longrightarrow> time_count b = 0" using assms(4) unfolding linked_def by blast+
  let ?b = "booted P A s"
  have dv: "dev ?b = init_timer P (init_intr P (init_serial P (dev s)))" by (simp add: booted_def Let_def file_init_def pcb_init_def)
  have ata: "ata P sec phase reg busy" using assms(1) by (simp add: board_def)
  have dk: "sec (dev ?b) = sec (dev s)" "phase (dev ?b) = AtaIdle"
    unfolding dv using board.devices_keep [OF assms(1)] assms(2) by simp_all
  obtain s1 where s1: "loader P (ka_loader A) ?b = Inr s1" "current s1 = current ?b"
    "pcb_table s1 = (pcb_table ?b)[1 := program_pcb (i32 (pid_count ?b + 1)) 1 d t (pcb ?b 1)]"
    "get_tf t TF_EIP s1 = e_entry h"
    "\<And>v. v < KOFFSET \<Longrightarrow> 0x400000 \<le> v \<Longrightarrow> user_byte (mem s1) d v = program_view (sec (dev ?b)) eo p (unat (e_phnum h)) v"
    by (rule loader_runs [OF ata dk(2) _ booted_ready [OF assms(4)]]) (use assms(3) dk(1) in auto)
  note bt = booted_table [where P = P and A = A, OF l(1)]
  obtain c' where c': "init_cond P A c s = Inr (c', enable_interrupt s1)" using init_cond_loader [OF l(1) s1(1)] by blast
  have ok: "kernel_ok s1" by (rule loaded_kernel_ok [OF l _ s1(3)]) (use s1(2) bt(2) in simp_all)
  have p: "pcb s1 1 = program_pcb (i32 (pid_count ?b + 1)) 1 d t (pcb ?b 1)" using s1(3) bt(1) by simp
  show thesis
    by (rule that [OF c'])
      (use ok s1(2,4,5) bt(2) p dk(1) in \<open>simp_all add: enable_interrupt_def get_tf_def program_pcb_def\<close>)
qed

section \<open>A kernel\<close>

definition start_addrs :: kaddrs where
  "start_addrs = \<lparr>ka_kpdir = page2kva 300, ka_kptable = page2kva 301, ka_gdt = 0xC0310000, ka_tss = 0xC0320000, ka_idt = 0xC0330000,
     ka_symbol = (\<lambda>_. 0xC0100000), ka_loader = game_bufs\<rparr>"

definition start_demo :: "ata_dev sysst" where
  "start_demo = \<lparr>pages = (\<lambda>_. \<lparr>pp_link = None, pp_ref = 0\<rparr>), page_free_list = None, mem = (\<lambda>_. 0),
     pcb_table = replicate MAX_PCB pcb_zero, pid_count = 0, current = 0, tss = \<lparr>esp0 = 0, ss0 = 16\<rparr>, cr3_reg = 0,
     IF = False, time_tick = 0, sem_count = 0, pcb_base = 0xC0280000,
     fcb_table = replicate NR_FILE \<lparr>f_state = s_close, f_inode = replicate NR_INODE_ENTRY 0, f_offset = 0, f_count = 0\<rparr>,
     direct_at = 0xC0300000, dev = game_disk, key_state = keys_idle\<rparr>"

lemma start_demo_linked: "linked start_addrs start_demo 300 256 257 0xC0282064"
  unfolding linked_def
proof (intro conjI)
  show "loader_bufs (insert 257 (user_frames 256)) (direct_at start_demo) (ka_loader start_addrs)"
    using game_kernel_ready by (simp add: loader_ready_def start_demo_def start_addrs_def game_kernel_def)
  show "kernel_buf (insert 257 (user_frames 256)) 0xC0282064 68" by (rule kernel_buf_range) simp_all
qed (simp_all add: start_demo_def start_addrs_def game_bufs_def kstack_def npages_def pcb_zero_def)

section \<open>Properties\<close>



end
