(* ===== verification/Game_Lib.thy ===== *)
theory Game_Lib
  imports Lib_Printfmt
begin

text \<open>
  The library of the game: the system call stubs, \<open>printf\<close>, random numbers, the keyboard flags and
  the frame buffer (\<open>game/src/lib\<close>), over the memory of the process. The kernel behind
  \<open>int $0x80\<close> is a parameter here. Buffers, string literals and the stack are parameters as well:
  the addresses that the compiler and the linker give them.
\<close>

section \<open>State\<close>

text \<open>\<open>struct fly_t\<close>; the coordinates are floats that only ever hold small whole numbers.\<close>

record cell =
  box_x :: int
  box_y :: int
  box_text :: byte
  box_index :: int

record 'w game =
  gmem :: mem
  os :: 'w
  seed :: u32
  letter_pressed :: "bool list"
  key_code :: int
  refresh :: bool
  box :: "cell list"
  winner :: int
  winp :: int
  winc :: int
  has_added :: bool
  real_fps :: int

datatype gstring = Welcome | Press_enter | Load_function | New_game | You_win | Computer_win | Newline
  | Hex | Fps_label | File_name | Fork_x | Pid

record gaddrs =
  ga_vbuf :: addr
  ga_pbuf :: addr
  ga_args :: addr
  ga_charac :: addr
  ga_itoa :: addr
  ga_str :: "gstring \<Rightarrow> addr"

section \<open>System calls\<close>

text \<open>
  The effect of \<open>int $0x80\<close> on the memory and the rest of the machine, and the value it leaves in
  \<open>eax\<close>; \<open>None\<close> is a call that does not return. A register that a call does not set holds what
  is on the stack; no call reads it, and it is 0 here.
\<close>

type_synonym 'w int80 = "u32 \<Rightarrow> u32 \<Rightarrow> u32 \<Rightarrow> u32 \<Rightarrow> mem \<Rightarrow> 'w \<Rightarrow> (u32 \<times> mem \<times> 'w) option"

definition syscall :: "'w int80 \<Rightarrow> u32 \<Rightarrow> u32 \<Rightarrow> u32 \<Rightarrow> u32 \<Rightarrow> 'w game \<Rightarrow> (int \<times> 'w game) res" where
  "syscall K nr b c d s =
     bnd (ret (K nr b c d (gmem s) (os s))) (\<lambda>(r, m, w). Inr (sint r, s\<lparr>gmem := m, os := w\<rparr>))"

definition str_write :: "'w int80 \<Rightarrow> int \<Rightarrow> addr \<Rightarrow> int \<Rightarrow> 'w game \<Rightarrow> (int \<times> 'w game) res" where
  "str_write K fd buf len = syscall K 2 (of_int fd) buf (of_int len)"

definition get_time :: "'w int80 \<Rightarrow> 'w game \<Rightarrow> (int \<times> 'w game) res" where
  "get_time K = syscall K 3 0 0 0"

definition get_kbd :: "'w int80 \<Rightarrow> 'w game \<Rightarrow> (int \<times> 'w game) res" where
  "get_kbd K = syscall K 0 0 0 0"

definition put_video :: "'w int80 \<Rightarrow> addr \<Rightarrow> 'w game \<Rightarrow> (int \<times> 'w game) res" where
  "put_video K buffer = syscall K 1 buffer 0 0"

definition fork_call :: "'w int80 \<Rightarrow> 'w game \<Rightarrow> (int \<times> 'w game) res" where
  "fork_call K = syscall K 5 0 0 0"

definition sleep_call :: "'w int80 \<Rightarrow> u32 \<Rightarrow> 'w game \<Rightarrow> (int \<times> 'w game) res" where
  "sleep_call K time = syscall K 6 time 0 0"

definition exit_call :: "'w int80 \<Rightarrow> 'w game \<Rightarrow> (int \<times> 'w game) res" where
  "exit_call K = syscall K 7 0 0 0"

definition getpid_call :: "'w int80 \<Rightarrow> 'w game \<Rightarrow> (int \<times> 'w game) res" where
  "getpid_call K = syscall K 4 0 0 0"

definition sem_init_call :: "'w int80 \<Rightarrow> addr \<Rightarrow> int \<Rightarrow> bool \<Rightarrow> 'w game \<Rightarrow> (int \<times> 'w game) res" where
  "sem_init_call K sem v mutex = syscall K 9 sem (of_int v) (of_bool mutex)"

definition sem_wait_call :: "'w int80 \<Rightarrow> addr \<Rightarrow> 'w game \<Rightarrow> (int \<times> 'w game) res" where
  "sem_wait_call K sem = syscall K 10 sem 0 0"

definition sem_post_call :: "'w int80 \<Rightarrow> addr \<Rightarrow> 'w game \<Rightarrow> (int \<times> 'w game) res" where
  "sem_post_call K sem = syscall K 11 sem 0 0"

definition sem_destroy_call :: "'w int80 \<Rightarrow> addr \<Rightarrow> 'w game \<Rightarrow> (int \<times> 'w game) res" where
  "sem_destroy_call K sem = syscall K 12 sem 0 0"

definition sem_trywait_call :: "'w int80 \<Rightarrow> addr \<Rightarrow> 'w game \<Rightarrow> (int \<times> 'w game) res" where
  "sem_trywait_call K sem = syscall K 13 sem 0 0"

definition create_thread_call :: "'w int80 \<Rightarrow> addr \<Rightarrow> 'w game \<Rightarrow> (int \<times> 'w game) res" where
  "create_thread_call K func_addr = syscall K 8 func_addr 0 0"

definition open_call :: "'w int80 \<Rightarrow> addr \<Rightarrow> int \<Rightarrow> 'w game \<Rightarrow> (int \<times> 'w game) res" where
  "open_call K filename mode = syscall K 14 filename (of_int mode) 0"

definition read_call :: "'w int80 \<Rightarrow> int \<Rightarrow> addr \<Rightarrow> int \<Rightarrow> 'w game \<Rightarrow> (int \<times> 'w game) res" where
  "read_call K fd buf n = syscall K 15 (of_int fd) buf (of_int n)"

definition write_call :: "'w int80 \<Rightarrow> int \<Rightarrow> addr \<Rightarrow> int \<Rightarrow> 'w game \<Rightarrow> (int \<times> 'w game) res" where
  "write_call K fd buf n = syscall K 16 (of_int fd) buf (of_int n)"

definition lseek_call :: "'w int80 \<Rightarrow> int \<Rightarrow> int \<Rightarrow> int \<Rightarrow> 'w game \<Rightarrow> (int \<times> 'w game) res" where
  "lseek_call K fd offset whence = syscall K 17 (of_int fd) (of_int offset) (of_int whence)"

definition close_call :: "'w int80 \<Rightarrow> int \<Rightarrow> 'w game \<Rightarrow> (int \<times> 'w game) res" where
  "close_call K fd = syscall K 18 (of_int fd) 0 0"

section \<open>\<open>printf\<close>\<close>

text \<open>
  The caller pushes the arguments; \<open>printf\<close> finds them behind the format. The length that
  \<open>vsnprintf\<close> returns counts the characters that did not fit as well.
\<close>

primrec push_args :: "addr \<Rightarrow> u32 list \<Rightarrow> mem \<Rightarrow> mem" where
  "push_args a [] m = m"
| "push_args a (v # vs) m = push_args (a + 4) vs (store32 m a v)"

definition printf :: "'w int80 \<Rightarrow> gaddrs \<Rightarrow> addr \<Rightarrow> u32 list \<Rightarrow> 'w game \<Rightarrow> (int \<times> 'w game) res" where
  "printf K A ctl args s =
     bnd (ret (vsnprintf (push_args (ga_args A) args (gmem s)) (ga_pbuf A) 256 ctl (ga_args A))) (\<lambda>(len, m).
       str_write K 1 (ga_pbuf A) len (s\<lparr>gmem := m\<rparr>))"

section \<open>Random numbers\<close>

definition srand :: "u32 \<Rightarrow> 'w game \<Rightarrow> 'w game" where
  "srand v s = s\<lparr>seed := v\<rparr>"

definition rand :: "'w game \<Rightarrow> int \<times> 'w game" where
  "rand s = (let s1 = s\<lparr>seed := 0x015A4E35 * seed s + 1\<rparr>
     in (sint (signed_drop_bit 16 (seed s1) AND 0x7FFF), s1))"

section \<open>Keyboard\<close>

definition letter_code :: "int list" where
  "letter_code = [2, 3, 4, 5, 6, 7, 8, 9, 10, 28]"

abbreviation (input) K_ENTER :: int where "K_ENTER \<equiv> 28"

definition enable_refresh :: "'w game \<Rightarrow> 'w game" where
  "enable_refresh s = s\<lparr>refresh := True\<rparr>"

definition close_refresh :: "'w game \<Rightarrow> 'w game" where
  "close_refresh s = s\<lparr>refresh := False\<rparr>"

definition press_key :: "int \<Rightarrow> 'w game \<Rightarrow> 'w game" where
  "press_key scan_code s =
     (let s1 = fold (\<lambda>i s. if letter_code ! i = scan_code then s\<lparr>letter_pressed := (letter_pressed s)[i := True]\<rparr> else s) [0..<10] s
      in if scan_code = K_ENTER then enable_refresh s1 else s1)"

definition release_key :: "int \<Rightarrow> 'w game \<Rightarrow> 'w game" where
  "release_key scan_code s =
     (let s1 = fold (\<lambda>i s. if letter_code ! i = scan_code then s\<lparr>letter_pressed := (letter_pressed s)[i := False]\<rparr> else s) [0..<10] s
      in if scan_code = K_ENTER then close_refresh s1 else s1)"

definition process_keys :: "'w int80 \<Rightarrow> 'w game \<Rightarrow> (bool \<times> 'w game) res" where
  "process_keys K s =
     bnd (get_kbd K s) (\<lambda>(r, s1).
       let keycode = uint (of_int r :: byte)
       in if keycode = 0xFF then Inr (False, s1)
          else if keycode < 0x80 then Inr (True, press_key keycode s1)
          else Inr (True, release_key (keycode - 0x80) s1))"

definition query_key :: "int \<Rightarrow> 'w game \<Rightarrow> bool res" where
  "query_key i s = (if 0 \<le> i \<and> i < 10 then Inr (letter_pressed s ! nat i) else Inl OutOfBounds)"

definition last_key_code :: "'w game \<Rightarrow> int" where
  "last_key_code s = key_code s"

section \<open>Frame buffer\<close>

abbreviation (input) SCR_WIDTH :: int where "SCR_WIDTH \<equiv> 320"
abbreviation (input) SCR_HEIGHT :: int where "SCR_HEIGHT \<equiv> 200"
abbreviation (input) SCR_SIZE :: int where "SCR_SIZE \<equiv> 64000"

definition prepare_buffer :: "gaddrs \<Rightarrow> 'w game \<Rightarrow> 'w game" where
  "prepare_buffer A s = s\<lparr>gmem := memset (gmem s) (ga_vbuf A) 0 (of_int SCR_SIZE)\<rparr>"

definition display_buffer :: "'w int80 \<Rightarrow> gaddrs \<Rightarrow> 'w game \<Rightarrow> 'w game res" where
  "display_buffer K A s = bnd (put_video K (ga_vbuf A) s) (\<lambda>(_, s1). Inr s1)"

text \<open>A pixel outside the array is the fault \<open>OutOfBounds\<close>.\<close>

definition draw_pixel :: "gaddrs \<Rightarrow> int \<Rightarrow> int \<Rightarrow> int \<Rightarrow> 'w game \<Rightarrow> 'w game res" where
  "draw_pixel A x y color s =
     (let i = x * 2 ^ 8 + x * 2 ^ 6 + y
      in if 0 \<le> i \<and> i < SCR_SIZE then Inr (s\<lparr>gmem := (gmem s)(ga_vbuf A + of_int i := of_int color)\<rparr>)
         else Inl OutOfBounds)"

text \<open>The font of \<open>font.c\<close>, one row per character.\<close>

definition font8x8_basic :: "byte list list" where
  "font8x8_basic =
    [[0x00, 0x00, 0x00, 0x00, 0x00, 0x00, 0x00, 0x00],
     [0x00, 0x00, 0x00, 0x00, 0x00, 0x00, 0x00, 0x00],
     [0x00, 0x00, 0x00, 0x00, 0x00, 0x00, 0x00, 0x00],
     [0x00, 0x00, 0x00, 0x00, 0x00, 0x00, 0x00, 0x00],
     [0x00, 0x00, 0x00, 0x00, 0x00, 0x00, 0x00, 0x00],
     [0x00, 0x00, 0x00, 0x00, 0x00, 0x00, 0x00, 0x00],
     [0x00, 0x00, 0x00, 0x00, 0x00, 0x00, 0x00, 0x00],
     [0x00, 0x00, 0x00, 0x00, 0x00, 0x00, 0x00, 0x00],
     [0x00, 0x00, 0x00, 0x00, 0x00, 0x00, 0x00, 0x00],
     [0x00, 0x00, 0x00, 0x00, 0x00, 0x00, 0x00, 0x00],
     [0x00, 0x00, 0x00, 0x00, 0x00, 0x00, 0x00, 0x00],
     [0x00, 0x00, 0x00, 0x00, 0x00, 0x00, 0x00, 0x00],
     [0x00, 0x00, 0x00, 0x00, 0x00, 0x00, 0x00, 0x00],
     [0x00, 0x00, 0x00, 0x00, 0x00, 0x00, 0x00, 0x00],
     [0x00, 0x00, 0x00, 0x00, 0x00, 0x00, 0x00, 0x00],
     [0x00, 0x00, 0x00, 0x00, 0x00, 0x00, 0x00, 0x00],
     [0x00, 0x00, 0x00, 0x00, 0x00, 0x00, 0x00, 0x00],
     [0x00, 0x00, 0x00, 0x00, 0x00, 0x00, 0x00, 0x00],
     [0x00, 0x00, 0x00, 0x00, 0x00, 0x00, 0x00, 0x00],
     [0x00, 0x00, 0x00, 0x00, 0x00, 0x00, 0x00, 0x00],
     [0x00, 0x00, 0x00, 0x00, 0x00, 0x00, 0x00, 0x00],
     [0x00, 0x00, 0x00, 0x00, 0x00, 0x00, 0x00, 0x00],
     [0x00, 0x00, 0x00, 0x00, 0x00, 0x00, 0x00, 0x00],
     [0x00, 0x00, 0x00, 0x00, 0x00, 0x00, 0x00, 0x00],
     [0x00, 0x00, 0x00, 0x00, 0x00, 0x00, 0x00, 0x00],
     [0x00, 0x00, 0x00, 0x00, 0x00, 0x00, 0x00, 0x00],
     [0x00, 0x00, 0x00, 0x00, 0x00, 0x00, 0x00, 0x00],
     [0x00, 0x00, 0x00, 0x00, 0x00, 0x00, 0x00, 0x00],
     [0x00, 0x00, 0x00, 0x00, 0x00, 0x00, 0x00, 0x00],
     [0x00, 0x00, 0x00, 0x00, 0x00, 0x00, 0x00, 0x00],
     [0x00, 0x00, 0x00, 0x00, 0x00, 0x00, 0x00, 0x00],
     [0x00, 0x00, 0x00, 0x00, 0x00, 0x00, 0x00, 0x00],
     [0x00, 0x00, 0x00, 0x00, 0x00, 0x00, 0x00, 0x00],
     [0x18, 0x3C, 0x3C, 0x18, 0x18, 0x00, 0x18, 0x00],
     [0x36, 0x36, 0x00, 0x00, 0x00, 0x00, 0x00, 0x00],
     [0x36, 0x36, 0x7F, 0x36, 0x7F, 0x36, 0x36, 0x00],
     [0x0C, 0x3E, 0x03, 0x1E, 0x30, 0x1F, 0x0C, 0x00],
     [0x00, 0x63, 0x33, 0x18, 0x0C, 0x66, 0x63, 0x00],
     [0x1C, 0x36, 0x1C, 0x6E, 0x3B, 0x33, 0x6E, 0x00],
     [0x06, 0x06, 0x03, 0x00, 0x00, 0x00, 0x00, 0x00],
     [0x18, 0x0C, 0x06, 0x06, 0x06, 0x0C, 0x18, 0x00],
     [0x06, 0x0C, 0x18, 0x18, 0x18, 0x0C, 0x06, 0x00],
     [0x00, 0x66, 0x3C, 0xFF, 0x3C, 0x66, 0x00, 0x00],
     [0x00, 0x0C, 0x0C, 0x3F, 0x0C, 0x0C, 0x00, 0x00],
     [0x00, 0x00, 0x00, 0x00, 0x00, 0x0C, 0x0C, 0x06],
     [0x00, 0x00, 0x00, 0x3F, 0x00, 0x00, 0x00, 0x00],
     [0x00, 0x00, 0x00, 0x00, 0x00, 0x0C, 0x0C, 0x00],
     [0x60, 0x30, 0x18, 0x0C, 0x06, 0x03, 0x01, 0x00],
     [0x3E, 0x63, 0x73, 0x7B, 0x6F, 0x67, 0x3E, 0x00],
     [0x0C, 0x0E, 0x0C, 0x0C, 0x0C, 0x0C, 0x3F, 0x00],
     [0x1E, 0x33, 0x30, 0x1C, 0x06, 0x33, 0x3F, 0x00],
     [0x1E, 0x33, 0x30, 0x1C, 0x30, 0x33, 0x1E, 0x00],
     [0x38, 0x3C, 0x36, 0x33, 0x7F, 0x30, 0x78, 0x00],
     [0x3F, 0x03, 0x1F, 0x30, 0x30, 0x33, 0x1E, 0x00],
     [0x1C, 0x06, 0x03, 0x1F, 0x33, 0x33, 0x1E, 0x00],
     [0x3F, 0x33, 0x30, 0x18, 0x0C, 0x0C, 0x0C, 0x00],
     [0x1E, 0x33, 0x33, 0x1E, 0x33, 0x33, 0x1E, 0x00],
     [0x1E, 0x33, 0x33, 0x3E, 0x30, 0x18, 0x0E, 0x00],
     [0x00, 0x0C, 0x0C, 0x00, 0x00, 0x0C, 0x0C, 0x00],
     [0x00, 0x0C, 0x0C, 0x00, 0x00, 0x0C, 0x0C, 0x06],
     [0x18, 0x0C, 0x06, 0x03, 0x06, 0x0C, 0x18, 0x00],
     [0x00, 0x00, 0x3F, 0x00, 0x00, 0x3F, 0x00, 0x00],
     [0x06, 0x0C, 0x18, 0x30, 0x18, 0x0C, 0x06, 0x00],
     [0x1E, 0x33, 0x30, 0x18, 0x0C, 0x00, 0x0C, 0x00],
     [0x3E, 0x63, 0x7B, 0x7B, 0x7B, 0x03, 0x1E, 0x00],
     [0x0C, 0x1E, 0x33, 0x33, 0x3F, 0x33, 0x33, 0x00],
     [0x3F, 0x66, 0x66, 0x3E, 0x66, 0x66, 0x3F, 0x00],
     [0x3C, 0x66, 0x03, 0x03, 0x03, 0x66, 0x3C, 0x00],
     [0x1F, 0x36, 0x66, 0x66, 0x66, 0x36, 0x1F, 0x00],
     [0x7F, 0x46, 0x16, 0x1E, 0x16, 0x46, 0x7F, 0x00],
     [0x7F, 0x46, 0x16, 0x1E, 0x16, 0x06, 0x0F, 0x00],
     [0x3C, 0x66, 0x03, 0x03, 0x73, 0x66, 0x7C, 0x00],
     [0x33, 0x33, 0x33, 0x3F, 0x33, 0x33, 0x33, 0x00],
     [0x1E, 0x0C, 0x0C, 0x0C, 0x0C, 0x0C, 0x1E, 0x00],
     [0x78, 0x30, 0x30, 0x30, 0x33, 0x33, 0x1E, 0x00],
     [0x67, 0x66, 0x36, 0x1E, 0x36, 0x66, 0x67, 0x00],
     [0x0F, 0x06, 0x06, 0x06, 0x46, 0x66, 0x7F, 0x00],
     [0x63, 0x77, 0x7F, 0x7F, 0x6B, 0x63, 0x63, 0x00],
     [0x63, 0x67, 0x6F, 0x7B, 0x73, 0x63, 0x63, 0x00],
     [0x1C, 0x36, 0x63, 0x63, 0x63, 0x36, 0x1C, 0x00],
     [0x3F, 0x66, 0x66, 0x3E, 0x06, 0x06, 0x0F, 0x00],
     [0x1E, 0x33, 0x33, 0x33, 0x3B, 0x1E, 0x38, 0x00],
     [0x3F, 0x66, 0x66, 0x3E, 0x36, 0x66, 0x67, 0x00],
     [0x1E, 0x33, 0x07, 0x0E, 0x38, 0x33, 0x1E, 0x00],
     [0x3F, 0x2D, 0x0C, 0x0C, 0x0C, 0x0C, 0x1E, 0x00],
     [0x33, 0x33, 0x33, 0x33, 0x33, 0x33, 0x3F, 0x00],
     [0x33, 0x33, 0x33, 0x33, 0x33, 0x1E, 0x0C, 0x00],
     [0x63, 0x63, 0x63, 0x6B, 0x7F, 0x77, 0x63, 0x00],
     [0x63, 0x63, 0x36, 0x1C, 0x1C, 0x36, 0x63, 0x00],
     [0x33, 0x33, 0x33, 0x1E, 0x0C, 0x0C, 0x1E, 0x00],
     [0x7F, 0x63, 0x31, 0x18, 0x4C, 0x66, 0x7F, 0x00],
     [0x1E, 0x06, 0x06, 0x06, 0x06, 0x06, 0x1E, 0x00],
     [0x03, 0x06, 0x0C, 0x18, 0x30, 0x60, 0x40, 0x00],
     [0x1E, 0x18, 0x18, 0x18, 0x18, 0x18, 0x1E, 0x00],
     [0x08, 0x1C, 0x36, 0x63, 0x00, 0x00, 0x00, 0x00],
     [0x00, 0x00, 0x00, 0x00, 0x00, 0x00, 0x00, 0xFF],
     [0x0C, 0x0C, 0x18, 0x00, 0x00, 0x00, 0x00, 0x00],
     [0x00, 0x00, 0x1E, 0x30, 0x3E, 0x33, 0x6E, 0x00],
     [0x07, 0x06, 0x06, 0x3E, 0x66, 0x66, 0x3B, 0x00],
     [0x00, 0x00, 0x1E, 0x33, 0x03, 0x33, 0x1E, 0x00],
     [0x38, 0x30, 0x30, 0x3e, 0x33, 0x33, 0x6E, 0x00],
     [0x00, 0x00, 0x1E, 0x33, 0x3f, 0x03, 0x1E, 0x00],
     [0x1C, 0x36, 0x06, 0x0f, 0x06, 0x06, 0x0F, 0x00],
     [0x00, 0x00, 0x6E, 0x33, 0x33, 0x3E, 0x30, 0x1F],
     [0x07, 0x06, 0x36, 0x6E, 0x66, 0x66, 0x67, 0x00],
     [0x0C, 0x00, 0x0E, 0x0C, 0x0C, 0x0C, 0x1E, 0x00],
     [0x30, 0x00, 0x30, 0x30, 0x30, 0x33, 0x33, 0x1E],
     [0x07, 0x06, 0x66, 0x36, 0x1E, 0x36, 0x67, 0x00],
     [0x0E, 0x0C, 0x0C, 0x0C, 0x0C, 0x0C, 0x1E, 0x00],
     [0x00, 0x00, 0x33, 0x7F, 0x7F, 0x6B, 0x63, 0x00],
     [0x00, 0x00, 0x1F, 0x33, 0x33, 0x33, 0x33, 0x00],
     [0x00, 0x00, 0x1E, 0x33, 0x33, 0x33, 0x1E, 0x00],
     [0x00, 0x00, 0x3B, 0x66, 0x66, 0x3E, 0x06, 0x0F],
     [0x00, 0x00, 0x6E, 0x33, 0x33, 0x3E, 0x30, 0x78],
     [0x00, 0x00, 0x3B, 0x6E, 0x66, 0x06, 0x0F, 0x00],
     [0x00, 0x00, 0x3E, 0x03, 0x1E, 0x30, 0x1F, 0x00],
     [0x08, 0x0C, 0x3E, 0x0C, 0x0C, 0x2C, 0x18, 0x00],
     [0x00, 0x00, 0x33, 0x33, 0x33, 0x33, 0x6E, 0x00],
     [0x00, 0x00, 0x33, 0x33, 0x33, 0x1E, 0x0C, 0x00],
     [0x00, 0x00, 0x63, 0x6B, 0x7F, 0x7F, 0x36, 0x00],
     [0x00, 0x00, 0x63, 0x36, 0x1C, 0x36, 0x63, 0x00],
     [0x00, 0x00, 0x33, 0x33, 0x33, 0x3E, 0x30, 0x1F],
     [0x00, 0x00, 0x3F, 0x19, 0x0C, 0x26, 0x3F, 0x00],
     [0x38, 0x0C, 0x0C, 0x07, 0x0C, 0x0C, 0x38, 0x00],
     [0x18, 0x18, 0x18, 0x00, 0x18, 0x18, 0x18, 0x00],
     [0x07, 0x0C, 0x0C, 0x38, 0x0C, 0x0C, 0x07, 0x00],
     [0x6E, 0x3B, 0x00, 0x00, 0x00, 0x00, 0x00, 0x00],
     [0x00, 0x00, 0x00, 0x00, 0x00, 0x00, 0x00, 0x00]]"

definition draw_character :: "gaddrs \<Rightarrow> byte \<Rightarrow> int \<Rightarrow> int \<Rightarrow> int \<Rightarrow> 'w game \<Rightarrow> 'w game res" where
  "draw_character A ch x y color s =
     (if sint ch < 0 then Inl OutOfBounds
      else let p = font8x8_basic ! nat (sint ch)
           in for_res (\<lambda>i. for_res (\<lambda>j s.
                if drop_bit j (p ! i) AND 1 \<noteq> 0 then draw_pixel A (x + int i) (y + int j) color s else Inr s)
                [0..<8]) [0..<8] s)"

text \<open>The loop of \<open>draw_string\<close>; \<open>None\<close> is a string that never ends.\<close>

partial_function (option) draw_chars :: "gaddrs \<Rightarrow> addr \<Rightarrow> int \<Rightarrow> int \<Rightarrow> int \<Rightarrow> 'w game \<Rightarrow> 'w game res option" where
  "draw_chars A str x y color s =
     (if gmem s str = 0 then Some (Inr s)
      else case draw_character A (gmem s str) x y color s of
             Inl e \<Rightarrow> Some (Inl e)
           | Inr s1 \<Rightarrow> if y + 8 \<ge> SCR_WIDTH then draw_chars A (str + 1) (x + 8) 0 color s1
                      else draw_chars A (str + 1) x (y + 8) color s1)"

definition draw_string :: "gaddrs \<Rightarrow> addr \<Rightarrow> int \<Rightarrow> int \<Rightarrow> int \<Rightarrow> 'w game \<Rightarrow> 'w game res" where
  "draw_string A strm x y color s = bnd (ret (draw_chars A strm x y color s)) id"

end
