(* ===== verification/Random_Period.thy ===== *)
theory Random_Period
  imports Kernel_Prelude
begin

text \<open>
  The sequence of seeds behind \<open>rand\<close> of the game (\<open>game/src/lib/random.c\<close>): the congruential
  generator \<open>x \<mapsto> 0x015A4E35 x + 1\<close> modulo \<open>2 ^ 32\<close> has full period, so that every seed is reached
  from every other one. The endless loop in which the computer looks for a free cell ends
  because of this.
\<close>

section \<open>Partial sums of powers\<close>

definition lcg :: "u32 \<Rightarrow> u32" where
  "lcg x = 0x015A4E35 * x + 1"

primrec geo :: "nat \<Rightarrow> nat \<Rightarrow> nat" where
  "geo a 0 = 0"
| "geo a (Suc n) = a * geo a n + 1"

lemma geo_add: "geo a (m + n) = a ^ m * geo a n + geo a m"
  by (induction m) (simp_all add: algebra_simps)

lemma geo_double: "geo a (2 * m) = (a ^ m + 1) * geo a m"
  unfolding mult_2 geo_add by (simp add: algebra_simps)

lemma geo_parity: "odd a \<Longrightarrow> even (geo a n) \<longleftrightarrow> even n"
  by (induction n) auto

lemma power_mod_4: "a mod 4 = 1 \<Longrightarrow> a ^ m mod 4 = (1 :: nat)"
  using power_mod [of a 4 m] by simp

text \<open>The 2-adic order of a partial sum is that of its length.\<close>

lemma geo_dvd:
  assumes "a mod 4 = 1"
  shows "2 ^ k dvd geo a n \<longleftrightarrow> 2 ^ k dvd n"
proof (induction k arbitrary: n)
  case (Suc k)
  have odd: "odd a" using assms by presburger
  show ?case
  proof (cases "even n")
    case False
    then have "\<not> 2 dvd geo a n" using geo_parity [OF odd] by simp
    then show ?thesis using False by (auto dest: dvd_mult_left)
  next
    case True
    then obtain m where n: "n = 2 * m" by blast
    have "(a ^ m + 1) mod 4 = 2" using power_mod_4 [OF assms, of m] by presburger
    then have "even (a ^ m + 1)" "odd ((a ^ m + 1) div 2)" by presburger+
    then obtain q where q: "a ^ m + 1 = 2 * q" "odd q" by (metis dvd_mult_div_cancel)
    have "geo a n = 2 * (q * geo a m)" unfolding n geo_double q(1) by simp
    then have "2 ^ Suc k dvd geo a n \<longleftrightarrow> 2 ^ k dvd q * geo a m" by simp
    also have "\<dots> \<longleftrightarrow> 2 ^ k dvd geo a m" using q(2) by (simp add: coprime_dvd_mult_right_iff)
    finally show ?thesis using Suc n by simp
  qed
qed simp

section \<open>Full period\<close>

definition lcg_mult :: nat where
  "lcg_mult = 0x015A4E35"

definition period :: nat where
  "period = 2 ^ 32"

lemma lcg_mult: "lcg_mult mod 4 = 1" "odd lcg_mult"
  by (simp_all add: lcg_mult_def)

lemma lcg_iterate: "(lcg ^^ n) (of_nat x) = of_nat (lcg_mult ^ n * x + geo lcg_mult n)"
proof (induction n)
  case (Suc n)
  have l: "lcg (of_nat y) = of_nat (lcg_mult * y + 1)" for y by (simp add: lcg_def lcg_mult_def)
  have "(lcg ^^ Suc n) (of_nat x) = lcg (of_nat (lcg_mult ^ n * x + geo lcg_mult n))"
    by (simp only: funpow.simps comp_apply Suc)
  also have "\<dots> = of_nat (lcg_mult * (lcg_mult ^ n * x + geo lcg_mult n) + 1)" by (rule l)
  also have "lcg_mult * (lcg_mult ^ n * x + geo lcg_mult n) + 1 = lcg_mult ^ Suc n * x + geo lcg_mult (Suc n)"
    by (simp add: algebra_simps)
  finally show ?case .
qed simp

lemma u32_zero_iff: "(of_nat n :: u32) = 0 \<longleftrightarrow> period dvd n"
  unfolding word_of_nat_eq_0_iff period_def by simp

lemma geo_zero_iff: "period dvd geo lcg_mult n \<longleftrightarrow> period dvd n"
  unfolding period_def by (rule geo_dvd [OF lcg_mult(1)])

lemma geo_step_zero:
  assumes "(of_nat (geo lcg_mult (m + n)) :: u32) = of_nat (geo lcg_mult m)"
  shows "period dvd n"
proof -
  have "(of_nat (lcg_mult ^ m * geo lcg_mult n) :: u32) = 0" using assms by (simp add: geo_add)
  then have "period dvd lcg_mult ^ m * geo lcg_mult n" by (simp only: u32_zero_iff)
  moreover have "coprime period (lcg_mult ^ m)" unfolding period_def
    by (intro coprime_power_left_iff [THEN iffD2] disjI1 coprime_power_right_iff [THEN iffD2]) (use lcg_mult(2) in simp)
  ultimately have "period dvd geo lcg_mult n" by (simp only: coprime_dvd_mult_right_iff)
  then show ?thesis by (simp only: geo_zero_iff)
qed

lemma geo_inj: "inj_on (\<lambda>n. of_nat (geo lcg_mult n) :: u32) {..<period}"
proof -
  have less: False if "m < n" "n < period" "(of_nat (geo lcg_mult n) :: u32) = of_nat (geo lcg_mult m)" for m n
  proof -
    have "period dvd n - m" using geo_step_zero [of m "n - m"] that by simp
    moreover have "0 < n - m" "n - m < period" using that by simp_all
    ultimately show False using nat_dvd_not_less by blast
  qed
  show ?thesis
  proof (rule inj_onI)
    fix m n
    assume "m \<in> {..<period}" "n \<in> {..<period}" "(of_nat (geo lcg_mult m) :: u32) = of_nat (geo lcg_mult n)"
    then show "m = n" using less [of m n] less [of n m] by (metis lessThan_iff linorder_neqE_nat)
  qed
qed

lemma geo_surj: "\<exists>n. (of_nat (geo lcg_mult n) :: u32) = y"
proof -
  let ?f = "\<lambda>n. of_nat (geo lcg_mult n) :: u32"
  have "card (?f ` {..<period}) = period" using card_image [OF geo_inj] by simp
  moreover have "card (UNIV :: u32 set) = period" by (simp add: card_word period_def)
  ultimately have "?f ` {..<period} = UNIV" by (intro card_subset_eq) simp_all
  then show ?thesis by (metis imageE UNIV_I)
qed

text \<open>Every seed is reached from every other one, by at least one step.\<close>

lemma lcg_reaches: "\<exists>n. (lcg ^^ Suc n) x = y"
proof -
  obtain i j where i: "x = of_nat (geo lcg_mult i)" and j: "y = of_nat (geo lcg_mult j)" using geo_surj by metis
  let ?l = "(i + 1) * period"
  have "(of_nat (geo lcg_mult ?l) :: u32) = 0" unfolding u32_zero_iff geo_zero_iff by simp
  then have y: "y = of_nat (geo lcg_mult (j + ?l))" unfolding j geo_add of_nat_add of_nat_mult by simp
  have "i + 1 \<le> ?l" unfolding period_def by simp
  then have "i < j + ?l" by simp
  then obtain n where n: "j + ?l = Suc n + i" using less_imp_Suc_add [of i "j + ?l"] by auto
  have "(lcg ^^ Suc n) x = of_nat (lcg_mult ^ Suc n * geo lcg_mult i + geo lcg_mult (Suc n))"
    unfolding i by (rule lcg_iterate)
  also have "\<dots> = y" unfolding y n by (simp only: geo_add)
  finally show ?thesis by blast
qed

end
