(* ===== verification/Game.thy ===== *)
theory Game
  imports Game_Lib Random_Period
begin

text \<open>
  The game (noughts and crosses against the computer): the rules of \<open>game/src/effect.c\<close>, the state
  and the main loop of \<open>game/src/game.c\<close>, drawing (\<open>game/src/draw.c\<close>) and \<open>game/main.c\<close>. The main
  loop never returns; its model is the part before the loop and one iteration of it.
\<close>

section \<open>Rules\<close>

abbreviation (input) O_text :: byte where "O_text \<equiv> 79"
abbreviation (input) X_text :: byte where "X_text \<equiv> 88"

definition cell_text :: "'w game \<Rightarrow> nat \<Rightarrow> byte" where
  "cell_text s j = box_text (box s ! j)"

definition set_text :: "nat \<Rightarrow> byte \<Rightarrow> 'w game \<Rightarrow> 'w game" where
  "set_text j ch s = s\<lparr>box := (box s)[j := (box s ! j)\<lparr>box_text := ch\<rparr>]\<rparr>"

definition winp_check :: "'w game \<Rightarrow> bool" where
  "winp_check s =
     (let b = (\<lambda>j. cell_text s j = O_text)
      in (b 0 \<and> b 1 \<and> b 2) \<or> (b 3 \<and> b 4 \<and> b 5) \<or> (b 6 \<and> b 7 \<and> b 8) \<or> (b 0 \<and> b 4 \<and> b 8) \<or>
         (b 2 \<and> b 4 \<and> b 6) \<or> (b 0 \<and> b 3 \<and> b 6) \<or> (b 1 \<and> b 4 \<and> b 7) \<or> (b 2 \<and> b 5 \<and> b 8))"

definition winc_check :: "'w game \<Rightarrow> bool" where
  "winc_check s =
     (let b = (\<lambda>j. cell_text s j = X_text)
      in (b 0 \<and> b 1 \<and> b 2) \<or> (b 3 \<and> b 4 \<and> b 5) \<or> (b 6 \<and> b 7 \<and> b 8) \<or> (b 0 \<and> b 4 \<and> b 8) \<or>
         (b 2 \<and> b 4 \<and> b 6) \<or> (b 0 \<and> b 3 \<and> b 6) \<or> (b 1 \<and> b 4 \<and> b 7) \<or> (b 2 \<and> b 5 \<and> b 8))"

definition screen_full :: "'w game \<Rightarrow> bool" where
  "screen_full s = (\<forall>j \<in> set [0..<9]. cell_text s j \<noteq> 0)"

definition set_fps :: "int \<Rightarrow> 'w game \<Rightarrow> 'w game" where
  "set_fps v s = s\<lparr>real_fps := v\<rparr>"

definition get_fps :: "'w game \<Rightarrow> int" where
  "get_fps s = real_fps s"

definition clear_cells :: "'w game \<Rightarrow> 'w game" where
  "clear_cells s = fold (\<lambda>i s. s\<lparr>box := (box s)[i := (box s ! i)\<lparr>box_index := int i, box_text := 0\<rparr>]\<rparr>) [0..<9] s"

definition release_keys :: "'w game \<Rightarrow> 'w game" where
  "release_keys s = fold (\<lambda>i. release_key (int i)) [0..<10] s"

definition initial_game :: "'w game \<Rightarrow> 'w game" where
  "initial_game s =
     (let s1 = s\<lparr>winner := 0, winp := 0, winc := 0, has_added := False\<rparr>;
          s2 = fold (\<lambda>(j, x, y) s. s\<lparr>box := (box s)[j := (box s ! j)\<lparr>box_x := x, box_y := y\<rparr>]\<rparr>)
                 [(0, 60, 100), (1, 60, 200), (2, 60, 300), (3, 120, 100), (4, 120, 200), (5, 120, 300),
                  (6, 180, 100), (7, 180, 200), (8, 180, 300)] s1
      in set_text 4 X_text (clear_cells (release_keys s2)))"

definition reset_game :: "'w game \<Rightarrow> 'w game" where
  "reset_game s =
     (let s1 = s\<lparr>winner := 0, winp := 0, winc := 0\<rparr>
      in (set_text 4 X_text (release_keys (clear_cells s1)))\<lparr>has_added := False, winner := 0, winp := 0, winc := 0\<rparr>)"

text \<open>The endless loop in which the computer looks for a free cell.\<close>

partial_function (option) computer_move :: "'w game \<Rightarrow> 'w game option" where
  "computer_move s =
     (let r = rand s; k = nat (c_mod (fst r) 9)
      in if cell_text (snd r) k = 0 then Some (set_text k X_text (snd r)) else computer_move (snd r))"

text \<open>The first free cell whose key is pressed.\<close>

fun find_cell :: "nat list \<Rightarrow> 'w game \<Rightarrow> nat option res" where
  "find_cell [] s = Inr None"
| "find_cell (j # js) s =
     (if cell_text s j = 0
      then bnd (query_key (box_index (box s ! j)) s) (\<lambda>pressed. if pressed then Inr (Some j) else find_cell js s)
      else find_cell js s)"

definition update_keypress :: "'w game \<Rightarrow> (bool \<times> 'w game) res" where
  "update_keypress s =
     bnd (find_cell [0..<9] s) (\<lambda>found.
     bnd (case found of None \<Rightarrow> Inr s | Some j \<Rightarrow> ret (computer_move (set_text j O_text s))) (\<lambda>s1.
     bnd (query_key 9 s1) (\<lambda>enter.
       if enter then Inr (True, reset_game (s1\<lparr>has_added := True\<rparr>))
       else case found of
              None \<Rightarrow> Inr (False, s1)
            | Some j \<Rightarrow> if j + 1 \<noteq> 9 then Inr (True, release_key (box_index (box s1 ! j)) s1) else Inr (False, s1))))"

section \<open>Drawing\<close>

abbreviation (input) str where "str A x \<equiv> ga_str A x"

definition draw_cells :: "gaddrs \<Rightarrow> 'w game \<Rightarrow> 'w game res" where
  "draw_cells A s = for_res (\<lambda>j s.
     if cell_text s j \<noteq> 0 then draw_character A (cell_text s j) (box_x (box s ! j)) (box_y (box s ! j)) 48 s else Inr s)
     [0..<9] s"

definition judge :: "'w int80 \<Rightarrow> gaddrs \<Rightarrow> 'w game \<Rightarrow> 'w game res" where
  "judge K A s =
     bnd (if winp_check s \<and> winner s \<noteq> 2
          then bnd (printf K A (str A You_win) [] s) (\<lambda>(_, s1). Inr (s1\<lparr>winner := 1\<rparr>)) else Inr s) (\<lambda>s1.
     if winc_check s1 \<and> winner s1 \<noteq> 1
     then bnd (printf K A (str A Computer_win) [] s1) (\<lambda>(_, s2). Inr (s2\<lparr>winner := 2\<rparr>)) else Inr s1)"

text \<open>\<open>itoa\<close> is called again for every use of its result.\<close>

definition draw_fps :: "gaddrs \<Rightarrow> 'w game \<Rightarrow> 'w game res" where
  "draw_fps A s =
     (let (m1, p1) = itoa (gmem s) (ga_itoa A) (get_fps s)
      in bnd (draw_string A p1 0 0 14 (s\<lparr>gmem := m1\<rparr>)) (\<lambda>s1.
         let (m2, p2) = itoa (gmem s1) (ga_itoa A) (get_fps s1)
         in bnd (ret (strlen m2 p2)) (\<lambda>n. draw_string A (str A Fps_label) 0 (n * 8) 14 (s1\<lparr>gmem := m2\<rparr>))))"

definition redraw_screen :: "'w int80 \<Rightarrow> gaddrs \<Rightarrow> 'w game \<Rightarrow> 'w game res" where
  "redraw_screen K A s =
     bnd (draw_cells A (prepare_buffer A s)) (\<lambda>s1.
     bnd (judge K A s1) (\<lambda>s2.
     bnd (draw_fps A s2) (display_buffer K A)))"

section \<open>The main loop\<close>

abbreviation (input) FPS :: int where "FPS \<equiv> 30"
abbreviation (input) HZ :: int where "HZ \<equiv> 1000"

text \<open>Reading the board from the file, and writing it back.\<close>

definition load_board :: "'w int80 \<Rightarrow> gaddrs \<Rightarrow> int \<Rightarrow> 'w game \<Rightarrow> 'w game res" where
  "load_board K A fd s = for_res (\<lambda>i s.
     bnd (read_call K fd (ga_charac A) 1 s) (\<lambda>(_, s1).
     bnd (printf K A (str A Hex) [scast (gmem s1 (ga_charac A))] s1) (\<lambda>(_, s2).
       let charac = gmem s2 (ga_charac A)
       in Inr (set_text i (if charac \<noteq> X_text \<and> charac \<noteq> O_text then 0 else charac) s2)))) [0..<9] s"

definition save_board :: "'w int80 \<Rightarrow> gaddrs \<Rightarrow> int \<Rightarrow> 'w game \<Rightarrow> 'w game res" where
  "save_board K A fd s =
     bnd (lseek_call K fd 0 0 s) (\<lambda>(_, s1).
     for_res (\<lambda>i s. bnd (write_call K fd (ga_charac A) 1 (s\<lparr>gmem := (gmem s)(ga_charac A := cell_text s i)\<rparr>)) (\<lambda>(_, s1). Inr s1))
       [0..<9] s1)"

definition main_loop_start :: "'w int80 \<Rightarrow> gaddrs \<Rightarrow> 'w game \<Rightarrow> (int \<times> int \<times> 'w game) res" where
  "main_loop_start K A s =
     bnd (get_time K s) (\<lambda>(now, s1).
     bnd (open_call K (str A File_name) 2 s1) (\<lambda>(fd, s2).
     bnd (load_board K A fd s2) (\<lambda>s3.
     bnd (printf K A (str A Newline) [] s3) (\<lambda>(_, s4). Inr (now, fd, s4)))))"

partial_function (option) drain_keys :: "'w int80 \<Rightarrow> 'w game \<Rightarrow> 'w game res option" where
  "drain_keys K s =
     (case process_keys K s of
        Inl e \<Rightarrow> Some (Inl e)
      | Inr (again, s1) \<Rightarrow> if again then drain_keys K s1 else Some (Inr s1))"

text \<open>
  Catching up with the clock. \<open>now\<close> stays below \<open>target\<close>, so that \<open>now ++\<close> does not overflow.
\<close>

function catch_up :: "int \<Rightarrow> int \<Rightarrow> bool \<Rightarrow> int \<Rightarrow> 'w game \<Rightarrow> int \<times> bool \<times> int \<times> 'w game" where
  "catch_up now target redraw num_draw s =
     (if now < target
      then let redraw1 = (redraw \<or> c_mod now (c_div HZ FPS) = 0);
               now_fps = num_draw * 2 + 1;
               half = (c_mod now (c_div HZ 2) = 0);
               s1 = (if half then set_fps (if now_fps > FPS then FPS else now_fps) s else s)
           in catch_up (now + 1) target redraw1 (if half then 0 else num_draw) s1
      else (now, redraw, num_draw, s))"
  by pat_completeness auto
termination by (relation "measure (\<lambda>(now, target, redraw, num_draw, s). nat (target - now))") auto

declare catch_up.simps [simp del]

text \<open>One iteration with the locals \<open>now\<close> and \<open>num_draw\<close>.\<close>

definition main_loop_step :: "'w int80 \<Rightarrow> gaddrs \<Rightarrow> int \<Rightarrow> int \<times> int \<times> 'w game \<Rightarrow> (int \<times> int \<times> 'w game) res" where
  "main_loop_step K A fd st =
     (let (now, num_draw, s) = st
      in bnd (get_time K s) (\<lambda>(t, s1).
         if now = t then Inr (now, num_draw, s1)
         else bnd (get_time K s1) (\<lambda>(target, s2).
              bnd (bnd (ret (drain_keys K s2)) id) (\<lambda>s3.
              bnd (update_keypress s3) (\<lambda>(_, s4).
              bnd (save_board K A fd s4) (\<lambda>s5.
              let s6 = (if has_added s5 then reset_game s5 else s5);
                  (now1, redraw, num1, s7) = catch_up now target False num_draw s6
              in if redraw
                 then bnd (redraw_screen K A s7) (\<lambda>s8.
                      bnd (save_board K A fd s8) (\<lambda>s9. Inr (now1, i32 (num1 + 1), s9)))
                 else Inr (now1, num1, s7)))))))"

section \<open>Start\<close>

text \<open>\<open>game_main\<close> up to the main loop, from which it does not come back.\<close>

definition game_main :: "'w int80 \<Rightarrow> gaddrs \<Rightarrow> 'w game \<Rightarrow> (int \<times> int \<times> 'w game) res" where
  "game_main K A s =
     bnd (printf K A (str A Welcome) [] s) (\<lambda>(_, s1).
     bnd (printf K A (str A Press_enter) [] s1) (\<lambda>(_, s2).
     bnd (printf K A (str A Load_function) [] s2) (\<lambda>(_, s3).
     bnd (display_buffer K A (prepare_buffer A (s3\<lparr>refresh := False\<rparr>))) (\<lambda>s4.
     bnd (printf K A (str A New_game) [] (s4\<lparr>refresh := True\<rparr>)) (\<lambda>(_, s5).
     bnd (display_buffer K A (prepare_buffer A s5)) (\<lambda>s6. main_loop_start K A (initial_game s6)))))))"

definition fork_test :: "'w int80 \<Rightarrow> gaddrs \<Rightarrow> 'w game \<Rightarrow> (int \<times> 'w game) res" where
  "fork_test K A s =
     bnd (for_res (\<lambda>i s. bnd (fork_call K s) (\<lambda>(_, s1). bnd (printf K A (str A Fork_x) [] s1) (\<lambda>(_, s2). Inr s2))) [0..<2 :: nat] s)
       (exit_call K)"

definition sleep_test :: "'w int80 \<Rightarrow> 'w game \<Rightarrow> (int \<times> 'w game) res" where
  "sleep_test K = sleep_call K 100"

definition exit_test :: "'w int80 \<Rightarrow> 'w game \<Rightarrow> (int \<times> 'w game) res" where
  "exit_test K = exit_call K"

definition getpid_test :: "'w int80 \<Rightarrow> gaddrs \<Rightarrow> 'w game \<Rightarrow> (int \<times> 'w game) res" where
  "getpid_test K A s = bnd (getpid_call K s) (\<lambda>(p, s1). printf K A (str A Pid) [of_int p] s1)"

text \<open>The states of a running game: descriptor of the file, and the locals of the loop.\<close>

inductive game_run :: "'w int80 \<Rightarrow> gaddrs \<Rightarrow> 'w game \<Rightarrow> int \<Rightarrow> int \<times> int \<times> 'w game \<Rightarrow> bool" for K A s0 where
  start: "game_main K A s0 = Inr (now, fd, s) \<Longrightarrow> game_run K A s0 fd (now, 0, s)"
| step: "game_run K A s0 fd st \<Longrightarrow> main_loop_step K A fd st = Inr st' \<Longrightarrow> game_run K A s0 fd st'"

section \<open>The move of the computer\<close>

definition pick :: "u32 \<Rightarrow> nat" where
  "pick x = nat (c_mod (sint (signed_drop_bit 16 x AND 0x7FFF)) 9)"

lemma cell_text_seed [simp]: "cell_text (s\<lparr>seed := x\<rparr>) = cell_text s"
  by (simp add: cell_text_def fun_eq_iff)

lemma rand_eq: "nat (c_mod (fst (rand s)) 9) = pick (lcg (seed s))" "snd (rand s) = s\<lparr>seed := lcg (seed s)\<rparr>"
  by (simp_all add: rand_def Let_def pick_def lcg_def)

lemma computer_move_unfold:
  "computer_move s =
     (let x = lcg (seed s)
      in if cell_text s (pick x) = 0 then Some (set_text (pick x) X_text (s\<lparr>seed := x\<rparr>)) else computer_move (s\<lparr>seed := x\<rparr>))"
  by (subst computer_move.simps) (simp only: rand_eq cell_text_seed Let_def)

lemma random_mask: "signed_drop_bit 16 x AND 0x7FFF = take_bit 15 (drop_bit 16 x)" for x :: u32
proof -
  have "(0x7FFF :: u32) = mask 15" by (simp add: mask_eq_exp_minus_1)
  then show ?thesis
    by (simp only: take_bit_eq_mask [symmetric]) (rule bit_word_eqI, auto simp: bit_simps dest: bit_imp_le_length)
qed

lemma pick_eq: "pick x = unat (take_bit 15 (drop_bit 16 x)) mod 9"
proof -
  let ?w = "take_bit 15 (drop_bit 16 x)"
  have "unat ?w < 2 ^ 15" using take_bit_nat_less_exp [of 15 "unat (drop_bit 16 x)"] by (simp only: unsigned_take_bit_eq)
  then have "sint ?w = int (unat ?w)" by (intro sint_u32) simp
  moreover have "c_mod (int n) 9 = int (n mod 9)" for n by (simp add: c_mod_nonneg zmod_int)
  ultimately show ?thesis by (simp only: pick_def random_mask nat_int)
qed

lemma pick_less: "pick x < 9"
  by (simp add: pick_eq)

lemma shifted_nibble: "w < 16 \<Longrightarrow> take_bit 15 (drop_bit 16 (push_bit 16 w)) = w" for w :: u32
proof -
  assume "w < 16"
  then have "n < 4" if "bit w n" for n using high_bit_below [of w 4 n] that by force
  then show ?thesis by (intro bit_word_eqI) (fastforce simp: bit_simps)
qed

lemma pick_onto: "k < 9 \<Longrightarrow> pick (push_bit 16 (of_nat k)) = k"
proof -
  assume k: "k < 9"
  then have "(of_nat k :: u32) < 16" by (simp add: word_less_nat_alt)
  then show ?thesis using k by (simp add: pick_eq shifted_nibble)
qed

lemma computer_move_finds:
  "cell_text s (pick ((lcg ^^ Suc n) (seed s))) = 0 \<Longrightarrow>
     \<exists>k x. k < 9 \<and> cell_text s k = 0 \<and> computer_move s = Some (set_text k X_text (s\<lparr>seed := x\<rparr>))"
proof (induction n arbitrary: s)
  case 0
  then show ?case using pick_less [of "lcg (seed s)"] by (auto simp: computer_move_unfold Let_def)
next
  case (Suc n)
  let ?s = "s\<lparr>seed := lcg (seed s)\<rparr>"
  show ?case
  proof (cases "cell_text s (pick (lcg (seed s))) = 0")
    case True
    then show ?thesis using pick_less [of "lcg (seed s)"] by (auto simp: computer_move_unfold Let_def)
  next
    case False
    then have "computer_move s = computer_move ?s" by (simp add: computer_move_unfold [of s] Let_def)
    moreover have "cell_text ?s (pick ((lcg ^^ Suc n) (seed ?s))) = 0" using Suc.prems by (simp add: funpow_swap1)
    ultimately show ?thesis using Suc.IH [of ?s] by simp
  qed
qed

lemma computer_move_full:
  assumes "computer_move s = Some s'"
  shows "\<exists>k < 9. cell_text s k = 0"
  using assms
proof (induction rule: computer_move.raw_induct [rotated, where P = "\<lambda>s s'. \<exists>k < 9. cell_text s k = 0", consumes 1])
  case (1 move s s')
  show ?case
  proof (cases "cell_text s (pick (lcg (seed s))) = 0")
    case True
    then show ?thesis using pick_less by blast
  next
    case False
    then have "\<exists>k < 9. cell_text (s\<lparr>seed := lcg (seed s)\<rparr>) k = 0"
      using 1(1) [of "s\<lparr>seed := lcg (seed s)\<rparr>" s'] 1(2) by (simp add: rand_eq Let_def)
    then show ?thesis by simp
  qed
qed

lemma computer_move_some:
  assumes "k < 9" and "cell_text s k = 0"
  obtains k' x where "k' < 9" and "cell_text s k' = 0" and "computer_move s = Some (set_text k' X_text (s\<lparr>seed := x\<rparr>))"
proof -
  obtain n where "(lcg ^^ Suc n) (seed s) = push_bit 16 (of_nat k)" using lcg_reaches by metis
  then have "cell_text s (pick ((lcg ^^ Suc n) (seed s))) = 0" using assms pick_onto by (simp only:)
  then show thesis using computer_move_finds that by blast
qed

lemma computer_move_none: "(\<And>k. k < 9 \<Longrightarrow> cell_text s k \<noteq> 0) \<Longrightarrow> computer_move s = None"
  using computer_move_full [of s] by (cases "computer_move s") auto

section \<open>Properties\<close>

text \<open>
  C23: The move of the computer: the search for a free cell, \<open>while (1)\<close> over random numbers, ends if and
  only if one of the nine cells is free, from every seed; then exactly one free cell becomes
  an \<open>X\<close>.
\<close>

theorem computer_move_ends:
  "if \<exists>k < 9. cell_text s k = 0
   then \<exists>k x. k < 9 \<and> cell_text s k = 0 \<and> computer_move s = Some (set_text k X_text (s\<lparr>seed := x\<rparr>))
   else computer_move s = None"
proof (cases "\<exists>k < 9. cell_text s k = 0")
  case True
  then obtain k where "k < 9" "cell_text s k = 0" by blast
  then obtain k' x where "k' < 9" "cell_text s k' = 0" "computer_move s = Some (set_text k' X_text (s\<lparr>seed := x\<rparr>))"
    by (rule computer_move_some)
  then show ?thesis using True by auto
qed (simp add: computer_move_none)

end
