(* ===== verification/Game_Rules.thy ===== *)
theory Game_Rules
  imports Game
begin

text \<open>
  What the rules and the main loop of the game guarantee, for any kernel behind the system calls:
  the board stays well formed, a frame is drawn inside the buffer, and the game never gets
  stuck in the computer's search for a free cell if the board it started from had an even
  number of free cells.
\<close>

section \<open>The board\<close>

definition game_ok :: "'w game \<Rightarrow> bool" where
  "game_ok s \<longleftrightarrow> length (box s) = 10 \<and> length (letter_pressed s) = 10 \<and>
     (\<forall>j < 9. box_index (box s ! j) = int j \<and> box_x (box s ! j) = 60 + 60 * int (j div 3) \<and>
       box_y (box s ! j) = 100 + 100 * int (j mod 3) \<and> cell_text s j \<in> {0, O_text, X_text})"

definition free_cells :: "'w game \<Rightarrow> nat set" where
  "free_cells s = {j. j < 9 \<and> cell_text s j = 0}"

lemma finite_free [simp]: "finite (free_cells s)"
  by (simp add: free_cells_def)

text \<open>Operations that leave the board alone.\<close>

definition same_board :: "'w game \<Rightarrow> 'w game \<Rightarrow> bool" where
  "same_board s s' \<longleftrightarrow> box s' = box s \<and> length (letter_pressed s') = length (letter_pressed s)"

lemma same_board_refl [simp, intro]: "same_board s s"
  by (simp add: same_board_def)

lemma same_board_trans: "same_board s s1 \<Longrightarrow> same_board s1 s2 \<Longrightarrow> same_board s s2"
  by (simp add: same_board_def)

lemma same_board_upd [simp]:
  "same_board s (s1\<lparr>gmem := m\<rparr>) = same_board s s1" "same_board s (s1\<lparr>os := w\<rparr>) = same_board s s1"
  "same_board s (s1\<lparr>winner := v\<rparr>) = same_board s s1" "same_board s (s1\<lparr>refresh := b\<rparr>) = same_board s s1"
  "same_board s (s1\<lparr>real_fps := v\<rparr>) = same_board s s1" "same_board s (s1\<lparr>seed := x\<rparr>) = same_board s s1"
  "same_board s (s1\<lparr>has_added := b\<rparr>) = same_board s s1" "same_board s (s1\<lparr>winp := v\<rparr>) = same_board s s1"
  "same_board s (s1\<lparr>winc := v\<rparr>) = same_board s s1"
  "same_board (s\<lparr>gmem := m\<rparr>) s1 = same_board s s1" "same_board (s\<lparr>winner := v\<rparr>) s1 = same_board s s1"
  "same_board (s\<lparr>refresh := b\<rparr>) s1 = same_board s s1" "same_board (s\<lparr>real_fps := v\<rparr>) s1 = same_board s s1"
  by (simp_all add: same_board_def)

lemma same_board_text: "same_board s s' \<Longrightarrow> cell_text s' = cell_text s"
  by (simp add: same_board_def cell_text_def fun_eq_iff)

lemma same_board_ok: "same_board s s' \<Longrightarrow> game_ok s' = game_ok s \<and> free_cells s' = free_cells s"
  using same_board_text [of s s'] by (simp add: game_ok_def free_cells_def same_board_def)

lemma for_res_board:
  assumes "\<And>i u u'. f i u = Inr u' \<Longrightarrow> same_board u u'"
  shows "for_res f is s = Inr s' \<Longrightarrow> same_board s s'"
proof (induction "is" arbitrary: s)
  case (Cons i "is")
  from Cons.prems obtain u where u: "f i s = Inr u" "for_res f is u = Inr s'" by (auto simp: bnd_Inr_iff)
  show ?case by (rule same_board_trans [OF assms [OF u(1)] Cons.IH [OF u(2)]])
qed simp

lemma syscall_board: "syscall K nr b c d s = Inr (r, s') \<Longrightarrow> same_board s s'"
  by (auto simp: syscall_def bnd_Inr_iff)

lemmas call_defs = str_write_def get_time_def get_kbd_def put_video_def open_call_def read_call_def write_call_def lseek_call_def

lemma call_board:
  "str_write K fd buf n s = Inr (r, s') \<Longrightarrow> same_board s s'" "get_time K s = Inr (r, s') \<Longrightarrow> same_board s s'"
  "get_kbd K s = Inr (r, s') \<Longrightarrow> same_board s s'" "put_video K buf s = Inr (r, s') \<Longrightarrow> same_board s s'"
  "open_call K p v s = Inr (r, s') \<Longrightarrow> same_board s s'" "read_call K fd buf n s = Inr (r, s') \<Longrightarrow> same_board s s'"
  "write_call K fd buf n s = Inr (r, s') \<Longrightarrow> same_board s s'" "lseek_call K fd v n s = Inr (r, s') \<Longrightarrow> same_board s s'"
  unfolding call_defs by (erule syscall_board)+

lemma printf_board: "printf K A ctl args s = Inr (r, s') \<Longrightarrow> same_board s s'"
  by (auto simp: printf_def bnd_Inr_iff dest: call_board)

lemma display_board: "display_buffer K A s = Inr s' \<Longrightarrow> same_board s s'"
  by (auto simp: display_buffer_def bnd_Inr_iff dest: call_board)

text \<open>The keyboard.\<close>

lemma key_fold:
  "fold (\<lambda>i s. if P i then s\<lparr>letter_pressed := (letter_pressed s)[i := b]\<rparr> else s) is s =
     s\<lparr>letter_pressed := fold (\<lambda>i l. if P i then l[i := b] else l) is (letter_pressed s)\<rparr>"
  by (induction "is" arbitrary: s) auto

lemma key_fold_length: "length (fold (\<lambda>i l. if P i then l[i := b] else l) is l) = length l"
  by (induction "is" arbitrary: l) auto

lemma key_board [simp]: "same_board s (press_key c s)" "same_board s (release_key c s)"
  by (simp_all add: press_key_def release_key_def key_fold enable_refresh_def close_refresh_def Let_def same_board_def key_fold_length)

lemma process_keys_board: "process_keys K s = Inr (b, s') \<Longrightarrow> same_board s s'"
  by (auto simp: process_keys_def bnd_Inr_iff Let_def dest!: call_board split: if_splits intro: same_board_trans)

lemma drain_keys_board:
  assumes "drain_keys K s = Some r" and "r = Inr s'"
  shows "same_board s s'"
proof -
  have "case r of Inl e \<Rightarrow> True | Inr s' \<Rightarrow> same_board s s'"
    using assms(1)
  proof (induction rule: drain_keys.raw_induct [rotated, where P = "\<lambda>K s r. case r of Inl e \<Rightarrow> True | Inr s' \<Rightarrow> same_board s s'", consumes 1])
    case (1 drain K s r)
    show ?case
    proof (cases "process_keys K s")
      case (Inl e)
      then show ?thesis using 1(2) by auto
    next
      case (Inr p)
      obtain b s1 where p: "p = (b, s1)" by (cases p)
      have s1: "same_board s s1" using process_keys_board Inr p by blast
      show ?thesis
      proof (cases b)
        case True
        then have "drain K s1 = Some r" using 1(2) Inr p by simp
        then show ?thesis using 1(1) [of K s1 r] s1 by (auto split: sum.splits intro: same_board_trans)
      next
        case False
        then show ?thesis using 1(2) Inr p s1 by auto
      qed
    qed
  qed
  then show ?thesis using assms(2) by simp
qed

text \<open>Drawing.\<close>

lemma draw_pixel_board: "draw_pixel A x y c s = Inr s' \<Longrightarrow> same_board s s'"
  by (auto simp: draw_pixel_def Let_def split: if_splits)

lemma draw_character_board:
  assumes "draw_character A ch x y c s = Inr s'"
  shows "same_board s s'"
proof -
  let ?f = "\<lambda>i j s. if drop_bit j (font8x8_basic ! nat (sint ch) ! i) AND 1 \<noteq> 0 then draw_pixel A (x + int i) (y + int j) c s else Inr s"
  have "for_res (\<lambda>i. for_res (?f i) [0..<8]) [0..<8] s = Inr s'"
    using assms by (simp add: draw_character_def Let_def split: if_splits)
  moreover have "same_board u u'" if "for_res (?f i) [0..<8] u = Inr u'" for i u u'
    by (rule for_res_board [OF _ that]) (auto dest: draw_pixel_board split: if_splits)
  ultimately show ?thesis by (rule for_res_board [rotated])
qed

lemmas draw_chars_induct = draw_chars.raw_induct
  [where xa = "(((((A, p), x), y), c), s)" for A p x y c s, unfolded split_paired_all split_conv, rotated, consumes 1]

lemma draw_chars_board:
  assumes "draw_chars A p x y c s = Some r" and "r = Inr s'"
  shows "same_board s s'"
proof -
  have "case r of Inl e \<Rightarrow> True | Inr s' \<Rightarrow> same_board s s'"
    using assms(1)
  proof (induction rule: draw_chars_induct [where P = "\<lambda>A p x y c s r. case r of Inl e \<Rightarrow> True | Inr s' \<Rightarrow> same_board s s'"])
    case (1 draw A p x y c s r)
    show ?case
    proof (cases "gmem s p = 0")
      case True
      then show ?thesis using 1(2) by auto
    next
      case False
      show ?thesis
      proof (cases "draw_character A (gmem s p) x y c s")
        case (Inl e)
        then have "r = Inl e" using 1(2) False by simp
        then show ?thesis by simp
      next
        case (Inr s1)
        then obtain x1 y1 where "draw A (p + 1) x1 y1 c s1 = Some r" using 1(2) False by (auto split: if_splits)
        then show ?thesis using 1(1) draw_character_board [OF Inr] by (fastforce split: sum.splits intro: same_board_trans)
      qed
    qed
  qed
  then show ?thesis using assms(2) by simp
qed

lemma ret_Inr_iff: "ret r = Inr x \<longleftrightarrow> r = Some x"
  by (simp add: ret_def split: option.splits)

lemma draw_string_board: "draw_string A p x y c s = Inr s' \<Longrightarrow> same_board s s'"
  by (auto simp: draw_string_def bnd_Inr_iff ret_Inr_iff dest: draw_chars_board)

lemma draw_fps_board:
  assumes "draw_fps A s = Inr s'"
  shows "same_board s s'"
proof -
  obtain m1 p1 where i: "itoa (gmem s) (ga_itoa A) (get_fps s) = (m1, p1)" by fastforce
  then obtain s1 where s1: "draw_string A p1 0 0 14 (s\<lparr>gmem := m1\<rparr>) = Inr s1"
    using assms by (auto simp: draw_fps_def bnd_Inr_iff)
  obtain m2 p2 where j: "itoa (gmem s1) (ga_itoa A) (get_fps s1) = (m2, p2)" by fastforce
  then obtain n where "draw_string A (ga_str A Fps_label) 0 (n * 8) 14 (s1\<lparr>gmem := m2\<rparr>) = Inr s'"
    using assms i s1 by (auto simp: draw_fps_def bnd_Inr_iff)
  then show ?thesis using draw_string_board [OF s1] draw_string_board by (fastforce intro: same_board_trans)
qed

lemma redraw_board:
  assumes "redraw_screen K A s = Inr s'"
  shows "same_board s s'"
proof -
  obtain s1 s2 s3 where s: "draw_cells A (prepare_buffer A s) = Inr s1" "judge K A s1 = Inr s2" "draw_fps A s2 = Inr s3"
    "display_buffer K A s3 = Inr s'"
    using assms by (auto simp: redraw_screen_def bnd_Inr_iff)
  have "same_board (prepare_buffer A s) s1"
    using s(1) unfolding draw_cells_def
    by (rule for_res_board [rotated]) (auto dest: draw_character_board split: if_splits)
  then have "same_board s s1" by (simp add: prepare_buffer_def)
  moreover have "same_board s1 s2"
    using s(2) by (auto simp: judge_def bnd_Inr_iff dest!: printf_board split: if_splits intro: same_board_trans)
  moreover have "same_board s2 s3"
    using draw_fps_board [OF s(3)] .
  ultimately show ?thesis using display_board [OF s(4)] same_board_trans by blast
qed

lemma save_board_board: "save_board K A fd s = Inr s' \<Longrightarrow> same_board s s'"
proof -
  assume a: "save_board K A fd s = Inr s'"
  let ?f = "\<lambda>i s. bnd (write_call K fd (ga_charac A) 1 (s\<lparr>gmem := (gmem s)(ga_charac A := cell_text s i)\<rparr>)) (\<lambda>(_, s1). Inr s1)"
  obtain r s1 where s1: "lseek_call K fd 0 0 s = Inr (r, s1)" "for_res ?f [0..<9] s1 = Inr s'"
    using a by (auto simp: save_board_def bnd_Inr_iff)
  have "same_board u u'" if "?f i u = Inr u'" for i u u'
    using that by (auto simp: bnd_Inr_iff dest: call_board)
  from for_res_board [OF this s1(2)] show ?thesis by (rule same_board_trans [OF call_board(8) [OF s1(1)]])
qed

lemma catch_up_board: "same_board s (snd (snd (snd (catch_up now target redraw n s))))"
proof (induction now target redraw n s rule: catch_up.induct)
  case (1 now target redraw n s)
  show ?case
    using 1 by (subst catch_up.simps) (auto simp: Let_def set_fps_def split: if_splits)
qed

section \<open>Moves\<close>

lemma box_set_text:
  "box (set_text j ch s) ! k = (if k = j \<and> j < length (box s) then (box s ! j)\<lparr>box_text := ch\<rparr> else box s ! k)"
  by (cases "k = j"; cases "j < length (box s)") (simp_all add: set_text_def list_update_beyond not_less)

lemma set_text_fields [simp]:
  "length (box (set_text j ch s)) = length (box s)" "letter_pressed (set_text j ch s) = letter_pressed s"
  "box_index (box (set_text j ch s) ! k) = box_index (box s ! k)" "box_x (box (set_text j ch s) ! k) = box_x (box s ! k)"
  "box_y (box (set_text j ch s) ! k) = box_y (box s ! k)"
  by (simp_all add: box_set_text) (simp_all add: set_text_def)

lemma cell_text_set: "j < length (box s) \<Longrightarrow> cell_text (set_text j ch s) k = (if k = j then ch else cell_text s k)"
  by (simp add: cell_text_def set_text_def nth_list_update)

lemma game_ok_set: "game_ok s \<Longrightarrow> j < 9 \<Longrightarrow> ch \<in> {0, O_text, X_text} \<Longrightarrow> game_ok (set_text j ch s)"
  by (auto simp: game_ok_def cell_text_set)

lemma game_ok_seed [simp]: "game_ok (s\<lparr>seed := x\<rparr>) = game_ok s" "free_cells (s\<lparr>seed := x\<rparr>) = free_cells s"
  "game_ok (s\<lparr>has_added := b\<rparr>) = game_ok s" "free_cells (s\<lparr>has_added := b\<rparr>) = free_cells s"
  by (simp_all add: game_ok_def free_cells_def cell_text_def)

lemma free_set: "game_ok s \<Longrightarrow> ch \<noteq> 0 \<Longrightarrow> j < 9 \<Longrightarrow> free_cells (set_text j ch s) = free_cells s - {j}"
  by (auto simp: free_cells_def cell_text_set game_ok_def)

lemma find_cell_eq:
  "game_ok s \<Longrightarrow> set js \<subseteq> {..<9} \<Longrightarrow>
     find_cell js s = Inr (find (\<lambda>j. cell_text s j = 0 \<and> letter_pressed s ! j) js)"
  by (induction js) (auto simp: game_ok_def query_key_def)

text \<open>A move: the player's \<open>O\<close> and the computer's \<open>X\<close>, or no answer if the board is full.\<close>

lemma move_ok:
  assumes "game_ok s" and "j \<in> free_cells s" and "free_cells s \<noteq> {j}"
  obtains s' where "computer_move (set_text j O_text s) = Some s'" and "game_ok s'"
    and "Suc (Suc (card (free_cells s'))) = card (free_cells s)"
proof -
  have j: "j < 9" using assms(2) by (simp add: free_cells_def)
  let ?s = "set_text j O_text s"
  have ok: "game_ok ?s" by (rule game_ok_set [OF assms(1) j]) simp
  have fr: "free_cells ?s = free_cells s - {j}" by (rule free_set [OF assms(1) _ j]) simp
  then obtain k where k: "k \<in> free_cells ?s" using assms(2,3) by blast
  then obtain k' x where k': "k' < 9" "cell_text ?s k' = 0" "computer_move ?s = Some (set_text k' X_text (?s\<lparr>seed := x\<rparr>))"
    by (auto simp: free_cells_def elim: computer_move_some)
  let ?r = "set_text k' X_text (?s\<lparr>seed := x\<rparr>)"
  have "free_cells ?r = free_cells ?s - {k'}" using free_set [of "?s\<lparr>seed := x\<rparr>" X_text k'] ok k' by simp
  moreover have "k' \<in> free_cells ?s" using k'(1,2) by (simp add: free_cells_def)
  ultimately have "Suc (card (free_cells ?r)) = card (free_cells ?s)" by (simp only: card_Suc_Diff1 [OF finite_free])
  moreover have "Suc (card (free_cells ?s)) = card (free_cells s)" unfolding fr by (rule card_Suc_Diff1 [OF finite_free assms(2)])
  moreover have "game_ok ?r" by (rule game_ok_set) (use ok k' in simp_all)
  ultimately show thesis using that [of ?r] k'(3) by simp
qed

lemma move_hangs:
  assumes "game_ok s" and "free_cells s = {j}"
  shows "computer_move (set_text j O_text s) = None"
proof (rule computer_move_none)
  fix k :: nat
  assume "k < 9"
  have j: "j < 9" using assms(2) by (auto simp: free_cells_def)
  have "free_cells (set_text j O_text s) = {}" using free_set [OF assms(1) _ j, of O_text] assms(2) by simp
  then show "cell_text (set_text j O_text s) k \<noteq> 0" using \<open>k < 9\<close> by (auto simp: free_cells_def)
qed

text \<open>A new game.\<close>

lemma clear_fold:
  "n \<le> length (box s) \<Longrightarrow>
     (let s' = fold (\<lambda>i s. s\<lparr>box := (box s)[i := (box s ! i)\<lparr>box_index := int i, box_text := 0\<rparr>]\<rparr>) [0..<n] s
      in length (box s') = length (box s) \<and> letter_pressed s' = letter_pressed s \<and>
         (\<forall>i < length (box s). box s' ! i = (if i < n then (box s ! i)\<lparr>box_index := int i, box_text := 0\<rparr> else box s ! i)))"
  by (induction n) (auto simp: Let_def nth_list_update less_Suc_eq)

lemma clear_cells:
  assumes "length (box s) = 10"
  shows "length (box (clear_cells s)) = 10" "letter_pressed (clear_cells s) = letter_pressed s"
    "i < 9 \<Longrightarrow> box (clear_cells s) ! i = (box s ! i)\<lparr>box_index := int i, box_text := 0\<rparr>"
  using clear_fold [of 9 s] assms by (simp_all add: clear_cells_def Let_def)

lemma release_keys_board [simp]: "same_board s (release_keys s)"
proof -
  have "same_board s (fold (\<lambda>i. release_key (int i)) is s)" for "is"
    by (induction "is" arbitrary: s) (auto intro: same_board_trans key_board)
  then show ?thesis by (simp add: release_keys_def)
qed

lemma release_keys_fields: "box (release_keys s) = box s" "length (letter_pressed (release_keys s)) = length (letter_pressed s)"
  using release_keys_board [of s] by (simp_all only: same_board_def)

lemma new_board:
  assumes "\<And>k. cell_text s k = (if k = 4 then X_text else if k < 9 then 0 else f k)"
  shows "even (card (free_cells s))"
proof -
  have "free_cells s = {..<9} - {4}" using assms by (auto simp: free_cells_def)
  then show ?thesis by simp
qed

lemma reset_ok:
  assumes "game_ok s"
  shows "game_ok (reset_game s) \<and> even (card (free_cells (reset_game s)))"
proof -
  let ?s = "s\<lparr>winner := 0, winp := 0, winc := 0\<rparr>"
  have l: "length (box ?s) = 10" "length (letter_pressed s) = 10" using assms by (simp_all add: game_ok_def)
  let ?c = "release_keys (clear_cells ?s)"
  have c: "game_ok ?c" and t: "\<And>k. k < 9 \<Longrightarrow> cell_text ?c k = 0"
    using assms clear_cells [OF l(1)] l by (simp_all add: game_ok_def release_keys_fields cell_text_def)
  let ?r = "set_text 4 X_text ?c"
  have ok: "game_ok ?r" by (rule game_ok_set [OF c]) simp_all
  have len: "length (box ?c) = 10" using c by (simp add: game_ok_def)
  have "even (card (free_cells ?r))"
    by (rule new_board [where f = "cell_text ?r"]) (use t len in \<open>simp add: cell_text_set\<close>)
  moreover have "same_board ?r (reset_game s)" by (simp add: reset_game_def Let_def)
  ultimately show ?thesis using ok same_board_ok by metis
qed

text \<open>\<open>update_keypress\<close> once the cell of the player's move is known.\<close>

definition pressed_cell :: "'w game \<Rightarrow> nat option" where
  "pressed_cell s = find (\<lambda>j. cell_text s j = 0 \<and> letter_pressed s ! j) [0..<9]"

lemma pressed_cell_Some: "pressed_cell s = Some j \<Longrightarrow> j \<in> free_cells s \<and> letter_pressed s ! j"
  by (auto simp: pressed_cell_def free_cells_def find_Some_iff)

lemma pressed_cell_None: "pressed_cell s = None \<Longrightarrow> j \<in> free_cells s \<Longrightarrow> \<not> letter_pressed s ! j"
  by (auto simp: pressed_cell_def free_cells_def find_None_iff)

definition end_move :: "nat option \<Rightarrow> 'w game \<Rightarrow> (bool \<times> 'w game) res" where
  "end_move f s1 = bnd (query_key 9 s1) (\<lambda>enter.
     if enter then Inr (True, reset_game (s1\<lparr>has_added := True\<rparr>))
     else case f of None \<Rightarrow> Inr (False, s1)
          | Some j \<Rightarrow> if j + 1 \<noteq> 9 then Inr (True, release_key (box_index (box s1 ! j)) s1) else Inr (False, s1))"

lemma update_keypress_eq:
  assumes "game_ok s"
  shows "update_keypress s =
    bnd (case pressed_cell s of None \<Rightarrow> Inr s | Some j \<Rightarrow> ret (computer_move (set_text j O_text s))) (end_move (pressed_cell s))"
proof -
  have "find_cell [0..<9] s = Inr (pressed_cell s)" unfolding pressed_cell_def by (rule find_cell_eq [OF assms]) auto
  then show ?thesis unfolding update_keypress_def end_move_def [abs_def] by (simp only: bnd_simps)
qed

lemma end_move_ok:
  assumes "game_ok s1" and "even (card (free_cells s1))"
  shows "\<exists>b s'. end_move f s1 = Inr (b, s') \<and> game_ok s' \<and> even (card (free_cells s'))"
proof -
  have reset: "game_ok (reset_game (s1\<lparr>has_added := True\<rparr>)) \<and> even (card (free_cells (reset_game (s1\<lparr>has_added := True\<rparr>))))"
    by (rule reset_ok) (simp add: assms(1))
  have release: "game_ok (release_key c s1) \<and> even (card (free_cells (release_key c s1)))" for c
    using same_board_ok [OF key_board(2), of c s1] assms by metis
  show ?thesis
  proof (cases "letter_pressed s1 ! 9")
    case True
    then show ?thesis using reset by (auto simp: end_move_def query_key_def)
  next
    case False
    then show ?thesis using assms release by (cases f) (auto simp: end_move_def query_key_def)
  qed
qed

lemma end_move_returns: "end_move f s1 \<noteq> Inl Hang"
  by (cases f) (simp_all add: end_move_def query_key_def)

lemma update_keypress_even:
  assumes "game_ok s" and "even (card (free_cells s))"
  shows "\<exists>b s'. update_keypress s = Inr (b, s') \<and> game_ok s' \<and> even (card (free_cells s'))"
proof (cases "pressed_cell s")
  case None
  then show ?thesis using end_move_ok [OF assms] by (simp add: update_keypress_eq [OF assms(1)])
next
  case (Some j)
  have "free_cells s \<noteq> {j}" using assms(2) by auto
  with pressed_cell_Some [OF Some] obtain s1 where s1: "computer_move (set_text j O_text s) = Some s1" "game_ok s1"
    "Suc (Suc (card (free_cells s1))) = card (free_cells s)" using move_ok [OF assms(1)] by metis
  then have "even (card (free_cells s1))" using assms(2) by (metis even_Suc)
  from end_move_ok [OF s1(2) this] show ?thesis
    using Some s1(1) by (simp add: update_keypress_eq [OF assms(1)] ret_def)
qed

lemma update_keypress_alone:
  assumes "game_ok s"
  shows "update_keypress s = Inl Hang \<longleftrightarrow> (\<exists>j. free_cells s = {j} \<and> letter_pressed s ! j)"
proof (cases "pressed_cell s")
  case None
  then have "update_keypress s \<noteq> Inl Hang" by (simp add: update_keypress_eq [OF assms] end_move_returns)
  then show ?thesis using pressed_cell_None [OF None] by auto
next
  case (Some j)
  note p = pressed_cell_Some [OF Some]
  show ?thesis
  proof (cases "free_cells s = {j}")
    case True
    then show ?thesis using Some p move_hangs [OF assms True] by (simp add: update_keypress_eq [OF assms] ret_def)
  next
    case False
    then obtain s1 where "computer_move (set_text j O_text s) = Some s1" using move_ok [OF assms] p by metis
    then have "update_keypress s = end_move (Some j) s1" using Some by (simp add: update_keypress_eq [OF assms] ret_def)
    then have "update_keypress s \<noteq> Inl Hang" by (simp add: end_move_returns)
    then show ?thesis using False p by auto
  qed
qed

section \<open>Runs of the game\<close>

lemma all_less_9: "(\<forall>j < 9. P j) \<longleftrightarrow> P 0 \<and> P 1 \<and> P 2 \<and> P 3 \<and> P 4 \<and> P 5 \<and> P 6 \<and> P 7 \<and> P (8 :: nat)"
proof -
  have "{..<9 :: nat} = {0, 1, 2, 3, 4, 5, 6, 7, 8}" by (auto simp: lessThan_nat_numeral)
  then have "(\<forall>j \<in> {..<9}. P j) \<longleftrightarrow> (\<forall>j \<in> {0, 1, 2, 3, 4, 5, 6, 7, 8}. P j)" by (simp only:)
  then show ?thesis by (simp only: lessThan_iff Ball_def [of "{..<9}"] ball_simps simp_thms)
qed

lemma place_fold:
  assumes "s' = fold (\<lambda>(j, x, y) s. s\<lparr>box := (box s)[j := (box s ! j)\<lparr>box_x := x, box_y := y\<rparr>]\<rparr>) ps s"
    and "distinct (map fst ps)" and "\<forall>(j, x, y) \<in> set ps. j < length (box s)"
  shows "length (box s') = length (box s) \<and> letter_pressed s' = letter_pressed s \<and>
       (\<forall>(j, x, y) \<in> set ps. box_x (box s' ! j) = x \<and> box_y (box s' ! j) = y) \<and>
       (\<forall>j. j \<notin> fst ` set ps \<longrightarrow> box s' ! j = box s ! j)"
  using assms
proof (induction ps arbitrary: s)
  case (Cons p ps)
  obtain j x y where p: "p = (j, x, y)" by (cases p)
  let ?s = "s\<lparr>box := (box s)[j := (box s ! j)\<lparr>box_x := x, box_y := y\<rparr>]\<rparr>"
  have "box ?s ! j = (box s ! j)\<lparr>box_x := x, box_y := y\<rparr>" "j \<notin> fst ` set ps" using Cons.prems p by auto
  then show ?case using Cons.IH [of ?s] Cons.prems p by (auto simp: Let_def)
qed simp

lemma initial_ok:
  assumes "length (box s) = 10" and "length (letter_pressed s) = 10"
  shows "game_ok (initial_game s)"
proof -
  let ?ps = "[(0, 60, 100), (1, 60, 200), (2, 60, 300), (3, 120, 100), (4, 120, 200), (5, 120, 300),
     (6, 180, 100), (7, 180, 200), (8, 180, 300)] :: (nat \<times> int \<times> int) list"
  define q where "q = fold (\<lambda>(j, x, y) s. s\<lparr>box := (box s)[j := (box s ! j)\<lparr>box_x := x, box_y := y\<rparr>]\<rparr>) ?ps
    (s\<lparr>winner := 0, winp := 0, winc := 0, has_added := False\<rparr>)"
  have d: "distinct (map fst ?ps)" "\<forall>(j, x, y) \<in> set ?ps. j < length (box (s\<lparr>winner := 0, winp := 0, winc := 0, has_added := False\<rparr>))"
    using assms by simp_all
  have q: "length (box q) = 10" "length (letter_pressed q) = 10" "\<forall>(j, x, y) \<in> set ?ps. box_x (box q ! j) = x \<and> box_y (box q ! j) = y"
    using conjunct1 [OF place_fold [OF q_def d]] conjunct1 [OF conjunct2 [OF place_fold [OF q_def d]]]
      conjunct1 [OF conjunct2 [OF conjunct2 [OF place_fold [OF q_def d]]]] assms
    by simp_all
  let ?k = "release_keys q"
  have len: "length (box ?k) = 10" "length (letter_pressed ?k) = 10" using q by (simp_all add: release_keys_fields)
  have xy: "\<forall>j < 9. box_x (box ?k ! j) = 60 + 60 * int (j div 3) \<and> box_y (box ?k ! j) = 100 + 100 * int (j mod 3)"
    unfolding all_less_9 using q(3) by (simp add: release_keys_fields)
  have "game_ok (clear_cells ?k)"
    using clear_cells [OF len(1)] len xy by (simp add: game_ok_def cell_text_def)
  then have "game_ok (set_text 4 X_text (clear_cells ?k))" by (rule game_ok_set) simp_all
  moreover have "initial_game s = set_text 4 X_text (clear_cells ?k)" unfolding initial_game_def Let_def q_def ..
  ultimately show ?thesis by simp
qed

lemma for_res_keeps:
  assumes "\<And>i u u'. i \<in> set is \<Longrightarrow> f i u = Inr u' \<Longrightarrow> I u \<Longrightarrow> I u'"
  shows "for_res f is s = Inr s' \<Longrightarrow> I s \<Longrightarrow> I s'"
  using assms by (induction "is" arbitrary: s) (auto simp: bnd_Inr_iff)

lemma load_board_ok:
  assumes "load_board K A fd s = Inr s'" and "game_ok s"
  shows "game_ok s'"
proof -
  let ?f = "\<lambda>i s. bnd (read_call K fd (ga_charac A) 1 s) (\<lambda>(_, s1).
     bnd (printf K A (ga_str A Hex) [scast (gmem s1 (ga_charac A))] s1) (\<lambda>(_, s2).
       let charac = gmem s2 (ga_charac A)
       in Inr (set_text i (if charac \<noteq> X_text \<and> charac \<noteq> O_text then 0 else charac) s2)))"
  have f: "game_ok u'" if i: "i \<in> set [0..<9]" and u: "?f i u = Inr u'" "game_ok u" for i u u'
  proof -
    obtain r1 u1 r2 u2 where 1: "read_call K fd (ga_charac A) 1 u = Inr (r1, u1)"
      "printf K A (ga_str A Hex) [scast (gmem u1 (ga_charac A))] u1 = Inr (r2, u2)"
      "u' = set_text i (if gmem u2 (ga_charac A) \<noteq> X_text \<and> gmem u2 (ga_charac A) \<noteq> O_text then 0 else gmem u2 (ga_charac A)) u2"
      using u(1) by (auto simp: bnd_Inr_iff Let_def)
    have "same_board u u2" using call_board(6) [OF 1(1)] printf_board [OF 1(2)] by (rule same_board_trans)
    then have "game_ok u2" using same_board_ok u(2) by metis
    then show ?thesis unfolding 1(3) by (rule game_ok_set) (use i in auto)
  qed
  have "for_res ?f [0..<9] s = Inr s'" using assms(1) by (simp only: load_board_def)
  then show ?thesis by (rule for_res_keeps [where I = game_ok, rotated]) (use assms(2) f in blast)+
qed

lemma main_loop_start_ok:
  assumes "main_loop_start K A s = Inr (now, fd, s')" and "game_ok s"
  shows "game_ok s'"
proof -
  obtain s1 s2 s3 r where 1: "get_time K s = Inr (now, s1)" "open_call K (ga_str A File_name) 2 s1 = Inr (fd, s2)"
    "load_board K A fd s2 = Inr s3" "printf K A (ga_str A Newline) [] s3 = Inr (r, s')"
    using assms(1) by (auto simp: main_loop_start_def bnd_Inr_iff)
  have "game_ok s2" using assms(2) call_board(2) [OF 1(1)] call_board(5) [OF 1(2)] same_board_ok by metis
  then have "game_ok s3" by (rule load_board_ok [OF 1(3)])
  then show ?thesis using printf_board [OF 1(4)] same_board_ok by metis
qed

lemma game_main_ok:
  assumes "game_main K A s = Inr (now, fd, s')" and "length (box s) = 10" and "length (letter_pressed s) = 10"
  shows "game_ok s'"
proof -
  obtain r1 s1 r2 s2 r3 s3 s4 r5 s5 s6 where 1: "printf K A (ga_str A Welcome) [] s = Inr (r1, s1)"
    "printf K A (ga_str A Press_enter) [] s1 = Inr (r2, s2)" "printf K A (ga_str A Load_function) [] s2 = Inr (r3, s3)"
    "display_buffer K A (prepare_buffer A (s3\<lparr>refresh := False\<rparr>)) = Inr s4"
    "printf K A (ga_str A New_game) [] (s4\<lparr>refresh := True\<rparr>) = Inr (r5, s5)"
    "display_buffer K A (prepare_buffer A s5) = Inr s6" "main_loop_start K A (initial_game s6) = Inr (now, fd, s')"
    using assms(1) by (auto simp: game_main_def bnd_Inr_iff)
  have "same_board s3 s4" "same_board s4 s5" "same_board s5 s6"
    using display_board [OF 1(4)] printf_board [OF 1(5)] display_board [OF 1(6)] by (simp_all add: prepare_buffer_def)
  then have "same_board s s6"
    using printf_board [OF 1(1)] printf_board [OF 1(2)] printf_board [OF 1(3)] same_board_trans by metis
  then have "game_ok (initial_game s6)" using assms(2,3) by (intro initial_ok) (simp_all add: same_board_def)
  then show ?thesis by (rule main_loop_start_ok [OF 1(7)])
qed

text \<open>One iteration of the main loop, for a board with an even number of free cells.\<close>

definition even_board :: "'w game \<Rightarrow> bool" where
  "even_board s \<longleftrightarrow> game_ok s \<and> even (card (free_cells s))"

lemma even_board_same: "same_board s s' \<Longrightarrow> even_board s \<Longrightarrow> even_board s'"
  using same_board_ok [of s s'] by (simp add: even_board_def)

lemma main_loop_step_even:
  assumes "main_loop_step K A fd (now, n, s) = Inr (now', n', s')" and "even_board s"
  shows "even_board s'"
proof -
  obtain t s1 where s1: "get_time K s = Inr (t, s1)" using assms(1) by (auto simp: main_loop_step_def bnd_Inr_iff)
  have e1: "even_board s1" by (rule even_board_same [OF call_board(2) [OF s1] assms(2)])
  show ?thesis
  proof (cases "now = t")
    case True
    then show ?thesis using assms(1) s1 e1 by (simp add: main_loop_step_def)
  next
    case False
    then obtain target s2 r s3 b s4 s5 where 1: "get_time K s1 = Inr (target, s2)" "drain_keys K s2 = Some r" "r = Inr s3"
      "update_keypress s3 = Inr (b, s4)" "save_board K A fd s4 = Inr s5"
      using assms(1) s1 by (auto simp: main_loop_step_def bnd_Inr_iff ret_Inr_iff Let_def)
    have "same_board s1 s3" by (rule same_board_trans [OF call_board(2) [OF 1(1)] drain_keys_board [OF 1(2,3)]])
    then have "even_board s3" using e1 by (rule even_board_same)
    then have "even_board s4" using update_keypress_even [of s3] 1(4) by (auto simp: even_board_def)
    then have e5: "even_board s5" by (rule even_board_same [OF save_board_board [OF 1(5)]])
    let ?s6 = "if has_added s5 then reset_game s5 else s5"
    have e6: "even_board ?s6" using reset_ok [of s5] e5 by (simp add: even_board_def)
    obtain now1 redraw num1 s7 where c: "catch_up now target False n ?s6 = (now1, redraw, num1, s7)" by (metis prod_cases4)
    have e7: "even_board s7" using even_board_same [OF catch_up_board e6] c by (metis snd_conv)
    show ?thesis
    proof (cases redraw)
      case False
      then show ?thesis using assms(1) s1 \<open>now \<noteq> t\<close> 1 c e7 by (simp add: main_loop_step_def ret_def)
    next
      case True
      then obtain s8 where "redraw_screen K A s7 = Inr s8" "save_board K A fd s8 = Inr s'"
        using assms(1) s1 \<open>now \<noteq> t\<close> 1 c by (auto simp: main_loop_step_def ret_def bnd_Inr_iff)
      then show ?thesis using even_board_same [OF redraw_board [of K A s7 s8] e7] even_board_same [OF save_board_board] by blast
    qed
  qed
qed

lemma game_run_even:
  assumes "game_run K A s0 fd st" and "\<And>now fd s. game_main K A s0 = Inr (now, fd, s) \<Longrightarrow> even_board s"
  shows "even_board (snd (snd st))"
  using assms(1)
proof (induction rule: game_run.induct)
  case (start now fd s)
  then show ?case using assms(2) by simp
next
  case (step fd st st')
  then show ?case using main_loop_step_even [of K A fd "fst st" "fst (snd st)" "snd (snd st)"] by (metis prod.collapse)
qed

section \<open>Pixels\<close>

definition glyph :: "byte \<Rightarrow> nat \<Rightarrow> nat \<Rightarrow> bool" where
  "glyph ch i j \<longleftrightarrow> bit (font8x8_basic ! unat ch ! i) j"

definition pix :: "gaddrs \<Rightarrow> int \<Rightarrow> int \<Rightarrow> addr" where
  "pix A x y = ga_vbuf A + of_int (320 * x + y)"

definition drawn :: "gaddrs \<Rightarrow> byte \<Rightarrow> int \<Rightarrow> int \<Rightarrow> addr \<Rightarrow> bool" where
  "drawn A ch x y a \<longleftrightarrow> (\<exists>i < 8. \<exists>j < 8. glyph ch i j \<and> a = pix A (x + int i) (y + int j))"

lemma shifted_bit: "drop_bit j w AND 1 \<noteq> 0 \<longleftrightarrow> bit w j" for w :: byte
  by (simp add: bit_iff_odd_drop_bit and_one_eq odd_iff_mod_2_eq_one)

definition paint :: "(addr \<Rightarrow> bool) \<Rightarrow> byte \<Rightarrow> 'w game \<Rightarrow> 'w game" where
  "paint S v s = s\<lparr>gmem := \<lambda>a. if S a then v else gmem s a\<rparr>"

lemma paint_paint: "(\<And>a. U a \<longleftrightarrow> S a \<or> T a) \<Longrightarrow> paint S v (paint T v s) = paint U v s"
  by (simp add: paint_def fun_eq_iff)

lemma paint_none: "(\<And>a. \<not> S a) \<Longrightarrow> paint S v s = s"
  by (simp add: paint_def)

lemma draw_pixel_in:
  "0 \<le> x \<Longrightarrow> x < 200 \<Longrightarrow> 0 \<le> y \<Longrightarrow> y < 320 \<Longrightarrow> draw_pixel A x y c s = Inr (paint (\<lambda>a. a = pix A x y) (of_int c) s)"
  by (simp add: draw_pixel_def Let_def pix_def paint_def fun_upd_def algebra_simps)

text \<open>A loop of eight steps that paint in one colour.\<close>

lemma paint_loop:
  assumes "\<And>i t. i < n \<Longrightarrow> f i t = Inr (paint (S i) v t)"
  shows "for_res f [0..<n] s = Inr (paint (\<lambda>a. \<exists>i < n. S i a) v s)"
proof -
  have "\<exists>t. for_res f [0..<n] s = Inr t \<and> t = paint (\<lambda>a. \<exists>i < n. S i a) v s"
  proof (rule for_upt_invariant)
    fix i t
    assume i: "i < n" and t: "t = paint (\<lambda>a. \<exists>i' < i. S i' a) v s"
    have "paint (S i) v t = paint (\<lambda>a. \<exists>i' < Suc i. S i' a) v s"
      unfolding t by (rule paint_paint) (auto simp: less_Suc_eq)
    then show "\<exists>t'. f i t = Inr t' \<and> t' = paint (\<lambda>a. \<exists>i' < Suc i. S i' a) v s" using assms [OF i] by simp
  qed (simp add: paint_none)
  then show ?thesis by blast
qed

lemma draw_character_in:
  assumes "unat ch < 128" and "0 \<le> x" and "x \<le> 192" and "0 \<le> y" and "y \<le> 312"
  shows "draw_character A ch x y c s = Inr (paint (drawn A ch x y) (of_int c) s)"
proof -
  let ?p = "font8x8_basic ! unat ch"
  let ?dot = "\<lambda>i j s. if drop_bit j (?p ! i) AND 1 \<noteq> 0 then draw_pixel A (x + int i) (y + int j) c s else Inr s"
  have dot: "?dot i j t = Inr (paint (\<lambda>a. glyph ch i j \<and> a = pix A (x + int i) (y + int j)) (of_int c) t)"
    if "i < 8" "j < 8" for i j and t :: "'a game"
    unfolding shifted_bit glyph_def using that assms by (simp add: draw_pixel_in paint_none)
  have "for_res (\<lambda>i. for_res (?dot i) [0..<8]) [0..<8] s =
      Inr (paint (\<lambda>a. \<exists>i < 8. \<exists>j < 8. glyph ch i j \<and> a = pix A (x + int i) (y + int j)) (of_int c) s)"
    by (intro paint_loop dot)
  then show ?thesis using sint_byte [OF assms(1)] by (simp add: draw_character_def Let_def drawn_def [abs_def])
qed

text \<open>The marks of the board.\<close>

definition board_pixel :: "gaddrs \<Rightarrow> 'w game \<Rightarrow> addr \<Rightarrow> bool" where
  "board_pixel A s a \<longleftrightarrow> (\<exists>j < 9. cell_text s j \<noteq> 0 \<and>
     drawn A (cell_text s j) (60 + 60 * int (j div 3)) (100 + 100 * int (j mod 3)) a)"

lemma draw_cells_in:
  assumes "game_ok s"
  shows "draw_cells A s = Inr (paint (board_pixel A s) 48 s)"
proof -
  let ?S = "\<lambda>j a. cell_text s j \<noteq> 0 \<and> drawn A (cell_text s j) (60 + 60 * int (j div 3)) (100 + 100 * int (j mod 3)) a"
  let ?f = "\<lambda>j s. if cell_text s j \<noteq> 0 then draw_character A (cell_text s j) (box_x (box s ! j)) (box_y (box s ! j)) 48 s else Inr s"
  have "\<exists>t. for_res ?f [0..<9] s = Inr t \<and> t = paint (\<lambda>a. \<exists>j < 9. ?S j a) 48 s"
  proof (rule for_upt_invariant)
    fix j t
    assume j: "j < 9" and t: "t = paint (\<lambda>a. \<exists>j' < j. ?S j' a) 48 s"
    have c: "cell_text t = cell_text s" "box t = box s" unfolding t by (simp_all add: paint_def cell_text_def fun_eq_iff)
    have b: "box_x (box s ! j) = 60 + 60 * int (j div 3)" "box_y (box s ! j) = 100 + 100 * int (j mod 3)"
      "cell_text s j \<in> {0, O_text, X_text}" using assms j by (auto simp: game_ok_def)
    have "j div 3 \<le> 2" "j mod 3 \<le> 2" using j by auto
    then have "?f j t = Inr (paint (?S j) 48 t)" using b c by (auto simp: draw_character_in paint_none)
    moreover have "paint (?S j) 48 t = paint (\<lambda>a. \<exists>j' < Suc j. ?S j' a) 48 s"
      unfolding t by (rule paint_paint) (auto simp: less_Suc_eq)
    ultimately show "\<exists>t'. ?f j t = Inr t' \<and> t' = paint (\<lambda>a. \<exists>j' < Suc j. ?S j' a) 48 s" by simp
  qed (simp add: paint_none)
  then show ?thesis by (simp add: draw_cells_def board_pixel_def [abs_def])
qed

lemma drawn_in_buffer:
  assumes "drawn A ch x y a" and "0 \<le> x" and "x \<le> 192" and "0 \<le> y" and "y \<le> 312"
  shows "in_region (ga_vbuf A) 64000 a"
proof -
  obtain i j where ij: "i < 8" "j < 8" "a = pix A (x + int i) (y + int j)" using assms(1) by (auto simp: drawn_def)
  let ?k = "nat (320 * (x + int i) + (y + int j))"
  have k: "?k < 64000" "int ?k = 320 * (x + int i) + (y + int j)" using ij(1,2) assms by auto
  then have "a = ga_vbuf A + of_nat ?k" using ij(3) by (metis pix_def of_int_of_nat_eq)
  then show ?thesis using k(1) in_region_offset [of ?k 64000 "ga_vbuf A"] by simp
qed

lemma board_pixel_in_buffer:
  assumes "board_pixel A s a"
  shows "in_region (ga_vbuf A) 64000 a"
proof -
  obtain j where j: "j < 9" "drawn A (cell_text s j) (60 + 60 * int (j div 3)) (100 + 100 * int (j mod 3)) a"
    using assms by (auto simp: board_pixel_def)
  have "j div 3 \<le> 2" "j mod 3 \<le> 2" using j(1) by auto
  then show ?thesis by (intro drawn_in_buffer [OF j(2)]) auto
qed

section \<open>An instance\<close>

text \<open>
  A kernel that delivers the saved board with an \<open>X\<close> in the middle and ignores all other
  calls, and a memory in which every format string is empty.
\<close>

definition demo_int80 :: "nat int80" where
  "demo_int80 nr b c d m w = (if nr = 15 then Some (1, m(c := if w = 4 then X_text else 32), Suc w) else Some (0, m, w))"

definition demo_addrs :: gaddrs where
  "demo_addrs = \<lparr>ga_vbuf = 0x100000, ga_pbuf = 0x200000, ga_args = 0x300000, ga_charac = 0x400000,
     ga_itoa = 0x500000, ga_str = (\<lambda>_. 0x600000)\<rparr>"

definition demo_game :: "nat game" where
  "demo_game = \<lparr>gmem = (\<lambda>_. 0), os = 0, seed = 0, letter_pressed = replicate 10 False, key_code = 0, refresh = False,
     box = replicate 10 \<lparr>box_x = 0, box_y = 0, box_text = 0, box_index = 0\<rparr>, winner = 0, winp = 0, winc = 0,
     has_added = False, real_fps = 0\<rparr>"

text \<open>A board on which only the first cell is free, and its key is pressed.\<close>

definition last_cell :: "nat game" where
  "last_cell = demo_game\<lparr>letter_pressed := True # replicate 9 False,
     box := map (\<lambda>j. \<lparr>box_x = 60 + 60 * int (j div 3), box_y = 100 + 100 * int (j mod 3),
       box_text = (if j = 0 then 0 else X_text), box_index = int j\<rparr>) [0..<10]\<rparr>"

lemma last_cell_ok: "game_ok last_cell" "free_cells last_cell = {0}" "letter_pressed last_cell ! 0"
proof -
  have n: "box last_cell ! j = \<lparr>box_x = 60 + 60 * int (j div 3), box_y = 100 + 100 * int (j mod 3),
      box_text = (if j = 0 then 0 else X_text), box_index = int j\<rparr>" if "j < 10" for j
    using that by (simp add: last_cell_def del: upt_Suc)
  have l: "length (box last_cell) = 10" "length (letter_pressed last_cell) = 10" "letter_pressed last_cell ! 0"
    by (simp_all add: last_cell_def)
  then show "game_ok last_cell" "free_cells last_cell = {0}" "letter_pressed last_cell ! 0"
    using n by (auto simp: game_ok_def free_cells_def cell_text_def split: if_splits)
qed

definition quiet :: "nat game \<Rightarrow> nat game \<Rightarrow> bool" where
  "quiet s s' \<longleftrightarrow> gmem s 0x600000 = 0 \<longrightarrow>
     gmem s' 0x600000 = 0 \<and> gmem s' 0x400000 = gmem s 0x400000 \<and> os s' = os s \<and> same_board s s'"

lemma quiet_printf:
  assumes "gmem s 0x600000 = 0" and "args = [] \<or> args = [v]"
  shows "\<exists>s'. printf demo_int80 demo_addrs 0x600000 args s = Inr (0, s') \<and> quiet s s'"
proof -
  let ?m = "push_args 0x300000 args (gmem s)"
  have "store32 (gmem s) 0x300000 v x = gmem s x" if "x \<in> {0x600000, 0x400000}" for x
    using that by (auto simp: store32_def)
  then have m: "?m 0x600000 = 0" "?m 0x400000 = gmem s 0x400000" using assms by auto
  have "vsnprintf ?m 0x200000 256 0x600000 0x300000 = Some (0, ?m(0x200000 := 0))"
    by (simp add: vsnprintf_def Let_def vprintfmt.simps [of sp_mem] m(1))
  then have "printf demo_int80 demo_addrs 0x600000 args s = Inr (0, s\<lparr>gmem := ?m(0x200000 := 0)\<rparr>)"
    by (simp add: printf_def demo_addrs_def ret_def str_write_def syscall_def demo_int80_def)
  then show ?thesis using m by (auto simp: quiet_def)
qed

lemma quiet_display: "\<exists>s'. display_buffer demo_int80 demo_addrs (prepare_buffer demo_addrs s) = Inr s' \<and> quiet s s'"
  by (simp add: display_buffer_def put_video_def syscall_def demo_int80_def ret_def prepare_buffer_def demo_addrs_def
      memset_eq quiet_def)

lemma initial_game_keeps: "gmem (initial_game s) = gmem s" "os (initial_game s) = os s"
proof -
  have p: "gmem (fold (\<lambda>(j, x, y) s. s\<lparr>box := (box s)[j := (box s ! j)\<lparr>box_x := x, box_y := y\<rparr>]\<rparr>) ps s) = gmem s \<and>
      os (fold (\<lambda>(j, x, y) s. s\<lparr>box := (box s)[j := (box s ! j)\<lparr>box_x := x, box_y := y\<rparr>]\<rparr>) ps s) = os s" for ps and s :: "'a game"
    by (induction ps arbitrary: s) auto
  have r: "gmem (fold (\<lambda>i. release_key (int i)) is s) = gmem s \<and> os (fold (\<lambda>i. release_key (int i)) is s) = os s" for "is" and s :: "'a game"
    by (induction "is" arbitrary: s) (auto simp: release_key_def key_fold Let_def close_refresh_def)
  have c: "gmem (fold (\<lambda>i s. s\<lparr>box := (box s)[i := (box s ! i)\<lparr>box_index := int i, box_text := 0\<rparr>]\<rparr>) is s) = gmem s \<and>
      os (fold (\<lambda>i s. s\<lparr>box := (box s)[i := (box s ! i)\<lparr>box_index := int i, box_text := 0\<rparr>]\<rparr>) is s) = os s" for "is" and s :: "'a game"
    by (induction "is" arbitrary: s) auto
  have t: "gmem (set_text j ch s) = gmem s \<and> os (set_text j ch s) = os s" for j ch and s :: "'a game" by (simp add: set_text_def)
  show "gmem (initial_game s) = gmem s" "os (initial_game s) = os s"
    unfolding initial_game_def Let_def clear_cells_def release_keys_def by (simp_all only: t p r c) simp_all
qed

lemma demo_load:
  assumes "gmem s 0x600000 = 0" and "os s = 0" and "length (box s) = 10"
  shows "\<exists>s'. load_board demo_int80 demo_addrs fd s = Inr s' \<and> gmem s' 0x600000 = 0 \<and> free_cells s' = {..<9} - {4}"
proof -
  let ?f = "\<lambda>i s. bnd (read_call demo_int80 fd (ga_charac demo_addrs) 1 s) (\<lambda>(_, s1).
     bnd (printf demo_int80 demo_addrs (ga_str demo_addrs Hex) [scast (gmem s1 (ga_charac demo_addrs))] s1) (\<lambda>(_, s2).
       let charac = gmem s2 (ga_charac demo_addrs)
       in Inr (set_text i (if charac \<noteq> X_text \<and> charac \<noteq> O_text then 0 else charac) s2)))"
  let ?I = "\<lambda>n t. gmem t 0x600000 = 0 \<and> os t = n \<and> length (box t) = 10 \<and>
      (\<forall>j < n. cell_text t j = (if j = 4 then X_text else 0))"
  have "\<exists>t. for_res ?f [0..<9] s = Inr t \<and> ?I 9 t"
  proof (rule for_upt_invariant)
    fix i and t :: "nat game"
    assume i: "i < 9" and I: "?I i t"
    let ?ch = "if i = 4 then X_text else 32 :: byte"
    let ?t1 = "t\<lparr>gmem := (gmem t)(0x400000 := ?ch), os := Suc i\<rparr>"
    have r: "read_call demo_int80 fd 0x400000 1 t = Inr (1, ?t1)"
      using I by (simp add: read_call_def syscall_def demo_int80_def ret_def)
    have g: "gmem ?t1 0x600000 = 0" using I by simp
    obtain t2 where t2: "printf demo_int80 demo_addrs 0x600000 [scast (gmem ?t1 0x400000)] ?t1 = Inr (0, t2)" "quiet ?t1 t2"
      using quiet_printf [OF g disjI2 [OF refl]] by blast
    then have q: "gmem t2 0x600000 = 0" "gmem t2 0x400000 = ?ch" "os t2 = Suc i" "box t2 = box t"
      using I by (auto simp: quiet_def same_board_def)
    have "?f i t = Inr (set_text i (if i = 4 then X_text else 0) t2)"
      using r t2(1) q(2) by (simp add: demo_addrs_def Let_def)
    moreover have "?I (Suc i) (set_text i (if i = 4 then X_text else 0) t2)"
      using q I i by (auto simp: cell_text_set less_Suc_eq) (auto simp: set_text_def cell_text_def)
    ultimately show "\<exists>t'. ?f i t = Inr t' \<and> ?I (Suc i) t'" by blast
  qed (use assms in simp)
  then show ?thesis unfolding load_board_def by (auto simp: free_cells_def)
qed

lemma demo_main: "\<exists>s. game_main demo_int80 demo_addrs demo_game = Inr (0, 0, s) \<and> free_cells s = {..<9} - {4}"
proof -
  have str: "ga_str demo_addrs x = 0x600000" for x by (simp add: demo_addrs_def)
  obtain s1 where s1: "printf demo_int80 demo_addrs 0x600000 [] demo_game = Inr (0, s1)" "quiet demo_game s1"
    using quiet_printf [of demo_game] by (auto simp: demo_game_def)
  then have q1: "gmem s1 0x600000 = 0 \<and> os s1 = 0 \<and> length (box s1) = 10 \<and> length (letter_pressed s1) = 10"
    by (simp add: quiet_def demo_game_def same_board_def)
  obtain s2 where s2: "printf demo_int80 demo_addrs 0x600000 [] s1 = Inr (0, s2)" "quiet s1 s2" using quiet_printf [of s1] q1 by blast
  then have q2: "gmem s2 0x600000 = 0 \<and> os s2 = 0 \<and> length (box s2) = 10 \<and> length (letter_pressed s2) = 10"
    using q1 by (simp add: quiet_def same_board_def)
  obtain s3 where s3: "printf demo_int80 demo_addrs 0x600000 [] s2 = Inr (0, s3)" "quiet s2 s3" using quiet_printf [of s2] q2 by blast
  then have q3: "gmem s3 0x600000 = 0 \<and> os s3 = 0 \<and> length (box s3) = 10 \<and> length (letter_pressed s3) = 10"
    using q2 by (simp add: quiet_def same_board_def)
  obtain s4 where s4: "display_buffer demo_int80 demo_addrs (prepare_buffer demo_addrs (s3\<lparr>refresh := False\<rparr>)) = Inr s4"
    "quiet (s3\<lparr>refresh := False\<rparr>) s4" using quiet_display by blast
  then have q4: "gmem (s4\<lparr>refresh := True\<rparr>) 0x600000 = 0 \<and> os s4 = 0 \<and> length (box s4) = 10 \<and> length (letter_pressed s4) = 10"
    using q3 by (simp add: quiet_def same_board_def)
  obtain s5 where s5: "printf demo_int80 demo_addrs 0x600000 [] (s4\<lparr>refresh := True\<rparr>) = Inr (0, s5)" "quiet (s4\<lparr>refresh := True\<rparr>) s5"
    using quiet_printf q4 by blast
  then have q5: "gmem s5 0x600000 = 0 \<and> os s5 = 0 \<and> length (box s5) = 10 \<and> length (letter_pressed s5) = 10"
    using q4 by (simp add: quiet_def same_board_def)
  obtain s6 where s6: "display_buffer demo_int80 demo_addrs (prepare_buffer demo_addrs s5) = Inr s6" "quiet s5 s6" using quiet_display by blast
  then have q6: "gmem s6 0x600000 = 0 \<and> os s6 = 0 \<and> length (box s6) = 10 \<and> length (letter_pressed s6) = 10"
    using q5 by (simp add: quiet_def same_board_def)
  let ?i = "initial_game s6"
  have i: "gmem ?i 0x600000 = 0" "os ?i = 0" "length (box ?i) = 10"
    using q6 initial_ok [of s6] by (simp_all add: initial_game_keeps game_ok_def)
  have calls: "get_time demo_int80 ?i = Inr (0, ?i)" "open_call demo_int80 0x600000 2 ?i = Inr (0, ?i)"
    by (simp_all add: get_time_def open_call_def syscall_def demo_int80_def ret_def)
  obtain s7 where s7: "load_board demo_int80 demo_addrs 0 ?i = Inr s7" "gmem s7 0x600000 = 0" "free_cells s7 = {..<9} - {4}"
    using demo_load [OF i, of 0] by blast
  obtain s8 where s8: "printf demo_int80 demo_addrs 0x600000 [] s7 = Inr (0, s8)" "quiet s7 s8" using quiet_printf [of s7] s7(2) by blast
  have "free_cells s8 = {..<9} - {4}" using s8(2) s7(2,3) same_board_ok [of s7 s8] by (simp add: quiet_def)
  then show ?thesis
    using s1(1) s2(1) s3(1) s4(1) s5(1) s6(1) calls s7(1) s8(1) by (simp add: game_main_def main_loop_start_def str)
qed

section \<open>Properties\<close>

text \<open>
  C26: Drawing the board: on a well-formed board every mark is drawn, nothing faults, exactly the pixels
  of the glyphs at the positions of the cells are set, and all of them lie in the frame buffer.
\<close>

theorem draw_cells_correct:
  assumes "game_ok s"
  shows "draw_cells A s = Inr (s\<lparr>gmem := \<lambda>a. if board_pixel A s a then 48 else gmem s a\<rparr>) \<and>
    (\<forall>a. board_pixel A s a \<longrightarrow> in_region (ga_vbuf A) 64000 a)"
  using draw_cells_in [OF assms] board_pixel_in_buffer by (auto simp: paint_def)

theorem draw_cells_correct_witness:
  "game_ok last_cell \<and> (\<exists>s. draw_cells demo_addrs last_cell = Inr s \<and> gmem s (0x100000 + 38600) = 48)"
proof -
  have "glyph X_text 0 0" by (simp add: glyph_def font8x8_basic_def)
  then have "drawn demo_addrs X_text 120 200 (0x100000 + 38600)"
    unfolding drawn_def by (intro exI [of _ 0] conjI) (simp_all add: pix_def demo_addrs_def)
  moreover have "cell_text last_cell 4 = X_text" by (simp add: last_cell_def cell_text_def del: upt_Suc)
  ultimately have "board_pixel demo_addrs last_cell (0x100000 + 38600)"
    unfolding board_pixel_def by (intro exI [of _ 4] conjI) simp_all
  then show ?thesis using draw_cells_correct [OF last_cell_ok(1), of demo_addrs] last_cell_ok(1) by simp
qed

text \<open>
  C24: A key press makes the game hang, in the endless search of \<open>update_keypress\<close> for the computer's
  move, exactly when the player takes the last free cell.
\<close>

theorem update_keypress_hangs:
  assumes "game_ok s"
  shows "update_keypress s = Inl Hang \<longleftrightarrow> (\<exists>j. free_cells s = {j} \<and> letter_pressed s ! j)"
  by (rule update_keypress_alone [OF assms])

theorem update_keypress_hangs_witness: "game_ok last_cell \<and> update_keypress last_cell = Inl Hang"
  using update_keypress_hangs [OF last_cell_ok(1)] last_cell_ok by blast

text \<open>
  C25: A game whose saved board has an even number of free cells never gets stuck: in every state that
  the main loop reaches, with any kernel behind the system calls, the board is well formed, and
  \<open>update_keypress\<close> returns whatever keys are pressed.
\<close>

theorem game_never_stuck:
  assumes "game_run K A s0 fd (now, n, s)" and "length (box s0) = 10" and "length (letter_pressed s0) = 10"
    and "\<And>now fd s. game_main K A s0 = Inr (now, fd, s) \<Longrightarrow> even (card (free_cells s))" and "length keys = 10"
  shows "\<exists>b s'. update_keypress (s\<lparr>letter_pressed := keys\<rparr>) = Inr (b, s')"
proof -
  have "even_board s"
    using game_run_even [OF assms(1)] game_main_ok [OF _ assms(2,3)] assms(4) by (simp add: even_board_def)
  then have "even_board (s\<lparr>letter_pressed := keys\<rparr>)"
    by (rule even_board_same [rotated]) (use \<open>even_board s\<close> assms(5) in \<open>simp add: same_board_def even_board_def game_ok_def\<close>)
  then show ?thesis using update_keypress_even [of "s\<lparr>letter_pressed := keys\<rparr>"] by (auto simp: even_board_def)
qed

theorem game_never_stuck_witness:
  "\<exists>s b s'. game_run demo_int80 demo_addrs demo_game 0 (0, 0, s) \<and>
    update_keypress (s\<lparr>letter_pressed := replicate 10 True\<rparr>) = Inr (b, s')"
proof -
  obtain s where s: "game_main demo_int80 demo_addrs demo_game = Inr (0, 0, s)" "free_cells s = {..<9} - {4}"
    using demo_main by blast
  have run: "game_run demo_int80 demo_addrs demo_game 0 (0, 0, s)" by (rule game_run.start [OF s(1)])
  have "\<exists>b s'. update_keypress (s\<lparr>letter_pressed := replicate 10 True\<rparr>) = Inr (b, s')"
    by (rule game_never_stuck [OF run]) (use s in \<open>auto simp: demo_game_def\<close>)
  then show ?thesis using run by blast
qed

end
