(* ===== verification/Game_Console.thy ===== *)
theory Game_Console
  imports Game_Lib Syscall
begin

text \<open>
  The game on top of the kernel: \<open>printf\<close> of the game, through \<open>vsnprintf\<close>, the system call stub,
  the interrupt and \<open>fs_write\<close> of the kernel, to the bytes on the serial line. The locale
  \<open>console_calls\<close> is what \<open>printf\<close> needs of the kernel; the model of the kernel provides it.
\<close>

section \<open>Plain text\<close>

context char_sink
begin

lemma vprintfmt_plain:
  "I s \<Longrightarrow> k \<le> length xs \<Longrightarrow> 37 \<notin> set xs \<Longrightarrow>
     vprintfmt mm putch (fmt + of_nat k) ap s = Some (fold (\<lambda>b. putch (uint b)) (drop k xs) s)"
proof (induction "length xs - k" arbitrary: k s)
  case 0
  then have "k = length xs" by simp
  then show ?case using fmt_chars [OF 0(2), of k] by (subst vprintfmt.simps) simp
next
  case (Suc n)
  then have k: "k < length xs" by simp
  then have c: "mm s (fmt + of_nat k) = xs ! k" using fmt_chars [OF Suc.prems(1), of k] by (simp add: nth_append)
  have "xs ! k \<noteq> 0" using fmt_chars [OF Suc.prems(1)] format [OF Suc.prems(1)] k cstr_nth [of "mm s" fmt xs k] c by auto
  moreover have "xs ! k \<noteq> 37" using Suc.prems(3) k nth_mem by metis
  ultimately have u: "uint (xs ! k) \<noteq> 0" "uint (xs ! k) \<noteq> 37" by (simp_all add: word_uint_eq_iff)
  have e: "fmt + of_nat k + 1 = fmt + of_nat (Suc k)" by simp
  have "vprintfmt mm putch (fmt + of_nat (Suc k)) ap (putch (uint (xs ! k)) s) =
      Some (fold (\<lambda>b. putch (uint b)) (drop (Suc k) xs) (putch (uint (xs ! k)) s))"
    using Suc.hyps(2) k by (intro Suc.hyps(1) putch_inv Suc.prems) simp_all
  then show ?case using u c k unfolding e [symmetric]
    by (subst vprintfmt.simps) (simp add: Cons_nth_drop_Suc [symmetric])
qed

end

lemma write_bytes_single: "write_bytes m a [v] = m(a := v)"
  by (auto simp: write_bytes_def fun_eq_iff unat_eq_zero)

lemma sprint_fold:
  assumes "1 \<le> n" and "unat buf + n \<le> 2 ^ 32"
  shows "length ys < 2 ^ 31 \<Longrightarrow>
    fold (\<lambda>b. sprintputch (uint b)) ys \<lparr>sp_mem = m, sp_buf = buf, sp_ebuf = buf + of_nat (n - 1), sp_cnt = 0\<rparr> =
    \<lparr>sp_mem = write_bytes m buf (take (n - 1) ys), sp_buf = buf + of_nat (min (length ys) (n - 1)),
      sp_ebuf = buf + of_nat (n - 1), sp_cnt = int (length ys)\<rparr>"
proof (induction ys rule: rev_induct)
  case Nil
  then show ?case by (simp add: write_bytes_def)
next
  case (snoc y ys)
  have u: "unat (buf + of_nat k) = unat buf + k" if "k \<le> n - 1" for k
  proof -
    have "unat (of_nat k :: u32) = k" using that assms by (intro unat_of_nat_u32) simp
    then show ?thesis using that assms by (simp add: unat_word_ariths)
  qed
  have c: "i32 (int (length ys) + 1) = int (length (ys @ [y]))" using snoc.prems by (simp add: i32_id)
  have ih: "fold (\<lambda>b. sprintputch (uint b)) ys \<lparr>sp_mem = m, sp_buf = buf, sp_ebuf = buf + of_nat (n - 1), sp_cnt = 0\<rparr> =
    \<lparr>sp_mem = write_bytes m buf (take (n - 1) ys), sp_buf = buf + of_nat (min (length ys) (n - 1)),
      sp_ebuf = buf + of_nat (n - 1), sp_cnt = int (length ys)\<rparr>" using snoc by simp
  show ?case
  proof (cases "length ys < n - 1")
    case True
    then have lt: "buf + of_nat (length ys) < buf + of_nat (n - 1)" using u [of "length ys"] u [of "n - 1"] by (simp add: word_less_nat_alt)
    have "(write_bytes m buf ys)(buf + of_nat (length ys) := y) = write_bytes (write_bytes m buf ys) (buf + of_nat (length ys)) [y]"
      by (simp add: write_bytes_single)
    also have "\<dots> = write_bytes m buf (ys @ [y])" by (rule write_bytes_append) (use snoc.prems in simp)
    finally have w: "(write_bytes m buf ys)(buf + of_nat (length ys) := y) = write_bytes m buf (ys @ [y])" .
    show ?thesis using True lt w c unfolding fold_append comp_apply ih by (simp add: sprintputch_def Let_def add.assoc)
  next
    case False
    then show ?thesis using c unfolding fold_append comp_apply ih by (simp add: sprintputch_def Let_def)
  qed
qed

lemma vsnprintf_plain:
  assumes "cstr m fmt xs" and "37 \<notin> set xs" and "disj_regions buf n fmt (length xs + 1)" and "1 \<le> n"
    and "unat buf + n \<le> 2 ^ 32" and "buf \<noteq> 0" and "length xs < 2 ^ 31" and "int n < 2 ^ 31"
  shows "vsnprintf m buf (int n) fmt ap = Some (int (length xs), write_bytes m buf (take (n - 1) xs @ [0]))"
proof -
  let ?b = "\<lparr>sp_mem = m, sp_buf = buf, sp_ebuf = buf + of_nat (n - 1), sp_cnt = 0\<rparr>"
  have e: "buf + of_int (int n) - 1 = buf + of_nat (n - 1)" using assms(4) by (simp add: of_nat_diff)
  have "sp_inv m buf n fmt xs ?b" using assms by (intro sp_inv_start) auto
  from sbuf.vprintfmt_plain [OF this, of 0 ap] assms(2)
  have v: "vprintfmt sp_mem sprintputch fmt ap ?b = Some (fold (\<lambda>b. sprintputch (uint b)) xs ?b)" by simp
  have l: "length (take (n - 1) xs) = min (length xs) (n - 1)" by simp
  have "(write_bytes m buf (take (n - 1) xs))(buf + of_nat (min (length xs) (n - 1)) := 0) =
      write_bytes (write_bytes m buf (take (n - 1) xs)) (buf + of_nat (length (take (n - 1) xs))) [0]"
    by (simp add: write_bytes_single)
  also have "\<dots> = write_bytes m buf (take (n - 1) xs @ [0])" by (rule write_bytes_append) (use assms(7) in simp)
  finally show ?thesis using assms(4,6) unfolding vsnprintf_def Let_def e v sprint_fold [OF assms(4,5,7)] by simp
qed

section \<open>What \<open>printf\<close> needs of the kernel\<close>

text \<open>
  The call \<open>write\<close> on descriptor 1: the kernel sends the bytes of the buffer and returns their
  number; of the memory of the process it changes nothing but the trap frame on the kernel stack.
\<close>

locale console_calls =
  fixes K :: "'w int80" and sent :: "'w \<Rightarrow> byte list" and ready :: "'w \<Rightarrow> bool" and frame :: addr
  assumes write_law: "ready w \<Longrightarrow> 0 \<le> sint n \<Longrightarrow> disj_regions frame 68 buf (unat n) \<Longrightarrow>
    \<exists>m' w'. K 2 1 buf n m w = Some (n, m', w') \<and> sent w' = sent w @ read_bytes m buf (unat n) \<and> ready w' \<and>
      (\<forall>a. \<not> in_region frame 68 a \<longrightarrow> m' a = m a)"
begin

lemma str_write_sends:
  assumes "ready (os s)" and "n < 2 ^ 31" and "disj_regions frame 68 buf n"
  obtains s' where "str_write K 1 buf (int n) s = Inr (int n, s')" and "sent (os s') = sent (os s) @ read_bytes (gmem s) buf n"
    and "ready (os s')" and "\<And>a. \<not> in_region frame 68 a \<Longrightarrow> gmem s' a = gmem s a"
proof -
  have u: "unat (of_nat n :: u32) = n" using assms(2) by (intro unat_of_nat_u32) simp
  then have sn: "sint (of_nat n :: u32) = int n" using assms(2) sint_u32 [of "of_nat n"] by simp
  obtain m' w' where w: "K 2 1 buf (of_nat n) (gmem s) (os s) = Some (of_nat n, m', w')"
    "sent w' = sent (os s) @ read_bytes (gmem s) buf n" "ready w'" "\<And>a. \<not> in_region frame 68 a \<Longrightarrow> m' a = gmem s a"
    using write_law [OF assms(1), of "of_nat n" buf "gmem s"] u sn assms(3) by auto
  show thesis by (rule that [of "s\<lparr>gmem := m', os := w'\<rparr>"]) (use w sn in \<open>simp_all add: str_write_def syscall_def ret_def\<close>)
qed

lemma printf_sends:
  assumes "ready (os s)" and "cstr (gmem s) ctl xs" and "37 \<notin> set xs" and "length xs < 2 ^ 31"
    and "disj_regions (ga_pbuf A) 256 ctl (length xs + 1)" and "unat (ga_pbuf A) + 256 \<le> 2 ^ 32" and "ga_pbuf A \<noteq> 0"
    and "disj_regions frame 68 (ga_pbuf A) (length xs)"
  shows "\<exists>s'. printf K A ctl [] s = Inr (int (length xs), s') \<and> ready (os s') \<and>
    sent (os s') = sent (os s) @ (if length xs < 256 then xs
      else take 255 xs @ [0] @ read_bytes (gmem s) (ga_pbuf A + 256) (length xs - 256))"
proof -
  let ?m = "write_bytes (gmem s) (ga_pbuf A) (take 255 xs @ [0])"
  have v: "vsnprintf (gmem s) (ga_pbuf A) 256 ctl ap = Some (int (length xs), ?m)" for ap
    using vsnprintf_plain [OF assms(2,3,5), of ap] assms(4,6,7) by simp
  obtain s' where s': "str_write K 1 (ga_pbuf A) (int (length xs)) (s\<lparr>gmem := ?m\<rparr>) = Inr (int (length xs), s')"
    "sent (os s') = sent (os s) @ read_bytes ?m (ga_pbuf A) (length xs)" "ready (os s')"
    by (rule str_write_sends [of "s\<lparr>gmem := ?m\<rparr>" "length xs" "ga_pbuf A"]) (use assms(1,4,8) in simp_all)
  have r: "read_bytes ?m (ga_pbuf A) (length xs) = (if length xs < 256 then xs
      else take 255 xs @ [0] @ read_bytes (gmem s) (ga_pbuf A + 256) (length xs - 256))"
  proof (rule nth_equalityI)
    fix i
    assume "i < length (read_bytes ?m (ga_pbuf A) (length xs))"
    then have i: "i < length xs" by simp
    have u: "unat (of_nat i :: u32) = i" using i assms(4) by (intro unat_of_nat_u32) simp
    have "256 \<le> i \<Longrightarrow> ga_pbuf A + 256 + of_nat (i - 256) = ga_pbuf A + of_nat i" by (simp add: of_nat_diff)
    then show "read_bytes ?m (ga_pbuf A) (length xs) ! i = (if length xs < 256 then xs
        else take 255 xs @ [0] @ read_bytes (gmem s) (ga_pbuf A + 256) (length xs - 256)) ! i"
      using i u by (auto simp: write_bytes_def nth_append min_def)
  qed auto
  show ?thesis using s' v r by (simp add: printf_def ret_def)
qed

end

section \<open>The kernel behind the interrupt\<close>

text \<open>
  The processor pushes the registers as a trap frame at \<open>t\<close>, the interrupt handler runs on it, and
  the process goes on with the value of \<open>eax\<close> in the frame. A call after which another process
  runs does not return in this step.
\<close>

definition int80_frame :: "addr \<Rightarrow> u32 \<Rightarrow> u32 \<Rightarrow> u32 \<Rightarrow> u32 \<Rightarrow> 'a kst_scheme \<Rightarrow> 'a kst_scheme" where
  "int80_frame t nr b c d s =
     set_tf t TF_IRQ 0x80 (set_tf t TF_EAX nr (set_tf t TF_EBX b (set_tf t TF_ECX c (set_tf t TF_EDX d s))))"

definition kernel_int80 :: "'d ports \<Rightarrow> kbufs \<Rightarrow> addr \<Rightarrow> 'd sysst int80" where
  "kernel_int80 P B t nr b c d m w =
     (case irq_handle P B t (int80_frame t nr b c d (w\<lparr>mem := m\<rparr>)) of
        Inl e \<Rightarrow> None
      | Inr s \<Rightarrow> if current s = current w then Some (get_tf t TF_EAX s, mem s, s) else None)"

lemma disj_offsets [simp]: "disj_regions (t + a) n (t + b) k = disj_regions a n b k"
  by (simp add: disj_regions_def)

lemma int80_frame_regs:
  "get_tf t TF_IRQ (int80_frame t nr b c d s) = 0x80" "get_tf t TF_EAX (int80_frame t nr b c d s) = nr"
  "get_tf t TF_EBX (int80_frame t nr b c d s) = b" "get_tf t TF_ECX (int80_frame t nr b c d s) = c"
  "get_tf t TF_EDX (int80_frame t nr b c d s) = d"
  by (simp_all add: int80_frame_def get_tf_def mem_simps) (simp_all add: mem_simps disj_regions_def)

lemma tf_other:
  assumes "\<not> in_region t 68 a" and "k \<le> 64"
  shows "store32 m (t + of_nat k) v a = m a"
  using assms in_region_sub [of t k 4 a 68] by (intro store32_other) auto

lemma int80_frame_mem: "\<not> in_region t 68 a \<Longrightarrow> mem (int80_frame t nr b c d s) a = mem s a"
  using tf_other [of t a 40] tf_other [of t a 28] tf_other [of t a 16] tf_other [of t a 24] tf_other [of t a 20]
  by (simp add: int80_frame_def)

lemma int80_frame_keeps [simp]:
  "current (int80_frame t nr b c d s) = current s" "dev (int80_frame t nr b c d s') = dev s'"
  by (simp_all add: int80_frame_def) (simp add: set_tf_def)

lemma kernel_write:
  assumes "uart P sent lcr divisor busy" and "lcr (dev w) AND 0x80 = 0" and "current w < MAX_PCB" and "0 \<le> sint n"
    and "disj_regions t 68 buf (unat n)"
  shows "\<exists>m' w'. kernel_int80 P B t 2 1 buf n m w = Some (n, m', w') \<and>
    sent (dev w') = sent (dev w) @ read_bytes m buf (unat n) \<and> (lcr (dev w') AND 0x80 = 0 \<and> current w' < MAX_PCB) \<and>
    (\<forall>a. \<not> in_region t 68 a \<longrightarrow> m' a = m a)"
proof -
  let ?s = "int80_frame t 2 1 buf n (w\<lparr>mem := m\<rparr>)"
  have k: "dev ?s = dev w" "current ?s = current w" by simp_all
  obtain d' where d': "sent d' = sent (dev ?s) @ read_bytes (mem ?s) buf (unat n)" "lcr d' = lcr (dev ?s)"
    "irq_handle P B t ?s = Inr (set_tf t TF_EAX n ((upd_pcb (current ?s) (\<lambda>b. b\<lparr>tf := t\<rparr>) ?s)\<lparr>dev := d'\<rparr>))"
    by (rule write_syscall [OF assms(1), of ?s t buf n]) (use assms(2-4) in \<open>simp_all add: int80_frame_regs\<close>)
  let ?r = "set_tf t TF_EAX n ((upd_pcb (current ?s) (\<lambda>b. b\<lparr>tf := t\<rparr>) ?s)\<lparr>dev := d'\<rparr>)"
  have "read_bytes (mem ?s) buf (unat n) = read_bytes m buf (unat n)"
  proof (rule read_bytes_cong)
    show "unat n \<le> 2 ^ 32" using unat_lt_u32 [of n] by simp
    show "in_region buf (unat n) x \<Longrightarrow> mem ?s x = m x" for x
      using disj_regionsD [of buf "unat n" t 68 x] assms(5) int80_frame_mem [of t x 2 1 buf n "w\<lparr>mem := m\<rparr>"]
      by (simp add: disj_regions_sym)
  qed
  moreover have "mem ?r a = m a" if "\<not> in_region t 68 a" for a
    using tf_other [OF that, of 28] int80_frame_mem [OF that, of 2 1 buf n "w\<lparr>mem := m\<rparr>"] by simp
  moreover have "kernel_int80 P B t 2 1 buf n m w = Some (n, mem ?r, ?r)"
    using d'(3) by (simp add: kernel_int80_def get_tf_def)
  moreover have "dev ?r = d'" by (simp add: set_tf_def)
  moreover have "current ?r = current w" by simp
  ultimately show ?thesis using d'(1,2) assms(2,3) k by (intro exI [of _ "mem ?r"] exI [of _ ?r]) simp
qed

lemma kernel_console:
  assumes "uart P sent lcr divisor busy"
  shows "console_calls (kernel_int80 P B t) (\<lambda>w. sent (dev w)) (\<lambda>w. lcr (dev w) AND 0x80 = 0 \<and> current w < MAX_PCB) t"
  by unfold_locales (use kernel_write [OF assms] in blast)

interpretation com1_console: console_calls "kernel_int80 uart_ports B t" "\<lambda>w. u_sent (dev w)"
    "\<lambda>w. u_lcr (dev w) AND 0x80 = 0 \<and> current w < MAX_PCB" t for B t
  by (rule kernel_console [OF com1.uart_axioms])

section \<open>Properties\<close>


definition console_demo :: "uart_dev sysst game" where
  "console_demo = \<lparr>gmem = write_bytes (\<lambda>_. 0) 0x600000 [88, 10], os = write_demo, seed = 0, letter_pressed = [],
     key_code = 0, refresh = False, box = [], winner = 0, winp = 0, winc = 0, has_added = False, real_fps = 0\<rparr>"


end
