(* ===== verification/Ide.thy ===== *)
theory Ide
  imports Disk
begin

text \<open>
  The driver in \<open>ide/ide.c\<close>. Unlike the kernel's own driver it serves two drives, transfers up to
  256 sectors with one command and looks at the error bits of the status register. The controller
  is again a parameter; the locale \<open>ide_bus\<close> states the documented behaviour for many sectors,
  two drives and sectors that cannot be transferred.
\<close>

section \<open>The driver\<close>

text \<open>\<open>rep insl\<close> and \<open>rep outsl\<close>: words one after the other, without looking at the status.\<close>

definition insl :: "'d ports \<Rightarrow> u16 \<Rightarrow> addr \<Rightarrow> nat \<Rightarrow> mem \<times> 'd \<Rightarrow> mem \<times> 'd" where
  "insl P port a cnt = fold (\<lambda>i (m, d). let r = in_long P port d in (store32 m (a + of_nat (4 * i)) (fst r), snd r)) [0..<cnt]"

definition outsl :: "'d ports \<Rightarrow> u16 \<Rightarrow> addr \<Rightarrow> nat \<Rightarrow> mem \<Rightarrow> 'd \<Rightarrow> 'd" where
  "outsl P port a cnt m = fold (\<lambda>i. out_long P port (load32 m (a + of_nat (4 * i)))) [0..<cnt]"

text \<open>The bits 7 and 6 are \<open>IDE_BSY\<close> and \<open>IDE_DRDY\<close>, the bits 5 and 0 are \<open>IDE_DF\<close> and \<open>IDE_ERR\<close>.\<close>

partial_function (option) ide_wait_ready :: "'d ports \<Rightarrow> bool \<Rightarrow> 'd \<Rightarrow> (int \<times> 'd) option" where
  "ide_wait_ready P check_error d =
     (let r = in_byte P 0x1F7 d
      in if fst r AND 0xC0 \<noteq> 0x40 then ide_wait_ready P check_error (snd r)
         else Some (if check_error \<and> fst r AND 0x21 \<noteq> 0 then -1 else 0, snd r))"

function ide_probe_loop :: "'d ports \<Rightarrow> nat \<Rightarrow> 'd \<Rightarrow> nat \<times> 'd" where
  "ide_probe_loop P x d =
     (if x < 1000
      then let r = in_byte P 0x1F7 d in if fst r AND 0xA1 \<noteq> 0 then ide_probe_loop P (x + 1) (snd r) else (x, snd r)
      else (x, d))"
  by pat_completeness auto
termination by (relation "measure (\<lambda>(P, x, d). 1000 - x)") auto

declare ide_probe_loop.simps [simp del]

text \<open>
  \<open>cprintf\<close> is not defined in the repository: it is a parameter, which the driver calls with the
  answer. Neither are \<open>assert\<close> and \<open>panic\<close>: they do not return when the driver gives up.
\<close>

definition ide_probe_disk1 :: "(int \<Rightarrow> 'd \<Rightarrow> 'd) \<Rightarrow> 'd ports \<Rightarrow> 'd \<Rightarrow> (bool \<times> 'd) res" where
  "ide_probe_disk1 cprintf P d =
     bnd (ret (ide_wait_ready P False d)) (\<lambda>(_, d1).
       let (x, d2) = ide_probe_loop P 0 (out_byte P 0x1F6 0xF0 d1);
           d3 = out_byte P 0x1F6 0xE0 d2
       in Inr (x < 1000, cprintf (of_bool (x < 1000)) d3))"

definition ide_set_disk :: "int \<Rightarrow> int res" where
  "ide_set_disk d = (if d \<noteq> 0 \<and> d \<noteq> 1 then Inl Hang else Inr d)"

text \<open>The six register writes that start a transfer; \<open>diskno\<close> is the static variable of that name.\<close>

definition ide_command :: "'d ports \<Rightarrow> int \<Rightarrow> u32 \<Rightarrow> u32 \<Rightarrow> byte \<Rightarrow> 'd \<Rightarrow> 'd" where
  "ide_command P diskno secno nsecs cmd d =
     (let d1 = out_byte P 0x1F2 (ucast nsecs) d;
          d2 = out_byte P 0x1F3 (ucast (secno AND 0xFF)) d1;
          d3 = out_byte P 0x1F4 (ucast (drop_bit 8 secno AND 0xFF)) d2;
          d4 = out_byte P 0x1F5 (ucast (drop_bit 16 secno AND 0xFF)) d3;
          d5 = out_byte P 0x1F6 (0xE0 OR push_bit 4 (of_int diskno AND 1) OR ucast (drop_bit 24 secno AND 0xF)) d4
      in out_byte P 0x1F7 cmd d5)"

fun ide_read_loop :: "'d ports \<Rightarrow> addr \<Rightarrow> nat \<Rightarrow> mem \<Rightarrow> 'd \<Rightarrow> (int \<times> mem \<times> 'd) res" where
  "ide_read_loop P dst 0 m d = Inr (0, m, d)"
| "ide_read_loop P dst (Suc n) m d =
     bnd (ret (ide_wait_ready P True d)) (\<lambda>(r, d1).
       if r < 0 then Inr (r, m, d1)
       else let (m2, d2) = insl P 0x1F0 dst 128 (m, d1) in ide_read_loop P (dst + 512) n m2 d2)"

definition ide_read :: "'d ports \<Rightarrow> int \<Rightarrow> u32 \<Rightarrow> addr \<Rightarrow> u32 \<Rightarrow> mem \<Rightarrow> 'd \<Rightarrow> (int \<times> mem \<times> 'd) res" where
  "ide_read P diskno secno dst nsecs m d =
     (if nsecs \<le> 256
      then bnd (ret (ide_wait_ready P False d)) (\<lambda>(_, d1).
             ide_read_loop P dst (unat nsecs) m (ide_command P diskno secno nsecs 0x20 d1))
      else Inl Hang)"

fun ide_write_loop :: "'d ports \<Rightarrow> addr \<Rightarrow> nat \<Rightarrow> mem \<Rightarrow> 'd \<Rightarrow> (int \<times> 'd) res" where
  "ide_write_loop P src 0 m d = Inr (0, d)"
| "ide_write_loop P src (Suc n) m d =
     bnd (ret (ide_wait_ready P True d)) (\<lambda>(r, d1).
       if r < 0 then Inr (r, d1) else ide_write_loop P (src + 512) n m (outsl P 0x1F0 src 128 m d1))"

definition ide_write :: "'d ports \<Rightarrow> int \<Rightarrow> u32 \<Rightarrow> addr \<Rightarrow> u32 \<Rightarrow> mem \<Rightarrow> 'd \<Rightarrow> (int \<times> 'd) res" where
  "ide_write P diskno secno src nsecs m d =
     (if nsecs \<le> 256
      then bnd (ret (ide_wait_ready P False d)) (\<lambda>(_, d1).
             ide_write_loop P src (unat nsecs) m (ide_command P diskno secno nsecs 0x30 d1))
      else Inl Hang)"

section \<open>The bytes in the registers\<close>

lemma unat_ucast_byte: "unat (ucast (w AND 0xFF) :: byte) = unat (w :: u32) mod 256"
proof -
  have "w AND 0xFF = take_bit 8 w" by (simp add: take_bit_eq_mask mask_eq_exp_minus_1)
  then show ?thesis by (simp add: unsigned_ucast_eq unsigned_take_bit_eq) (simp add: take_bit_eq_mod)
qed

lemma unat_drop: "unat (drop_bit k (w :: u32)) = unat w div 2 ^ k"
  by (subst unat_drop_bit_eq) (rule drop_bit_eq_div)

lemma sector_bytes:
  assumes "unat (secno :: u32) < 2 ^ 28"
  shows "unat (ucast (secno AND 0xFF) :: byte) + 2 ^ 8 * unat (ucast (drop_bit 8 secno AND 0xFF) :: byte) +
    2 ^ 16 * unat (ucast (drop_bit 16 secno AND 0xFF) :: byte) + 2 ^ 24 * (unat secno div 2 ^ 24) = unat secno"
proof -
  have "int (unat secno mod 256 + 2 ^ 8 * (unat secno div 2 ^ 8 mod 256) + 2 ^ 16 * (unat secno div 2 ^ 16 mod 256) + 2 ^ 24 * (unat secno div 2 ^ 24)) =
      int (unat secno)"
    using base_256 [of "int (unat secno)"] by (simp add: zdiv_int zmod_int)
  then show ?thesis by (simp only: unat_ucast_byte unat_drop of_nat_eq_iff)
qed

lemma head_bits:
  assumes "diskno \<in> {0, 1 :: int}" and "unat (secno :: u32) < 2 ^ 28" and h: "h = (0xE0 OR push_bit 4 (of_int diskno AND 1) OR ucast (drop_bit 24 secno AND 0xF) :: byte)"
  shows "unat (h AND 0xF) = unat secno div 2 ^ 24" and "h AND 0xE0 = 0xE0" and "bit h 4 \<longleftrightarrow> diskno = 1"
proof -
  define x :: byte where "x = ucast (drop_bit 24 secno AND 0xF)"
  have l: "unat secno div 2 ^ 24 < 16" using assms(2) by (simp add: div_less_iff_less_mult)
  have "drop_bit 24 secno AND 0xF = take_bit 4 (drop_bit 24 secno)" by (simp add: take_bit_eq_mask mask_eq_exp_minus_1)
  then have u: "unat (drop_bit 24 secno AND 0xF) = unat secno div 2 ^ 24"
    using l by (simp add: unsigned_take_bit_eq unat_drop take_bit_nat_eq_self del: drop_bit_numeral_minus_bit1)
  then have x: "unat x = unat secno div 2 ^ 24" using l unfolding x_def by (simp add: unsigned_ucast_eq take_bit_nat_eq_self)
  have "take_bit 4 x = x" using x l by (subst word_unat_eq_iff) (simp add: unsigned_take_bit_eq take_bit_nat_eq_self)
  then have x16: "x AND 0xF = x" by (simp add: take_bit_eq_mask mask_eq_exp_minus_1)
  have z: "x AND 0xE0 = 0" "\<not> bit x 4"
  proof -
    have "x AND 0xE0 = (x AND 0xF) AND 0xE0" by (simp add: x16)
    then show "x AND 0xE0 = 0" by (simp add: and.assoc)
    have "bit x 4 = bit (x AND 0xF) 4" by (simp add: x16)
    then show "\<not> bit x 4" by (simp add: bit_simps)
  qed
  have h': "h = (if diskno = 1 then 0xF0 OR x else 0xE0 OR x)" using assms(1) unfolding h x_def [symmetric] by (auto simp: or.assoc [symmetric])
  show "unat (h AND 0xF) = unat secno div 2 ^ 24" unfolding h' using x x16 by (simp add: bit.conj_disj_distrib2)
  show "h AND 0xE0 = 0xE0" unfolding h' using z by (simp add: bit.conj_disj_distrib2)
  show "bit h 4 \<longleftrightarrow> diskno = 1" unfolding h' using z by (simp add: bit_simps)
qed

lemma count_byte:
  assumes "0 < nsecs" and "nsecs \<le> (256 :: u32)"
  shows "(if ucast nsecs = (0 :: byte) then 256 else unat (ucast nsecs :: byte)) = unat nsecs"
proof -
  have n: "0 < unat nsecs" "unat nsecs \<le> 256" using assms by (simp_all add: word_less_nat_alt word_le_nat_alt)
  have u: "unat (ucast nsecs :: byte) = unat nsecs mod 256" by (simp add: unsigned_ucast_eq take_bit_eq_mod)
  show ?thesis
  proof (cases "unat nsecs = 256")
    case True
    then have "ucast nsecs = (0 :: byte)" using u by (simp add: unat_eq_0)
    then show ?thesis using True by simp
  next
    case False
    then have "unat (ucast nsecs :: byte) = unat nsecs" using u n by simp
    then show ?thesis using n by (auto simp: unat_eq_0)
  qed
qed

lemma store_next_word:
  assumes "k < length ws" and "4 * length ws \<le> 2 ^ 32"
  shows "store32 (write_bytes m dst (bytes_of (take k ws))) (dst + 4 * of_nat k) (ws ! k) = write_bytes m dst (bytes_of (take (Suc k) ws))"
  using write_bytes_append [of "bytes_of (take k ws)" "word_bytes (ws ! k)" m dst] assms
  by (simp add: store32_write_bytes take_Suc_conv_app_nth)

section \<open>The controller\<close>

text \<open>
  A sector is named by its drive and its number. The controller is idle, or it expects word \<open>k\<close> of
  a sector with so many sectors to go, this one included.
\<close>

type_synonym sector = "nat \<times> nat"

datatype ide_phase = IdeIdle | IdeIn sector nat nat | IdeOut sector nat nat

definition next_sector :: "sector \<Rightarrow> sector" where
  "next_sector a = (fst a, Suc (snd a))"

text \<open>The sector and the count that the registers select; a count of zero stands for 256.\<close>

definition ide_target :: "(u16 \<Rightarrow> byte) \<Rightarrow> sector" where
  "ide_target r = (of_bool (bit (r 0x1F6) 4), lba r)"

definition ide_count :: "(u16 \<Rightarrow> byte) \<Rightarrow> nat" where
  "ide_count r = (if r 0x1F2 = 0 then 256 else unat (r 0x1F2))"

text \<open>The bytes of consecutive sectors of a drive.\<close>

definition sectors_bytes :: "(sector \<Rightarrow> u32 list) \<Rightarrow> nat \<Rightarrow> nat \<Rightarrow> nat \<Rightarrow> byte list" where
  "sectors_bytes f dr s n = concat (map (\<lambda>i. bytes_of (f (dr, s + i))) [0..<n])"

lemma sectors_bytes_Suc: "sectors_bytes f dr s (Suc n) = bytes_of (f (dr, s)) @ sectors_bytes f dr (Suc s) n"
  by (simp add: sectors_bytes_def upt_conv_Cons map_Suc_upt [symmetric] comp_def del: upt_Suc)

lemma length_sectors_bytes: "(\<And>a. length (f a) = 128) \<Longrightarrow> length (sectors_bytes f dr s n) = 512 * n"
  by (induction n) (simp_all add: sectors_bytes_def)

lemma next_word_at:
  "k < length ws \<Longrightarrow> (words_at m src k @ drop k ws)[k := load32 m (src + of_nat (4 * k))] = words_at m src (Suc k) @ drop (Suc k) ws"
  by (simp add: list_update_append words_at_def Cons_nth_drop_Suc [symmetric])

text \<open>
  The documented behaviour. Between the words of a sector the controller does not wait. Before the
  data of a sector that cannot be read, and after the data of one that cannot be written, it shows
  an error and the transfer is over.
\<close>

locale ide_bus =
  fixes P :: "'d ports" and sec :: "'d \<Rightarrow> sector \<Rightarrow> u32 list" and phase :: "'d \<Rightarrow> ide_phase"
    and reg :: "'d \<Rightarrow> u16 \<Rightarrow> byte" and busy :: "'d \<Rightarrow> nat" and bad :: "'d \<Rightarrow> bool" and broken :: "sector \<Rightarrow> bool"
  assumes sec_length: "length (sec d a) = 128"
    and status_ready: "busy d = 0 \<Longrightarrow> fst (port_in8 P 0x1F7 d) AND 0xC0 = 0x40 \<and>
      (fst (port_in8 P 0x1F7 d) AND 0x21 \<noteq> 0 \<longleftrightarrow> bad d) \<and> busy (snd (port_in8 P 0x1F7 d)) = 0"
    and status_busy: "0 < busy d \<Longrightarrow> fst (port_in8 P 0x1F7 d) AND 0xC0 \<noteq> 0x40 \<and>
      busy (snd (port_in8 P 0x1F7 d)) < busy d"
    and status_keeps: "sec (snd (port_in8 P 0x1F7 d)) = sec d \<and> phase (snd (port_in8 P 0x1F7 d)) = phase d \<and>
      reg (snd (port_in8 P 0x1F7 d)) = reg d \<and> bad (snd (port_in8 P 0x1F7 d)) = bad d"
    and set_reg: "phase d = IdeIdle \<Longrightarrow> busy d = 0 \<Longrightarrow> p \<in> {0x1F2, 0x1F3, 0x1F4, 0x1F5, 0x1F6} \<Longrightarrow>
      sec (port_out8 P p v d) = sec d \<and> phase (port_out8 P p v d) = IdeIdle \<and>
      reg (port_out8 P p v d) = (reg d)(p := v) \<and> busy (port_out8 P p v d) = 0"
    and start_read: "phase d = IdeIdle \<Longrightarrow> busy d = 0 \<Longrightarrow> reg d 0x1F6 AND 0xE0 = 0xE0 \<Longrightarrow>
      sec (port_out8 P 0x1F7 0x20 d) = sec d \<and>
      bad (port_out8 P 0x1F7 0x20 d) = broken (ide_target (reg d)) \<and>
      (\<not> broken (ide_target (reg d)) \<longrightarrow>
        phase (port_out8 P 0x1F7 0x20 d) = IdeIn (ide_target (reg d)) 0 (ide_count (reg d)))"
    and start_write: "phase d = IdeIdle \<Longrightarrow> busy d = 0 \<Longrightarrow> reg d 0x1F6 AND 0xE0 = 0xE0 \<Longrightarrow>
      sec (port_out8 P 0x1F7 0x30 d) = sec d \<and> \<not> bad (port_out8 P 0x1F7 0x30 d) \<and>
      phase (port_out8 P 0x1F7 0x30 d) = IdeOut (ide_target (reg d)) 0 (ide_count (reg d))"
    and read_word: "phase d = IdeIn a k c \<Longrightarrow> busy d = 0 \<Longrightarrow> \<not> bad d \<Longrightarrow> k < 127 \<Longrightarrow>
      fst (port_in32 P 0x1F0 d) = sec d a ! k \<and> sec (snd (port_in32 P 0x1F0 d)) = sec d \<and>
      phase (snd (port_in32 P 0x1F0 d)) = IdeIn a (Suc k) c \<and> busy (snd (port_in32 P 0x1F0 d)) = 0 \<and>
      \<not> bad (snd (port_in32 P 0x1F0 d))"
    and read_last: "phase d = IdeIn a 127 c \<Longrightarrow> busy d = 0 \<Longrightarrow> \<not> bad d \<Longrightarrow>
      fst (port_in32 P 0x1F0 d) = sec d a ! 127 \<and> sec (snd (port_in32 P 0x1F0 d)) = sec d \<and>
      bad (snd (port_in32 P 0x1F0 d)) = (1 < c \<and> broken (next_sector a)) \<and>
      (c \<le> 1 \<longrightarrow> phase (snd (port_in32 P 0x1F0 d)) = IdeIdle) \<and>
      (1 < c \<and> \<not> broken (next_sector a) \<longrightarrow> phase (snd (port_in32 P 0x1F0 d)) = IdeIn (next_sector a) 0 (c - 1))"
    and write_word: "phase d = IdeOut a k c \<Longrightarrow> busy d = 0 \<Longrightarrow> \<not> bad d \<Longrightarrow> k < 127 \<Longrightarrow>
      sec (port_out32 P 0x1F0 w d) = (sec d)(a := (sec d a)[k := w]) \<and>
      phase (port_out32 P 0x1F0 w d) = IdeOut a (Suc k) c \<and> busy (port_out32 P 0x1F0 w d) = 0 \<and>
      \<not> bad (port_out32 P 0x1F0 w d)"
    and write_last: "phase d = IdeOut a 127 c \<Longrightarrow> busy d = 0 \<Longrightarrow> \<not> bad d \<Longrightarrow>
      (\<forall>b. b \<noteq> a \<longrightarrow> sec (port_out32 P 0x1F0 w d) b = sec d b) \<and>
      bad (port_out32 P 0x1F0 w d) = broken a \<and>
      (\<not> broken a \<longrightarrow> sec (port_out32 P 0x1F0 w d) a = (sec d a)[127 := w] \<and>
        phase (port_out32 P 0x1F0 w d) = (if c \<le> 1 then IdeIdle else IdeOut (next_sector a) 0 (c - 1)))"
begin

lemma wait_returns:
  "\<exists>d'. ide_wait_ready P ce d = Some (if ce \<and> bad d then -1 else 0, d') \<and> busy d' = 0 \<and> sec d' = sec d \<and>
    phase d' = phase d \<and> reg d' = reg d \<and> bad d' = bad d"
proof (induction "busy d" arbitrary: d rule: less_induct)
  case less
  let ?r = "port_in8 P 0x1F7 d"
  have unf: "ide_wait_ready P ce d = (if fst ?r AND 0xC0 \<noteq> 0x40 then ide_wait_ready P ce (snd ?r)
      else Some (if ce \<and> fst ?r AND 0x21 \<noteq> 0 then -1 else 0, snd ?r))"
    by (subst ide_wait_ready.simps) (simp add: Let_def in_byte_def)
  show ?case
  proof (cases "busy d = 0")
    case True
    then show ?thesis using unf status_ready [of d] status_keeps [of d] by auto
  next
    case False
    then have b: "fst ?r AND 0xC0 \<noteq> 0x40" "busy (snd ?r) < busy d" using status_busy [of d] by auto
    from less.hyps [OF b(2)] show ?thesis using unf b(1) status_keeps [of d] by auto
  qed
qed


text \<open>The registers after the six writes select the drive, the sector and the count.\<close>

lemma command_ok:
  assumes "phase d = IdeIdle" and "busy d = 0" and "diskno \<in> {0, 1}" and "unat secno < 2 ^ 28" and "0 < nsecs" "nsecs \<le> 256"
    and a: "a = (nat diskno, unat secno)"
  shows "sec (ide_command P diskno secno nsecs cmd d) = sec d \<or> cmd \<notin> {0x20, 0x30}"
    and "cmd = 0x20 \<Longrightarrow> bad (ide_command P diskno secno nsecs cmd d) = broken a \<and>
      (\<not> broken a \<longrightarrow> phase (ide_command P diskno secno nsecs cmd d) = IdeIn a 0 (unat nsecs))"
    and "cmd = 0x30 \<Longrightarrow> \<not> bad (ide_command P diskno secno nsecs cmd d) \<and>
      phase (ide_command P diskno secno nsecs cmd d) = IdeOut a 0 (unat nsecs)"
proof -
  let ?h = "0xE0 OR push_bit 4 (of_int diskno AND 1) OR ucast (drop_bit 24 secno AND 0xF) :: byte"
  let ?d1 = "port_out8 P 0x1F2 (ucast nsecs) d"
  let ?d2 = "port_out8 P 0x1F3 (ucast (secno AND 0xFF)) ?d1"
  let ?d3 = "port_out8 P 0x1F4 (ucast (drop_bit 8 secno AND 0xFF)) ?d2"
  let ?d4 = "port_out8 P 0x1F5 (ucast (drop_bit 16 secno AND 0xFF)) ?d3"
  let ?d5 = "port_out8 P 0x1F6 ?h ?d4"
  have 1: "sec ?d1 = sec d" "phase ?d1 = IdeIdle" "busy ?d1 = 0" "reg ?d1 = (reg d)(0x1F2 := ucast nsecs)"
    using set_reg [OF assms(1,2)] by auto
  have 2: "sec ?d2 = sec d" "phase ?d2 = IdeIdle" "busy ?d2 = 0" "reg ?d2 = (reg ?d1)(0x1F3 := ucast (secno AND 0xFF))"
    using set_reg [OF 1(2,3)] 1 by auto
  have 3: "sec ?d3 = sec d" "phase ?d3 = IdeIdle" "busy ?d3 = 0" "reg ?d3 = (reg ?d2)(0x1F4 := ucast (drop_bit 8 secno AND 0xFF))"
    using set_reg [OF 2(2,3)] 2 by auto
  have 4: "sec ?d4 = sec d" "phase ?d4 = IdeIdle" "busy ?d4 = 0" "reg ?d4 = (reg ?d3)(0x1F5 := ucast (drop_bit 16 secno AND 0xFF))"
    using set_reg [OF 3(2,3)] 3 by auto
  have 5: "sec ?d5 = sec d" "phase ?d5 = IdeIdle" "busy ?d5 = 0" "reg ?d5 = (reg ?d4)(0x1F6 := ?h)"
    using set_reg [OF 4(2,3)] 4 by auto
  note hb = head_bits [OF assms(3,4) refl]
  have "reg ?d5 0x1F6 = ?h" "reg ?d5 0x1F5 = ucast (drop_bit 16 secno AND 0xFF)" "reg ?d5 0x1F4 = ucast (drop_bit 8 secno AND 0xFF)"
    "reg ?d5 0x1F3 = ucast (secno AND 0xFF)" "reg ?d5 0x1F2 = ucast nsecs"
    unfolding 5(4) 4(4) 3(4) 2(4) 1(4) by simp_all
  note rg = this
  have r: "ide_target (reg ?d5) = a" "ide_count (reg ?d5) = unat nsecs" "reg ?d5 0x1F6 AND 0xE0 = 0xE0"
    unfolding ide_target_def ide_count_def lba_def rg hb(1) sector_bytes [OF assms(4)] a
    using hb(2,3) count_byte [OF assms(5,6)] assms(3) by auto
  have c: "ide_command P diskno secno nsecs cmd d = port_out8 P 0x1F7 cmd ?d5" by (simp add: ide_command_def Let_def out_byte_def)
  show "sec (ide_command P diskno secno nsecs cmd d) = sec d \<or> cmd \<notin> {0x20, 0x30}"
    and "cmd = 0x20 \<Longrightarrow> bad (ide_command P diskno secno nsecs cmd d) = broken a \<and>
      (\<not> broken a \<longrightarrow> phase (ide_command P diskno secno nsecs cmd d) = IdeIn a 0 (unat nsecs))"
    and "cmd = 0x30 \<Longrightarrow> \<not> bad (ide_command P diskno secno nsecs cmd d) \<and>
      phase (ide_command P diskno secno nsecs cmd d) = IdeOut a 0 (unat nsecs)"
    unfolding c using start_read [OF 5(2,3) r(3)] start_write [OF 5(2,3) r(3)] 5(1) r(1,2) by auto
qed

text \<open>One sector in, one sector out.\<close>

lemma insl_words:
  assumes "phase d = IdeIn a 0 c" and "busy d = 0" and "\<not> bad d"
  shows "k \<le> 127 \<Longrightarrow> \<exists>d'. insl P 0x1F0 dst k (m, d) = (write_bytes m dst (bytes_of (take k (sec d a))), d') \<and>
    sec d' = sec d \<and> phase d' = IdeIn a k c \<and> busy d' = 0 \<and> \<not> bad d'"
proof (induction k)
  case 0
  then show ?case using assms by (simp add: insl_def write_bytes_def)
next
  case (Suc k)
  then obtain d' where d': "insl P 0x1F0 dst k (m, d) = (write_bytes m dst (bytes_of (take k (sec d a))), d')"
    "sec d' = sec d" "phase d' = IdeIn a k c" "busy d' = 0" "\<not> bad d'" by auto
  then show ?case using read_word [OF d'(3-5)] Suc.prems sec_length [of d a]
    by (simp add: insl_def in_long_def store_next_word)
qed

lemma insl_sector:
  assumes "phase d = IdeIn a 0 c" and "busy d = 0" and "\<not> bad d"
  obtains d' where "insl P 0x1F0 dst 128 (m, d) = (write_bytes m dst (bytes_of (sec d a)), d')" and "sec d' = sec d"
    and "bad d' = (1 < c \<and> broken (next_sector a))" and "c \<le> 1 \<Longrightarrow> phase d' = IdeIdle"
    and "1 < c \<Longrightarrow> \<not> broken (next_sector a) \<Longrightarrow> phase d' = IdeIn (next_sector a) 0 (c - 1)"
proof -
  obtain d1 where d1: "insl P 0x1F0 dst 127 (m, d) = (write_bytes m dst (bytes_of (take 127 (sec d a))), d1)"
    "sec d1 = sec d" "phase d1 = IdeIn a 127 c" "busy d1 = 0" "\<not> bad d1" using insl_words [OF assms, of 127] by auto
  have "[0..<128] = [0..<127] @ [127 :: nat]" by (simp add: upt_rec)
  then have "insl P 0x1F0 dst 128 (m, d) = (write_bytes m dst (bytes_of (take 128 (sec d a))), snd (port_in32 P 0x1F0 d1))"
    using d1(1) read_last [OF d1(3-5)] d1(2) sec_length [of d a] store_next_word [of 127 "sec d a" m dst]
    by (simp add: insl_def in_long_def del: upt_Suc)
  then show thesis using that read_last [OF d1(3-5)] d1(2) sec_length [of d a] by simp
qed

text \<open>The loop stops before the first sector that cannot be read.\<close>

lemma read_loop_ok:
  assumes "if n = 0 then phase d = IdeIdle else if broken (dr, s) then bad d else \<not> bad d \<and> phase d = IdeIn (dr, s) 0 n"
    and "n \<le> 256"
  shows "\<exists>g d'. g \<le> n \<and> (\<forall>i < g. \<not> broken (dr, s + i)) \<and> (g < n \<longrightarrow> broken (dr, s + g)) \<and>
    ide_read_loop P dst n m d = Inr (if g = n then 0 else -1, write_bytes m dst (sectors_bytes (sec d) dr s g), d') \<and>
    sec d' = sec d \<and> (g = n \<longrightarrow> phase d' = IdeIdle)"
  using assms
proof (induction n arbitrary: s dst m d)
  case 0
  then show ?case by (simp add: sectors_bytes_def write_bytes_def)
next
  case (Suc n)
  obtain d1 where d1: "ide_wait_ready P True d = Some (if bad d then -1 else 0, d1)" "busy d1 = 0" "sec d1 = sec d"
    "phase d1 = phase d" "bad d1 = bad d" using wait_returns [of True d] by auto
  show ?case
  proof (cases "broken (dr, s)")
    case True
    then show ?thesis using d1 Suc.prems by (intro exI [of _ 0]) (simp add: ret_def sectors_bytes_def write_bytes_def)
  next
    case False
    then have p: "\<not> bad d" "phase d1 = IdeIn (dr, s) 0 (Suc n)" "\<not> bad d1" using Suc.prems(1) d1 by simp_all
    obtain d2 where d2: "insl P 0x1F0 dst 128 (m, d1) = (write_bytes m dst (bytes_of (sec d (dr, s))), d2)" "sec d2 = sec d"
      "bad d2 = (0 < n \<and> broken (dr, Suc s))" "n = 0 \<Longrightarrow> phase d2 = IdeIdle"
      "0 < n \<Longrightarrow> \<not> broken (dr, Suc s) \<Longrightarrow> phase d2 = IdeIn (dr, Suc s) 0 n"
      by (rule insl_sector [OF p(2) d1(2) p(3), of dst m]) (simp add: d1(3) next_sector_def)
    let ?m = "write_bytes m dst (bytes_of (sec d (dr, s)))"
    have start: "if n = 0 then phase d2 = IdeIdle else if broken (dr, Suc s) then bad d2 else \<not> bad d2 \<and> phase d2 = IdeIn (dr, Suc s) 0 n"
      using d2(3-5) by auto
    obtain g d' where g: "g \<le> n" "\<forall>i < g. \<not> broken (dr, Suc s + i)" "g < n \<longrightarrow> broken (dr, Suc s + g)"
      "ide_read_loop P (dst + 512) n ?m d2 = Inr (if g = n then 0 else -1, write_bytes ?m (dst + 512) (sectors_bytes (sec d) dr (Suc s) g), d')"
      "sec d' = sec d" "g = n \<longrightarrow> phase d' = IdeIdle"
      using Suc.IH [OF start, of "dst + 512" ?m] Suc.prems(2) d2(2) by auto
    have "write_bytes ?m (dst + 512) (sectors_bytes (sec d) dr (Suc s) g) = write_bytes m dst (sectors_bytes (sec d) dr s (Suc g))"
      using write_bytes_append [of "bytes_of (sec d (dr, s))" "sectors_bytes (sec d) dr (Suc s) g" m dst] g(1) Suc.prems(2)
      by (simp add: sectors_bytes_Suc sec_length length_sectors_bytes)
    then have "ide_read_loop P dst (Suc n) m d = Inr (if Suc g = Suc n then 0 else -1, write_bytes m dst (sectors_bytes (sec d) dr s (Suc g)), d')"
      using d1(1) p(1) d2(1) g(4) by (simp add: ret_def)
    moreover have "\<forall>i < Suc g. \<not> broken (dr, s + i)" using g(2) False by (auto simp: less_Suc_eq_0_disj)
    ultimately show ?thesis using g by (intro exI [of _ "Suc g"]) auto
  qed
qed

lemma outsl_words:
  assumes "phase d = IdeOut a 0 c" and "busy d = 0" and "\<not> bad d"
  shows "k \<le> 127 \<Longrightarrow> sec (outsl P 0x1F0 src k m d) = (sec d)(a := words_at m src k @ drop k (sec d a)) \<and>
    phase (outsl P 0x1F0 src k m d) = IdeOut a k c \<and> busy (outsl P 0x1F0 src k m d) = 0 \<and> \<not> bad (outsl P 0x1F0 src k m d)"
proof (induction k)
  case 0
  then show ?case using assms by (simp add: outsl_def words_at_def)
next
  case (Suc k)
  then have IH: "sec (outsl P 0x1F0 src k m d) = (sec d)(a := words_at m src k @ drop k (sec d a))"
    "phase (outsl P 0x1F0 src k m d) = IdeOut a k c" "busy (outsl P 0x1F0 src k m d) = 0" "\<not> bad (outsl P 0x1F0 src k m d)"
    using Suc_leD [OF Suc.prems] by blast+
  then show ?case using write_word [OF IH(2-4)] Suc.prems next_word_at [of k "sec d a" m src] sec_length [of d a]
    by (simp add: outsl_def out_long_def)
qed

lemma outsl_sector:
  assumes "phase d = IdeOut a 0 c" and "busy d = 0" and "\<not> bad d" and d': "d' = outsl P 0x1F0 src 128 m d"
  shows "\<And>b. b \<noteq> a \<Longrightarrow> sec d' b = sec d b" and "bad d' = broken a" and "\<not> broken a \<Longrightarrow> sec d' a = words_at m src 128"
    and "\<not> broken a \<Longrightarrow> phase d' = (if c \<le> 1 then IdeIdle else IdeOut (next_sector a) 0 (c - 1))"
proof -
  let ?d1 = "outsl P 0x1F0 src 127 m d"
  have p: "phase ?d1 = IdeOut a 127 c" "busy ?d1 = 0" "\<not> bad ?d1" "sec ?d1 = (sec d)(a := words_at m src 127 @ drop 127 (sec d a))"
    using outsl_words [OF assms(1-3), of 127] by simp_all
  have "[0..<128] = [0..<127] @ [127 :: nat]" by (simp add: upt_rec)
  then have e: "d' = port_out32 P 0x1F0 (load32 m (src + of_nat (4 * 127))) ?d1" unfolding d' by (simp add: outsl_def out_long_def del: upt_Suc)
  have "(words_at m src 127 @ drop 127 (sec d a))[127 := load32 m (src + of_nat (4 * 127))] = words_at m src 128"
    using next_word_at [of 127 "sec d a" m src] sec_length [of d a] by simp
  then show "\<And>b. b \<noteq> a \<Longrightarrow> sec d' b = sec d b" "bad d' = broken a" "\<not> broken a \<Longrightarrow> sec d' a = words_at m src 128"
    "\<not> broken a \<Longrightarrow> phase d' = (if c \<le> 1 then IdeIdle else IdeOut (next_sector a) 0 (c - 1))"
    unfolding e using write_last [OF p(1-3), of "load32 m (src + of_nat (4 * 127))"] p(4) by auto
qed

text \<open>The driver sees the failure of a sector only when it is about to send the next one.\<close>

lemma write_loop_ok:
  assumes "phase d = IdeOut (dr, s) 0 n" and "\<not> bad d" and "0 < n"
  shows "\<exists>g d'. 0 < g \<and> g \<le> n \<and> (\<forall>i. Suc i < g \<longrightarrow> \<not> broken (dr, s + i)) \<and> (g < n \<longrightarrow> broken (dr, s + g - 1)) \<and>
    ide_write_loop P src n m d = Inr (if g = n then 0 else -1, d') \<and>
    (\<forall>i < g. \<not> broken (dr, s + i) \<longrightarrow> sec d' (dr, s + i) = words_at m (src + of_nat (512 * i)) 128) \<and>
    (\<forall>b. b \<notin> {dr} \<times> {s..<s + g} \<longrightarrow> sec d' b = sec d b) \<and>
    (g = n \<and> \<not> broken (dr, s + n - 1) \<longrightarrow> phase d' = IdeIdle)"
  using assms
proof (induction n arbitrary: s src d)
  case (Suc n)
  obtain d1 where d1: "ide_wait_ready P True d = Some (0, d1)" "busy d1 = 0" "sec d1 = sec d"
    "phase d1 = IdeOut (dr, s) 0 (Suc n)" "\<not> bad d1" using wait_returns [of True d] Suc.prems(1,2) by auto
  let ?d2 = "outsl P 0x1F0 src 128 m d1"
  note d2 = outsl_sector [OF d1(4,2,5) refl, where src = src and m = m]
  have run: "ide_write_loop P src (Suc n) m d = ide_write_loop P (src + 512) n m ?d2" using d1(1) by (simp add: ret_def)
  show ?case
  proof (cases "n = 0 \<or> broken (dr, s)")
    case True
    obtain d3 where d3: "ide_wait_ready P True ?d2 = Some (if bad ?d2 then -1 else 0, d3)" "sec d3 = sec ?d2"
      using wait_returns [of True ?d2] by auto
    have "ide_write_loop P (src + 512) n m ?d2 = Inr (if n = 0 then 0 else -1, if n = 0 then ?d2 else d3)"
      using True d2(2) d3(1) by (cases n) (auto simp: ret_def)
    then show ?thesis unfolding run using True d2 d3(2) d1(3)
      by (intro exI [of _ "Suc 0"] exI [of _ "if n = 0 then ?d2 else d3"]) auto
  next
    case False
    then have p: "phase ?d2 = IdeOut (dr, Suc s) 0 n" "\<not> bad ?d2" "0 < n" using d2(2,4) by (auto simp: next_sector_def)
    obtain g d' where g: "0 < g" "g \<le> n" "\<forall>i. Suc i < g \<longrightarrow> \<not> broken (dr, Suc s + i)" "g < n \<longrightarrow> broken (dr, Suc s + g - 1)"
      "ide_write_loop P (src + 512) n m ?d2 = Inr (if g = n then 0 else -1, d')"
      "\<forall>i < g. \<not> broken (dr, Suc s + i) \<longrightarrow> sec d' (dr, Suc s + i) = words_at m (src + 512 + of_nat (512 * i)) 128"
      "\<forall>b. b \<notin> {dr} \<times> {Suc s..<Suc s + g} \<longrightarrow> sec d' b = sec ?d2 b" "g = n \<and> \<not> broken (dr, Suc s + n - 1) \<longrightarrow> phase d' = IdeIdle"
      using Suc.IH [OF p, of "src + 512"] by blast
    show ?thesis
    proof (intro exI [of _ "Suc g"] exI [of _ d'] conjI allI impI)
      show "ide_write_loop P src (Suc n) m d = Inr (if Suc g = Suc n then 0 else -1, d')" unfolding run using g(5) by simp
      show "\<not> broken (dr, s + i)" if "Suc i < Suc g" for i using that g(3) False by (cases i) auto
      show "sec d' (dr, s + i) = words_at m (src + of_nat (512 * i)) 128" if "i < Suc g" "\<not> broken (dr, s + i)" for i
        using that g(6,7) d2(3) False by (cases i) (auto simp: algebra_simps)
      show "sec d' b = sec d b" if "b \<notin> {dr} \<times> {s..<s + Suc g}" for b
        using that g(7) d2(1) [of b] d1(3) by (cases b) auto
    qed (use g in auto)
  qed
qed simp

end

section \<open>A controller\<close>

text \<open>A concrete controller, busy for three status reads, on whose second drive sector 7 is broken.\<close>

record ide_dev =
  ide_data :: "sector \<Rightarrow> nat \<Rightarrow> u32"
  ide_regs :: "u16 \<Rightarrow> byte"
  ide_ph :: ide_phase
  ide_busy :: nat
  ide_bad :: bool

definition ide_broken :: "sector \<Rightarrow> bool" where
  "ide_broken a \<longleftrightarrow> a = (1, 7)"

definition ide_sec :: "ide_dev \<Rightarrow> sector \<Rightarrow> u32 list" where
  "ide_sec d a = map (ide_data d a) [0..<128]"

definition ide_ports :: "ide_dev ports" where
  "ide_ports = \<lparr>
     port_in8 = (\<lambda>p d. if ide_busy d = 0 then (if ide_bad d then 0x41 else 0x40, d) else (0x80, d\<lparr>ide_busy := ide_busy d - 1\<rparr>)),
     port_in32 = (\<lambda>p d. case ide_ph d of
         IdeIn a k c \<Rightarrow> (ide_data d a k,
           if k < 127 then d\<lparr>ide_ph := IdeIn a (Suc k) c\<rparr>
           else if c \<le> 1 then d\<lparr>ide_ph := IdeIdle\<rparr>
           else d\<lparr>ide_ph := IdeIn (next_sector a) 0 (c - 1), ide_bad := ide_broken (next_sector a), ide_busy := 3\<rparr>)
       | _ \<Rightarrow> (0, d)),
     port_out8 = (\<lambda>p v d.
       if p = 0x1F7 then
         (let a = ide_target (ide_regs d); c = ide_count (ide_regs d)
          in if v = 0x20 then d\<lparr>ide_ph := IdeIn a 0 c, ide_bad := ide_broken a, ide_busy := 3\<rparr>
             else d\<lparr>ide_ph := IdeOut a 0 c, ide_bad := False, ide_busy := 3\<rparr>)
       else d\<lparr>ide_regs := (ide_regs d)(p := v)\<rparr>),
     port_out32 = (\<lambda>p v d. case ide_ph d of
         IdeOut a k c \<Rightarrow> d\<lparr>ide_data := (ide_data d)(a := (ide_data d a)(k := v)),
           ide_ph := (if k < 127 then IdeOut a (Suc k) c else if c \<le> 1 then IdeIdle else IdeOut (next_sector a) 0 (c - 1)),
           ide_bad := (k = 127 \<and> ide_broken a), ide_busy := (if k = 127 then 3 else 0)\<rparr>
       | _ \<Rightarrow> d)\<rparr>"

definition ide_zero :: ide_dev where
  "ide_zero = \<lparr>ide_data = (\<lambda>_ _. 0), ide_regs = (\<lambda>_. 0), ide_ph = IdeIdle, ide_busy = 0, ide_bad = False\<rparr>"

lemma ide_sec_update: "k < 128 \<Longrightarrow> map ((ide_data d a)(k := w)) [0..<128] = (map (ide_data d a) [0..<128])[k := w]"
  by (rule nth_equalityI) (simp_all add: nth_list_update)

lemma ide_ports_simps:
  "port_in8 ide_ports p d = (if ide_busy d = 0 then (if ide_bad d then 0x41 else 0x40, d) else (0x80, d\<lparr>ide_busy := ide_busy d - 1\<rparr>))"
  "p \<noteq> 0x1F7 \<Longrightarrow> port_out8 ide_ports p v d = d\<lparr>ide_regs := (ide_regs d)(p := v)\<rparr>"
  "port_out8 ide_ports 0x1F7 0x20 d = d\<lparr>ide_ph := IdeIn (ide_target (ide_regs d)) 0 (ide_count (ide_regs d)),
    ide_bad := ide_broken (ide_target (ide_regs d)), ide_busy := 3\<rparr>"
  "port_out8 ide_ports 0x1F7 0x30 d = d\<lparr>ide_ph := IdeOut (ide_target (ide_regs d)) 0 (ide_count (ide_regs d)),
    ide_bad := False, ide_busy := 3\<rparr>"
  by (simp_all add: ide_ports_def Let_def)

lemma ide_ports_data:
  "ide_ph d = IdeIn a k c \<Longrightarrow> port_in32 ide_ports p d = (ide_data d a k,
    if k < 127 then d\<lparr>ide_ph := IdeIn a (Suc k) c\<rparr>
    else if c \<le> 1 then d\<lparr>ide_ph := IdeIdle\<rparr>
    else d\<lparr>ide_ph := IdeIn (next_sector a) 0 (c - 1), ide_bad := ide_broken (next_sector a), ide_busy := 3\<rparr>)"
  "ide_ph d = IdeOut a k c \<Longrightarrow> port_out32 ide_ports p v d = d\<lparr>ide_data := (ide_data d)(a := (ide_data d a)(k := v)),
    ide_ph := (if k < 127 then IdeOut a (Suc k) c else if c \<le> 1 then IdeIdle else IdeOut (next_sector a) 0 (c - 1)),
    ide_bad := (k = 127 \<and> ide_broken a), ide_busy := (if k = 127 then 3 else 0)\<rparr>"
  by (simp_all add: ide_ports_def)

lemma ide_sec_simps:
  "k < 128 \<Longrightarrow> ide_sec d a ! k = ide_data d a k" "length (ide_sec d a) = 128"
  "ide_sec (d\<lparr>ide_busy := b\<rparr>) = ide_sec d" "ide_sec (d\<lparr>ide_regs := r\<rparr>) = ide_sec d" "ide_sec (d\<lparr>ide_ph := ph\<rparr>) = ide_sec d"
  "ide_sec (d\<lparr>ide_bad := e\<rparr>) = ide_sec d"
  "k < 128 \<Longrightarrow> ide_sec (d\<lparr>ide_data := (ide_data d)(a := (ide_data d a)(k := w))\<rparr>) = (ide_sec d)(a := (ide_sec d a)[k := w])"
  by (simp_all add: ide_sec_def fun_eq_iff ide_sec_update)

interpretation ide: ide_bus ide_ports ide_sec ide_ph ide_regs ide_busy ide_bad ide_broken
proof unfold_locales
  fix d :: ide_dev and a c and w :: u32
  assume "ide_ph d = IdeOut a 127 c" "ide_busy d = 0" "\<not> ide_bad d"
  then show "(\<forall>b. b \<noteq> a \<longrightarrow> ide_sec (port_out32 ide_ports 0x1F0 w d) b = ide_sec d b) \<and>
      ide_bad (port_out32 ide_ports 0x1F0 w d) = ide_broken a \<and>
      (\<not> ide_broken a \<longrightarrow> ide_sec (port_out32 ide_ports 0x1F0 w d) a = (ide_sec d a)[127 := w] \<and>
        ide_ph (port_out32 ide_ports 0x1F0 w d) = (if c \<le> 1 then IdeIdle else IdeOut (next_sector a) 0 (c - 1)))"
    by (simp add: ide_ports_data ide_sec_simps)
qed (auto simp: ide_ports_simps ide_ports_data ide_sec_simps simp del: fun_upd_apply)

section \<open>Properties\<close>

text \<open>The second drive is found if one of its first thousand status bytes shows neither busy nor an error.\<close>

lemma ide_probe_loop_found:
  "fst (ide_probe_loop P x d) < 1000 \<longleftrightarrow>
    (\<exists>k. x + k < 1000 \<and> fst (port_in8 P 0x1F7 (((\<lambda>d. snd (port_in8 P 0x1F7 d)) ^^ k) d)) AND 0xA1 = 0)"
proof (induction P x d rule: ide_probe_loop.induct)
  case (1 P x d)
  let ?r = "port_in8 P 0x1F7 d"
  have shift: "(\<exists>k. x + k < 1000 \<and> Q k) \<longleftrightarrow> (x < 1000 \<and> Q 0) \<or> (\<exists>k. x + 1 + k < 1000 \<and> Q (Suc k))" for Q
  proof
    assume "\<exists>k. x + k < 1000 \<and> Q k"
    then obtain k where "x + k < 1000" "Q k" by blast
    then show "(x < 1000 \<and> Q 0) \<or> (\<exists>k. x + 1 + k < 1000 \<and> Q (Suc k))" by (cases k) auto
  next
    assume "(x < 1000 \<and> Q 0) \<or> (\<exists>k. x + 1 + k < 1000 \<and> Q (Suc k))"
    then show "\<exists>k. x + k < 1000 \<and> Q k"
    proof
      assume "\<exists>k. x + 1 + k < 1000 \<and> Q (Suc k)"
      then obtain k where "x + Suc k < 1000 \<and> Q (Suc k)" by auto
      then show ?thesis ..
    qed (auto intro: exI [of _ 0])
  qed
  show ?case
  proof (cases "x < 1000 \<and> fst ?r AND 0xA1 \<noteq> 0")
    case True
    then show ?thesis using 1 [OF _ refl] by (subst ide_probe_loop.simps, subst shift) (simp add: in_byte_def funpow_Suc_right Let_def del: funpow.simps(2))
  next
    case False
    then show ?thesis by (subst ide_probe_loop.simps, subst shift) (auto simp: in_byte_def Let_def)
  qed
qed

text \<open>
  C37: \<open>ide_read\<close> brings in exactly the sectors before the first one that cannot be read, from the
  chosen drive, and nothing else; it returns 0 if that is all of them and -1 otherwise, for up to
  256 sectors and any conforming controller.
\<close>

theorem ide_read_prefix:
  assumes "ide_bus P sec phase reg busy bad broken" and "phase d = IdeIdle" and "diskno \<in> {0, 1}"
    and "0 < nsecs" and "nsecs \<le> 256" and "unat secno + unat nsecs \<le> 2 ^ 28"
  shows "\<exists>g d'. g \<le> unat nsecs \<and> (\<forall>i < g. \<not> broken (nat diskno, unat secno + i)) \<and>
    (g < unat nsecs \<longrightarrow> broken (nat diskno, unat secno + g)) \<and>
    ide_read P diskno secno dst nsecs m d =
      Inr (if g = unat nsecs then 0 else -1, write_bytes m dst (sectors_bytes (sec d) (nat diskno) (unat secno) g), d') \<and>
    sec d' = sec d \<and> (g = unat nsecs \<longrightarrow> phase d' = IdeIdle)"
proof -
  have n: "unat nsecs \<le> 256" "unat nsecs \<noteq> 0" "unat secno < 2 ^ 28" using assms(4-6) by (auto simp: word_le_nat_alt word_less_nat_alt)
  obtain d1 where d1: "ide_wait_ready P False d = Some (0, d1)" "busy d1 = 0" "sec d1 = sec d" "phase d1 = IdeIdle"
    using ide_bus.wait_returns [OF assms(1), of False d] assms(2) by auto
  let ?d2 = "ide_command P diskno secno nsecs 0x20 d1"
  note c = ide_bus.command_ok [OF assms(1) d1(4,2) assms(3) n(3) assms(4,5) refl, of "0x20"]
  have "if unat nsecs = 0 then phase ?d2 = IdeIdle else if broken (nat diskno, unat secno) then bad ?d2
      else \<not> bad ?d2 \<and> phase ?d2 = IdeIn (nat diskno, unat secno) 0 (unat nsecs)"
    using c(2) n(2) by auto
  from ide_bus.read_loop_ok [OF assms(1) this n(1), of dst m] show ?thesis
    using c(1) d1(1,3) assms(5) by (auto simp: ide_read_def ret_def)
qed

theorem ide_read_prefix_witness:
  "\<exists>d'. ide_read ide_ports 1 5 0xC0100000 4 (\<lambda>_. 9) ide_zero =
     Inr (-1, write_bytes (\<lambda>_. 9) 0xC0100000 (sectors_bytes (ide_sec ide_zero) 1 5 2), d')"
proof -
  obtain g d' where g: "g \<le> 4" "\<forall>i < g. \<not> ide_broken (1, 5 + i)" "g < 4 \<longrightarrow> ide_broken (1, 5 + g)"
    "ide_read ide_ports 1 5 0xC0100000 4 (\<lambda>_. 9) ide_zero =
      Inr (if g = 4 then 0 else -1, write_bytes (\<lambda>_. 9) 0xC0100000 (sectors_bytes (ide_sec ide_zero) 1 5 g), d')"
    using ide_read_prefix [OF ide.ide_bus_axioms, of ide_zero 1 4 5 "0xC0100000" "\<lambda>_. 9"] by (auto simp: ide_zero_def)
  have "g \<noteq> 4" using g(2) by (auto simp: ide_broken_def dest: spec [of _ 2])
  then have "g = 2" using g(1,3) by (auto simp: ide_broken_def)
  then show ?thesis using g(4) by simp
qed

text \<open>
  C39: \<open>ide_write\<close> learns of a sector that could not be written only before it sends the next
  one: it returns -1 if and only if a sector before the last is broken, and then has sent the data up to the
  first broken one; a failure of the last sector goes unnoticed. Every unbroken sector that was sent holds its
  512 bytes, and no other sector changes.
\<close>

theorem ide_write_unchecked_last:
  assumes "ide_bus P sec phase reg busy bad broken" and "phase d = IdeIdle" and "diskno \<in> {0, 1}"
    and "0 < nsecs" and "nsecs \<le> 256" and "unat secno + unat nsecs \<le> 2 ^ 28"
  shows "\<exists>g d'. 0 < g \<and> g \<le> unat nsecs \<and> (\<forall>i. Suc i < g \<longrightarrow> \<not> broken (nat diskno, unat secno + i)) \<and>
    (g < unat nsecs \<longrightarrow> broken (nat diskno, unat secno + g - 1)) \<and>
    ide_write P diskno secno src nsecs m d = Inr (if g = unat nsecs then 0 else -1, d') \<and>
    (\<forall>i < g. \<not> broken (nat diskno, unat secno + i) \<longrightarrow>
      bytes_of (sec d' (nat diskno, unat secno + i)) = read_bytes m (src + of_nat (512 * i)) 512) \<and>
    (\<forall>b. b \<notin> {nat diskno} \<times> {unat secno..<unat secno + g} \<longrightarrow> sec d' b = sec d b)"
proof -
  have n: "0 < unat nsecs" "unat secno < 2 ^ 28" using assms(4-6) by (auto simp: word_le_nat_alt word_less_nat_alt)
  obtain d1 where d1: "ide_wait_ready P False d = Some (0, d1)" "busy d1 = 0" "sec d1 = sec d" "phase d1 = IdeIdle"
    using ide_bus.wait_returns [OF assms(1), of False d] assms(2) by auto
  note c = ide_bus.command_ok [OF assms(1) d1(4,2) assms(3) n(2) assms(4,5) refl, of "0x30"]
  have p: "phase (ide_command P diskno secno nsecs 0x30 d1) = IdeOut (nat diskno, unat secno) 0 (unat nsecs)"
    "\<not> bad (ide_command P diskno secno nsecs 0x30 d1)" using c(3) by simp_all
  have w: "bytes_of (words_at m a 128) = read_bytes m a 512" for a using bytes_of_words_at [of 128 m a] by simp
  from ide_bus.write_loop_ok [OF assms(1) p n(1), of src m] obtain g d' where
    g: "0 < g" "g \<le> unat nsecs" "\<forall>i. Suc i < g \<longrightarrow> \<not> broken (nat diskno, unat secno + i)"
      "g < unat nsecs \<longrightarrow> broken (nat diskno, unat secno + g - 1)"
      "ide_write_loop P src (unat nsecs) m (ide_command P diskno secno nsecs 0x30 d1) = Inr (if g = unat nsecs then 0 else -1, d')"
      "\<forall>i < g. \<not> broken (nat diskno, unat secno + i) \<longrightarrow> sec d' (nat diskno, unat secno + i) = words_at m (src + of_nat (512 * i)) 128"
      "\<forall>b. b \<notin> {nat diskno} \<times> {unat secno..<unat secno + g} \<longrightarrow> sec d' b = sec d b"
    using c(1) d1(3) by auto
  have "ide_write P diskno secno src nsecs m d = Inr (if g = unat nsecs then 0 else -1, d')"
    using g(5) d1(1) assms(5) by (simp add: ide_write_def ret_def)
  then show ?thesis using g(1-4,6,7) w by (intro exI [of _ g] exI [of _ d']) simp
qed

theorem ide_write_unchecked_last_witness:
  "ide_broken (1, 7) \<and> (\<exists>d'. ide_write ide_ports 1 6 0xC0100000 2 (\<lambda>x. ucast x) ide_zero = Inr (0, d'))"
proof -
  obtain g d' where g: "0 < g" "g \<le> 2" "g < 2 \<longrightarrow> ide_broken (1, 6 + g - 1)"
    "ide_write ide_ports 1 6 0xC0100000 2 (\<lambda>x. ucast x) ide_zero = Inr (if g = 2 then 0 else -1, d')"
    using ide_write_unchecked_last [OF ide.ide_bus_axioms, of ide_zero 1 2 6 "0xC0100000" "\<lambda>x. ucast x"] by (auto simp: ide_zero_def)
  have "g = 2" using g(1-3) by (cases "g = 2") (auto simp: ide_broken_def)
  then show ?thesis using g(4) by (simp add: ide_broken_def)
qed

end
