(* ===== verification/Spec2Isabelle.thy ===== *)
theory Spec2Isabelle
  imports Paging_Init Producer_Consumer Disk_Image Kernel_Invariant Boot Kernel_Main Game_Rules Game_Console Ide
begin

text \<open>
  A verification of the NJU OS lab kernel: a 32-bit protected-mode kernel with paging,
  processes and threads, semaphores, a small file system on an ATA disk, the tools that
  build its disk image, its boot loader, and the game that runs on it as user program.

  \<^bold>\<open>How the program is put together.\<close> \<open>boot/main.c\<close> is loaded by the BIOS; it reads the kernel from the
  disk image and jumps to \<open>init\<close> in \<open>kernel/main.c\<close>. This enables paging, sets up descriptor tables, devices, the
  process table and the file table, makes itself the idle process, and calls \<open>loader\<close>
  (\<open>kernel/src/elf/elf.c\<close>), which loads the game from the disk image into the first user
  address space. Everything after that happens in interrupts: \<open>irq_handle\<close> dispatches the timer, the
  keyboard and the system call \<open>int $0x80\<close>. The game and the test program with a producer and a consumer
  call the kernel through \<open>game/src/lib/syscall.c\<close>. The disk image is made on the host by
  \<open>formatter.c\<close> and \<open>copy2myfs.c\<close>, and read back by \<open>read_myfs.c\<close>.

  \<^bold>\<open>How it is modelled.\<close> Memory is a function from 32-bit addresses to bytes; words are 32-bit with
  wrap-around; a C \<open>int\<close> is an integer that \<open>i32\<close> reduces after arithmetic. What C leaves undefined or what
  would crash the kernel is a value of the type of faults (null pointer, index out of bounds,
  uninitialised variable, endless loop), so every operation has the type \<open>'a res\<close>, and a
  loop that may not end is a \<open>partial_function (option)\<close> whose value \<open>None\<close> means that it does not
  return. The state of the kernel grows by record extension in the order of the components: \<open>pm\<close> (page allocator
  and memory), \<open>kst\<close> (process table, current process, processor registers), \<open>fsst\<close> (files
  and devices), \<open>sysst\<close> (keyboard). A component only mentions the part it knows. Hardware and code outside the repository
  are parameters: the ports of the devices (\<open>'d ports\<close>) with the documented behaviour of the
  controllers as locales (\<open>ata\<close>, \<open>ide_bus\<close>, \<open>uart\<close>, \<open>board\<close>), addresses chosen by the
  compiler or the linker, and for the game the kernel behind \<open>int $0x80\<close>.

  \<^bold>\<open>Theories and sources.\<close>
  \<^item> \<open>Kernel_Prelude\<close>: words, memory, faults, loops over indices; shared lemmas.
  \<^item> \<open>Lib_String\<close> (\<open>lib/string.c\<close>), \<open>Lib_Printfmt\<close> (\<open>lib/printfmt.c\<close>): the routines that kernel and game share.
  \<^item> \<open>Mmu\<close> (\<open>kernel/inc/mmu.h\<close>, \<open>memlayout.h\<close>, the segments of \<open>kvm.c\<close>, \<open>idt.c\<close>): address macros, page walk of the processor, descriptors.
  \<^item> \<open>Pmap\<close> (\<open>memory/pmap.c\<close>): page allocator, \<open>pgdir_walk\<close>, \<open>mm_malloc\<close>, \<open>page_lookup\<close>, \<open>page_remove\<close>;
    \<open>Address_Space\<close>: \<open>copy\<close>, \<open>thread_copy\<close>, \<open>release\<close>; \<open>Paging_Init\<close> (\<open>kvm.c\<close>, \<open>mm.c\<close>, \<open>vmem.c\<close>): the initial tables.
  \<^item> \<open>Process\<close> (\<open>process/pcb.c\<close> and the timer branch of \<open>irq_handle.c\<close>): table, scheduler, sleeping; \<open>Fork\<close>: \<open>process_fork\<close>,
    \<open>create_thread\<close>, \<open>process_exit\<close>.
  \<^item> \<open>Semaphore\<close> (\<open>semaphore/semaphore.c\<close>), \<open>Producer_Consumer\<close> (\<open>game/producer_consumer\<close>).
  \<^item> \<open>Disk\<close> (the driver at the end of \<open>elf/elf.c\<close>), \<open>Disk_Segments\<close> (byte ranges of the disk),
    \<open>Ide\<close> (the second driver, \<open>ide/ide.c\<close>), \<open>File_System\<close> (\<open>file_system/fs.c\<close>), \<open>Disk_Image\<close> (\<open>formatter.c\<close>, \<open>copy2myfs.c\<close>, \<open>read_myfs.c\<close>).
  \<^item> \<open>Devices\<close> (\<open>printk.c\<close>, \<open>serial.c\<close>, \<open>timer.c\<close>, \<open>i8259.c\<close>), \<open>Keyboard\<close> (\<open>keyboard.c\<close>).
  \<^item> \<open>Syscall\<close> (\<open>syscall.c\<close>, \<open>irq_handle.c\<close>), \<open>Kernel_Invariant\<close>: runs of the kernel.
  \<^item> \<open>Boot\<close> (\<open>boot/main.c\<close>), \<open>Elf_Loader\<close> (\<open>loader\<close> of \<open>elf/elf.c\<close>, \<open>inc/elf.h\<close>), \<open>User_View\<close> and \<open>Loaded_Image\<close> (what a program
    sees, and what the loader builds), \<open>Kernel_Main\<close> (\<open>kernel/main.c\<close>).
  \<^item> \<open>Game_Lib\<close> (\<open>game/src/lib\<close>), \<open>Game\<close> (\<open>game/main.c\<close>, \<open>game.c\<close>, \<open>effect.c\<close>, \<open>draw.c\<close>), \<open>Random_Period\<close> (the random numbers),
    \<open>Game_Rules\<close> (the board), \<open>Game_Console\<close> (\<open>printf\<close> down to the serial line).

  \<^bold>\<open>Interfaces.\<close> The clients of a component are verified against locales that the component's theory
  interprets: the page allocator (\<open>page_pool\<close>), round-robin scheduling (in \<open>Process\<close>), the waiters of a
  semaphore, the sector loop (\<open>sector_loop\<close>, which the kernel's driver and the boot loader instantiate as
  sublocales of the controller), character sinks of the formatted output (\<open>char_sink\<close>: the string buffer and the serial
  line), and the system calls of the game (\<open>console_calls\<close>, interpreted on \<open>irq_handle\<close>).

  \<^bold>\<open>What is shown.\<close>
  \<^item> Start: the boot loader loads the kernel (C12); \<open>init\<close> never faults and reaches a well-formed state with
    the game ready to run (C2); the loader gives the game exactly its segments and a zeroed stack (C3); the page tables of
    the kernel and of the first address space (C28, C29).
  \<^item> Memory: \<open>pgdir_walk\<close> refines an operation on a map of page-table slots (C11), \<open>mm_malloc\<close> maps and keeps what
    was mapped (C13), user pages are exclusive (C14), \<open>copy\<close> and \<open>release\<close> are inverse on the free pages
    (C20), and threads share all but the stack (C21).
  \<^item> Processes: \<open>fork\<close> (C1), \<open>exit\<close> (C15), round robin (C4) and its liveness (C8), the invariant of the table under
    every interrupt and system call (C7).
  \<^item> Semaphores: at most as many processes as permits (C5); producer and consumer under every interleaving (C6).
  \<^item> Files: write then read (C9), sectors (C16), the disk image tools (C10, C30), the \<open>write\<close> call (C19);
    the second driver up to the first broken sector (C37, C39).
  \<^item> Input and output: formatted output stays in its buffer (C17) and prints the digits (C31), the console (\<open>Devices.printk_transmits\<close>),
    the keyboard (C18, C32), strings (C38, C40).
  \<^item> The game: the computer's move ends if and only if a cell is free (C23), when the game hangs (C24) and when it
    never does (C25), drawing (C26), \<open>printf\<close> (C27).
  \<^item> Defects that the code has are theorems as well: C22, C24, C27, C33 to C36, C39, and in the same way
    lemmas that the manifest's findings name.

  \<^bold>\<open>Bounds and fuel.\<close> The scheduler's loop has 101 steps, because a hundred visit every entry; running
  out of them is the fault \<open>Hang\<close>, so it stands for the endless loop of the code. All other loops are structural or
  partial functions, whose termination is proved where the code's loop ends: the pages of a segment by the
  pages left, the sectors of a range by the sectors left, the wait for the disk by the controller's busy count, the
  computer's move by the period of the random numbers, which is full.

  \<^bold>\<open>Not modelled.\<close> The messages that the kernel prints besides the system call that prints (they go through \<open>printk\<close>, which is
  modelled), the assembly stubs (\<open>start.S\<close>, \<open>entry.S\<close>, \<open>do_irq.S\<close>: the model starts from the registers they
  save), the Perl scripts, \<open>test.c\<close>, the unused
  \<open>serial.c\<close> and \<open>time.c\<close> of the game, and the copies of \<open>mmu.h\<close> and \<open>x86.h\<close> whose macros no modelled code uses. Caches and the
  timing of devices are not modelled: a busy device is one that a finite number of status reads finds busy.
\<close>

end
